(* ===== verification/Prelude.thy ===== *)
theory Prelude
  imports Main "HOL-Library.Word"
begin

text \<open>
  Shared material of the development: the fact collections the proofs use, the error
  numbers of \<open>errno.h\<close> the code names, and the generic lemmas on lists that are
  updated at one index (the thread list of a process, the counts and sums over it).
\<close>

section \<open>Collections\<close>

named_theorems pc_simps \<open>code tables and annotations of the components, for case analysis\<close>

section \<open>Error numbers\<close>

text \<open>The numbers are those of \<^verbatim>\<open>asm-generic/errno.h\<close>; the proofs use only that they are
  positive and different.\<close>

abbreviation EBUSY :: int where "EBUSY \<equiv> 16"
abbreviation EINVAL :: int where "EINVAL \<equiv> 22"
abbreviation ENOMEM :: int where "ENOMEM \<equiv> 12"
abbreviation ETIMEDOUT :: int where "ETIMEDOUT \<equiv> 110"

section \<open>Lists updated at one index\<close>

lemma list_all_update:
  "list_all P xs \<Longrightarrow> P y \<Longrightarrow> list_all P (xs[i := y])"
  by (auto simp: list_all_iff dest: set_update_subset_insert [THEN subsetD])

lemma list_all_update_mono:
  assumes "list_all P xs" and "Q y" and "\<And>x. P x \<Longrightarrow> Q x"
  shows "list_all Q (xs[i := y])"
  using assms by (auto simp: list_all_iff dest: set_update_subset_insert [THEN subsetD])

lemma list_all_nth: "list_all P xs \<Longrightarrow> i < length xs \<Longrightarrow> P (xs ! i)"
  by (simp add: list_all_iff)

lemma list_all_update_others:
  assumes "i < length xs" and "Q y" and "\<And>j. j < length xs \<Longrightarrow> j \<noteq> i \<Longrightarrow> Q (xs ! j)"
  shows "list_all Q (xs[i := y])"
  unfolding list_all_length
proof (intro allI impI)
  fix n assume "n < length (xs[i := y])"
  then have "n < length xs" by simp
  with assms show "Q (xs[i := y] ! n)" by (cases "n = i") simp_all
qed

lemma nth_update_if: "xs[i := x] ! j = (if i = j \<and> i < length xs then x else xs ! j)"
  by (cases "i < length xs") (auto simp: nth_list_update list_update_beyond)

definition tally :: "('a \<Rightarrow> int) \<Rightarrow> 'a list \<Rightarrow> int" where
  "tally w xs = sum_list (map w xs)"

lemma tally_Nil [simp]: "tally w [] = 0"
  by (simp add: tally_def)

lemma tally_Cons [simp]: "tally w (x # xs) = w x + tally w xs"
  by (simp add: tally_def)

lemma tally_append [simp]: "tally w (xs @ ys) = tally w xs + tally w ys"
  by (simp add: tally_def)

lemma tally_update:
  "i < length xs \<Longrightarrow> tally w (xs[i := y]) = tally w xs - w (xs ! i) + w y"
proof (induction xs arbitrary: i)
  case Nil
  then show ?case by simp
next
  case (Cons x xs)
  then show ?case by (cases i) simp_all
qed

lemma tally_nonneg: "(\<And>x. x \<in> set xs \<Longrightarrow> 0 \<le> w x) \<Longrightarrow> 0 \<le> tally w xs"
  by (induction xs) auto

lemma tally_ge_elem:
  "(\<And>x. x \<in> set xs \<Longrightarrow> 0 \<le> w x) \<Longrightarrow> i < length xs \<Longrightarrow> w (xs ! i) \<le> tally w xs"
proof (induction xs arbitrary: i)
  case Nil
  then show ?case by simp
next
  case (Cons x xs)
  have nn: "0 \<le> tally w xs" using Cons.prems(1) by (intro tally_nonneg) simp
  show ?case
  proof (cases i)
    case 0
    then show ?thesis using nn by simp
  next
    case (Suc j)
    have "w (xs ! j) \<le> tally w xs" using Cons Suc by simp
    then show ?thesis using Suc Cons.prems(1) [of x] by simp
  qed
qed

lemma tally_le_zero:
  assumes "\<And>x. x \<in> set xs \<Longrightarrow> 0 \<le> w x" and "tally w xs \<le> 0" and "i < length xs"
  shows "w (xs ! i) = 0"
proof -
  have "w (xs ! i) \<le> tally w xs" by (rule tally_ge_elem) (use assms in auto)
  moreover have "0 \<le> w (xs ! i)" using assms(1,3) by simp
  ultimately show ?thesis using assms(2) by simp
qed

lemma tally_zero [simp]: "tally (\<lambda>_. 0) xs = 0"
  by (induction xs) auto

lemma tally_le_length:
  "(\<And>x. x \<in> set xs \<Longrightarrow> w x \<le> 1) \<Longrightarrow> tally w xs \<le> int (length xs)"
  by (induction xs) fastforce+

lemma tally_cong: "(\<And>x. x \<in> set xs \<Longrightarrow> v x = w x) \<Longrightarrow> tally v xs = tally w xs"
  by (induction xs) auto

lemma tally_replicate [simp]: "tally w (replicate n x) = int n * w x"
  by (induction n) (auto simp: algebra_simps)

lemma tally_all: "list_all P xs \<Longrightarrow> tally (\<lambda>x. of_bool (P x)) xs = int (length xs)"
  by (induction xs) auto

text \<open>The sum of indicators is the length only when every element is counted.\<close>

lemma tally_full_all:
  assumes "\<And>x. x \<in> set xs \<Longrightarrow> w x \<le> 1" and "int (length xs) \<le> tally w xs" and "i < length xs"
  shows "w (xs ! i) = 1"
  using assms
proof (induction xs arbitrary: i)
  case Nil
  then show ?case by simp
next
  case (Cons x xs)
  have "tally w xs \<le> int (length xs)" using Cons.prems(1) by (intro tally_le_length) simp
  moreover have "w x \<le> 1" using Cons.prems(1) by simp
  ultimately have x: "w x = 1" and tl: "int (length xs) \<le> tally w xs"
    using Cons.prems(2) by simp_all
  show ?case
  proof (cases i)
    case 0
    then show ?thesis using x by simp
  next
    case (Suc j)
    then show ?thesis using Cons.IH [of j] Cons.prems tl by simp
  qed
qed

lemma tally_eq_sum: "tally w xs = (\<Sum>k<length xs. w (xs ! k))"
  by (simp add: tally_def interv_sum_list_conv_sum_set_nat [symmetric] atLeast0LessThan
      sum_list_sum_nth)

lemma tally_ge_two:
  assumes nn: "\<And>x. x \<in> set xs \<Longrightarrow> 0 \<le> w x" and "i < length xs" and "j < length xs" and "i \<noteq> j"
  shows "w (xs ! i) + w (xs ! j) \<le> tally w xs"
proof -
  let ?R = "{..<length xs} - {i} - {j}"
  have "tally w xs = w (xs ! i) + (w (xs ! j) + (\<Sum>k\<in>?R. w (xs ! k)))"
    using assms(2-) by (simp add: tally_eq_sum sum.remove [of _ i] sum.remove [of _ j])
  moreover have "0 \<le> (\<Sum>k\<in>?R. w (xs ! k))"
    using nn by (intro sum_nonneg) auto
  ultimately show ?thesis by simp
qed

lemma tally_full_others:
  assumes ub: "\<And>x. x \<in> set xs \<Longrightarrow> w x \<le> 1" and tot: "int (length xs) - 1 \<le> tally w xs"
    and i: "i < length xs" and zero: "w (xs ! i) \<le> 0"
    and j: "j < length xs" "j \<noteq> i"
  shows "w (xs ! j) = 1"
proof -
  let ?R = "{..<length xs} - {i} - {j}"
  have "tally w xs = w (xs ! i) + (w (xs ! j) + (\<Sum>k\<in>?R. w (xs ! k)))"
    using i j by (simp add: tally_eq_sum sum.remove [of _ i] sum.remove [of _ j])
  moreover have "(\<Sum>k\<in>?R. w (xs ! k)) \<le> (\<Sum>k\<in>?R. 1)"
    using ub by (intro sum_mono) auto
  moreover have "(\<Sum>k\<in>?R. (1::int)) = int (length xs) - 2"
    using i j by (simp add: card_Diff_subset)
  moreover have "w (xs ! j) \<le> 1" using ub j by simp
  ultimately show ?thesis using tot zero by linarith
qed

end
