(* ===== verification/Machine.thy ===== *)
theory Machine
  imports Prelude
begin

text \<open>
  The POSIX threads a program of the repository runs on. A thread is a program point (of a
  type of its own for every function) in a code table: \<open>code p\<close> is the next library call
  the thread issues at \<open>p\<close> together with its continuation, the C code that runs after the
  call returned, up to the next call. A process (\<open>sys\<close>) is its shared memory, the list of
  its threads, the states of its mutexes and condition variables and the wall clock. One
  event is one call of one thread, or something the environment does: a spurious wakeup,
  a timeout, a cancellation, a tick of the clock. Status values the calls may return are
  chosen by the environment, within what the POSIX specification of the call allows.
  Behaviour POSIX leaves undefined ends the run with \<open>Undefined\<close>.
\<close>

section \<open>Calls, actions, processes\<close>

type_synonym tid = nat

datatype outcome = Aborted | Exited int | Undefined

text \<open>
  \<open>Tau\<close> is code that issues no call; \<open>Env g\<close> is a call whose result is an input of the
  model (any value that satisfies the guard \<open>g\<close>, which states the documented behaviour of
  the call); \<open>Clock\<close> is \<^verbatim>\<open>time(NULL)\<close>; \<open>Create store q\<close> starts a thread at the point
  \<open>q\<close> and stores its identifier with \<open>store\<close>.
\<close>

datatype ('m, 'c, 's, 'p) call =
    Tau
  | Lock 'm | Trylock 'm | Unlock 'm
  | Wait 'c 'm | Timedwait 'c 'm int
  | Signal 'c | Broadcast 'c
  | MInit 'm | MDestroy 'm | CInit 'c | CDestroy 'c
  | Create "tid \<Rightarrow> 's \<Rightarrow> 's" 'p | Join tid
  | Env "int \<Rightarrow> 's \<Rightarrow> bool" | Clock

datatype ('m, 'c, 's, 'p) act =
    Do "('m, 'c, 's, 'p) call" "int \<Rightarrow> 's \<Rightarrow> 's \<times> 'p"
  | Return int
  | Halt outcome

text \<open>
  What a thread does between the steps of its code: it is ready to issue its next call, it
  sleeps on a condition variable (having released a mutex, perhaps with a deadline), or it
  has been woken with a status and has to take the mutex again.
\<close>

datatype ('m, 'c) tstat =
    Ready
  | Asleep 'c 'm "int option"
  | Woken 'm int

datatype mstat = Raw | Free | Held tid

record ('m, 'c, 's, 'p) sys =
  mem :: 's
  threads :: "('p \<times> ('m, 'c) tstat) list"
  mtx :: "'m \<Rightarrow> mstat"
  cnd :: "'c \<Rightarrow> bool"
  now :: int
  ended :: "outcome option"

text \<open>The status with which a cancelled wait continues, in the thread's cleanup handler.\<close>

abbreviation CANCELED :: int where "CANCELED \<equiv> -1"

datatype event =
    Exec tid int
  | Notify tid tid
  | Spurious tid | Timeout tid | Cancel tid
  | Tick

abbreviation pcs :: "('m, 'c, 's, 'p) sys \<Rightarrow> 'p list" where
  "pcs s \<equiv> map fst (threads s)"

definition boot :: "'s \<Rightarrow> 'p list \<Rightarrow> ('m, 'c, 's, 'p) sys" where
  "boot m ps = \<lparr>mem = m, threads = map (\<lambda>p. (p, Ready)) ps, mtx = (\<lambda>_. Free),
     cnd = (\<lambda>_. True), now = 0, ended = None\<rparr>"

section \<open>The effect of one call\<close>

definition set_mtx :: "'m \<Rightarrow> mstat \<Rightarrow> ('m, 'c, 's, 'p) sys \<Rightarrow> ('m, 'c, 's, 'p) sys" where
  "set_mtx x v s = s\<lparr>mtx := (mtx s)(x := v)\<rparr>"

definition halt :: "outcome \<Rightarrow> ('m, 'c, 's, 'p) sys \<Rightarrow> ('m, 'c, 's, 'p) sys" where
  "halt r s = s\<lparr>ended := Some r\<rparr>"

definition put_thread ::
  "tid \<Rightarrow> 'p \<times> ('m, 'c) tstat \<Rightarrow> ('m, 'c, 's, 'p) sys \<Rightarrow> ('m, 'c, 's, 'p) sys" where
  "put_thread t x s = s\<lparr>threads := (threads s)[t := x]\<rparr>"

definition proceed ::
  "tid \<Rightarrow> (int \<Rightarrow> 's \<Rightarrow> 's \<times> 'p) \<Rightarrow> int \<Rightarrow> ('m, 'c, 's, 'p) sys \<Rightarrow> ('m, 'c, 's, 'p) sys" where
  "proceed t k r s = (case k r (mem s) of (m, p) \<Rightarrow> put_thread t (p, Ready) (s\<lparr>mem := m\<rparr>))"

fun on_cond :: "'c \<Rightarrow> 'p \<times> ('m, 'c) tstat \<Rightarrow> bool" where
  "on_cond c (p, Asleep c' x d) \<longleftrightarrow> c' = c"
| "on_cond c (p, _) \<longleftrightarrow> False"

fun rouse :: "int \<Rightarrow> 'p \<times> ('m, 'c) tstat \<Rightarrow> 'p \<times> ('m, 'c) tstat" where
  "rouse r (p, Asleep c x d) = (p, Woken x r)"
| "rouse r (p, st) = (p, st)"

definition rouse_all :: "'c \<Rightarrow> ('p \<times> ('m, 'c) tstat) list \<Rightarrow> ('p \<times> ('m, 'c) tstat) list" where
  "rouse_all c ts = map (\<lambda>x. if on_cond c x then rouse 0 x else x) ts"

definition finished :: "('p \<Rightarrow> ('m, 'c, 's, 'p) act) \<Rightarrow> tid \<Rightarrow> ('m, 'c, 's, 'p) sys \<Rightarrow> bool" where
  "finished code u s \<longleftrightarrow> u < length (threads s) \<and>
     (case code (fst (threads s ! u)) of Return _ \<Rightarrow> True | _ \<Rightarrow> False)"

text \<open>
  \<open>perform code c k p t r s\<close>: thread \<open>t\<close>, at the point \<open>p\<close>, issues the call \<open>c\<close> and the
  call returns \<open>r\<close>; \<open>None\<close> when the call cannot return this value now (a mutex that is
  held blocks, whoever holds it: the default mutexes of the program are not recursive).
  A positive \<open>r\<close> is an error, which leaves the object as it was. Unlocking a mutex the
  thread owns does not fail.
\<close>

fun perform :: "('p \<Rightarrow> ('m, 'c, 's, 'p) act) \<Rightarrow> ('m, 'c, 's, 'p) call \<Rightarrow>
    (int \<Rightarrow> 's \<Rightarrow> 's \<times> 'p) \<Rightarrow> 'p \<Rightarrow> tid \<Rightarrow> int \<Rightarrow> ('m, 'c, 's, 'p) sys \<Rightarrow>
    ('m, 'c, 's, 'p) sys option" where
  "perform code Tau k p t r s = (if r = 0 then Some (proceed t k 0 s) else None)"
| "perform code (Lock x) k p t r s =
     (if r > 0 then Some (proceed t k r s)
      else if r < 0 then None
      else case mtx s x of
        Raw \<Rightarrow> Some (halt Undefined s)
      | Free \<Rightarrow> Some (proceed t k 0 (set_mtx x (Held t) s))
      | Held _ \<Rightarrow> None)"
| "perform code (Trylock x) k p t r s =
     (if r < 0 then None
      else case mtx s x of
        Raw \<Rightarrow> Some (halt Undefined s)
      | Free \<Rightarrow> (if r = 0 then Some (proceed t k 0 (set_mtx x (Held t) s))
                else if r = EBUSY then None else Some (proceed t k r s))
      | Held _ \<Rightarrow> (if r = 0 then None else Some (proceed t k r s)))"
| "perform code (Unlock x) k p t r s =
     (if r \<noteq> 0 then None
      else if mtx s x = Held t then Some (proceed t k 0 (set_mtx x Free s))
      else Some (halt Undefined s))"
| "perform code (Wait c x) k p t r s =
     (if r > 0 then Some (proceed t k r s)
      else if r < 0 then None
      else if mtx s x = Held t \<and> cnd s c
      then Some (put_thread t (p, Asleep c x None) (set_mtx x Free s))
      else Some (halt Undefined s))"
| "perform code (Timedwait c x d) k p t r s =
     (if r > 0 then (if r = ETIMEDOUT then None else Some (proceed t k r s))
      else if r < 0 then None
      else if mtx s x = Held t \<and> cnd s c
      then Some (put_thread t (p, Asleep c x (Some d)) (set_mtx x Free s))
      else Some (halt Undefined s))"
| "perform code (Signal c) k p t r s =
     (if r > 0 then Some (proceed t k r s)
      else if r < 0 then None
      else if \<not> cnd s c then Some (halt Undefined s)
      else if list_ex (on_cond c) (threads s) then None
      else Some (proceed t k 0 s))"
| "perform code (Broadcast c) k p t r s =
     (if r > 0 then Some (proceed t k r s)
      else if r < 0 then None
      else if \<not> cnd s c then Some (halt Undefined s)
      else Some (proceed t k 0 (s\<lparr>threads := rouse_all c (threads s)\<rparr>)))"
| "perform code (MInit x) k p t r s =
     (if r > 0 then Some (proceed t k r s)
      else if r < 0 then None
      else if mtx s x = Raw then Some (proceed t k 0 (set_mtx x Free s))
      else Some (halt Undefined s))"
| "perform code (MDestroy x) k p t r s =
     (if r > 0 then Some (proceed t k r s)
      else if r < 0 then None
      else if mtx s x = Free then Some (proceed t k 0 (set_mtx x Raw s))
      else Some (halt Undefined s))"
| "perform code (CInit c) k p t r s =
     (if r > 0 then Some (proceed t k r s)
      else if r < 0 then None
      else if \<not> cnd s c then Some (proceed t k 0 (s\<lparr>cnd := (cnd s)(c := True)\<rparr>))
      else Some (halt Undefined s))"
| "perform code (CDestroy c) k p t r s =
     (if r > 0 then Some (proceed t k r s)
      else if r < 0 then None
      else if cnd s c \<and> \<not> list_ex (on_cond c) (threads s)
      then Some (proceed t k 0 (s\<lparr>cnd := (cnd s)(c := False)\<rparr>))
      else Some (halt Undefined s))"
| "perform code (Create store q) k p t r s =
     (if r > 0 then Some (proceed t k r s)
      else if r < 0 then None
      else (let s' = proceed t k 0 (s\<lparr>mem := store (length (threads s)) (mem s)\<rparr>)
            in Some (s'\<lparr>threads := threads s' @ [(q, Ready)]\<rparr>)))"
| "perform code (Join u) k p t r s =
     (if r > 0 then Some (proceed t k r s)
      else if r = 0 \<and> finished code u s then Some (proceed t k 0 s) else None)"
| "perform code (Env g) k p t r s = (if g r (mem s) then Some (proceed t k r s) else None)"
| "perform code Clock k p t r s = (if r = now s then Some (proceed t k r s) else None)"

section \<open>One event\<close>

text \<open>
  \<open>allow p r\<close> says which status values the environment may return to a thread at the point
  \<open>p\<close>: everything (\<open>any_status\<close>), or what the theorem at hand assumes of it.
\<close>

type_synonym ('p) policy = "'p \<Rightarrow> int \<Rightarrow> bool"

definition any_status :: "'p policy" where
  "any_status p r = True"

text \<open>What a woken thread may be told: a timeout only once its deadline has passed.\<close>

fun wake_ok :: "('m, 'c, 's, 'p) call \<Rightarrow> 'm \<Rightarrow> int \<Rightarrow> int \<Rightarrow> bool" where
  "wake_ok (Wait c x) y r n \<longleftrightarrow> x = y \<and> (r = 0 \<or> r = CANCELED)"
| "wake_ok (Timedwait c x d) y r n \<longleftrightarrow>
     x = y \<and> (r = 0 \<or> r = CANCELED \<or> r = ETIMEDOUT \<and> d \<le> n)"
| "wake_ok _ y r n \<longleftrightarrow> False"

definition exec_thread ::
  "'p policy \<Rightarrow> ('p \<Rightarrow> ('m, 'c, 's, 'p) act) \<Rightarrow> tid \<Rightarrow> int \<Rightarrow> ('m, 'c, 's, 'p) sys \<Rightarrow>
   ('m, 'c, 's, 'p) sys option" where
  "exec_thread allow code t r s =
     (case threads s ! t of
        (p, Ready) \<Rightarrow>
          (case code p of
             Do c k \<Rightarrow> (if allow p r then perform code c k p t r s else None)
           | Return _ \<Rightarrow> None
           | Halt res \<Rightarrow> Some (halt res s))
      | (p, Woken x w) \<Rightarrow>
          (case code p of
             Do c k \<Rightarrow>
               (if r = w \<and> allow p r \<and> wake_ok c x r (now s) \<and> mtx s x = Free
                then Some (proceed t k r (set_mtx x (Held t) s)) else None)
           | _ \<Rightarrow> None)
      | (p, Asleep c x d) \<Rightarrow> None)"

definition notify_thread ::
  "'p policy \<Rightarrow> ('p \<Rightarrow> ('m, 'c, 's, 'p) act) \<Rightarrow> tid \<Rightarrow> tid \<Rightarrow> ('m, 'c, 's, 'p) sys \<Rightarrow>
   ('m, 'c, 's, 'p) sys option" where
  "notify_thread allow code t u s =
     (case threads s ! t of
        (p, Ready) \<Rightarrow>
          (case code p of
             Do (Signal c) k \<Rightarrow>
               (if allow p 0 \<and> cnd s c \<and> u < length (threads s) \<and> on_cond c (threads s ! u)
                then Some (proceed t k 0 (put_thread u (rouse 0 (threads s ! u)) s)) else None)
           | _ \<Rightarrow> None)
      | _ \<Rightarrow> None)"

definition wake_thread ::
  "int \<Rightarrow> ('p \<Rightarrow> int option \<Rightarrow> bool) \<Rightarrow> tid \<Rightarrow> ('m, 'c, 's, 'p) sys \<Rightarrow> ('m, 'c, 's, 'p) sys option" where
  "wake_thread r ok u s =
     (case threads s ! u of
        (p, Asleep c x d) \<Rightarrow>
          (if ok p d then Some (put_thread u (p, Woken x r) s) else None)
      | _ \<Rightarrow> None)"

fun step :: "'p policy \<Rightarrow> ('p \<Rightarrow> ('m, 'c, 's, 'p) act) \<Rightarrow> event \<Rightarrow> ('m, 'c, 's, 'p) sys \<Rightarrow>
    ('m, 'c, 's, 'p) sys option" where
  "step allow code (Exec t r) s =
     (if ended s = None \<and> t < length (threads s) then exec_thread allow code t r s else None)"
| "step allow code (Notify t u) s =
     (if ended s = None \<and> t < length (threads s) then notify_thread allow code t u s else None)"
| "step allow code (Spurious u) s =
     (if ended s = None \<and> u < length (threads s) then wake_thread 0 (\<lambda>_ _. True) u s else None)"
| "step allow code (Timeout u) s =
     (if ended s = None \<and> u < length (threads s)
      then wake_thread ETIMEDOUT
        (\<lambda>p d. allow p ETIMEDOUT \<and> (case d of None \<Rightarrow> False | Some e \<Rightarrow> e \<le> now s)) u s
      else None)"
| "step allow code (Cancel u) s =
     (if ended s = None \<and> u < length (threads s)
      then wake_thread CANCELED (\<lambda>p _. allow p CANCELED) u s else None)"
| "step allow code Tick s = (if ended s = None then Some (s\<lparr>now := now s + 1\<rparr>) else None)"

fun run :: "'p policy \<Rightarrow> ('p \<Rightarrow> ('m, 'c, 's, 'p) act) \<Rightarrow> event list \<Rightarrow> ('m, 'c, 's, 'p) sys \<Rightarrow>
    ('m, 'c, 's, 'p) sys option" where
  "run allow code [] s = Some s"
| "run allow code (e # es) s =
     (case step allow code e s of None \<Rightarrow> None | Some s' \<Rightarrow> run allow code es s')"

inductive reach :: "'p policy \<Rightarrow> ('p \<Rightarrow> ('m, 'c, 's, 'p) act) \<Rightarrow>
    ('m, 'c, 's, 'p) sys \<Rightarrow> ('m, 'c, 's, 'p) sys \<Rightarrow> bool"
  for allow code s0 where
  reach_start: "reach allow code s0 s0"
| reach_step: "reach allow code s0 s \<Longrightarrow> step allow code e s = Some s' \<Longrightarrow> reach allow code s0 s'"

end
