(* ===== verification/Invariants.thy ===== *)
theory Invariants
  imports Machine
begin

text \<open>
  How facts about all runs of a process are proved: the effect of an event on the shared
  memory and the program points (\<open>step_moves\<close>), the induction rule for invariants of memory
  and program points that rests on it (\<open>reach_invariant\<close>), what an event does to the wait states
  of the threads and to the objects (\<open>step_effect\<close>), and how a process can end
  (\<open>ended_cases\<close>, \<open>undefined_cases\<close>).
\<close>

section \<open>What an event does to memory and program points\<close>

fun answer_ok :: "('m, 'c, 's, 'p) call \<Rightarrow> int \<Rightarrow> 's \<Rightarrow> int \<Rightarrow> bool" where
  "answer_ok Tau r m n \<longleftrightarrow> r = 0"
| "answer_ok (Unlock x) r m n \<longleftrightarrow> r = 0"
| "answer_ok (Wait c x) r m n \<longleftrightarrow> 0 \<le> r \<or> r = CANCELED"
| "answer_ok (Timedwait c x d) r m n \<longleftrightarrow> (0 \<le> r \<or> r = CANCELED) \<and> (r = ETIMEDOUT \<longrightarrow> d \<le> n)"
| "answer_ok (Env g) r m n \<longleftrightarrow> g r m"
| "answer_ok Clock r m n \<longleftrightarrow> r = n"
| "answer_ok _ r m n \<longleftrightarrow> 0 \<le> r"

fun entry_mem :: "('m, 'c, 's, 'p) call \<Rightarrow> int \<Rightarrow> nat \<Rightarrow> 's \<Rightarrow> 's" where
  "entry_mem (Create store q) r n m = (if r = 0 then store n m else m)"
| "entry_mem _ r n m = m"

fun spawned :: "('m, 'c, 's, 'p) call \<Rightarrow> int \<Rightarrow> 'p list" where
  "spawned (Create store q) r = (if r = 0 then [q] else [])"
| "spawned _ r = []"

fun cond_after :: "('m, 'c, 's, 'p) call \<Rightarrow> int \<Rightarrow> ('c \<Rightarrow> bool) \<Rightarrow> 'c \<Rightarrow> bool" where
  "cond_after (CInit d) r C = (if r = 0 then C(d := True) else C)"
| "cond_after (CDestroy d) r C = (if r = 0 then C(d := False) else C)"
| "cond_after _ r C = C"

lemma entry_mem_plain: "spawned c 0 = [] \<Longrightarrow> entry_mem c r l m = m"
  by (cases c) auto

text \<open>
  \<open>moves\<close> is one transition of one thread as the code sees it: the point it leaves, the
  answer it gets, the memory and the point it continues with.
\<close>

definition moves :: "'p policy \<Rightarrow> ('p \<Rightarrow> ('m, 'c, 's, 'p) act) \<Rightarrow> int \<Rightarrow> 's \<Rightarrow> 'p list \<Rightarrow>
    's \<Rightarrow> 'p list \<Rightarrow> bool" where
  "moves allow code n m ps m' ps' \<longleftrightarrow>
     (\<exists>t c k r p'. t < length ps \<and> code (ps ! t) = Do c k \<and> allow (ps ! t) r \<and>
        answer_ok c r m n \<and> k r (entry_mem c r (length ps) m) = (m', p') \<and>
        ps' = (ps[t := p']) @ spawned c r)"

lemma thread_exhaust:
  obtains p where "x = (p, Ready)" | p d m l where "x = (p, Asleep d m l)" | p m w where "x = (p, Woken m w)"
  by (cases x; cases "snd x") auto

lemma fst_rouse [simp]: "fst (rouse r x) = fst x"
  by (cases "(r, x)" rule: rouse.cases) auto

lemma map_fst_rouse_all [simp]: "map fst (rouse_all c ts) = map fst ts"
  by (simp add: rouse_all_def)

lemma length_rouse_all [simp]: "length (rouse_all c ts) = length ts"
  by (simp add: rouse_all_def)

lemma proceed_eq:
  "k r (mem s) = (m, p) \<Longrightarrow> proceed t k r s = s\<lparr>mem := m, threads := (threads s)[t := (p, Ready)]\<rparr>"
  by (simp add: proceed_def put_thread_def)

lemma map_fst_update_same:
  "fst x = fst (ts ! u) \<Longrightarrow> map fst (ts[u := x]) = map fst ts"
  by (cases "u < length ts") (auto simp: map_update list_update_beyond intro: list_update_same_conv [THEN iffD2])

lemma map_fst_rouse_update: "map fst (ts[u := rouse r (ts ! u)]) = map fst ts"
  by (rule map_fst_update_same) simp

lemmas effect_defs = put_thread_def set_mtx_def halt_def

text \<open>A call that returned: the same four facts for every constructor of \<open>call\<close>.\<close>

definition returned :: "('p \<Rightarrow> ('m, 'c, 's, 'p) act) \<Rightarrow> ('m, 'c, 's, 'p) call \<Rightarrow>
    (int \<Rightarrow> 's \<Rightarrow> 's \<times> 'p) \<Rightarrow> tid \<Rightarrow> int \<Rightarrow> ('m, 'c, 's, 'p) sys \<Rightarrow> ('m, 'c, 's, 'p) sys \<Rightarrow> bool" where
  "returned code c k t r s s' \<longleftrightarrow>
     answer_ok c r (mem s) (now s) \<and> now s' = now s \<and>
     (\<exists>p'. k r (entry_mem c r (length (threads s)) (mem s)) = (mem s', p') \<and>
        pcs s' = ((pcs s)[t := p']) @ spawned c r)"

definition unmoved :: "('m, 'c, 's, 'p) sys \<Rightarrow> ('m, 'c, 's, 'p) sys \<Rightarrow> bool" where
  "unmoved s s' \<longleftrightarrow> mem s' = mem s \<and> pcs s' = pcs s \<and> (now s' = now s \<or> now s' = now s + 1)"

lemma unmoved_halt: "unmoved s (halt res s)"
  by (simp add: unmoved_def halt_def)

lemma returnedI:
  assumes "answer_ok c r (mem s) (now s)" and "entry_mem c r (length (threads s)) (mem s) = mem s"
    and "spawned c r = []" and "mem s0 = mem s" and "pcs s0 = pcs s" and "now s0 = now s"
  shows "returned code c k t r s (proceed t k r s0)"
proof -
  obtain m p where k: "k r (mem s) = (m, p)" by (cases "k r (mem s)")
  then have k0: "k r (mem s0) = (m, p)" using assms(4) by simp
  show ?thesis using assms k
    by (simp add: returned_def proceed_eq [of k r s0 m p, OF k0] map_update)
qed

lemma perform_cases:
  assumes "perform code c k p t r s = Some s'" and "fst (threads s ! t) = p"
  shows "returned code c k t r s s' \<or> unmoved s s'"
proof (cases c)
  case Tau
  with assms show ?thesis by (auto intro!: disjI1 returnedI split: if_splits)
next
  case (Lock x)
  with assms show ?thesis
    by (auto intro!: returnedI unmoved_halt simp: set_mtx_def split: if_splits mstat.splits)
next
  case (Trylock x)
  with assms show ?thesis
    by (auto intro!: returnedI unmoved_halt simp: set_mtx_def split: if_splits mstat.splits)
next
  case (Unlock x)
  with assms show ?thesis
    by (auto intro!: returnedI unmoved_halt simp: set_mtx_def split: if_splits)
next
  case (Wait d x)
  with assms show ?thesis
    by (auto intro!: returnedI unmoved_halt split: if_splits)
       (auto simp: unmoved_def effect_defs map_fst_update_same split: if_splits)
next
  case (Timedwait d x e)
  with assms show ?thesis
    by (auto intro!: returnedI unmoved_halt split: if_splits)
       (auto simp: unmoved_def effect_defs map_fst_update_same split: if_splits)
next
  case (Signal d)
  with assms show ?thesis by (auto intro!: returnedI unmoved_halt split: if_splits)
next
  case (Broadcast d)
  with assms show ?thesis by (auto intro!: returnedI unmoved_halt split: if_splits)
next
  case (MInit x)
  with assms show ?thesis by (auto intro!: returnedI unmoved_halt simp: set_mtx_def split: if_splits)
next
  case (MDestroy x)
  with assms show ?thesis by (auto intro!: returnedI unmoved_halt simp: set_mtx_def split: if_splits)
next
  case (CInit x)
  with assms show ?thesis by (auto intro!: returnedI unmoved_halt split: if_splits)
next
  case (CDestroy x)
  with assms show ?thesis by (auto intro!: returnedI unmoved_halt split: if_splits)
next
  case (Create store q)
  show ?thesis
  proof (cases "r = 0")
    case True
    obtain m p' where k: "k 0 (store (length (threads s)) (mem s)) = (m, p')"
      by (cases "k 0 (store (length (threads s)) (mem s))")
    with assms Create True show ?thesis
      by (auto simp: returned_def proceed_def put_thread_def Let_def map_update)
  next
    case False
    with assms Create show ?thesis by (auto intro!: returnedI split: if_splits)
  qed
next
  case (Join u)
  with assms show ?thesis by (auto intro!: returnedI split: if_splits)
next
  case (Env g)
  with assms show ?thesis by (auto intro!: returnedI split: if_splits)
next
  case Clock
  with assms show ?thesis by (auto intro!: returnedI split: if_splits)
qed

lemma returned_moves:
  assumes "returned code c k t r s s'" and "t < length (threads s)"
    and "code (fst (threads s ! t)) = Do c k" and "allow (fst (threads s ! t)) r"
  shows "moves allow code (now s) (mem s) (pcs s) (mem s') (pcs s')"
  using assms unfolding returned_def moves_def
  by (intro exI [of _ t] exI [of _ c] exI [of _ k] exI [of _ r]) auto

lemma wake_ok_answer: "wake_ok c x r n \<Longrightarrow> answer_ok c r m n"
  by (cases c) auto

lemma wake_ok_wait: "wake_ok c x r n \<Longrightarrow> entry_mem c r l m = m \<and> spawned c r = [] \<and> cond_after c r C = C"
  by (cases c) auto

lemma exec_thread_cases:
  assumes "exec_thread allow code t r s = Some s'" and "t < length (threads s)"
  shows "moves allow code (now s) (mem s) (pcs s) (mem s') (pcs s') \<and> now s' = now s \<or> unmoved s s'"
proof -
  obtain p st where t: "threads s ! t = (p, st)" by (cases "threads s ! t")
  show ?thesis
  proof (cases st)
    case Ready
    show ?thesis
    proof (cases "code p")
      case (Do c k)
      with assms t Ready have "perform code c k p t r s = Some s'" and "allow p r"
        by (auto simp: exec_thread_def split: if_splits)
      with perform_cases [of code c k p t r s s'] t
      have "returned code c k t r s s' \<or> unmoved s s'" by simp
      then show ?thesis
        using returned_moves [of code c k t r s s' allow] assms(2) t Do \<open>allow p r\<close>
        by (auto simp: returned_def)
    qed (use assms t Ready unmoved_halt in \<open>auto simp: exec_thread_def\<close>)
  next
    case (Asleep c x d)
    with assms t show ?thesis by (simp add: exec_thread_def)
  next
    case (Woken x w)
    show ?thesis
    proof (cases "code p")
      case (Do c k)
      with assms t Woken have ok: "allow p r" "wake_ok c x r (now s)"
        and s': "s' = proceed t k r (set_mtx x (Held t) s)"
        by (auto simp: exec_thread_def split: if_splits)
      have "returned code c k t r s s'"
        unfolding s' using ok(2) wake_ok_wait [OF ok(2)]
        by (intro returnedI) (auto intro: wake_ok_answer simp: set_mtx_def)
      then show ?thesis
        using returned_moves [of code c k t r s s' allow] assms(2) t Do ok(1)
        by (auto simp: returned_def)
    qed (use assms t Woken in \<open>auto simp: exec_thread_def\<close>)
  qed
qed

lemma notify_thread_cases:
  assumes "notify_thread allow code t u s = Some s'" and "t < length (threads s)"
  shows "moves allow code (now s) (mem s) (pcs s) (mem s') (pcs s') \<and> now s' = now s"
proof -
  obtain p c k where t: "threads s ! t = (p, Ready)" "code p = Do (Signal c) k" "allow p 0"
    and s': "s' = proceed t k 0 (put_thread u (rouse 0 (threads s ! u)) s)"
    using assms by (auto simp: notify_thread_def split: prod.splits tstat.splits act.splits
        call.splits if_splits)
  have "returned code (Signal c) k t 0 s s'"
    unfolding s' by (intro returnedI) (auto simp: put_thread_def map_fst_rouse_update)
  then show ?thesis
    using returned_moves [of code "Signal c" k t 0 s s' allow] assms(2) t
    by (auto simp: returned_def)
qed

lemma wake_thread_unmoved: "wake_thread r ok u s = Some s' \<Longrightarrow> unmoved s s'"
  by (auto simp: wake_thread_def unmoved_def put_thread_def map_fst_update_same
      split: prod.splits tstat.splits if_splits)

theorem step_moves:
  assumes "step allow code e s = Some s'"
  shows "moves allow code (now s) (mem s) (pcs s) (mem s') (pcs s') \<and> now s' = now s
     \<or> unmoved s s'"
proof (cases e)
  case (Exec t r)
  with assms exec_thread_cases [of allow code t r s s'] show ?thesis by (simp split: if_splits)
next
  case (Notify t u)
  with assms notify_thread_cases [of allow code t u s s'] show ?thesis by (simp split: if_splits)
next
  case Tick
  with assms show ?thesis by (auto simp: unmoved_def split: if_splits)
qed (use assms in \<open>auto intro: wake_thread_unmoved split: if_splits\<close>)

section \<open>Invariants of memory and program points\<close>

text \<open>
  The rule every component uses: a fact about clock, memory and program points that holds
  at the start, survives a tick and every move of every thread, holds in every reachable
  state.
\<close>

theorem reach_invariant [consumes 1, case_names start tick move]:
  assumes "reach allow code s0 s"
    and "I (now s0) (mem s0) (pcs s0)"
    and "\<And>n m ps. I n m ps \<Longrightarrow> I (n + 1) m ps"
    and "\<And>n m ps t c k r m' p'.
       I n m ps \<Longrightarrow> t < length ps \<Longrightarrow> code (ps ! t) = Do c k \<Longrightarrow> allow (ps ! t) r \<Longrightarrow>
       answer_ok c r m n \<Longrightarrow> k r (entry_mem c r (length ps) m) = (m', p') \<Longrightarrow>
       I n m' ((ps[t := p']) @ spawned c r)"
  shows "I (now s) (mem s) (pcs s)"
  using assms(1)
proof (induction rule: reach.induct)
  case reach_start
  show ?case by (rule assms(2))
next
  case (reach_step s e s')
  from step_moves [OF reach_step.hyps(2)] show ?case
  proof
    assume *: "moves allow code (now s) (mem s) (pcs s) (mem s') (pcs s') \<and> now s' = now s"
    then obtain t c k r p' where "t < length (pcs s)" "code (pcs s ! t) = Do c k"
      "allow (pcs s ! t) r" "answer_ok c r (mem s) (now s)"
      "k r (entry_mem c r (length (pcs s)) (mem s)) = (mem s', p')"
      "pcs s' = ((pcs s)[t := p']) @ spawned c r"
      unfolding moves_def by metis
    with assms(4) [OF reach_step.IH this(1-5)] * show ?thesis by simp
  next
    assume "unmoved s s'"
    with reach_step.IH assms(3) [of "now s" "mem s" "pcs s"] show ?thesis
      by (auto simp: unmoved_def)
  qed
qed

section \<open>The wait states of the threads\<close>

text \<open>
  A sleeping thread is at the wait call that put it to sleep, a woken one was woken with a
  status its call may return. The rules below are all an event can do to one thread.
\<close>

definition wait_call :: "'c \<Rightarrow> 'm \<Rightarrow> int option \<Rightarrow> ('m, 'c, 's, 'p) call" where
  "wait_call c x l = (case l of None \<Rightarrow> Wait c x | Some d \<Rightarrow> Timedwait c x d)"

fun awake :: "'p policy \<Rightarrow> ('p \<Rightarrow> ('m, 'c, 's, 'p) act) \<Rightarrow> int \<Rightarrow> 'p \<times> ('m, 'c) tstat \<Rightarrow> bool" where
  "awake allow code n (p, Ready) \<longleftrightarrow> True"
| "awake allow code n (p, Asleep c x l) \<longleftrightarrow> (\<exists>k. code p = Do (wait_call c x l) k) \<and> allow p 0"
| "awake allow code n (p, Woken x w) \<longleftrightarrow>
     (\<exists>c k. code p = Do c k \<and> wake_ok c x w n) \<and> allow p w"

inductive shifts :: "'p policy \<Rightarrow> ('p \<Rightarrow> ('m, 'c, 's, 'p) act) \<Rightarrow> int \<Rightarrow>
    'p \<times> ('m, 'c) tstat \<Rightarrow> 'p \<times> ('m, 'c) tstat \<Rightarrow> bool"
  for allow code n where
  shift_same: "shifts allow code n x x"
| shift_ready: "shifts allow code n x (p, Ready)"
| shift_sleep: "code p = Do (wait_call c x l) k \<Longrightarrow> allow p 0 \<Longrightarrow>
     shifts allow code n (p, Ready) (p, Asleep c x l)"
| shift_wake: "w = 0 \<or> w = CANCELED \<and> allow p w \<or>
     w = ETIMEDOUT \<and> allow p w \<and> (\<exists>d. l = Some d \<and> d \<le> n) \<Longrightarrow>
     shifts allow code n (p, Asleep c x l) (p, Woken x w)"

lemma shifts_awake: "shifts allow code n x y \<Longrightarrow> awake allow code n x \<Longrightarrow> awake allow code n y"
  by (induction rule: shifts.induct) (auto simp: wait_call_def split: option.splits)

lemma wake_ok_mono: "wake_ok c x w n \<Longrightarrow> n \<le> n' \<Longrightarrow> wake_ok c x w n'"
  by (cases c) auto

lemma awake_mono: "awake allow code n x \<Longrightarrow> n \<le> n' \<Longrightarrow> awake allow code n' x"
  by (cases "(allow, code, n, x)" rule: awake.cases) (auto intro: wake_ok_mono)

lemma shifts_rouse: "shifts allow code n x (rouse 0 x)"
  by (cases "(0::int, x)" rule: rouse.cases) (auto intro: shifts.intros)

text \<open>Every thread of the list shifts, and threads that are created are ready.\<close>

definition all_shift :: "'p policy \<Rightarrow> ('p \<Rightarrow> ('m, 'c, 's, 'p) act) \<Rightarrow> int \<Rightarrow>
    ('p \<times> ('m, 'c) tstat) list \<Rightarrow> ('p \<times> ('m, 'c) tstat) list \<Rightarrow> bool" where
  "all_shift allow code n ts ts' \<longleftrightarrow> length ts \<le> length ts' \<and>
     (\<forall>u < length ts. shifts allow code n (ts ! u) (ts' ! u)) \<and>
     (\<forall>u < length ts'. length ts \<le> u \<longrightarrow> snd (ts' ! u) = Ready)"

lemma all_shift_refl: "all_shift allow code n ts ts"
  by (simp add: all_shift_def shift_same)

lemma all_shift_update:
  "all_shift allow code n ts ts' \<Longrightarrow> (t < length ts \<Longrightarrow> shifts allow code n (ts ! t) y) \<Longrightarrow>
   (length ts \<le> t \<Longrightarrow> snd y = Ready) \<Longrightarrow> all_shift allow code n ts (ts'[t := y])"
  unfolding all_shift_def by (auto simp: nth_update_if)

lemma all_shift_proceed:
  assumes "all_shift allow code n ts (threads s)"
  shows "all_shift allow code n ts (threads (proceed t k r s))"
proof -
  obtain m p where k: "k r (mem s) = (m, p)" by (cases "k r (mem s)")
  show ?thesis
    unfolding proceed_eq [of k r s m p, OF k]
    by (simp add: all_shift_update [OF assms] shift_ready)
qed

lemma all_shift_append:
  "all_shift allow code n ts ts' \<Longrightarrow> all_shift allow code n ts (ts' @ [(q, Ready)])"
  by (auto simp: all_shift_def nth_append)

lemma all_shift_perform:
  fixes s :: "('m, 'c, 's, 'p) sys"
  assumes s': "perform code c k p t r s = Some s'" and t: "threads s ! t = (p, Ready)"
    and p: "code p = Do c k" and a: "allow p r"
  shows "all_shift allow code (now s) (threads s) (threads s')"
proof -
  have P: "all_shift allow code (now s) (threads s) (threads (proceed t k' r' s0))"
    if "threads s0 = threads s" for k' r' and s0 :: "('m, 'c, 's, 'p) sys"
    by (rule all_shift_proceed) (simp add: that all_shift_refl)
  have S: "all_shift allow code (now s) (threads s) ((threads s)[t := (p, Asleep d x l)])"
    if "c = wait_call d x l" "r = 0" for d x l
    by (cases "t < length (threads s)")
       (use that t p a in \<open>auto intro!: all_shift_update shift_sleep simp: all_shift_refl list_update_beyond\<close>)
  have B: "all_shift allow code (now s) (threads s) (rouse_all d (threads s))" for d
    by (auto simp: all_shift_def rouse_all_def shifts_rouse shift_same)
  show ?thesis
  proof (cases c)
    case (Create store q)
    with s' show ?thesis
      by (auto intro!: P all_shift_append simp: Let_def split: if_splits)
  next
    case (Broadcast d)
    with s' show ?thesis
      by (auto intro!: P all_shift_proceed simp: B halt_def all_shift_refl split: if_splits)
  next
    case (Wait d x)
    with s' S [of d x None] show ?thesis
      by (auto intro!: P simp: effect_defs wait_call_def all_shift_refl split: if_splits)
  next
    case (Timedwait d x l)
    with s' S [of d x "Some l"] show ?thesis
      by (auto intro!: P simp: effect_defs wait_call_def all_shift_refl split: if_splits)
  qed (use s' in \<open>auto intro!: P simp: set_mtx_def halt_def all_shift_refl split: if_splits mstat.splits\<close>)
qed

lemma all_shift_wake:
  assumes "wake_thread w ok u s = Some s'"
    and "\<And>p d. ok p d \<Longrightarrow> w = 0 \<or> w = CANCELED \<and> allow p w \<or>
       w = ETIMEDOUT \<and> allow p w \<and> (\<exists>e. d = Some e \<and> e \<le> now s)"
  shows "all_shift allow code (now s) (threads s) (threads s')"
proof -
  obtain p c x d where u: "threads s ! u = (p, Asleep c x d)" "ok p d"
    and s': "s' = put_thread u (p, Woken x w) s"
    using assms(1) by (auto simp: wake_thread_def split: prod.splits tstat.splits if_splits)
  show ?thesis
    by (cases "u < length (threads s)")
       (use s' u assms(2) [OF u(2)] in
        \<open>auto intro!: all_shift_update shift_wake simp: put_thread_def all_shift_refl list_update_beyond\<close>)
qed

theorem step_shifts:
  assumes "step allow code e s = Some s'"
  shows "all_shift allow code (now s) (threads s) (threads s')"
proof (cases e)
  case (Exec t r)
  with assms have ex: "exec_thread allow code t r s = Some s'" by (simp split: if_splits)
  obtain p x where px: "threads s ! t = (p, x)" by (cases "threads s ! t")
  have "all_shift allow code (now s) (threads s) (threads (proceed t k r (set_mtx y v s)))" for k y v
    by (rule all_shift_proceed) (simp add: set_mtx_def all_shift_refl)
  with ex px show ?thesis
    by (auto simp: exec_thread_def halt_def all_shift_refl intro: all_shift_perform
        split: tstat.splits act.splits if_splits)
next
  case (Notify t u)
  have B: "all_shift allow code (now s) (threads s) (threads (put_thread u (rouse 0 (threads s ! u)) s))"
    by (cases "u < length (threads s)")
       (auto intro!: all_shift_update simp: put_thread_def all_shift_refl shifts_rouse list_update_beyond)
  show ?thesis
    using assms Notify by (auto simp: notify_thread_def intro!: all_shift_proceed B
        split: prod.splits tstat.splits act.splits call.splits if_splits)
next
  case (Spurious u)
  with assms show ?thesis by (auto intro: all_shift_wake split: if_splits)
next
  case (Timeout u)
  with assms show ?thesis by (auto elim!: all_shift_wake split: if_splits option.splits)
next
  case (Cancel u)
  with assms show ?thesis by (auto elim!: all_shift_wake split: if_splits)
qed (use assms in \<open>auto simp: all_shift_refl split: if_splits\<close>)

lemma step_now: "step allow code e s = Some s' \<Longrightarrow> now s \<le> now s'"
  using step_moves [of allow code e s s'] by (auto simp: unmoved_def)

theorem reach_awake:
  assumes "reach allow code s0 s" and "list_all (awake allow code (now s0)) (threads s0)"
  shows "list_all (awake allow code (now s)) (threads s)"
  using assms(1)
proof (induction rule: reach.induct)
  case reach_start
  show ?case by (rule assms(2))
next
  case (reach_step s e s')
  show ?case
    unfolding list_all_length
  proof (intro allI impI)
    fix u assume u: "u < length (threads s')"
    have "awake allow code (now s) (threads s' ! u)"
    proof (cases "u < length (threads s)")
      case True
      then show ?thesis using step_shifts [OF reach_step.hyps(2)] reach_step.IH
        by (auto simp: all_shift_def list_all_length intro: shifts_awake)
    next
      case False
      then have "snd (threads s' ! u) = Ready"
        using step_shifts [OF reach_step.hyps(2)] u by (simp add: all_shift_def)
      then show ?thesis by (cases "threads s' ! u") simp
    qed
    then show "awake allow code (now s') (threads s' ! u)"
      by (rule awake_mono [OF _ step_now [OF reach_step.hyps(2)]])
  qed
qed

lemma awake_boot: "list_all (awake allow code n) (threads (boot m ps))"
  by (simp add: boot_def list_all_iff)

section \<open>The effect of an event on the whole process\<close>

text \<open>
  For invariants that speak of sleeping threads: a thread acts (its call returned; the others
  are as they were or roused), goes to sleep, or nothing but wait states and the clock changes.
\<close>

definition acted :: "('p \<Rightarrow> ('m, 'c, 's, 'p) act) \<Rightarrow> ('m, 'c, 's, 'p) call \<Rightarrow>
    (int \<Rightarrow> 's \<Rightarrow> 's \<times> 'p) \<Rightarrow> tid \<Rightarrow> int \<Rightarrow> ('m, 'c, 's, 'p) sys \<Rightarrow> ('m, 'c, 's, 'p) sys \<Rightarrow> bool" where
  "acted code c k t r s s' \<longleftrightarrow>
     returned code c k t r s s' \<and> ended s' = ended s \<and>
     length (threads s') = length (threads s) + length (spawned c r) \<and>
     snd (threads s' ! t) = Ready \<and>
     (\<forall>u < length (threads s). u \<noteq> t \<longrightarrow>
        threads s' ! u = threads s ! u \<or> threads s' ! u = rouse 0 (threads s ! u)) \<and>
     (\<forall>x. (c = Lock x \<or> c = Trylock x) \<and> r = 0 \<longrightarrow> mtx s x = Free) \<and>
     (\<forall>x. c = Unlock x \<longrightarrow> mtx s x = Held t) \<and> cnd s' = cond_after c r (cnd s) \<and>
     (\<forall>d. c = CInit d \<and> r = 0 \<longrightarrow> \<not> cnd s d) \<and>
     (\<forall>d u. c = Broadcast d \<and> r = 0 \<and> u < length (threads s) \<and> u \<noteq> t \<longrightarrow>
        \<not> on_cond d (threads s' ! u))"

definition slept :: "('p \<Rightarrow> ('m, 'c, 's, 'p) act) \<Rightarrow> ('m, 'c, 's, 'p) call \<Rightarrow> 'p \<Rightarrow> tid \<Rightarrow>
    ('m, 'c, 's, 'p) sys \<Rightarrow> ('m, 'c, 's, 'p) sys \<Rightarrow> bool" where
  "slept code c p t s s' \<longleftrightarrow>
     (\<exists>d x l. c = wait_call d x l \<and> threads s' = (threads s)[t := (p, Asleep d x l)] \<and>
        mem s' = mem s \<and> now s' = now s \<and> ended s' = ended s \<and> cnd s' = cnd s \<and> mtx s x = Held t)"

lemma proceed_frame [simp]:
  "u \<noteq> t \<Longrightarrow> threads (proceed t k r s) ! u = threads s ! u"
  "length (threads (proceed t k r s)) = length (threads s)"
  "ended (proceed t k r s) = ended s"
  "t < length (threads s) \<Longrightarrow> snd (threads (proceed t k r s) ! t) = Ready"
  by (simp_all add: proceed_def put_thread_def split: prod.splits)

lemma proceed_objects [simp]:
  "mtx (proceed t k r s) = mtx s" "cnd (proceed t k r s) = cnd s"
  by (simp_all add: proceed_def put_thread_def split: prod.splits)

lemma acted_proceed:
  assumes "returned code c k t r s (proceed t k r s0)" and "t < length (threads s)"
    and "length (threads s0) = length (threads s)" and "spawned c r = []" and "ended s0 = ended s"
    and "\<And>u. u < length (threads s) \<Longrightarrow> u \<noteq> t \<Longrightarrow>
       threads s0 ! u = threads s ! u \<or> threads s0 ! u = rouse 0 (threads s ! u)"
    and "\<And>x. c = Lock x \<or> c = Trylock x \<Longrightarrow> r = 0 \<Longrightarrow> mtx s x = Free"
    and "\<And>x. c = Unlock x \<Longrightarrow> mtx s x = Held t" and "cnd s0 = cond_after c r (cnd s)"
    and "\<And>d. c = CInit d \<Longrightarrow> r = 0 \<Longrightarrow> \<not> cnd s d"
    and "\<And>d u. c = Broadcast d \<Longrightarrow> r = 0 \<Longrightarrow> u < length (threads s) \<Longrightarrow> u \<noteq> t \<Longrightarrow> \<not> on_cond d (threads s0 ! u)"
  shows "acted code c k t r s (proceed t k r s0)"
  using assms unfolding acted_def by auto

lemma on_cond_roused: "\<not> on_cond d (if on_cond d x then rouse 0 x else x)"
  by (cases "(0::int, x)" rule: rouse.cases) auto

lemma on_cond_rouse_all: "u < length ts \<Longrightarrow> \<not> on_cond d (rouse_all d ts ! u)"
  using on_cond_roused [of d "ts ! u"] by (simp add: rouse_all_def)

lemma rouse_all_nth:
  "u < length ts \<Longrightarrow> rouse_all d ts ! u = ts ! u \<or> rouse_all d ts ! u = rouse 0 (ts ! u)"
  by (simp add: rouse_all_def)

fun simple :: "('m, 'c, 's, 'p) call \<Rightarrow> bool" where
  "simple (Wait c x) = False"
| "simple (Timedwait c x d) = False"
| "simple (Broadcast c) = False"
| "simple (Create st q) = False"
| "simple _ = True"

lemma perform_simple:
  assumes "perform code c k p t r s = Some s'" and "simple c"
  shows "s' = halt Undefined s \<or>
     s' = proceed t k r (s\<lparr>mtx := mtx s', cnd := cnd s'\<rparr>) \<and> answer_ok c r (mem s) (now s) \<and>
     (\<forall>x. (c = Lock x \<or> c = Trylock x) \<and> r = 0 \<longrightarrow> mtx s x = Free) \<and>
     (\<forall>x. c = Unlock x \<longrightarrow> mtx s x = Held t) \<and> cnd s' = cond_after c r (cnd s) \<and>
     (\<forall>d. c = CInit d \<and> r = 0 \<longrightarrow> \<not> cnd s d)"
  using assms by (cases c) (auto simp: set_mtx_def split: if_splits mstat.splits)

lemma simple_sides:
  "simple c \<Longrightarrow> entry_mem c r n m = m" "simple c \<Longrightarrow> spawned c r = []" "simple c \<Longrightarrow> c \<noteq> Broadcast d"
  by (cases c; simp)+

lemma perform_effect:
  assumes s': "perform code c k p t r s = Some s'" and t: "t < length (threads s)" "fst (threads s ! t) = p"
  shows "acted code c k t r s s' \<or> r = 0 \<and> slept code c p t s s' \<or> s' = halt Undefined s"
proof -
  have P: "acted code c k t r' s (proceed t k r'' s0)"
    if "r'' = r'" "answer_ok c r' (mem s) (now s)" "entry_mem c r' (length (threads s)) (mem s) = mem s"
      "spawned c r' = []" "mem s0 = mem s" "threads s0 = threads s" "now s0 = now s" "ended s0 = ended s"
      "\<forall>x. (c = Lock x \<or> c = Trylock x) \<and> r' = 0 \<longrightarrow> mtx s x = Free"
      "\<forall>x. c = Unlock x \<longrightarrow> mtx s x = Held t" "\<forall>d. \<not> (c = Broadcast d \<and> r' = 0)"
      "cnd s0 = cond_after c r' (cnd s)" "\<forall>d. c = CInit d \<and> r' = 0 \<longrightarrow> \<not> cnd s d" for r' r'' s0
    unfolding that(1) by (rule acted_proceed [OF returnedI]) (use that t in auto)
  have E: "acted code c k t r s (proceed t k r s)" if "0 < r" "answer_ok c r (mem s) (now s)"
  proof -
    have "entry_mem c r (length (threads s)) (mem s) = mem s" "spawned c r = []" "cond_after c r (cnd s) = cnd s"
      using that by (cases c; simp)+
    then show ?thesis using that by (intro P) auto
  qed
  have simple_case: ?thesis if "simple c"
    using perform_simple [OF s' that] P [of r r "s\<lparr>mtx := mtx s', cnd := cnd s'\<rparr>"] simple_sides [OF that]
    by auto
  show ?thesis
  proof (cases c)
    case (Create store q)
    show ?thesis
    proof (cases "r = 0")
      case True
      obtain m p' where "k 0 (store (length (threads s)) (mem s)) = (m, p')"
        by (cases "k 0 (store (length (threads s)) (mem s))")
      with s' Create True t show ?thesis
        by (auto simp: acted_def returned_def proceed_def put_thread_def Let_def map_update nth_append)
    next
      case False
      with s' Create E show ?thesis by (auto split: if_splits)
    qed
  next
    case (Broadcast d)
    show ?thesis
    proof (cases "r = 0")
      case True
      let ?s0 = "s\<lparr>threads := rouse_all d (threads s)\<rparr>"
      have "acted code c k t 0 s (proceed t k 0 ?s0)"
        by (rule acted_proceed [OF returnedI])
           (use Broadcast t in \<open>auto simp: on_cond_rouse_all rouse_all_nth\<close>)
      with s' Broadcast True show ?thesis by (auto split: if_splits)
    next
      case False
      with s' Broadcast E show ?thesis by (auto split: if_splits)
    qed
  next
    case (Wait d x)
    have "slept code c p t s (put_thread t (p, Asleep d x None) (set_mtx x Free s))" if "mtx s x = Held t"
      unfolding slept_def using that Wait
      by (intro exI [of _ d] exI [of _ x] exI [of _ None]) (simp add: wait_call_def effect_defs)
    with s' Wait E show ?thesis by (auto split: if_splits)
  next
    case (Timedwait d x l)
    have "slept code c p t s (put_thread t (p, Asleep d x (Some l)) (set_mtx x Free s))" if "mtx s x = Held t"
      unfolding slept_def using that Timedwait
      by (intro exI [of _ d] exI [of _ x] exI [of _ "Some l"]) (simp add: wait_call_def effect_defs)
    with s' Timedwait E show ?thesis by (auto split: if_splits)
  qed (use simple_case in simp_all)
qed

definition rested :: "('m, 'c, 's, 'p) sys \<Rightarrow> ('m, 'c, 's, 'p) sys \<Rightarrow> bool" where
  "rested s s' \<longleftrightarrow>
     mem s' = mem s \<and> mtx s' = mtx s \<and> cnd s' = cnd s \<and> length (threads s') = length (threads s) \<and> (now s' = now s \<or> now s' = now s + 1) \<and>
     (\<forall>u < length (threads s). threads s' ! u = threads s ! u \<or> (\<exists>w. threads s' ! u = rouse w (threads s ! u)))"

lemma rested_fst: "rested s s' \<Longrightarrow> u < length (threads s) \<Longrightarrow> fst (threads s' ! u) = fst (threads s ! u)"
  by (auto simp: rested_def)

lemma rested_halt: "rested s (halt res s)"
  by (simp add: rested_def halt_def)

lemma wake_thread_rested:
  assumes "wake_thread w ok u s = Some s'"
  shows "rested s s' \<and> ended s' = ended s"
proof -
  obtain p c x d where "threads s ! u = (p, Asleep c x d)" and "s' = put_thread u (p, Woken x w) s"
    using assms by (auto simp: wake_thread_def split: prod.splits tstat.splits if_splits)
  then show ?thesis
    by (auto simp: rested_def put_thread_def nth_update_if intro!: exI [of _ w])
qed

theorem step_effect:
  assumes st: "step allow code e s = Some s'"
  obtains (act) t p x c k r where "t < length (threads s)" "threads s ! t = (p, x)" "code p = Do c k"
      "allow p r" "x = Ready \<or> (\<exists>y w. x = Woken y w \<and> mtx s y = Free)" "acted code c k t r s s'"
      "\<forall>u. c = Join u \<and> r = 0 \<longrightarrow> u < length (threads s) \<and> (\<exists>v. code (pcs s ! u) = Return v)"
  | (sleep) t p c k where "t < length (threads s)" "threads s ! t = (p, Ready)" "code p = Do c k"
      "allow p 0" "slept code c p t s s'"
  | (rest) "rested s s'" "ended s' = ended s \<or> ended s' = Some Undefined \<or>
      (\<exists>t < length (threads s). \<exists>res. code (fst (threads s ! t)) = Halt res \<and> ended s' = Some res)"
proof (cases e)
  case (Exec t r)
  then have t: "t < length (threads s)" and ex: "exec_thread allow code t r s = Some s'"
    using st by (auto split: if_splits)
  obtain p x where px: "threads s ! t = (p, x)" by (cases "threads s ! t")
  show ?thesis
  proof (cases x)
    case Ready
    show ?thesis
    proof (cases "code p")
      case (Do c k)
      with ex px Ready have pf: "perform code c k p t r s = Some s'" and al: "allow p r"
        by (auto simp: exec_thread_def split: if_splits)
      from perform_effect [OF pf t] px consider "acted code c k t r s s'" | "r = 0" "slept code c p t s s'"
        | "s' = halt Undefined s" by auto
      then show ?thesis
      proof cases
        case 1
        have jn: "\<forall>u. c = Join u \<and> r = 0 \<longrightarrow> u < length (threads s) \<and> (\<exists>v. code (pcs s ! u) = Return v)"
          using pf by (auto simp: finished_def split: if_splits act.splits)
        show ?thesis using act [OF t px Do al _ 1 jn] Ready by blast
      next
        case 2
        with sleep [OF t _ Do] px Ready al 2 show ?thesis by simp
      next
        case 3
        with rest show ?thesis by (simp add: rested_halt) (simp add: halt_def)
      qed
    next
      case (Halt res)
      with ex px Ready have "s' = halt res s" by (simp add: exec_thread_def)
      then have "rested s s'" and "ended s' = Some res" by (simp_all add: rested_halt) (simp add: halt_def)
      moreover have "code (fst (threads s ! t)) = Halt res" using px Halt by simp
      ultimately show ?thesis using rest t by blast
    qed (use ex px Ready in \<open>simp add: exec_thread_def\<close>)
  next
    case (Woken y w)
    show ?thesis
    proof (cases "code p")
      case (Do c k)
      with ex px Woken have ok: "allow p r" "wake_ok c y r (now s)" "mtx s y = Free"
        and s': "s' = proceed t k r (set_mtx y (Held t) s)"
        by (auto simp: exec_thread_def split: if_splits)
      have "acted code c k t r s s'"
        unfolding s'
        by (rule acted_proceed [OF returnedI])
           (use ok wake_ok_wait [OF ok(2)] t in \<open>auto intro: wake_ok_answer simp: set_mtx_def\<close>)
      moreover have "c \<noteq> Join u" for u using ok(2) by auto
      ultimately show ?thesis using act [OF t px Do ok(1)] Woken ok(3) by simp
    qed (use ex px Woken in \<open>simp_all add: exec_thread_def\<close>)
  qed (use ex px in \<open>simp add: exec_thread_def\<close>)
next
  case (Notify t u)
  then have t: "t < length (threads s)" using st by (auto split: if_splits)
  obtain p c k where p: "threads s ! t = (p, Ready)" "code p = Do (Signal c) k" "allow p 0"
    and s': "s' = proceed t k 0 (put_thread u (rouse 0 (threads s ! u)) s)"
    using st Notify by (auto simp: notify_thread_def split: prod.splits tstat.splits act.splits
        call.splits if_splits)
  have "acted code (Signal c) k t 0 s s'"
    unfolding s'
    by (rule acted_proceed [OF returnedI])
       (use t in \<open>auto simp: put_thread_def map_fst_rouse_update nth_update_if\<close>)
  with act [OF t p(1,2,3)] show ?thesis by simp
next
  case (Spurious u)
  with st rest wake_thread_rested [of _ _ u s s'] show ?thesis by (auto split: if_splits)
next
  case (Timeout u)
  with st rest wake_thread_rested [of _ _ u s s'] show ?thesis by (auto split: if_splits)
next
  case (Cancel u)
  with st rest wake_thread_rested [of _ _ u s s'] show ?thesis by (auto split: if_splits)
next
  case Tick
  then have "s' = s\<lparr>now := now s + 1\<rparr>" using st by (simp split: if_splits)
  with rest show ?thesis by (simp add: rested_def)
qed

text \<open>The induction rule with what is known of a join: the thread that was joined has returned.\<close>

theorem reach_joined [consumes 1, case_names start move]:
  assumes "reach allow code s0 s"
    and start: "I (mem s0) (pcs s0)"
    and move: "\<And>n m ps t c k r m' p'.
       I m ps \<Longrightarrow> t < length ps \<Longrightarrow> code (ps ! t) = Do c k \<Longrightarrow> allow (ps ! t) r \<Longrightarrow>
       answer_ok c r m n \<Longrightarrow> k r (entry_mem c r (length ps) m) = (m', p') \<Longrightarrow>
       (\<forall>u. c = Join u \<and> r = 0 \<longrightarrow> u < length ps \<and> (\<exists>v. code (ps ! u) = Return v)) \<Longrightarrow>
       I m' ((ps[t := p']) @ spawned c r)"
  shows "I (mem s) (pcs s)"
  using assms(1)
proof (induction rule: reach.induct)
  case (reach_step s e s')
  from reach_step.hyps(2) show ?case
  proof (cases rule: step_effect)
    case (act t p x c k r)
    then obtain p' where a: "answer_ok c r (mem s) (now s)" "k r (entry_mem c r (length (threads s)) (mem s)) = (mem s', p')"
        "pcs s' = (pcs s)[t := p'] @ spawned c r"
      by (auto simp: acted_def returned_def)
    have "I (mem s') ((pcs s)[t := p'] @ spawned c r)"
    proof (rule move [OF reach_step.IH, where k = k])
      show "code (pcs s ! t) = Do c k" "allow (pcs s ! t) r" "t < length (pcs s)" using act(1-4) by simp_all
      show "\<forall>u. c = Join u \<and> r = 0 \<longrightarrow> u < length (pcs s) \<and> (\<exists>v. code (pcs s ! u) = Return v)" using act(7) by (simp only: length_map)
    qed (use a in simp_all)
    then show ?thesis using a(3) by simp
  next
    case (sleep t p c k)
    then have "mem s' = mem s" "pcs s' = pcs s" by (auto simp: slept_def map_fst_update_same)
    then show ?thesis using reach_step.IH by simp
  next
    case rest
    then have "mem s' = mem s" "pcs s' = pcs s" by (auto simp: rested_def intro!: nth_equalityI)
    then show ?thesis using reach_step.IH by simp
  qed
qed (rule start)

text \<open>A more permissive environment reaches at least as much.\<close>

lemma step_mono:
  assumes "step allow code e s = Some s'" and "\<And>p r. allow p r \<Longrightarrow> allow' p r"
  shows "step allow' code e s = Some s'"
proof (cases e)
  case (Exec t r)
  with assms show ?thesis
    by (auto simp: exec_thread_def split: if_splits prod.splits tstat.splits act.splits)
next
  case (Notify t u)
  with assms show ?thesis
    by (auto simp: notify_thread_def split: if_splits prod.splits tstat.splits act.splits call.splits)
qed (use assms in \<open>auto simp: wake_thread_def split: if_splits prod.splits tstat.splits option.splits\<close>)

lemma reach_trans: "reach allow code s0 s \<Longrightarrow> reach allow code s s' \<Longrightarrow> reach allow code s0 s'"
  by (rotate_tac, induction rule: reach.induct) (auto intro: reach_step)

lemma reach_mono:
  assumes "reach allow code s0 s" and "\<And>p r. allow p r \<Longrightarrow> allow' p r"
  shows "reach allow' code s0 s"
  using assms(1)
proof (induction rule: reach.induct)
  case (reach_step s e s')
  have "step allow' code e s = Some s'"
    by (rule step_mono [OF reach_step.hyps(2)]) (rule assms(2))
  with reach_step.IH show ?case by (rule reach.reach_step)
qed (rule reach_start)

text \<open>A process ends only by a \<open>Halt\<close> of its own, or because its behaviour is undefined.\<close>

theorem ended_cases:
  assumes "reach allow code s0 s" and "ended s0 = None" and "ended s = Some res"
  shows "res = Undefined \<or> (\<exists>p \<in> set (pcs s). code p = Halt res)"
  using assms(1,3)
proof (induction rule: reach.induct)
  case (reach_step s e s')
  have none: "ended s = None" using reach_step.hyps(2) by (cases e) (auto split: if_splits)
  from reach_step.hyps(2) show ?case
  proof (cases rule: step_effect)
    case rest
    then consider "ended s' = Some Undefined" | t where "t < length (threads s)"
      "code (fst (threads s ! t)) = Halt res" using none reach_step.prems by auto
    then show ?thesis
    proof cases
      case 2
      then have "fst (threads s' ! t) = fst (threads s ! t)" "t < length (threads s')"
        using rest(1) by (auto simp: rested_def)
      with 2 show ?thesis by (metis length_map nth_map nth_mem)
    qed (use reach_step.prems in simp)
  qed (use none reach_step.prems in \<open>auto simp: acted_def slept_def\<close>)
qed (use assms(2) in simp)

text \<open>What makes the behaviour of a call undefined, and where an undefined run ended.\<close>

fun misuse :: "('m, 'c, 's, 'p) call \<Rightarrow> tid \<Rightarrow> ('m, 'c, 's, 'p) sys \<Rightarrow> bool" where
  "misuse (Lock x) t s \<longleftrightarrow> mtx s x = Raw"
| "misuse (Trylock x) t s \<longleftrightarrow> mtx s x = Raw"
| "misuse (Unlock x) t s \<longleftrightarrow> mtx s x \<noteq> Held t"
| "misuse (Wait c x) t s \<longleftrightarrow> mtx s x \<noteq> Held t \<or> \<not> cnd s c"
| "misuse (Timedwait c x d) t s \<longleftrightarrow> mtx s x \<noteq> Held t \<or> \<not> cnd s c"
| "misuse (Signal c) t s \<longleftrightarrow> \<not> cnd s c"
| "misuse (Broadcast c) t s \<longleftrightarrow> \<not> cnd s c"
| "misuse (MInit x) t s \<longleftrightarrow> mtx s x \<noteq> Raw"
| "misuse (MDestroy x) t s \<longleftrightarrow> mtx s x \<noteq> Free"
| "misuse (CInit c) t s \<longleftrightarrow> cnd s c"
| "misuse (CDestroy c) t s \<longleftrightarrow> \<not> cnd s c \<or> list_ex (on_cond c) (threads s)"
| "misuse _ t s \<longleftrightarrow> False"

definition misused :: "'p policy \<Rightarrow> ('p \<Rightarrow> ('m, 'c, 's, 'p) act) \<Rightarrow> ('m, 'c, 's, 'p) sys \<Rightarrow> bool" where
  "misused allow code s \<longleftrightarrow> (\<exists>t < length (threads s). \<exists>p c k. threads s ! t = (p, Ready) \<and> code p = Do c k \<and>
     allow p 0 \<and> misuse c t s)"

lemma perform_misuse:
  assumes "perform code c k p t r s = Some s'" and "ended s = None" and "ended s' = Some res"
  shows "res = Undefined \<and> s' = halt Undefined s \<and> misuse c t s \<and> (r = 0 \<or> (\<exists>x. c = Trylock x))"
  using assms by (cases c) (auto simp: effect_defs Let_def split: if_splits mstat.splits)

lemma step_undefined:
  assumes st: "step allow code e s = Some s'" and e: "ended s = None" "ended s' = Some Undefined"
    and no_try: "\<And>p x k. code p \<noteq> Do (Trylock x) k"
  shows "(\<exists>p \<in> set (pcs s). code p = Halt Undefined) \<or> misused allow code s"
proof (cases e)
  case (Exec t r)
  then have t: "t < length (threads s)" and ex: "exec_thread allow code t r s = Some s'"
    using st by (auto split: if_splits)
  obtain p x where px: "threads s ! t = (p, x)" by (cases "threads s ! t")
  have p: "p \<in> set (pcs s)" using t px by (metis fst_conv length_map nth_map nth_mem)
  show ?thesis
  proof (cases x)
    case Ready
    show ?thesis
    proof (cases "code p")
      case (Do c k)
      with ex px Ready have "perform code c k p t r s = Some s'" "allow p r"
        by (auto simp: exec_thread_def split: if_splits)
      with perform_misuse [OF this(1) e] no_try [of p _ k] Do have "allow p 0" "misuse c t s" by auto
      then show ?thesis using t px Ready Do unfolding misused_def by blast
    next
      case (Halt res)
      then have "res = Undefined" using ex px Ready e by (auto simp: exec_thread_def halt_def)
      then show ?thesis using Halt p by blast
    qed (use ex px Ready in \<open>simp add: exec_thread_def\<close>)
  qed (use ex px e in \<open>auto simp: exec_thread_def set_mtx_def split: act.splits if_splits\<close>)
next
  case (Notify t u)
  then show ?thesis using st e
    by (auto simp: notify_thread_def put_thread_def split: if_splits prod.splits tstat.splits act.splits call.splits)
qed (use st e in \<open>auto simp: wake_thread_def put_thread_def split: if_splits prod.splits tstat.splits\<close>)

theorem undefined_cases:
  assumes "reach allow code s0 s" and "ended s0 = None" and "ended s = Some Undefined"
    and no_try: "\<And>p x k. code p \<noteq> Do (Trylock x) k"
  obtains s1 where "reach allow code s0 s1" "ended s1 = None"
    "(\<exists>p \<in> set (pcs s1). code p = Halt Undefined) \<or> misused allow code s1"
  using assms(1)
proof (cases rule: reach.cases)
  case (reach_step s1 e)
  have "ended s1 = None" using reach_step(2) by (cases e) (auto split: if_splits)
  then show ?thesis using that reach_step step_undefined [OF reach_step(2) _ assms(3) no_try] by blast
qed (use assms in simp)

section \<open>Runs\<close>

lemma run_reach:
  "run allow code es s = Some s' \<Longrightarrow> reach allow code s0 s \<Longrightarrow> reach allow code s0 s'"
  by (induction es arbitrary: s) (auto split: option.splits intro: reach_step)

lemma reach_run: "run allow code es s0 = Some s \<Longrightarrow> reach allow code s0 s"
  by (rule run_reach [OF _ reach_start])

lemma reach_exists:
  assumes "map_option f (run allow code es s0) = Some v"
  shows "\<exists>s. reach allow code s0 s \<and> f s = v"
  using assms by (auto intro: reach_run)

lemma boot_simps [simp]:
  "mem (boot m ps) = m" "pcs (boot m ps) = ps" "now (boot m ps) = 0"
  "threads (boot m ps) = map (\<lambda>p. (p, Ready)) ps" "mtx (boot m ps) x = Free"
  "cnd (boot m ps) c" "ended (boot m ps) = None"
  by (simp_all add: boot_def comp_def)

end
