(* ===== verification/Tracking.thy ===== *)
theory Tracking
  imports Invariants
begin

text \<open>
  Mutual exclusion for programs that create their mutexes while they run. The
  annotation \<open>holds\<close> names mutexes the thread has at a program point (all it needs there, not
  necessarily all it has); \<open>lock_tracking\<close> asks only that the annotation is right, not that the
  program uses its mutexes well: a run that misuses one ends there.
\<close>

fun held_after :: "('m, 'c, 's, 'p) call \<Rightarrow> int \<Rightarrow> 'm set \<Rightarrow> 'm set" where
  "held_after (Lock x) r H = (if r = 0 then insert x H else H)"
| "held_after (Trylock x) r H = (if r = 0 then insert x H else H)"
| "held_after (Unlock x) r H = H - {x}"
| "held_after _ r H = H"

text \<open>
  The mutexes a thread holds, from the annotation \<open>holds\<close> of its program point: the mutex of
  a wait is not held while the thread sleeps or has not taken it again.
\<close>

fun holding :: "('p \<Rightarrow> 'm set) \<Rightarrow> 'p \<times> ('m, 'c) tstat \<Rightarrow> 'm set" where
  "holding holds (p, Ready) = holds p"
| "holding holds (p, Asleep c x d) = holds p - {x}"
| "holding holds (p, Woken x w) = holds p - {x}"

lemma holding_rouse [simp]: "holding holds (rouse r x) = holding holds x"
  by (cases "(r, x)" rule: rouse.cases) auto

text \<open>
  A thread that works under a mutex works alone: the other threads that hold it, by their
  points, are waiting and have released it.
\<close>

definition waiting :: "('p \<Rightarrow> ('m, 'c, 's, 'p) act) \<Rightarrow> 'm \<Rightarrow> 'p \<Rightarrow> bool" where
  "waiting code x p \<longleftrightarrow> (\<exists>d l k. code p = Do (wait_call d x l) k)"

definition alone :: "('p \<Rightarrow> ('m, 'c, 's, 'p) act) \<Rightarrow> ('p \<Rightarrow> 'm set) \<Rightarrow> 'p list \<Rightarrow> nat \<Rightarrow> 'p \<Rightarrow> bool" where
  "alone code holds ps t p' \<longleftrightarrow> (\<forall>x u. x \<in> holds (ps ! t) \<union> holds p' \<longrightarrow> u < length ps \<longrightarrow> u \<noteq> t \<longrightarrow>
     x \<in> holds (ps ! u) \<longrightarrow> waiting code x (ps ! u))"

lemma aloneD:
  "alone code holds ps t p' \<Longrightarrow> x \<in> holds (ps ! t) \<union> holds p' \<Longrightarrow> u < length ps \<Longrightarrow> u \<noteq> t \<Longrightarrow>
     x \<in> holds (ps ! u) \<Longrightarrow> waiting code x (ps ! u)"
  unfolding alone_def by blast

lemma wake_ok_wait_call: "wake_ok c z w n \<Longrightarrow> \<exists>d l. c = wait_call d z l"
proof (cases c)
  case (Wait d x)
  then show "wake_ok c z w n \<Longrightarrow> ?thesis"
    by (intro exI [of _ d] exI [of _ None]) (simp add: wait_call_def)
next
  case (Timedwait d x l)
  then show "wake_ok c z w n \<Longrightarrow> ?thesis"
    by (intro exI [of _ d] exI [of _ "Some l"]) (simp add: wait_call_def)
qed simp_all

lemma not_waiting_holding:
  assumes "awake allow code n (p, st)" and "x \<in> holds p" and "\<not> waiting code x p"
  shows "x \<in> holding holds (p, st)"
proof (cases st)
  case (Asleep c y l)
  with assms show ?thesis by (auto simp: waiting_def)
next
  case (Woken y w)
  then obtain c k where c: "code p = Do c k" "wake_ok c y w n" using assms(1) by auto
  from wake_ok_wait_call [OF c(2)] obtain d l where "c = wait_call d y l" by (elim exE)
  with c Woken assms(2,3) show ?thesis by (auto simp: waiting_def)
qed (use assms in simp)

lemma rested_pcs: "rested s s' \<Longrightarrow> pcs s' = pcs s"
  by (rule nth_equalityI) (auto simp: rested_fst rested_def)

definition tracked :: "('p \<Rightarrow> 'm set) \<Rightarrow> ('m, 'c, 's, 'p) sys \<Rightarrow> bool" where
  "tracked holds s \<longleftrightarrow>
     (\<forall>t < length (threads s). \<forall>x \<in> holding holds (threads s ! t). mtx s x = Held t)"

lemma trackedD: "tracked holds s \<Longrightarrow> t < length (threads s) \<Longrightarrow> x \<in> holding holds (threads s ! t) \<Longrightarrow> mtx s x = Held t"
  by (simp add: tracked_def)

lemma holding_le: "holding holds (p, st) \<subseteq> holds p"
  by (cases st) auto

lemma perform_keeps:
  assumes "perform code c k p t r s = Some s'" and "mtx s x = Held u"
    and "u = t \<Longrightarrow> c \<noteq> Unlock x" and "u = t \<Longrightarrow> r = 0 \<Longrightarrow> \<forall>d l. c \<noteq> wait_call d x l"
  shows "mtx s' x = Held u"
proof (cases c)
  case (Wait d y)
  have "\<not> (u = t \<and> r = 0 \<and> x = y)"
    using assms(4) Wait by (metis option.simps(4) wait_call_def)
  with assms(1,2) Wait show ?thesis by (auto simp: effect_defs split: if_splits)
next
  case (Timedwait d y l)
  have "\<not> (u = t \<and> r = 0 \<and> x = y)"
    using assms(4) Timedwait by (metis option.simps(5) wait_call_def)
  with assms(1,2) Timedwait show ?thesis by (auto simp: effect_defs split: if_splits)
qed (use assms in \<open>auto simp: effect_defs Let_def split: if_splits mstat.splits\<close>)

lemma perform_takes:
  assumes "perform code c k p t r s = Some s'" and "c = Lock x \<or> c = Trylock x" and "r = 0"
  shows "mtx s' x = Held t \<or> s' = halt Undefined s"
  using assms by (auto simp: effect_defs split: if_splits mstat.splits)

lemma perform_no_wait:
  assumes "perform code (wait_call d x l) k p t 0 s = Some s'" and "t < length (threads s)"
    and "snd (threads s' ! t) = Ready"
  shows "s' = halt Undefined s"
  using assms by (cases l) (auto simp: wait_call_def effect_defs split: if_splits)

lemma wake_thread_mtx: "wake_thread w ok u s = Some s' \<Longrightarrow> mtx s' = mtx s"
  by (auto simp: wake_thread_def put_thread_def split: prod.splits tstat.splits if_splits)

lemma tracked_rest:
  assumes "tracked holds s" and "rested s s'" and "mtx s' = mtx s"
  shows "tracked holds s'"
  unfolding tracked_def
proof (intro allI impI ballI)
  fix t x assume t: "t < length (threads s')" and x: "x \<in> holding holds (threads s' ! t)"
  have "threads s' ! t = threads s ! t \<or> (\<exists>w. threads s' ! t = rouse w (threads s ! t))" "t < length (threads s)"
    using assms(2) t by (simp_all add: rested_def)
  then show "mtx s' x = Held t" using trackedD [OF assms(1), of t x] x assms(3) by auto
qed

lemma perform_not_raw:
  assumes "perform code c k p t r s = Some s'" and "\<And>y. c \<noteq> MDestroy y" and "mtx s x \<noteq> Raw"
  shows "mtx s' x \<noteq> Raw"
  using assms by (cases c) (auto simp: effect_defs Let_def split: if_splits mstat.splits)

lemma never_raw:
  assumes "reach allow code s0 s" and "\<And>x. mtx s0 x \<noteq> Raw" and "\<And>p x k. code p \<noteq> Do (MDestroy x) k"
  shows "mtx s x \<noteq> Raw"
  using assms(1)
proof (induction rule: reach.induct)
  case (reach_step s e s')
  show ?case
  proof (cases e)
    case (Exec t r)
    with reach_step.hyps(2) reach_step.IH show ?thesis
      by (auto simp: exec_thread_def effect_defs split: if_splits prod.splits tstat.splits act.splits
        dest!: perform_not_raw [of code _ _ _ _ _ s s' x] assms(3) [THEN notE])
  next
    case (Notify t u)
    with reach_step.hyps(2) reach_step.IH show ?thesis
      by (auto simp: notify_thread_def effect_defs split: if_splits prod.splits tstat.splits act.splits
        call.splits)
  qed (use reach_step in \<open>auto simp: wake_thread_def effect_defs split: if_splits prod.splits tstat.splits\<close>)
qed (rule assms(2))

text \<open>What a call needs of the mutexes its thread has, and of the condition variables.\<close>

fun mutex_ok :: "('m, 'c, 's, 'p) call \<Rightarrow> 'm set \<Rightarrow> bool" where
  "mutex_ok (Unlock x) H \<longleftrightarrow> x \<in> H"
| "mutex_ok (Wait c x) H \<longleftrightarrow> x \<in> H"
| "mutex_ok (Timedwait c x d) H \<longleftrightarrow> x \<in> H"
| "mutex_ok (Trylock x) H \<longleftrightarrow> False"
| "mutex_ok (MInit x) H \<longleftrightarrow> False"
| "mutex_ok (MDestroy x) H \<longleftrightarrow> False"
| "mutex_ok _ H \<longleftrightarrow> True"

fun cond_ok :: "('m, 'c, 's, 'p) call \<Rightarrow> ('c \<Rightarrow> bool) \<Rightarrow> bool" where
  "cond_ok (Wait c x) C \<longleftrightarrow> C c"
| "cond_ok (Timedwait c x d) C \<longleftrightarrow> C c"
| "cond_ok (Signal c) C \<longleftrightarrow> C c"
| "cond_ok (Broadcast c) C \<longleftrightarrow> C c"
| "cond_ok (CInit c) C \<longleftrightarrow> \<not> C c"
| "cond_ok (CDestroy c) C \<longleftrightarrow> C c"
| "cond_ok _ C \<longleftrightarrow> True"

locale lock_tracking =
  fixes allow :: "'p policy"
    and code :: "'p \<Rightarrow> ('m, 'c, 's, 'p) act"
    and holds :: "'p \<Rightarrow> 'm set"
  assumes tracks: "code p = Do c k \<Longrightarrow> allow p r \<Longrightarrow> answer_ok c r m n \<Longrightarrow>
      k r m' = (m'', p') \<Longrightarrow> holds p' \<subseteq> held_after c r (holds p)"
    and starts_free: "code p = Do (Create store q) k \<Longrightarrow> holds q = {}"
begin

lemma tracked_acted:
  assumes tr: "tracked holds s" and t: "t < length (threads s)" and p: "code (fst (threads s ! t)) = Do c k"
    and a: "allow (fst (threads s ! t)) r" and ac: "acted code c k t r s s'"
    and keep: "\<And>x u. mtx s x = Held u \<Longrightarrow> u \<noteq> t \<Longrightarrow> mtx s' x = Held u"
    and mine: "\<And>x. x \<in> held_after c r (holds (fst (threads s ! t))) \<Longrightarrow> mtx s' x = Held t"
  shows "tracked holds s'"
  unfolding tracked_def
proof (intro allI impI ballI)
  fix u x assume u: "u < length (threads s')" and x: "x \<in> holding holds (threads s' ! u)"
  obtain p' where k: "answer_ok c r (mem s) (now s)"
      "k r (entry_mem c r (length (threads s)) (mem s)) = (mem s', p')"
      "pcs s' = (pcs s)[t := p'] @ spawned c r"
    using ac by (auto simp: acted_def returned_def)
  have x': "x \<in> holds (pcs s' ! u)"
    using x u holding_le [of holds "fst (threads s' ! u)" "snd (threads s' ! u)"] by auto
  consider "u = t" | "u < length (threads s)" "u \<noteq> t" | "length (threads s) \<le> u" by linarith
  then show "mtx s' x = Held u"
  proof cases
    case 1
    then have "x \<in> holds p'" using x' k(3) t by (simp add: nth_append)
    then show ?thesis using tracks [OF p a k(1,2)] mine 1 by auto
  next
    case 2
    then have "threads s' ! u = threads s ! u \<or> threads s' ! u = rouse 0 (threads s ! u)"
      using ac by (simp add: acted_def)
    then have "x \<in> holding holds (threads s ! u)" using x by auto
    then show ?thesis using trackedD [OF tr 2(1)] keep 2(2) by simp
  next
    case 3
    have "length (threads s') = length (threads s) + length (spawned c r)"
      using ac by (simp add: acted_def)
    then have "pcs s' ! u \<in> set (spawned c r)"
      using 3 u k(3) by (simp add: nth_append)
    then have "holds (pcs s' ! u) = {}" using p starts_free by (cases c) (auto split: if_splits)
    then show ?thesis using x' by simp
  qed
qed

lemma tracked_exec:
  assumes tr: "tracked holds s" and t: "t < length (threads s)"
    and ex: "exec_thread allow code t r s = Some s'"
  shows "tracked holds s'"
proof -
  obtain p x where px: "threads s ! t = (p, x)" by (cases "threads s ! t")
  show ?thesis
  proof (cases x)
    case Ready
    have mine: "mtx s y = Held t" if "y \<in> holds p" for y using trackedD [OF tr t] px Ready that by simp
    show ?thesis
    proof (cases "code p")
      case (Do c k)
      with ex px Ready have pf: "perform code c k p t r s = Some s'" and al: "allow p r"
        by (auto simp: exec_thread_def split: if_splits)
      have halted: ?thesis if "s' = halt Undefined s"
        using tr that by (simp add: tracked_def halt_def)
      from perform_effect [OF pf t] px consider "acted code c k t r s s'" "s' \<noteq> halt Undefined s"
        | "r = 0" "slept code c p t s s'" | "s' = halt Undefined s" by auto
      then show ?thesis
      proof cases
        case 1
        have ready: "snd (threads s' ! t) = Ready" using 1 by (simp add: acted_def)
        have "mtx s' y = Held t" if "y \<in> held_after c r (holds p)" for y
        proof (cases "(c = Lock y \<or> c = Trylock y) \<and> r = 0")
          case True
          then show ?thesis using perform_takes [OF pf] 1 by blast
        next
          case False
          then have "y \<in> holds p" "c \<noteq> Unlock y" using that by (cases c; auto split: if_splits)+
          then show ?thesis
            using perform_keeps [OF pf mine] perform_no_wait [of code _ y _ k p t s s'] pf t ready 1(2) by blast
        qed
        then show ?thesis
          using tracked_acted [OF tr t, of c k r s'] perform_keeps [OF pf] px Do al 1 by auto
      next
        case 2
        then obtain d y l where c: "c = wait_call d y l" "threads s' = (threads s)[t := (p, Asleep d y l)]"
          by (auto simp: slept_def)
        have w: "c \<noteq> Unlock z" "d' = d \<and> z = y \<and> l' = l" if "c = wait_call d' z l'" for z d' l'
          using c(1) that by (cases l; cases l'; simp add: wait_call_def)+
        show ?thesis unfolding tracked_def
        proof (intro allI impI ballI)
          fix u z assume "u < length (threads s')" and z: "z \<in> holding holds (threads s' ! u)"
          then have u: "u < length (threads s)" using c by simp
          have "mtx s z = Held u" "u = t \<Longrightarrow> z \<noteq> y"
            using trackedD [OF tr u, of z] mine z c(2) u by (cases "u = t"; simp)+
          moreover have "c \<noteq> Unlock z" using c(1) by (cases l) (simp_all add: wait_call_def)
          ultimately show "mtx s' z = Held u"
            using perform_keeps [OF pf, of z u] w(2) by blast
        qed
      qed (rule halted)
    next
      case (Halt res)
      with ex px Ready tr show ?thesis by (auto simp: exec_thread_def tracked_def halt_def)
    qed (use ex px Ready in \<open>simp add: exec_thread_def\<close>)
  next
    case (Woken y w)
    show ?thesis
    proof (cases "code p")
      case (Do c k)
      with ex px Woken have ok: "allow p r" "wake_ok c y r (now s)" "mtx s y = Free"
        and s': "s' = proceed t k r (set_mtx y (Held t) s)"
        by (auto simp: exec_thread_def split: if_splits)
      have "acted code c k t r s s'"
        unfolding s'
        by (rule acted_proceed [OF returnedI])
           (use ok wake_ok_wait [OF ok(2)] t in \<open>auto intro: wake_ok_answer simp: set_mtx_def\<close>)
      moreover have "held_after c r (holds p) = holds p" using ok(2) by (cases c) auto
      moreover have "mtx s' z = Held t" if "z \<in> holds p" for z
        using trackedD [OF tr t, of z] px Woken that by (auto simp: s' set_mtx_def)
      moreover have "mtx s' z = Held u" if "mtx s z = Held u" for z u
        using that ok(3) by (auto simp: s' set_mtx_def)
      ultimately show ?thesis
        using tracked_acted [OF tr t, of c k r s'] px Do ok(1) by simp
    qed (use ex px Woken in \<open>simp_all add: exec_thread_def\<close>)
  qed (use ex px in \<open>simp add: exec_thread_def\<close>)
qed

lemma tracked_step:
  assumes tr: "tracked holds s" and st: "step allow code e s = Some s'"
  shows "tracked holds s'"
proof (cases e)
  case (Exec t r)
  with st tracked_exec [OF tr] show ?thesis by (auto split: if_splits)
next
  case (Notify t u)
  then have t: "t < length (threads s)" using st by (auto split: if_splits)
  obtain p c k where p: "threads s ! t = (p, Ready)" "code p = Do (Signal c) k" "allow p 0"
    and s': "s' = proceed t k 0 (put_thread u (rouse 0 (threads s ! u)) s)"
    using st Notify by (auto simp: notify_thread_def split: prod.splits tstat.splits act.splits
        call.splits if_splits)
  have "acted code (Signal c) k t 0 s s'"
    unfolding s'
    by (rule acted_proceed [OF returnedI])
       (use t in \<open>auto simp: put_thread_def map_fst_rouse_update nth_update_if\<close>)
  then show ?thesis
    using tracked_acted [OF tr t, of "Signal c" k 0 s'] trackedD [OF tr t] p by (auto simp: s' put_thread_def)
next
  case (Spurious u)
  with st show ?thesis
    using tracked_rest [OF tr] wake_thread_rested wake_thread_mtx by (metis step.simps(3) option.discI)
next
  case (Timeout u)
  with st show ?thesis
    using tracked_rest [OF tr] wake_thread_rested wake_thread_mtx by (metis step.simps(4) option.discI)
next
  case (Cancel u)
  with st show ?thesis
    using tracked_rest [OF tr] wake_thread_rested wake_thread_mtx by (metis step.simps(5) option.discI)
next
  case Tick
  with st tr show ?thesis by (auto simp: tracked_def split: if_splits)
qed

lemma tracked_reach: "reach allow code s0 s \<Longrightarrow> tracked holds s0 \<Longrightarrow> tracked holds s"
  by (induction rule: reach.induct) (auto intro: tracked_step)

text \<open>A thread that works under a mutex works alone.\<close>

lemma tracked_alone:
  assumes tr: "tracked holds s" and aw: "list_all (awake allow code (now s)) (threads s)"
    and t: "t < length (threads s)" "threads s ! t = (p, x)" and p: "code p = Do c k"
    and x: "x = Ready \<or> (\<exists>y w. x = Woken y w \<and> mtx s y = Free)"
    and lock: "\<And>z. c = Lock z \<or> c = Trylock z \<Longrightarrow> r = 0 \<Longrightarrow> mtx s z = Free"
    and p': "holds p' \<subseteq> held_after c r (holds p)"
  shows "alone code holds (pcs s) t p'"
  unfolding alone_def
proof (intro allI impI, rule ccontr)
  fix z u assume z: "z \<in> holds (pcs s ! t) \<union> holds p'" and u: "u < length (pcs s)" "u \<noteq> t"
    "z \<in> holds (pcs s ! u)" "\<not> waiting code z (pcs s ! u)"
  obtain q st where q: "threads s ! u = (q, st)" by (cases "threads s ! u")
  have "awake allow code (now s) (q, st)" using aw u(1) q by (metis length_map list_all_nth)
  then have held: "mtx s z = Held u"
    using not_waiting_holding [of allow code "now s" q st z holds] u q trackedD [OF tr, of u z] by simp
  have "z \<in> holds p \<or> (c = Lock z \<or> c = Trylock z) \<and> r = 0"
    using z t p' by (cases c) (auto split: if_splits)
  then show False
  proof
    assume zp: "z \<in> holds p"
    have "mtx s z = Held t \<or> mtx s z = Free"
      using x zp t trackedD [OF tr t(1), of z] by fastforce
    with held u(2) show False by simp
  qed (use lock held in auto)
qed

text \<open>It does not take a mutex it has.\<close>

lemma tracked_fresh:
  assumes tr: "tracked holds s" and aw: "list_all (awake allow code (now s)) (threads s)"
    and t: "t < length (threads s)" "threads s ! t = (p, x)" and p: "code p = Do c k"
    and c: "c = Lock z \<or> c = Trylock z" and free: "mtx s z = Free"
  shows "z \<notin> holds p"
proof
  assume z: "z \<in> holds p"
  have "awake allow code (now s) (p, x)" using aw t by (metis list_all_nth)
  then have "\<forall>y w. x \<noteq> Woken y w" using p c by auto
  moreover have "\<forall>d y l. x \<noteq> Asleep d y l"
    using \<open>awake allow code (now s) (p, x)\<close> p c by (auto simp: wait_call_def split: option.splits)
  ultimately have "x = Ready" by (cases x) auto
  then show False using trackedD [OF tr t(1), of z] t(2) z free by simp
qed

text \<open>The rules for invariants of such programs: with what is known of a thread that is joined and of the condition variables,
  without the first, and for memory and points only.\<close>

theorem joined_invariant [consumes 3, case_names start tick move]:
  assumes "reach allow code s0 s" and "tracked holds s0"
    and "list_all (awake allow code (now s0)) (threads s0)"
    and start: "I (now s0) (mem s0) (pcs s0) (cnd s0)"
    and tick: "\<And>n m ps C. I n m ps C \<Longrightarrow> I (n + 1) m ps C"
    and move: "\<And>n m ps C t c k r m' p'.
       I n m ps C \<Longrightarrow> t < length ps \<Longrightarrow> code (ps ! t) = Do c k \<Longrightarrow> allow (ps ! t) r \<Longrightarrow>
       answer_ok c r m n \<Longrightarrow> k r (entry_mem c r (length ps) m) = (m', p') \<Longrightarrow>
       alone code holds ps t p' \<Longrightarrow> (\<forall>z. (c = Lock z \<or> c = Trylock z) \<and> r = 0 \<longrightarrow> z \<notin> holds (ps ! t)) \<Longrightarrow>
       (\<forall>d. c = CInit d \<and> r = 0 \<longrightarrow> \<not> C d) \<Longrightarrow>
       (\<forall>u. c = Join u \<and> r = 0 \<longrightarrow> u < length ps \<and> (\<exists>v. code (ps ! u) = Return v)) \<Longrightarrow>
       I n m' ((ps[t := p']) @ spawned c r) (cond_after c r C)"
  shows "I (now s) (mem s) (pcs s) (cnd s)"
  using assms(1)
proof (induction rule: reach.induct)
  case (reach_step s e s')
  note tr = tracked_reach [OF reach_step.hyps(1) assms(2)]
  note aw = reach_awake [OF reach_step.hyps(1) assms(3)]
  from reach_step.hyps(2) show ?case
  proof (cases rule: step_effect)
    case (act t p x c k r)
    then obtain p' where a: "answer_ok c r (mem s) (now s)" "now s' = now s"
        "k r (entry_mem c r (length (threads s)) (mem s)) = (mem s', p')"
        "pcs s' = (pcs s)[t := p'] @ spawned c r" "cnd s' = cond_after c r (cnd s)"
        "\<forall>d. c = CInit d \<and> r = 0 \<longrightarrow> \<not> cnd s d"
      and l: "\<And>z. c = Lock z \<or> c = Trylock z \<Longrightarrow> r = 0 \<Longrightarrow> mtx s z = Free"
      by (auto simp: acted_def returned_def)
    have tp: "pcs s ! t = p" using act(1,2) by simp
    have "alone code holds (pcs s) t p'"
      by (rule tracked_alone [OF tr aw act(1,2,3,5) l tracks [OF act(3,4) a(1,3)]])
    moreover have "\<forall>z. (c = Lock z \<or> c = Trylock z) \<and> r = 0 \<longrightarrow> z \<notin> holds p"
      using tracked_fresh [OF tr aw act(1,2,3)] l by blast
    moreover have "\<forall>u. c = Join u \<and> r = 0 \<longrightarrow> u < length (pcs s) \<and> (\<exists>v. code (pcs s ! u) = Return v)"
      using act(7) by (simp only: length_map)
    ultimately have "I (now s) (mem s') ((pcs s)[t := p'] @ spawned c r) (cond_after c r (cnd s))"
      by (intro move [where k = k, OF reach_step.IH]) (use act(1,3,4) a tp in \<open>simp_all only: length_map\<close>)
    then show ?thesis using a by simp
  next
    case (sleep t p c k)
    then have "pcs s' = pcs s" by (auto simp: slept_def map_fst_update_same)
    moreover have "mem s' = mem s" "now s' = now s" "cnd s' = cnd s" using sleep(5) by (auto simp: slept_def)
    ultimately show ?thesis using reach_step.IH by simp
  next
    case rest
    then have "mem s' = mem s" "now s' = now s \<or> now s' = now s + 1" "cnd s' = cnd s" by (auto simp: rested_def)
    then show ?thesis using reach_step.IH tick [of "now s" "mem s" "pcs s" "cnd s"] rested_pcs [OF rest(1)] by auto
  qed
qed (rule start)

theorem object_invariant [consumes 3, case_names start tick move]:
  assumes "reach allow code s0 s" and "tracked holds s0"
    and "list_all (awake allow code (now s0)) (threads s0)"
    and start: "I (now s0) (mem s0) (pcs s0) (cnd s0)"
    and tick: "\<And>n m ps C. I n m ps C \<Longrightarrow> I (n + 1) m ps C"
    and move: "\<And>n m ps C t c k r m' p'.
       I n m ps C \<Longrightarrow> t < length ps \<Longrightarrow> code (ps ! t) = Do c k \<Longrightarrow> allow (ps ! t) r \<Longrightarrow>
       answer_ok c r m n \<Longrightarrow> k r (entry_mem c r (length ps) m) = (m', p') \<Longrightarrow>
       alone code holds ps t p' \<Longrightarrow> (\<forall>z. (c = Lock z \<or> c = Trylock z) \<and> r = 0 \<longrightarrow> z \<notin> holds (ps ! t)) \<Longrightarrow>
       (\<forall>d. c = CInit d \<and> r = 0 \<longrightarrow> \<not> C d) \<Longrightarrow>
       I n m' ((ps[t := p']) @ spawned c r) (cond_after c r C)"
  shows "I (now s) (mem s) (pcs s) (cnd s)"
  by (rule joined_invariant [where I = I, OF assms(1-3) start tick move])

theorem tracked_invariant [consumes 3, case_names start tick move]:
  assumes "reach allow code s0 s" and "tracked holds s0"
    and "list_all (awake allow code (now s0)) (threads s0)"
    and start: "I (now s0) (mem s0) (pcs s0)"
    and tick: "\<And>n m ps. I n m ps \<Longrightarrow> I (n + 1) m ps"
    and move: "\<And>n m ps t c k r m' p'.
       I n m ps \<Longrightarrow> t < length ps \<Longrightarrow> code (ps ! t) = Do c k \<Longrightarrow> allow (ps ! t) r \<Longrightarrow>
       answer_ok c r m n \<Longrightarrow> k r (entry_mem c r (length ps) m) = (m', p') \<Longrightarrow>
       alone code holds ps t p' \<Longrightarrow> (\<forall>z. (c = Lock z \<or> c = Trylock z) \<and> r = 0 \<longrightarrow> z \<notin> holds (ps ! t)) \<Longrightarrow>
       I n m' ((ps[t := p']) @ spawned c r)"
  shows "I (now s) (mem s) (pcs s)"
  by (rule object_invariant [where I = "\<lambda>n m ps C. I n m ps", OF assms(1-3) start tick move])

text \<open>
  Absence of undefined behaviour, for programs whose mutexes are static and which create and
  destroy condition variables: the annotation covers the mutexes the calls need, the objects are
  as the calls need them, and nobody waits for a condition variable that is destroyed.
\<close>

theorem no_undefined_objects:
  assumes r: "reach allow code s0 s" and tr: "tracked holds s0"
    and aw: "list_all (awake allow code (now s0)) (threads s0)"
    and raw: "\<And>x. mtx s0 x \<noteq> Raw" and e0: "ended s0 = None"
    and mutexes: "\<And>p c k. code p = Do c k \<Longrightarrow> mutex_ok c (holds p)"
    and conds: "\<And>s t c k. reach allow code s0 s \<Longrightarrow> t < length (threads s) \<Longrightarrow> code (pcs s ! t) = Do c k \<Longrightarrow>
      cond_ok c (cnd s) \<and> (\<forall>d u x l k. c = CDestroy d \<longrightarrow> u < length (threads s) \<longrightarrow> u \<noteq> t \<longrightarrow>
        code (pcs s ! u) \<noteq> Do (wait_call d x l) k)"
    and halts: "\<And>s p. reach allow code s0 s \<Longrightarrow> p \<in> set (pcs s) \<Longrightarrow> code p \<noteq> Halt Undefined"
  shows "ended s \<noteq> Some Undefined"
proof
  assume e: "ended s = Some Undefined"
  have no_try: "code p \<noteq> Do (Trylock x) k" for p x k using mutexes [of p "Trylock x" k] by auto
  have no_destroy: "code p \<noteq> Do (MDestroy x) k" for p x k using mutexes [of p "MDestroy x" k] by auto
  obtain s1 where s1: "reach allow code s0 s1" "ended s1 = None"
    "(\<exists>p \<in> set (pcs s1). code p = Halt Undefined) \<or> misused allow code s1"
    by (rule undefined_cases [OF r e0 e no_try])
  then obtain t p c k where t: "t < length (threads s1)" "threads s1 ! t = (p, Ready)" "code p = Do c k"
    "misuse c t s1"
    using halts [OF s1(1)] unfolding misused_def by blast
  have pt: "pcs s1 ! t = p" using t by simp
  have held: "mtx s1 x = Held t" if "x \<in> holds p" for x
    using trackedD [OF tracked_reach [OF s1(1) tr] t(1)] t(2) that by simp
  have nr: "mtx s1 x \<noteq> Raw" for x by (rule never_raw [OF s1(1) raw no_destroy])
  have ok: "mutex_ok c (holds p)" "cond_ok c (cnd s1)" using mutexes t(3) conds [OF s1(1) t(1)] pt by auto
  have "\<not> list_ex (on_cond d) (threads s1)" if c: "c = CDestroy d" for d
  proof
    assume "list_ex (on_cond d) (threads s1)"
    then obtain u where u: "u < length (threads s1)" "on_cond d (threads s1 ! u)" by (auto simp: list_ex_length)
    then obtain q x l where q: "threads s1 ! u = (q, Asleep d x l)"
      by (cases "(d, threads s1 ! u)" rule: on_cond.cases) auto
    have "awake allow code (now s1) (q, Asleep d x l)"
      using reach_awake [OF s1(1) aw] u(1) q by (metis list_all_nth)
    then obtain k' where "code q = Do (wait_call d x l) k'" by auto
    moreover have "u \<noteq> t" using t(2) q by auto
    ultimately show False using conds [OF s1(1) t(1)] pt t(3) c u(1) q by fastforce
  qed
  then show False using t(4) ok held nr by (cases c) auto
qed

end

end
