(* ===== verification/Discipline.thy ===== *)
theory Discipline
  imports Tracking
begin

text \<open>
  The contracts a code table can be checked against, point by point, and what they give for
  every run of the process: \<open>lock_discipline\<close> (mutual exclusion, no undefined behaviour),
  \<open>leaf_locks\<close> (a thread that holds a mutex is never blocked, so a process only stops when
  all its threads sleep or have ended) and \<open>conservation\<close> (a counter in the shared memory
  equals the sum of what the threads contribute to it). The last section is the opposite:
  a thread that takes a mutex it holds already is blocked for ever.
\<close>

section \<open>The locking discipline\<close>

fun call_ok :: "('m, 'c, 's, 'p) call \<Rightarrow> 'm set \<Rightarrow> bool" where
  "call_ok (Lock x) H \<longleftrightarrow> x \<notin> H"
| "call_ok (Unlock x) H \<longleftrightarrow> x \<in> H"
| "call_ok (Wait c x) H \<longleftrightarrow> x \<in> H"
| "call_ok (Timedwait c x d) H \<longleftrightarrow> x \<in> H"
| "call_ok (MInit x) H \<longleftrightarrow> False"
| "call_ok (MDestroy x) H \<longleftrightarrow> False"
| "call_ok (CInit c) H \<longleftrightarrow> False"
| "call_ok (CDestroy c) H \<longleftrightarrow> False"
| "call_ok _ H \<longleftrightarrow> True"

definition locked_inv ::
  "('p \<Rightarrow> ('m, 'c, 's, 'p) act) \<Rightarrow> ('p \<Rightarrow> 'm set) \<Rightarrow> ('m, 'c, 's, 'p) sys \<Rightarrow> bool" where
  "locked_inv code holds s \<longleftrightarrow>
     (\<forall>x. mtx s x \<noteq> Raw) \<and> (\<forall>c. cnd s c) \<and>
     (\<forall>x t. mtx s x = Held t \<longleftrightarrow> t < length (threads s) \<and> x \<in> holding holds (threads s ! t)) \<and>
     (ended s = Some Undefined \<longrightarrow> (\<exists>p \<in> set (pcs s). code p = Halt Undefined))"

lemma locked_invD:
  assumes "locked_inv code holds s"
  shows "mtx s x \<noteq> Raw" and "cnd s c"
    and "mtx s x = Held t \<longleftrightarrow> t < length (threads s) \<and> x \<in> holding holds (threads s ! t)"
  using assms unfolding locked_inv_def by blast+

lemma locked_tracked: "locked_inv code holds s \<Longrightarrow> tracked holds s"
  by (simp add: tracked_def locked_invD(3))

lemma locked_inv_boot:
  "list_all (\<lambda>p. holds p = {}) ps \<Longrightarrow> locked_inv code holds (boot m ps)"
  by (auto simp: locked_inv_def list_all_iff)

lemma locked_inv_same:
  assumes "locked_inv code holds s" and "mtx s' = mtx s" and "cnd s' = cnd s"
    and "length (threads s') = length (threads s)"
    and "\<And>t. t < length (threads s) \<Longrightarrow>
       holding holds (threads s' ! t) = holding holds (threads s ! t)"
    and "pcs s' = pcs s" and "ended s' = ended s"
  shows "locked_inv code holds s'"
  using assms unfolding locked_inv_def by auto

lemma locked_inv_update:
  assumes "locked_inv code holds s" and "t < length (threads s)"
    and "threads s' = (threads s)[t := y]" and "cnd s' = cnd s" and "ended s' = None"
    and "\<And>x. mtx s' x \<noteq> Raw"
    and "\<And>x. mtx s' x = Held t \<longleftrightarrow> x \<in> holding holds y"
    and "\<And>x u. u \<noteq> t \<Longrightarrow> mtx s' x = Held u \<longleftrightarrow> mtx s x = Held u"
  shows "locked_inv code holds s'"
  unfolding locked_inv_def
proof (intro conjI allI impI)
  fix x u
  show "(mtx s' x = Held u) = (u < length (threads s') \<and> x \<in> holding holds (threads s' ! u))"
    using assms locked_invD(3) [OF assms(1), of x u] by (cases "u = t") auto
qed (use assms locked_invD [OF assms(1)] in auto)

lemma locked_inv_append:
  assumes "locked_inv code holds s" and "holds q = {}" and "ended s = None"
  shows "locked_inv code holds (s\<lparr>threads := threads s @ [(q, Ready)]\<rparr>)"
  using assms unfolding locked_inv_def
  by (auto simp: nth_append less_Suc_eq not_less)

lemma locked_inv_rouse_all:
  assumes "locked_inv code holds s"
  shows "locked_inv code holds (s\<lparr>threads := rouse_all c (threads s)\<rparr>)"
  by (rule locked_inv_same [OF assms]) (auto simp: rouse_all_def)

lemma locked_inv_rouse:
  assumes "locked_inv code holds s"
  shows "locked_inv code holds (put_thread u (rouse r (threads s ! u)) s)"
proof (rule locked_inv_same [OF assms])
  fix t assume "t < length (threads s)"
  then show "holding holds (threads (put_thread u (rouse r (threads s ! u)) s) ! t) = holding holds (threads s ! t)"
    by (cases "u = t") (auto simp: put_thread_def)
qed (auto simp: put_thread_def map_fst_rouse_update)

lemma locked_inv_mem:
  "locked_inv code holds s \<Longrightarrow> locked_inv code holds (s\<lparr>mem := m\<rparr>)"
  "locked_inv code holds s \<Longrightarrow> locked_inv code holds (s\<lparr>now := n\<rparr>)"
  by (auto simp: locked_inv_def)

lemma locked_sleep:
  assumes inv: "locked_inv code holds s" and t: "t < length (threads s)" "threads s ! t = (p, Ready)"
    and e: "ended s = None" and held: "mtx s x = Held t"
  shows "locked_inv code holds (put_thread t (p, Asleep d x l) (set_mtx x Free s))"
proof (rule locked_inv_update [OF inv t(1), where y = "(p, Asleep d x l)"])
  fix y
  show "mtx (put_thread t (p, Asleep d x l) (set_mtx x Free s)) y \<noteq> Raw"
    using locked_invD(1) [OF inv, of y] by (simp add: effect_defs)
  show "mtx (put_thread t (p, Asleep d x l) (set_mtx x Free s)) y = Held t \<longleftrightarrow>
      y \<in> holding holds (p, Asleep d x l)"
    using locked_invD(3) [OF inv, of y t] t by (simp add: effect_defs)
  fix u assume "u \<noteq> t"
  then show "mtx (put_thread t (p, Asleep d x l) (set_mtx x Free s)) y = Held u \<longleftrightarrow> mtx s y = Held u"
    using held by (simp add: effect_defs)
qed (use e in \<open>simp_all add: effect_defs\<close>)

locale lock_discipline =
  fixes allow :: "'p policy"
    and code :: "'p \<Rightarrow> ('m, 'c, 's, 'p) act"
    and holds :: "'p \<Rightarrow> 'm set"
  assumes held_moves: "code p = Do c k \<Longrightarrow> allow p r \<Longrightarrow> answer_ok c r m n \<Longrightarrow>
      k r m' = (m'', p') \<Longrightarrow> holds p' = held_after c r (holds p)"
    and calls_ok: "code p = Do c k \<Longrightarrow> call_ok c (holds p)"
    and spawn_free: "code p = Do (Create store q) k \<Longrightarrow> holds q = {}"

sublocale lock_discipline < lock_tracking allow code holds
  using held_moves spawn_free by unfold_locales blast+

context lock_discipline
begin

lemma locked_proceed:
  assumes inv: "locked_inv code holds s" and t: "t < length (threads s)"
    and p: "code (fst (threads s ! t)) = Do c k" and "allow (fst (threads s ! t)) r"
    and "answer_ok c r m n" and ended: "ended s = None"
    and mt: "\<And>x. mtx s' x \<noteq> Raw" "\<And>x. mtx s' x = Held t \<longleftrightarrow> x \<in> held_after c r (holds (fst (threads s ! t)))"
    "\<And>x u. u \<noteq> t \<Longrightarrow> mtx s' x = Held u \<longleftrightarrow> mtx s x = Held u"
    and same: "threads s' = threads s" "cnd s' = cnd s" "ended s' = None"
  shows "locked_inv code holds (proceed t k r s')"
proof -
  obtain m' p' where k: "k r (mem s') = (m', p')" by (cases "k r (mem s')")
  have h: "holds p' = held_after c r (holds (fst (threads s ! t)))"
    using held_moves [OF p assms(4,5) k] .
  show ?thesis
    unfolding proceed_eq [of k r s' m' p', OF k]
    by (rule locked_inv_update [OF inv t, where y = "(p', Ready)"]) (use mt same h in auto)
qed

lemma locked_proceed_same:
  assumes inv: "locked_inv code holds s" and t: "t < length (threads s)" "threads s ! t = (p, Ready)"
    and p: "code p = Do c k" and "allow p r" and "answer_ok c r m n" and "ended s = None"
    and "held_after c r (holds p) = holds p"
  shows "locked_inv code holds (proceed t k r s)"
  by (rule locked_proceed [OF inv t(1)])
     (use assms locked_invD [OF inv] in auto)

lemma locked_perform:
  assumes inv: "locked_inv code holds s" and t: "t < length (threads s)" "threads s ! t = (p, Ready)"
    and p: "code p = Do c k" and a: "allow p r" and e: "ended s = None"
    and s': "perform code c k p t r s = Some s'"
  shows "locked_inv code holds s'"
proof -
  note D = locked_invD [OF inv]
  have ok: "call_ok c (holds p)" by (rule calls_ok [OF p])
  have mine: "mtx s x = Held t \<longleftrightarrow> x \<in> holds p" for x using D(3) [of x t] t by simp
  have PS: "locked_inv code holds (proceed t k r' s)"
    if "r' = r" "answer_ok c r (mem s) (now s)" "held_after c r (holds p) = holds p" for r'
    unfolding that(1) by (rule locked_proceed_same [OF inv t p a that(2) e that(3)])
  have PL: "locked_inv code holds (proceed t k 0 (set_mtx x v s))"
    if "r = 0" "answer_ok c 0 (mem s) (now s)" "v \<noteq> Raw" "\<forall>u. u \<noteq> t \<longrightarrow> mtx s x \<noteq> Held u \<and> v \<noteq> Held u"
      "held_after c 0 (holds p) = (if v = Held t then insert x (holds p) else holds p - {x})" for x v
    by (rule locked_proceed [OF inv t(1), of c k 0 "mem s" "now s"])
       (use t p a e that D(1,2) mine in \<open>auto simp: set_mtx_def\<close>)
  show ?thesis
  proof (cases c)
    case Tau
    with s' show ?thesis by (auto intro!: PS split: if_splits)
  next
    case (Lock x)
    show ?thesis
    proof (cases "mtx s x")
      case Free
      with s' Lock mine [of x] show ?thesis by (auto intro!: PS PL split: if_splits)
    qed (use s' Lock D(1) [of x] in \<open>auto intro!: PS split: if_splits\<close>)
  next
    case (Trylock x)
    show ?thesis
    proof (cases "mtx s x")
      case Free
      with s' Trylock mine [of x] show ?thesis by (auto intro!: PS PL split: if_splits)
    qed (use s' Trylock D(1) [of x] in \<open>auto intro!: PS split: if_splits\<close>)
  next
    case (Unlock x)
    then have "mtx s x = Held t" using ok mine by simp
    with s' Unlock show ?thesis by (auto intro!: PL split: if_splits)
  next
    case (Wait d x)
    then have held: "mtx s x = Held t" using ok mine [of x] by simp
    show ?thesis
    proof (cases "r = 0")
      case True
      with s' Wait held D(2) [of d]
      have "s' = put_thread t (p, Asleep d x None) (set_mtx x Free s)" by simp
      then show ?thesis using locked_sleep [OF inv t e held] by simp
    qed (use s' Wait in \<open>auto intro!: PS split: if_splits\<close>)
  next
    case (Timedwait d x l)
    then have held: "mtx s x = Held t" using ok mine [of x] by simp
    show ?thesis
    proof (cases "r = 0")
      case True
      with s' Timedwait held D(2) [of d]
      have "s' = put_thread t (p, Asleep d x (Some l)) (set_mtx x Free s)" by simp
      then show ?thesis using locked_sleep [OF inv t e held] by simp
    qed (use s' Timedwait in \<open>auto intro!: PS split: if_splits\<close>)
  next
    case (Signal d)
    with s' D(2) [of d] show ?thesis by (auto intro!: PS split: if_splits)
  next
    case (Broadcast d)
    let ?s = "s\<lparr>threads := rouse_all d (threads s)\<rparr>"
    have inv': "locked_inv code holds ?s" by (rule locked_inv_rouse_all [OF inv])
    have "locked_inv code holds (proceed t k r ?s)" if "r = 0"
      by (rule locked_proceed_same [OF inv', of t p c k r "mem s" "now s"])
         (use t p a e that Broadcast in \<open>auto simp: rouse_all_def\<close>)
    with s' D(2) [of d] Broadcast show ?thesis by (auto intro!: PS split: if_splits)
  next
    case (Create store q)
    let ?s = "s\<lparr>mem := store (length (threads s)) (mem s)\<rparr>"
    have "locked_inv code holds (proceed t k 0 ?s)" if "r = 0"
      by (rule locked_proceed_same [OF locked_inv_mem(1) [OF inv, of "store (length (threads s)) (mem s)"], of t p c k 0 "mem s" "now s"])
         (use t p a e that Create in auto)
    moreover have "ended (proceed t k 0 ?s) = None" using e
      by (simp add: proceed_def put_thread_def split: prod.splits)
    ultimately show ?thesis
      using s' Create spawn_free [of p store q k] p
      by (auto intro!: PS locked_inv_append simp: Let_def split: if_splits)
  next
    case (Join u)
    with s' show ?thesis by (auto intro!: PS split: if_splits)
  next
    case (Env g)
    with s' show ?thesis by (auto intro!: PS split: if_splits)
  next
    case Clock
    with s' show ?thesis by (auto intro!: PS split: if_splits)
  qed (use ok in simp_all)
qed

lemma locked_woken:
  assumes inv: "locked_inv code holds s" and t: "t < length (threads s)" "threads s ! t = (p, Woken x w)"
    and p: "code p = Do c k" and a: "allow p w" and ok: "wake_ok c x w (now s)" and e: "ended s = None"
    and free: "mtx s x = Free"
  shows "locked_inv code holds (proceed t k w (set_mtx x (Held t) s))"
proof -
  have "held_after c w (holds p) = holds p" "x \<in> holds p"
    using ok calls_ok [OF p] by (cases c; auto)+
  moreover have "mtx s y = Held t \<longleftrightarrow> y \<in> holds p - {x}" for y
    using locked_invD(3) [OF inv, of y t] t by simp
  ultimately show ?thesis
    by (intro locked_proceed [OF inv t(1), of c k w "mem s" "now s"])
       (use t p a e free locked_invD(1,2) [OF inv] wake_ok_answer [OF ok, of "mem s"] in
        \<open>auto simp: set_mtx_def\<close>)
qed

lemma locked_wake_thread:
  "locked_inv code holds s \<Longrightarrow> wake_thread r ok u s = Some s' \<Longrightarrow> locked_inv code holds s'"
  using locked_inv_rouse [of code holds s u r]
  by (auto simp: wake_thread_def split: prod.splits tstat.splits if_splits)

lemma locked_step:
  assumes inv: "locked_inv code holds s" and st: "step allow code e s = Some s'"
  shows "locked_inv code holds s'"
proof (cases e)
  case (Exec t r)
  then have t: "t < length (threads s)" "ended s = None" and ex: "exec_thread allow code t r s = Some s'"
    using st by (auto split: if_splits)
  obtain p x where px: "threads s ! t = (p, x)" by (cases "threads s ! t")
  show ?thesis
  proof (cases x)
    case Ready
    show ?thesis
    proof (cases "code p")
      case (Do c k)
      then show ?thesis
        using locked_perform [OF inv t(1), of p c k r s'] px Ready ex t(2)
        by (auto simp: exec_thread_def split: if_splits)
    next
      case (Halt res)
      with ex px Ready have "s' = halt res s" by (simp add: exec_thread_def)
      moreover have "p \<in> set (pcs s)" using t(1) px by (force simp: in_set_conv_nth)
      ultimately show ?thesis using inv Halt by (auto simp: locked_inv_def halt_def)
    qed (use ex px Ready in \<open>simp add: exec_thread_def\<close>)
  next
    case (Woken y w)
    with ex px locked_woken [OF inv t(1), of p y w] t(2) show ?thesis
      by (auto simp: exec_thread_def split: act.splits if_splits)
  qed (use ex px in \<open>simp add: exec_thread_def\<close>)
next
  case (Notify t u)
  then have t: "t < length (threads s)" "ended s = None"
    using st by (auto split: if_splits)
  obtain p c k where p: "threads s ! t = (p, Ready)" "code p = Do (Signal c) k" "allow p 0"
    and u: "on_cond c (threads s ! u)"
    and s': "s' = proceed t k 0 (put_thread u (rouse 0 (threads s ! u)) s)"
    using st Notify by (auto simp: notify_thread_def split: prod.splits tstat.splits act.splits
        call.splits if_splits)
  have "u \<noteq> t" using u p by auto
  show ?thesis
    unfolding s'
    by (rule locked_proceed_same [OF locked_inv_rouse [OF inv, of u 0], of t p "Signal c" k 0 "mem s" "now s"])
       (use t p \<open>u \<noteq> t\<close> in \<open>auto simp: put_thread_def\<close>)
next
  case (Spurious u)
  with st show ?thesis by (auto intro: locked_wake_thread [OF inv] split: if_splits)
next
  case (Timeout u)
  with st show ?thesis by (auto intro: locked_wake_thread [OF inv] split: if_splits)
next
  case (Cancel u)
  with st show ?thesis by (auto intro: locked_wake_thread [OF inv] split: if_splits)
next
  case Tick
  with st locked_inv_mem(2) [OF inv] show ?thesis by (auto split: if_splits)
qed

lemma locked_reach:
  assumes "reach allow code s0 s" and "locked_inv code holds s0"
  shows "locked_inv code holds s"
  using assms by (induction rule: reach.induct) (auto intro: locked_step)

lemma mutual_exclusion:
  assumes "reach allow code s0 s" and "locked_inv code holds s0"
    and "t < length (threads s)" and "u < length (threads s)"
    and "x \<in> holding holds (threads s ! t)" and "x \<in> holding holds (threads s ! u)"
  shows "t = u"
proof -
  note D = locked_invD(3) [OF locked_reach [OF assms(1,2)]]
  have "mtx s x = Held t" and "mtx s x = Held u" using D assms(3-) by auto
  then show ?thesis by simp
qed

lemmas exclusive_invariant [consumes 3, case_names start tick move] =
  tracked_invariant [OF _ locked_tracked]

lemma no_undefined:
  assumes "reach allow code s0 s" and "locked_inv code holds s0"
    and "\<And>p. p \<in> set (pcs s) \<Longrightarrow> code p \<noteq> Halt Undefined"
  shows "ended s \<noteq> Some Undefined"
  using locked_reach [OF assms(1,2)] assms(3) by (auto simp: locked_inv_def)

end

section \<open>Progress\<close>

text \<open>A parked thread is not going to move by itself: it sleeps, has returned, or joins a thread
  that is still running.\<close>

fun parked :: "('p \<Rightarrow> ('m, 'c, 's, 'p) act) \<Rightarrow> ('m, 'c, 's, 'p) sys \<Rightarrow> 'p \<times> ('m, 'c) tstat \<Rightarrow> bool" where
  "parked code s (p, Asleep c x l) \<longleftrightarrow> True"
| "parked code s (p, Woken x w) \<longleftrightarrow> False"
| "parked code s (p, Ready) \<longleftrightarrow>
     (case code p of Return v \<Rightarrow> True | Do (Join u) k \<Rightarrow> \<not> finished code u s | _ \<Rightarrow> False)"

text \<open>The events that are steps of the threads, not of the environment.\<close>

fun acts :: "event \<Rightarrow> bool" where
  "acts (Exec t r) = True"
| "acts (Notify t u) = True"
| "acts _ = False"

fun responsive :: "'p policy \<Rightarrow> 'p \<Rightarrow> ('m, 'c, 's, 'p) call \<Rightarrow> 's \<Rightarrow> int \<Rightarrow> bool" where
  "responsive allow p (Env g) m n \<longleftrightarrow> (\<exists>r. allow p r \<and> g r m)"
| "responsive allow p Clock m n \<longleftrightarrow> allow p n"
| "responsive allow p (Trylock x) m n \<longleftrightarrow> allow p 0 \<and> allow p EBUSY"
| "responsive allow p c m n \<longleftrightarrow> allow p 0"

lemma ready_can_act:
  assumes "ended s = None" and t: "t < length (threads s)" "threads s ! t = (p, Ready)"
    and p: "code p = Do c k" and resp: "responsive allow p c (mem s) (now s)"
    and lock: "\<And>x. c = Lock x \<Longrightarrow> mtx s x = Free \<or> mtx s x = Raw" and join: "\<And>u. c = Join u \<Longrightarrow> finished code u s"
  shows "\<exists>e s'. acts e \<and> step allow code e s = Some s'"
proof -
  have E: "\<exists>e s'. acts e \<and> step allow code e s = Some s'"
    if "allow p r" "perform code c k p t r s \<noteq> None" for r
    by (rule exI [of _ "Exec t r"]) (use assms that in \<open>simp add: exec_thread_def\<close>)
  show ?thesis
  proof (cases c)
    case (Signal d)
    show ?thesis
    proof (cases "cnd s d \<and> list_ex (on_cond d) (threads s)")
      case True
      then obtain u where "u < length (threads s)" "on_cond d (threads s ! u)"
        by (auto simp: list_ex_length)
      then show ?thesis
        by (intro exI [of _ "Notify t u"])
           (use assms(1) t p resp Signal True in \<open>simp add: notify_thread_def\<close>)
    next
      case False
      then show ?thesis using E [of 0] resp Signal by (cases "cnd s d") auto
    qed
  next
    case (Trylock x)
    show ?thesis
      by (cases "mtx s x") (use E [of 0] E [of EBUSY] resp Trylock in auto)
  next
    case (Lock x)
    with lock [of x] show ?thesis using E [of 0] resp by auto
  next
    case (Join u)
    with join [of u] show ?thesis using E [of 0] resp by auto
  next
    case (Env g)
    then obtain r where "allow p r" "g r (mem s)" using resp by auto
    with E [of r] Env show ?thesis by simp
  next
    case Clock
    with E [of "now s"] resp show ?thesis by simp
  qed (use E [of 0] resp in \<open>simp_all add: Let_def split: if_splits\<close>)
qed

lemma woken_can_act:
  assumes "ended s = None" and t: "t < length (threads s)" "threads s ! t = (p, Woken x w)"
    and "awake allow code (now s) (p, Woken x w)" and "mtx s x = Free"
  shows "\<exists>e s'. acts e \<and> step allow code e s = Some s'"
  by (rule exI [of _ "Exec t w"]) (use assms in \<open>auto simp: exec_thread_def\<close>)

text \<open>
  A locking discipline in which a thread never blocks while it holds a mutex: it takes one
  mutex at a time and does not join. Then a process whose threads are not all parked can
  always take a step of its own.
\<close>

locale leaf_locks = lock_discipline allow code holds
  for allow :: "'p policy"
    and code :: "'p \<Rightarrow> ('m, 'c, 's, 'p) act"
    and holds :: "'p \<Rightarrow> 'm set" +
  assumes leaf_wait: "code p = Do (wait_call d x l) k \<Longrightarrow> holds p = {x}"
    and leaf_lock: "code p = Do (Lock x) k \<Longrightarrow> holds p = {}"
    and leaf_join: "code p = Do (Join u) k \<Longrightarrow> holds p = {}"
    and leaf_return: "code p = Return v \<Longrightarrow> holds p = {}"
    and responds: "code p = Do c k \<Longrightarrow> responsive allow p c m n"
begin

lemma holder_ready:
  assumes "awake allow code n y" and "x \<in> holding holds y"
  obtains p where "y = (p, Ready)" and "x \<in> holds p"
proof (cases y)
  case (Pair p st)
  show ?thesis
  proof (cases st)
    case Ready
    with Pair assms that show ?thesis by simp
  next
    case (Asleep c z l)
    with Pair assms leaf_wait [of p c z l] show ?thesis by auto
  next
    case (Woken z w)
    with Pair assms obtain c k where c: "code p = Do c k" "wake_ok c z w n" by auto
    have "\<exists>d l. c = wait_call d z l" using c(2) by (rule wake_ok_wait_call)
    with leaf_wait [of p] c(1) have "holds p = {z}" by auto
    with Pair Woken assms show ?thesis by simp
  qed
qed

lemma progress:
  assumes r: "reach allow code s0 s" and "locked_inv code holds s0"
    and "list_all (awake allow code (now s0)) (threads s0)"
    and e: "ended s = None" and t: "t < length (threads s)" "\<not> parked code s (threads s ! t)"
  shows "\<exists>e s'. acts e \<and> step allow code e s = Some s'"
proof -
  note inv = locked_reach [OF r assms(2)]
  have aw: "awake allow code (now s) (threads s ! u)" if "u < length (threads s)" for u
    using reach_awake [OF r assms(3)] that by (simp add: list_all_length)
  have holder: ?thesis if h: "mtx s x = Held u" for x u
  proof -
    have u: "u < length (threads s)" "x \<in> holding holds (threads s ! u)"
      using locked_invD(3) [OF inv] h by auto
    obtain q where q: "threads s ! u = (q, Ready)" "x \<in> holds q"
      using holder_ready [OF aw [OF u(1)] u(2)] .
    show ?thesis
    proof (cases "code q")
      case (Do c k)
      show ?thesis
        by (rule ready_can_act [of s u q code c k allow, OF e u(1) q(1) Do responds [OF Do, of "mem s" "now s"]])
           (use q(2) Do leaf_lock leaf_join in auto)
    next
      case (Return v)
      with leaf_return q(2) show ?thesis by auto
    next
      case (Halt res)
      then show ?thesis
        by (intro exI [of _ "Exec u 0"]) (use e u q in \<open>simp add: exec_thread_def\<close>)
    qed
  qed
  obtain p st where ps: "threads s ! t = (p, st)" by (cases "threads s ! t")
  show ?thesis
  proof (cases st)
    case Ready
    show ?thesis
    proof (cases "code p")
      case (Do c k)
      show ?thesis
      proof (cases "\<exists>x u. c = Lock x \<and> mtx s x = Held u")
        case True
        then show ?thesis using holder by auto
      next
        case False
        then show ?thesis
          by (intro ready_can_act [of s t p code c k allow, OF e t(1) _ Do responds [OF Do, of "mem s" "now s"]])
             (use ps Ready t(2) Do in \<open>auto intro: mstat.exhaust\<close>)
      qed
    next
      case (Halt res)
      then show ?thesis
        by (intro exI [of _ "Exec t 0"]) (use e t ps Ready in \<open>simp add: exec_thread_def\<close>)
    qed (use t ps Ready in simp)
  next
    case (Woken x w)
    show ?thesis
    proof (cases "mtx s x")
      case Raw
      with locked_invD(1) [OF inv] show ?thesis by auto
    next
      case Free
      then show ?thesis using woken_can_act [OF e t(1)] ps Woken aw [OF t(1)] by simp
    qed (use holder in auto)
  qed (use t ps in simp)
qed

end

section \<open>Conservation laws\<close>

locale conservation =
  fixes allow :: "'p policy"
    and code :: "'p \<Rightarrow> ('m, 'c, 's, 'p) act"
    and weight :: "'p \<Rightarrow> int"
    and level :: "'s \<Rightarrow> int"
    and fit :: "'s \<Rightarrow> bool"
  assumes conserve: "code p = Do c k \<Longrightarrow> allow p r \<Longrightarrow> answer_ok c r m n \<Longrightarrow> fit m \<Longrightarrow>
      k r (entry_mem c r l m) = (m', p') \<Longrightarrow>
      fit m' \<and> level m' + weight p = level m + weight p' + tally weight (spawned c r)"
begin

lemma conserved:
  assumes "reach allow code s0 s" and "fit (mem s0)"
  shows "fit (mem s) \<and>
    level (mem s) - tally weight (pcs s) = level (mem s0) - tally weight (pcs s0)"
  using assms(1)
proof (induction rule: reach_invariant)
  case (move n m ps t c k r m' p')
  then have "fit m' \<and> level m' + weight (ps ! t) = level m + weight p' + tally weight (spawned c r)"
    by (intro conserve [OF move(3-5) _ move(6)]) simp
  with move(1,2) show ?case by (simp add: tally_update)
qed (simp_all add: assms(2))

end

section \<open>Nothing moves any more\<close>

text \<open>No thread can take a step of its own again: only the environment could wake one.\<close>

definition stuck :: "'p policy \<Rightarrow> ('p \<Rightarrow> ('m, 'c, 's, 'p) act) \<Rightarrow> ('m, 'c, 's, 'p) sys \<Rightarrow> bool" where
  "stuck allow code s \<longleftrightarrow> (\<forall>e. acts e \<longrightarrow> step allow code e s = None)"

fun stopped :: "('p \<Rightarrow> ('m, 'c, 's, 'p) act) \<Rightarrow> 'p \<times> ('m, 'c) tstat \<Rightarrow> bool" where
  "stopped code (p, Asleep c x l) \<longleftrightarrow> True"
| "stopped code (p, Woken x w) \<longleftrightarrow> False"
| "stopped code (p, Ready) \<longleftrightarrow> (case code p of Return v \<Rightarrow> True | _ \<Rightarrow> False)"

lemma stopped_stuck:
  assumes "list_all (stopped code) (threads s)"
  shows "stuck allow code s"
  unfolding stuck_def
proof (intro allI impI)
  fix e assume "acts e"
  have st: "stopped code (threads s ! t)" if "t < length (threads s)" for t
    using assms that by (simp add: list_all_length)
  have "exec_thread allow code t r s = None" "notify_thread allow code t u s = None"
    if "t < length (threads s)" for t r u
    using st [OF that] by (auto simp: exec_thread_def notify_thread_def
        split: prod.splits tstat.splits act.splits)
  with \<open>acts e\<close> show "step allow code e s = None" by (cases e) auto
qed

text \<open>A thread that waits for a mutex that is held does not move either, unless its \<^verbatim>\<open>lock\<close> can
  fail; nor one that joins a thread that has not ended.\<close>

fun jammed :: "('p \<Rightarrow> ('m, 'c, 's, 'p) act) \<Rightarrow> ('m, 'c, 's, 'p) sys \<Rightarrow> 'p \<times> ('m, 'c) tstat \<Rightarrow> bool" where
  "jammed code s (p, Asleep c x l) \<longleftrightarrow> True"
| "jammed code s (p, Woken x w) \<longleftrightarrow> False"
| "jammed code s (p, Ready) \<longleftrightarrow>
     (case code p of
        Return v \<Rightarrow> True
      | Do (Lock x) k \<Rightarrow> (case mtx s x of Held u \<Rightarrow> True | _ \<Rightarrow> False)
      | Do (Join u) k \<Rightarrow> \<not> finished code u s
      | _ \<Rightarrow> False)"

lemma jammed_stuck:
  assumes "list_all (jammed code s) (threads s)"
    and "\<And>p r c k. allow p r \<Longrightarrow> code p = Do c k \<Longrightarrow> (\<exists>x. c = Lock x) \<or> (\<exists>u. c = Join u) \<Longrightarrow> r \<le> 0"
  shows "stuck allow code s"
  unfolding stuck_def
proof (intro allI impI)
  fix e assume "acts e"
  have "exec_thread allow code t r s = None \<and> notify_thread allow code t u s = None"
    if t: "t < length (threads s)" for t r u
  proof -
    obtain p x where px: "threads s ! t = (p, x)" by (cases "threads s ! t")
    have "jammed code s (p, x)" using assms(1) t px by (metis list_all_nth)
    then have j: "jammed code s (p, x)" .
    show ?thesis
    proof (cases x)
      case Ready
      show ?thesis
      proof (cases "code p")
        case (Do c k)
        then have "perform code c k p t r s = None" if "allow p r"
          using j Ready assms(2) [OF that Do] by (auto split: call.splits mstat.splits)
        moreover have "c \<noteq> Signal d" for d using j Ready Do by auto
        ultimately show ?thesis using px Ready Do
          by (auto simp: exec_thread_def notify_thread_def split: call.splits)
      qed (use px Ready j in \<open>simp_all add: exec_thread_def notify_thread_def\<close>)
    qed (use px j in \<open>simp_all add: exec_thread_def notify_thread_def\<close>)
  qed
  with \<open>acts e\<close> show "step allow code e s = None" by (cases e) auto
qed

section \<open>Taking a mutex twice\<close>

lemma perform_frame:
  assumes "perform code c k p u r s = Some s'" and "u \<noteq> t" and "mtx s x = Held t"
    and "t < length (threads s)" and "threads s ! t = (q, Ready)"
  shows "mtx s' x = Held t \<and> t < length (threads s') \<and> threads s' ! t = (q, Ready)"
proof -
  have P: "mtx (proceed u k r' s0) = mtx s0 \<and> length (threads (proceed u k r' s0)) = length (threads s0) \<and>
      threads (proceed u k r' s0) ! t = threads s0 ! t" for r' s0
    using assms(2) by (simp add: proceed_def put_thread_def split: prod.splits)
  show ?thesis
    using assms
    by (cases c) (auto simp: P effect_defs rouse_all_def Let_def nth_append
        split: if_splits mstat.splits)
qed

lemma step_frame:
  assumes st: "step allow code e s = Some s'" and x: "mtx s x = Held t"
    and t: "t < length (threads s)" "threads s ! t = (q, Ready)"
    and q: "code q = Do (Lock x) k" and pol: "\<And>r. allow q r \<Longrightarrow> r \<le> 0"
  shows "mtx s' x = Held t \<and> t < length (threads s') \<and> threads s' ! t = (q, Ready)"
proof (cases e)
  case (Exec u r)
  show ?thesis
  proof (cases "u = t")
    case True
    with st Exec t q x pol [of r] show ?thesis
      by (auto simp: exec_thread_def split: if_splits)
  next
    case False
    with st Exec show ?thesis
      using perform_frame [OF _ False x t]
      by (auto simp: exec_thread_def effect_defs proceed_def x t split: if_splits prod.splits
          tstat.splits act.splits)
  qed
next
  case (Notify u v)
  then have "u \<noteq> t" using st t q by (auto simp: notify_thread_def split: if_splits)
  with Notify st t x show ?thesis
    by (auto simp: notify_thread_def effect_defs proceed_def nth_update_if
        split: if_splits prod.splits tstat.splits act.splits call.splits)
qed (use st t x in \<open>auto simp: wake_thread_def put_thread_def nth_update_if
      split: if_splits prod.splits tstat.splits\<close>)

theorem self_deadlock:
  assumes "reach allow code s0 s" and "mtx s0 x = Held t"
    and "t < length (threads s0)" and "threads s0 ! t = (q, Ready)"
    and "code q = Do (Lock x) k" and "\<And>r. allow q r \<Longrightarrow> r \<le> 0"
  shows "mtx s x = Held t \<and> t < length (threads s) \<and> threads s ! t = (q, Ready)"
  using assms(1)
proof (induction rule: reach.induct)
  case (reach_step s e s')
  then show ?case using step_frame [OF reach_step.hyps(2) _ _ _ assms(5,6)] by blast
qed (use assms in simp)

end
