(* ===== verification/Calls.thy ===== *)
theory Calls
  imports Discipline
begin

text \<open>
  Calling a function of the program. A caller's program points contain those of the
  function it is in; \<open>call_fun\<close> lifts the callee's next action to the caller: the callee's
  memory is a part of the caller's (\<open>get\<close>, \<open>put\<close>), its points are wrapped (\<open>w\<close>), and when
  it returns the caller goes on at the point \<open>ret v\<close>. The macros of \<^verbatim>\<open>errors.h\<close> are here too:
  they print and \<^verbatim>\<open>abort()\<close> the process.
\<close>

fun lift_call :: "('s \<Rightarrow> 'a) \<Rightarrow> ('a \<Rightarrow> 's \<Rightarrow> 's) \<Rightarrow> ('p \<Rightarrow> 'q) \<Rightarrow>
    ('m, 'c, 'a, 'p) call \<Rightarrow> ('m, 'c, 's, 'q) call" where
  "lift_call get put st Tau = Tau"
| "lift_call get put st (Lock x) = Lock x"
| "lift_call get put st (Trylock x) = Trylock x"
| "lift_call get put st (Unlock x) = Unlock x"
| "lift_call get put st (Wait c x) = Wait c x"
| "lift_call get put st (Timedwait c x d) = Timedwait c x d"
| "lift_call get put st (Signal c) = Signal c"
| "lift_call get put st (Broadcast c) = Broadcast c"
| "lift_call get put st (MInit x) = MInit x"
| "lift_call get put st (MDestroy x) = MDestroy x"
| "lift_call get put st (CInit c) = CInit c"
| "lift_call get put st (CDestroy c) = CDestroy c"
| "lift_call get put st (Create store q) = Create (\<lambda>t s. put (store t (get s)) s) (st q)"
| "lift_call get put st (Join u) = Join u"
| "lift_call get put st (Env g) = Env (\<lambda>r s. g r (get s))"
| "lift_call get put st Clock = Clock"

fun call_fun :: "('s \<Rightarrow> 'a) \<Rightarrow> ('a \<Rightarrow> 's \<Rightarrow> 's) \<Rightarrow> ('p \<Rightarrow> 'q) \<Rightarrow> ('p \<Rightarrow> 'q) \<Rightarrow> (int \<Rightarrow> 's \<Rightarrow> 's \<times> 'q) \<Rightarrow>
    ('m, 'c, 'a, 'p) act \<Rightarrow> ('m, 'c, 's, 'q) act" where
  "call_fun get put w st ret (Do c k) =
     Do (lift_call get put st c) (\<lambda>r s. case k r (get s) of (a, p) \<Rightarrow> (put a s, w p))"
| "call_fun get put w st ret (Return v) = Do Tau (\<lambda>_ s. ret v s)"
| "call_fun get put w st ret (Halt res) = Halt res"

text \<open>A callee on the same memory as its caller; \<open>st\<close> says which point of the process a thread
  starts at that the callee creates (\<open>call_new\<close>).\<close>

abbreviation call_here :: "('p \<Rightarrow> 'q) \<Rightarrow> (int \<Rightarrow> 's \<Rightarrow> 's \<times> 'q) \<Rightarrow>
    ('m, 'c, 's, 'p) act \<Rightarrow> ('m, 'c, 's, 'q) act" where
  "call_here w \<equiv> call_fun (\<lambda>s. s) (\<lambda>a s. a) w w"

abbreviation call_new :: "('p \<Rightarrow> 'q) \<Rightarrow> 'q \<Rightarrow> (int \<Rightarrow> 's \<Rightarrow> 's \<times> 'q) \<Rightarrow>
    ('m, 'c, 's, 'p) act \<Rightarrow> ('m, 'c, 's, 'q) act" where
  "call_new w q \<equiv> call_fun (\<lambda>s. s) (\<lambda>a s. a) w (\<lambda>_. q)"

text \<open>A function that is the start routine of a thread: the thread ends when it returns.\<close>

fun thread_fun :: "('p \<Rightarrow> 'q) \<Rightarrow> ('m, 'c, 's, 'p) act \<Rightarrow> ('m, 'c, 's, 'q) act" where
  "thread_fun w (Do c k) =
     Do (lift_call (\<lambda>s. s) (\<lambda>a s. a) w c) (\<lambda>r s. case k r s of (s', p) \<Rightarrow> (s', w p))"
| "thread_fun w (Return v) = Return v"
| "thread_fun w (Halt res) = Halt res"

text \<open>The caller's action comes from the callee's, or is the return to the caller.\<close>

lemma call_fun_cases:
  assumes "call_fun get put w st ret A = Do c k"
  obtains (inside) c0 k0 where "A = Do c0 k0" "c = lift_call get put st c0"
      "k = (\<lambda>r s. case k0 r (get s) of (a, p) \<Rightarrow> (put a s, w p))"
  | (ret) v where "A = Return v" "c = Tau" "k = (\<lambda>_ s. ret v s)"
  using assms by (cases A) auto

lemma thread_fun_cases:
  assumes "thread_fun w A = Do c k"
  obtains c0 k0 where "A = Do c0 k0" "c = lift_call (\<lambda>s. s) (\<lambda>a s. a) w c0"
      "k = (\<lambda>r s. case k0 r s of (s', p) \<Rightarrow> (s', w p))"
  using assms by (cases A) auto

lemma held_after_lift [simp]: "held_after (lift_call get put st c) r H = held_after c r H"
  by (cases c) auto

lemma answer_ok_lift [simp]: "answer_ok (lift_call (\<lambda>s. s) put st c) r m n = answer_ok c r m n"
  by (cases c) auto

lemma call_ok_lift [simp]: "call_ok (lift_call get put st c) H = call_ok c H"
  by (cases c) auto

lemma entry_mem_lift [simp]: "entry_mem (lift_call (\<lambda>s. s) (\<lambda>a s. a) st c) r l m = entry_mem c r l m"
  by (cases c) auto

lemma spawned_lift [simp]: "spawned (lift_call get put st c) r = map st (spawned c r)"
  by (cases c) auto

text \<open>
  \<open>goto p\<close> continues at \<open>p\<close> with the memory unchanged, whatever the call returned;
  \<open>checked a p\<close> is the common \<^verbatim>\<open>if (status != 0) err_abort(...)\<close> after a call.
\<close>

definition goto :: "'p \<Rightarrow> int \<Rightarrow> 's \<Rightarrow> 's \<times> 'p" where
  "goto p r s = (s, p)"

definition checked :: "'p \<Rightarrow> 'p \<Rightarrow> int \<Rightarrow> 's \<Rightarrow> 's \<times> 'p" where
  "checked aborting p status s = (s, if status \<noteq> 0 then aborting else p)"

lemma goto_simp [simp]: "goto p r s = (s, p)"
  by (simp add: goto_def)

lemma checked_simp [simp]: "checked aborting p status s = (s, if status \<noteq> 0 then aborting else p)"
  by (simp add: checked_def)

section \<open>Running one function by itself\<close>

text \<open>
  \<open>seq_run code rs p s\<close>: one thread runs from the point \<open>p\<close>, its successive calls
  return the values \<open>rs\<close>. What the function does on each branch is stated with it.
\<close>

fun seq_run :: "('p \<Rightarrow> ('m, 'c, 's, 'p) act) \<Rightarrow> int list \<Rightarrow> 'p \<Rightarrow> 's \<Rightarrow> 's \<times> 'p" where
  "seq_run code [] p s = (s, p)"
| "seq_run code (r # rs) p s =
     (case code p of
        Do c k \<Rightarrow> (case k r s of (s', p') \<Rightarrow> seq_run code rs p' s')
      | _ \<Rightarrow> (s, p))"

end
