(* ===== verification/Barrier.thy ===== *)
theory Barrier
  imports Calls
begin

text \<open>
  The barrier of \<^verbatim>\<open>chap7-RealCode/barrier/barrier.cxx\<close> and \<^verbatim>\<open>barrier.hxx\<close>: its structure,
  its three operations as code tables (one program point per library call), and a process
  in which any number of threads call \<open>barrier_wait\<close> for ever.
\<close>

section \<open>The structure and its operations\<close>

datatype bar_mutex = Bar_mutex
datatype bar_cond = Bar_cv

text \<open>\<^verbatim>\<open>unsigned long cycle\<close> is 64 bits wide and wraps around.\<close>

record barrier =
  bar_valid :: int
  threshold :: int
  bar_counter :: int
  cycle :: "64 word"

definition BARRIER_VALID :: int where "BARRIER_VALID = 0xdbcafe"

text \<open>\<^verbatim>\<open>BARRIER_INITIALIZER(cnt)\<close>\<close>

definition BARRIER_INITIALIZER :: "int \<Rightarrow> barrier" where
  "BARRIER_INITIALIZER cnt =
     \<lparr>bar_valid = BARRIER_VALID, threshold = cnt, bar_counter = cnt, cycle = 0\<rparr>"

datatype bi_pc = BI_start | BI_mutex | BI_cond | BI_undo int | BI_return int

fun barrier_init :: "int \<Rightarrow> bi_pc \<Rightarrow> (bar_mutex, bar_cond, barrier, bi_pc) act" where
  "barrier_init count BI_start =
     Do Tau (\<lambda>_ b. (b\<lparr>threshold := count, bar_counter := count\<rparr>, BI_mutex))"
| "barrier_init count BI_mutex =
     Do (MInit Bar_mutex) (\<lambda>status b.
       if status \<noteq> 0 then (b, BI_return status) else (b, BI_cond))"
| "barrier_init count BI_cond =
     Do (CInit Bar_cv) (\<lambda>status b.
       if status \<noteq> 0 then (b, BI_undo status)
       else (b\<lparr>bar_valid := BARRIER_VALID\<rparr>, BI_return 0))"
| "barrier_init count (BI_undo status) = Do (MDestroy Bar_mutex) (goto (BI_return status))"
| "barrier_init count (BI_return status) = Return status"

datatype bd_pc =
    BD_start | BD_lock | BD_busy | BD_unlock | BD_mutex | BD_cond int | BD_return int

fun barrier_destroy :: "bd_pc \<Rightarrow> (bar_mutex, bar_cond, barrier, bd_pc) act" where
  "barrier_destroy BD_start =
     Do Tau (\<lambda>_ b. if bar_valid b \<noteq> BARRIER_VALID then (b, BD_return EINVAL) else (b, BD_lock))"
| "barrier_destroy BD_lock =
     Do (Lock Bar_mutex) (\<lambda>status1 b.
       if status1 \<noteq> 0 then (b, BD_return status1)
       else if bar_counter b \<noteq> threshold b then (b, BD_busy)
       else (b\<lparr>bar_valid := 0\<rparr>, BD_unlock))"
| "barrier_destroy BD_busy = Do (Unlock Bar_mutex) (goto (BD_return EBUSY))"
| "barrier_destroy BD_unlock =
     Do (Unlock Bar_mutex) (\<lambda>status1 b.
       if status1 \<noteq> 0 then (b, BD_return status1) else (b, BD_mutex))"
| "barrier_destroy BD_mutex = Do (MDestroy Bar_mutex) (\<lambda>status1 b. (b, BD_cond status1))"
| "barrier_destroy (BD_cond status1) =
     Do (CDestroy Bar_cv) (\<lambda>status2 b.
       (b, BD_return (if status1 \<noteq> 0 then status1 else status2)))"
| "barrier_destroy (BD_return status) = Return status"

text \<open>
  The points of \<open>barrier_wait\<close> carry its local variable \<^verbatim>\<open>cycle\<close> (the waiting branch) or
  \<^verbatim>\<open>status\<close>. The loop test is evaluated where the code evaluates it: after
  \<^verbatim>\<open>pthread_setcancelstate\<close> and after every return of the wait, with the mutex held.
\<close>

datatype bw_pc =
    BW_start | BW_lock | BW_broadcast | BW_disable "64 word" | BW_wait "64 word"
  | BW_unlock int | BW_return int

definition bw_while :: "64 word \<Rightarrow> int \<Rightarrow> barrier \<Rightarrow> barrier \<times> bw_pc" where
  "bw_while my_cycle status b =
     (if my_cycle = cycle b then (b, BW_wait my_cycle) else (b, BW_unlock status))"

fun barrier_wait :: "bw_pc \<Rightarrow> (bar_mutex, bar_cond, barrier, bw_pc) act" where
  "barrier_wait BW_start =
     Do Tau (\<lambda>_ b. if bar_valid b \<noteq> BARRIER_VALID then (b, BW_return EINVAL) else (b, BW_lock))"
| "barrier_wait BW_lock =
     Do (Lock Bar_mutex) (\<lambda>status b.
       if status \<noteq> 0 then (b, BW_return status)
       else let my_cycle = cycle b; b1 = b\<lparr>bar_counter := bar_counter b - 1\<rparr> in
         if bar_counter b1 = 0
         then (b1\<lparr>cycle := cycle b1 + 1, bar_counter := threshold b1\<rparr>, BW_broadcast)
         else (b1, BW_disable my_cycle))"
| "barrier_wait BW_broadcast =
     Do (Broadcast Bar_cv) (\<lambda>status b. (b, BW_unlock (if status = 0 then -1 else status)))"
| "barrier_wait (BW_disable my_cycle) =
     Do (Env (\<lambda>r _. 0 \<le> r)) (\<lambda>_. bw_while my_cycle 0)"
| "barrier_wait (BW_wait my_cycle) =
     Do (Wait Bar_cv Bar_mutex) (\<lambda>status b.
       if status \<noteq> 0 then (b, BW_unlock status) else bw_while my_cycle status b)"
| "barrier_wait (BW_unlock status) = Do (Unlock Bar_mutex) (\<lambda>status b. (b, BW_return status))"
| "barrier_wait (BW_return status) = Return status"

section \<open>The process: threads that pass the barrier again and again\<close>

text \<open>The point of a client carries the number of waits it has completed.\<close>

datatype bc_pc = BC_idle nat | BC_in nat bw_pc | BC_abort

fun bar_client :: "bc_pc \<Rightarrow> (bar_mutex, bar_cond, barrier, bc_pc) act" where
  "bar_client (BC_idle n) = Do Tau (goto (BC_in n BW_start))"
| "bar_client (BC_in n p) =
     call_here (BC_in n) (\<lambda>v b. (b, if v > 0 then BC_abort else BC_idle (Suc n))) (barrier_wait p)"
| "bar_client BC_abort = Halt Aborted"

lemma bc_exhaust [case_names idle abort start lock broadcast disable wait unlock return]:
  obtains n where "p = BC_idle n" | "p = BC_abort"
  | n where "p = BC_in n BW_start" | n where "p = BC_in n BW_lock"
  | n where "p = BC_in n BW_broadcast" | n c where "p = BC_in n (BW_disable c)"
  | n c where "p = BC_in n (BW_wait c)" | n v where "p = BC_in n (BW_unlock v)"
  | n v where "p = BC_in n (BW_return v)"
  by (metis bc_pc.exhaust bw_pc.exhaust)

definition bar_mem :: "nat \<Rightarrow> 64 word \<Rightarrow> barrier" where
  "bar_mem N c0 = \<lparr>bar_valid = BARRIER_VALID, threshold = int N, bar_counter = int N, cycle = c0\<rparr>"

definition bar_system :: "nat \<Rightarrow> 64 word \<Rightarrow> (bar_mutex, bar_cond, barrier, bc_pc) sys" where
  "bar_system N c0 = boot (bar_mem N c0) (replicate N (BC_idle 0))"

text \<open>The waits a thread has entered (it is past the decrement of the counter) and left.\<close>

fun arrived :: "bc_pc \<Rightarrow> nat" where
  "arrived (BC_idle n) = n"
| "arrived (BC_in n BW_start) = n"
| "arrived (BC_in n BW_lock) = n"
| "arrived (BC_in n _) = Suc n"
| "arrived BC_abort = 0"

fun passed :: "bc_pc \<Rightarrow> nat" where
  "passed (BC_idle n) = n"
| "passed (BC_in n _) = n"
| "passed BC_abort = 0"

section \<open>The round invariant\<close>

text \<open>
  In round \<open>R\<close> a thread has not arrived, or it is counted (it arrived in this round and
  waits), or it was released from round \<open>R - 1\<close> and has not left the function yet.
\<close>

fun outside :: "nat \<Rightarrow> bc_pc \<Rightarrow> bool" where
  "outside R (BC_idle n) \<longleftrightarrow> n = R"
| "outside R (BC_in n BW_start) \<longleftrightarrow> n = R"
| "outside R (BC_in n BW_lock) \<longleftrightarrow> n = R"
| "outside R _ \<longleftrightarrow> False"

fun counted :: "64 word \<Rightarrow> nat \<Rightarrow> bc_pc \<Rightarrow> bool" where
  "counted c0 R (BC_in n (BW_disable c)) \<longleftrightarrow> n = R \<and> c = c0 + of_nat R"
| "counted c0 R (BC_in n (BW_wait c)) \<longleftrightarrow> n = R \<and> c = c0 + of_nat R"
| "counted c0 R _ \<longleftrightarrow> False"

fun released :: "64 word \<Rightarrow> nat \<Rightarrow> bc_pc \<Rightarrow> bool" where
  "released c0 R (BC_in n BW_broadcast) \<longleftrightarrow> Suc n = R"
| "released c0 R (BC_in n (BW_unlock v)) \<longleftrightarrow> Suc n = R"
| "released c0 R (BC_in n (BW_return v)) \<longleftrightarrow> Suc n = R \<and> v \<le> 0"
| "released c0 R (BC_in n (BW_disable c)) \<longleftrightarrow> Suc n = R \<and> c = c0 + of_nat n"
| "released c0 R (BC_in n (BW_wait c)) \<longleftrightarrow> Suc n = R \<and> c = c0 + of_nat n"
| "released c0 R _ \<longleftrightarrow> False"

definition in_round :: "64 word \<Rightarrow> nat \<Rightarrow> bc_pc \<Rightarrow> bool" where
  "in_round c0 R p \<longleftrightarrow> outside R p \<or> counted c0 R p \<or> released c0 R p"

definition headcount :: "64 word \<Rightarrow> nat \<Rightarrow> bc_pc list \<Rightarrow> int" where
  "headcount c0 R ps = tally (\<lambda>p. of_bool (counted c0 R p)) ps"

definition round_inv :: "nat \<Rightarrow> 64 word \<Rightarrow> nat \<Rightarrow> barrier \<Rightarrow> bc_pc list \<Rightarrow> bool" where
  "round_inv N c0 R b ps \<longleftrightarrow>
     length ps = N \<and> bar_valid b = BARRIER_VALID \<and> threshold b = int N \<and>
     cycle b = c0 + of_nat R \<and> list_all (in_round c0 R) ps \<and>
     bar_counter b = int N - headcount c0 R ps \<and> headcount c0 R ps < int N"

lemma next_cycle_differs [simp]: "(c::64 word) \<noteq> c + 1" "c + 1 \<noteq> (c::64 word)"
  by simp_all

lemma outside_not_counted: "outside R p \<Longrightarrow> \<not> counted c0 R p"
  by (cases "(R, p)" rule: outside.cases) auto

lemma released_not_counted: "released c0 R p \<Longrightarrow> \<not> counted c0 R p"
  by (cases "(c0, R, p)" rule: released.cases) auto

lemma counted_released: "counted c0 R p \<Longrightarrow> released c0 (Suc R) p"
  by (cases "(c0, R, p)" rule: counted.cases) auto

lemma headcount_update:
  "i < length ps \<Longrightarrow> headcount c0 R (ps[i := p]) =
     headcount c0 R ps - of_bool (counted c0 R (ps ! i)) + of_bool (counted c0 R p)"
  by (simp add: headcount_def tally_update)

text \<open>A move that stays in the round and does not change the barrier.\<close>

lemma round_inv_stay:
  assumes "round_inv N c0 R b ps" and "t < length ps"
    and "in_round c0 R p" and "counted c0 R p \<longleftrightarrow> counted c0 R (ps ! t)"
  shows "round_inv N c0 R b (ps[t := p])"
  using assms by (auto simp: round_inv_def headcount_update intro: list_all_update)

text \<open>A thread that arrives and is not the last.\<close>

lemma round_inv_arrive:
  assumes inv: "round_inv N c0 R b ps" and t: "t < length ps"
    and "\<not> counted c0 R (ps ! t)" and "bar_counter b - 1 \<noteq> 0" and "counted c0 R p"
  shows "round_inv N c0 R (b\<lparr>bar_counter := bar_counter b - 1\<rparr>) (ps[t := p])"
  using assms by (auto simp: round_inv_def headcount_update in_round_def intro: list_all_update)

text \<open>The last thread to arrive: all the others are counted, the next round begins.\<close>

lemma round_inv_turn:
  assumes inv: "round_inv N c0 R b ps" and t: "t < length ps"
    and nc: "\<not> counted c0 R (ps ! t)" and last: "bar_counter b - 1 = 0" and p: "released c0 (Suc R) p"
  shows "round_inv N c0 (Suc R) (b\<lparr>bar_counter := threshold b, cycle := cycle b + 1\<rparr>) (ps[t := p])"
proof -
  have others: "counted c0 R (ps ! j)" if j: "j < length ps" "j \<noteq> t" for j
  proof -
    have "of_bool (counted c0 R (ps ! j)) = (1::int)"
    proof (rule tally_full_others [where w = "\<lambda>p. of_bool (counted c0 R p)" and i = t])
      show "int (length ps) - 1 \<le> tally (\<lambda>p. of_bool (counted c0 R p)) ps"
        using inv last by (simp add: round_inv_def headcount_def)
    qed (use t nc j in auto)
    then show ?thesis by (simp split: if_splits)
  qed
  have all: "list_all (released c0 (Suc R)) (ps[t := p])"
    using t p others by (intro list_all_update_others) (auto intro: counted_released)
  have "headcount c0 (Suc R) (ps[t := p]) = tally (\<lambda>_. 0) (ps[t := p])"
    unfolding headcount_def using all
    by (intro tally_cong) (auto simp: list_all_iff dest: released_not_counted)
  moreover have "0 < N" using inv t by (auto simp: round_inv_def)
  ultimately show ?thesis
    using inv all by (auto simp: round_inv_def in_round_def list_all_iff add.commute add.left_commute)
qed

definition no_failures :: "'p policy" where
  "no_failures p r \<longleftrightarrow> r = 0"

lemma round_inv_move:
  assumes inv: "round_inv N c0 R b ps" and t: "t < length ps"
    and p: "bar_client (ps ! t) = Do c k" and r: "no_failures (ps ! t) r" and k: "k r b = (b', p')"
  shows "\<exists>R'. round_inv N c0 R' b' (ps[t := p'])"
proof -
  have r0: "r = 0" using r by (simp add: no_failures_def)
  have inr: "in_round c0 R (ps ! t)" and cyc: "cycle b = c0 + of_nat R"
    and val: "bar_valid b = BARRIER_VALID"
    using inv t by (auto simp: round_inv_def list_all_length)
  note stay = round_inv_stay [OF inv t]
  show ?thesis
  proof (cases "ps ! t")
    case (BC_idle n)
    then have "n = R" using inr by (simp add: in_round_def)
    then show ?thesis using p k r0 BC_idle stay [of p'] by (auto simp: in_round_def intro!: exI [of _ R])
  next
    case BC_abort
    with p show ?thesis by simp
  next
    case (BC_in n q)
    note q = BC_in
    show ?thesis
    proof (cases q)
      case BW_start
      then show ?thesis using p k r0 q inr val stay [of p'] by (auto simp: in_round_def intro!: exI [of _ R])
    next
      case BW_lock
      then have n: "n = R" using inr q by (auto simp: in_round_def)
      have nc: "\<not> counted c0 R (ps ! t)" using q BW_lock by simp
      show ?thesis
      proof (cases "bar_counter b - 1 = 0")
        case True
        then have "b' = b\<lparr>bar_counter := threshold b, cycle := cycle b + 1\<rparr>"
          and "p' = BC_in n BW_broadcast"
          using p k r0 q BW_lock by (auto simp: Let_def)
        with round_inv_turn [OF inv t nc True, of p'] n show ?thesis by auto
      next
        case False
        then have "b' = b\<lparr>bar_counter := bar_counter b - 1\<rparr>" and "p' = BC_in n (BW_disable (cycle b))"
          using p k r0 q BW_lock by (auto simp: Let_def)
        with round_inv_arrive [OF inv t nc False, of p'] n cyc show ?thesis by auto
      qed
    next
      case BW_broadcast
      then show ?thesis using p k r0 q inr stay [of p'] by (auto simp: in_round_def intro!: exI [of _ R])
    next
      case (BW_disable c)
      then show ?thesis
        using p k r0 q inr cyc inv stay [of p'] by (auto simp: in_round_def bw_while_def intro!: exI [of _ R] split: if_splits)
    next
      case (BW_wait c)
      then show ?thesis
        using p k r0 q inr cyc inv stay [of p'] by (auto simp: in_round_def bw_while_def intro!: exI [of _ R] split: if_splits)
    next
      case (BW_unlock v)
      then show ?thesis using p k r0 q inr stay [of p'] by (auto simp: in_round_def intro!: exI [of _ R])
    next
      case (BW_return v)
      then show ?thesis using p k r0 q inr stay [of p'] by (auto simp: in_round_def intro!: exI [of _ R] split: if_splits)
    qed
  qed
qed

lemma round_inv_start: "round_inv N c0 0 (bar_mem N c0) (replicate N (BC_idle 0)) \<longleftrightarrow> 0 < N"
  by (auto simp: round_inv_def bar_mem_def headcount_def list_all_iff in_round_def)

lemma bar_reach_round:
  assumes "reach no_failures bar_client (bar_system N c0) s" and "0 < N"
  shows "\<exists>R. round_inv N c0 R (mem s) (pcs s)"
  using assms(1)
proof (induction rule: reach_invariant)
  case start
  show ?case using round_inv_start assms(2) by (auto simp: bar_system_def)
next
  case (move n m ps t c k r m' p')
  then obtain R where R: "round_inv N c0 R m ps" by blast
  have "entry_mem c r (length ps) m = m" "spawned c r = []"
    using move(3) by (cases "ps ! t" rule: bc_exhaust; auto)+
  with round_inv_move [OF R move(2,3,4)] move(6) show ?case by simp
qed simp

section \<open>Locking discipline\<close>

fun bw_holds :: "bw_pc \<Rightarrow> bar_mutex set" where
  "bw_holds BW_broadcast = {Bar_mutex}"
| "bw_holds (BW_disable c) = {Bar_mutex}"
| "bw_holds (BW_wait c) = {Bar_mutex}"
| "bw_holds (BW_unlock v) = {Bar_mutex}"
| "bw_holds _ = {}"

fun bar_holds :: "bc_pc \<Rightarrow> bar_mutex set" where
  "bar_holds (BC_in n p) = bw_holds p"
| "bar_holds _ = {}"

text \<open>Cancellation is disabled while the thread waits: no wait ends with \<open>CANCELED\<close>.\<close>

definition bar_env :: "bc_pc policy" where
  "bar_env p r \<longleftrightarrow> 0 \<le> r"

interpretation bar_any: lock_discipline bar_env bar_client bar_holds
proof unfold_locales
  fix p c k r m n m' m'' p'
  assume "bar_client p = Do c k" "bar_env p r" "answer_ok c r m n" "k r m' = (m'', p')"
  then show "bar_holds p' = held_after c r (bar_holds p)"
    by (cases p rule: bc_exhaust) (auto simp: bar_env_def bw_while_def Let_def split: if_splits)
next
  fix p c and k :: "int \<Rightarrow> barrier \<Rightarrow> barrier \<times> bc_pc"
  assume "bar_client p = Do c k"
  then show "call_ok c (bar_holds p)" by (cases p rule: bc_exhaust) auto
next
  fix p q and st :: "nat \<Rightarrow> barrier \<Rightarrow> barrier" and k :: "int \<Rightarrow> barrier \<Rightarrow> barrier \<times> bc_pc"
  assume "bar_client p = Do (Create st q) k"
  then show "bar_holds q = {}" by (cases p rule: bc_exhaust) auto
qed

interpretation bar_locks: leaf_locks no_failures bar_client bar_holds
proof unfold_locales
  fix p c k r m n m' m'' p'
  assume "bar_client p = Do c k" "no_failures p r" "answer_ok c r m n" "k r m' = (m'', p')"
  then show "bar_holds p' = held_after c r (bar_holds p)"
    using bar_any.held_moves [of p c k r m n m' m'' p'] by (auto simp: bar_env_def no_failures_def)
next
  fix p d x l and k :: "int \<Rightarrow> barrier \<Rightarrow> barrier \<times> bc_pc"
  assume "bar_client p = Do (wait_call d x l) k"
  then show "bar_holds p = {x}"
    by (cases p rule: bc_exhaust; cases x) (auto simp: wait_call_def split: option.splits)
next
  fix p x and k :: "int \<Rightarrow> barrier \<Rightarrow> barrier \<times> bc_pc"
  assume "bar_client p = Do (Lock x) k"
  then show "bar_holds p = {}" by (cases p rule: bc_exhaust) auto
next
  fix p u and k :: "int \<Rightarrow> barrier \<Rightarrow> barrier \<times> bc_pc"
  assume "bar_client p = Do (Join u) k"
  then show "bar_holds p = {}" by (cases p rule: bc_exhaust) auto
next
  fix p v
  assume "bar_client p = Return v"
  then show "bar_holds p = {}" by (cases p rule: bc_exhaust) auto
next
  fix p c m n and k :: "int \<Rightarrow> barrier \<Rightarrow> barrier \<times> bc_pc"
  assume "bar_client p = Do c k"
  then show "responsive no_failures p c m n"
    by (cases p rule: bc_exhaust) (auto simp: no_failures_def)
qed (erule bar_any.calls_ok, erule bar_any.spawn_free)

lemma bar_locked: "locked_inv bar_client bar_holds (bar_system N c0)"
  by (auto simp: bar_system_def list_all_iff intro!: locked_inv_boot)

lemma bar_awake: "list_all (awake allow bar_client n) (threads (bar_system N c0))"
  unfolding bar_system_def by (rule awake_boot)

section \<open>No wakeup is lost\<close>

text \<open>
  A thread that waits for a round that is over still sleeps only while the thread that
  ended the round is about to broadcast.
\<close>

fun at_broadcast :: "bc_pc \<times> (bar_mutex, bar_cond) tstat \<Rightarrow> bool" where
  "at_broadcast (BC_in n BW_broadcast, st) \<longleftrightarrow> True"
| "at_broadcast _ \<longleftrightarrow> False"

fun fresh_wait :: "64 word \<Rightarrow> bool \<Rightarrow> bc_pc \<times> (bar_mutex, bar_cond) tstat \<Rightarrow> bool" where
  "fresh_wait cyc lead (BC_in n (BW_disable c), Ready) \<longleftrightarrow> c = cyc"
| "fresh_wait cyc lead (BC_in n (BW_wait c), Ready) \<longleftrightarrow> c = cyc"
| "fresh_wait cyc lead (BC_in n (BW_wait c), Asleep d x l) \<longleftrightarrow> c = cyc \<or> lead"
| "fresh_wait cyc lead _ \<longleftrightarrow> True"

definition wakeful :: "(bar_mutex, bar_cond, barrier, bc_pc) sys \<Rightarrow> bool" where
  "wakeful s \<longleftrightarrow>
     list_all (fresh_wait (cycle (mem s)) (list_ex at_broadcast (threads s))) (threads s)"

lemma fresh_rouse: "fresh_wait cyc lead x \<Longrightarrow> fresh_wait cyc lead (rouse r x)"
  by (cases x rule: thread_exhaust; cases "fst x" rule: bc_exhaust) auto

lemma fresh_lead: "fresh_wait cyc lead x \<Longrightarrow> lead \<longrightarrow> lead' \<Longrightarrow> fresh_wait cyc lead' x"
  by (cases x rule: thread_exhaust; cases "fst x" rule: bc_exhaust) auto

lemma fresh_awake: "fresh_wait cyc lead x \<Longrightarrow> \<not> on_cond Bar_cv x \<Longrightarrow> fresh_wait cyc lead' x"
  by (cases x rule: thread_exhaust; cases "fst x" rule: bc_exhaust) (auto intro: bar_cond.exhaust)

lemma fresh_not_holding: "Bar_mutex \<notin> holding bar_holds x \<Longrightarrow> fresh_wait cyc True x"
  by (cases x rule: thread_exhaust; cases "fst x" rule: bc_exhaust) auto

lemma at_broadcast_fst: "at_broadcast x \<longleftrightarrow> (\<exists>n. fst x = BC_in n BW_broadcast)"
  by (cases x rule: at_broadcast.cases) auto

lemma lead_mono:
  assumes "\<And>u. u < length ts \<Longrightarrow> at_broadcast (ts ! u) \<Longrightarrow> at_broadcast (ts' ! u)"
    and "length ts \<le> length ts'"
  shows "list_ex at_broadcast ts \<longrightarrow> list_ex at_broadcast ts'"
  using assms by (auto simp: list_ex_length dest: order_less_le_trans)

text \<open>One thread acts: the step lemma, with the four facts about the others it needs.\<close>

lemma wakeful_acted:
  assumes w: "wakeful s" and len: "length (threads s') = length (threads s)" and t: "t < length (threads s)"
    and others: "\<And>u. u < length (threads s) \<Longrightarrow> u \<noteq> t \<Longrightarrow>
       threads s' ! u = threads s ! u \<or> threads s' ! u = rouse 0 (threads s ! u)"
    and mine: "fresh_wait (cycle (mem s')) False (threads s' ! t)"
    and how: "cycle (mem s') = cycle (mem s) \<and> \<not> at_broadcast (threads s ! t)
      \<or> cycle (mem s') = cycle (mem s) \<and> (\<forall>u < length (threads s). u \<noteq> t \<longrightarrow> \<not> on_cond Bar_cv (threads s' ! u))
      \<or> at_broadcast (threads s' ! t) \<and>
        (\<forall>u < length (threads s). u \<noteq> t \<longrightarrow> Bar_mutex \<notin> holding bar_holds (threads s ! u))"
  shows "wakeful s'"
  unfolding wakeful_def list_all_length
proof (intro allI impI)
  fix u assume u: "u < length (threads s')"
  let ?lead = "list_ex at_broadcast (threads s)" and ?lead' = "list_ex at_broadcast (threads s')"
  show "fresh_wait (cycle (mem s')) ?lead' (threads s' ! u)"
  proof (cases "u = t")
    case True
    then show ?thesis using fresh_lead [OF mine] by simp
  next
    case False
    have "fresh_wait (cycle (mem s)) ?lead (threads s ! u)"
      using w u len by (simp add: wakeful_def list_all_length)
    then have old: "fresh_wait (cycle (mem s)) ?lead (threads s' ! u)"
      using others [of u] False u len fresh_rouse by metis
    from how show ?thesis
    proof (elim disjE conjE)
      assume same: "cycle (mem s') = cycle (mem s)" and nb: "\<not> at_broadcast (threads s ! t)"
      have "?lead \<longrightarrow> ?lead'"
        by (rule lead_mono) (use others nb len in \<open>auto simp: at_broadcast_fst\<close>, metis fst_rouse)
      then show ?thesis using fresh_lead [OF old] same by simp
    next
      assume "cycle (mem s') = cycle (mem s)"
        and "\<forall>u < length (threads s). u \<noteq> t \<longrightarrow> \<not> on_cond Bar_cv (threads s' ! u)"
      then show ?thesis using fresh_awake [OF old] u len False by simp
    next
      assume l: "at_broadcast (threads s' ! t)"
        and h: "\<forall>u < length (threads s). u \<noteq> t \<longrightarrow> Bar_mutex \<notin> holding bar_holds (threads s ! u)"
      have "?lead'" using l t len by (auto simp: list_ex_length)
      moreover have "Bar_mutex \<notin> holding bar_holds (threads s' ! u)"
        using h others [of u] False u len by auto
      ultimately show ?thesis using fresh_not_holding by simp
    qed
  qed
qed

lemma wakeful_step:
  assumes inv: "locked_inv bar_client bar_holds s" and w: "wakeful s"
    and st: "step no_failures bar_client e s = Some s'"
  shows "wakeful s'"
  using st
proof (cases rule: step_effect)
  case (act t p x c k r)
  have r0: "r = 0" using act(4) by (simp add: no_failures_def)
  have sp: "entry_mem c r (length (threads s)) (mem s) = mem s" "spawned c r = []"
    using act(3) by (cases p rule: bc_exhaust; auto)+
  obtain p' where k: "k 0 (mem s) = (mem s', p')" and ps: "pcs s' = (pcs s)[t := p']"
    and len: "length (threads s') = length (threads s)" and rd: "snd (threads s' ! t) = Ready"
    and others: "\<And>u. u < length (threads s) \<Longrightarrow> u \<noteq> t \<Longrightarrow>
       threads s' ! u = threads s ! u \<or> threads s' ! u = rouse 0 (threads s ! u)"
    and lock: "\<And>x. c = Lock x \<Longrightarrow> mtx s x = Free"
    and bc: "\<And>d u. c = Broadcast d \<Longrightarrow> u < length (threads s) \<Longrightarrow> u \<noteq> t \<Longrightarrow> \<not> on_cond d (threads s' ! u)"
    using act(6) sp r0 by (auto simp: acted_def returned_def)
  have km: "mem s' = fst (k 0 (mem s))" "p' = snd (k 0 (mem s))" using k by simp_all
  have "pcs s' ! t = p'" using ps act(1) by simp
  then have tt: "threads s' ! t = (p', Ready)" using rd len act(1) by (cases "threads s' ! t") simp
  show ?thesis
  proof (rule wakeful_acted [OF w len act(1) others])
    have "cycle (mem s') = cycle (mem s) \<and> \<not> at_broadcast (threads s ! t) \<or> c = Broadcast Bar_cv \<and> cycle (mem s') = cycle (mem s)
        \<or> c = Lock Bar_mutex \<and> at_broadcast (threads s' ! t)"
      using act(2,3) km tt by (cases p rule: bc_exhaust) (auto simp: bw_while_def Let_def split: if_splits)
    then show "cycle (mem s') = cycle (mem s) \<and> \<not> at_broadcast (threads s ! t)
      \<or> cycle (mem s') = cycle (mem s) \<and> (\<forall>u < length (threads s). u \<noteq> t \<longrightarrow> \<not> on_cond Bar_cv (threads s' ! u))
      \<or> at_broadcast (threads s' ! t) \<and>
        (\<forall>u < length (threads s). u \<noteq> t \<longrightarrow> Bar_mutex \<notin> holding bar_holds (threads s ! u))"
      using bc lock [of Bar_mutex] locked_invD(3) [OF inv, of Bar_mutex] by auto
    show "fresh_wait (cycle (mem s')) False (threads s' ! t)"
      using act(2,3) km tt by (cases p rule: bc_exhaust) (auto simp: bw_while_def Let_def split: if_splits)
  qed
next
  case (sleep t p c k)
  obtain d x l where c: "c = wait_call d x l" and th: "threads s' = (threads s)[t := (p, Asleep d x l)]"
    and m: "mem s' = mem s" using sleep(5) by (auto simp: slept_def)
  obtain n cy where p: "p = BC_in n (BW_wait cy)"
    using sleep(3) c by (cases p rule: bc_exhaust) (auto simp: wait_call_def split: option.splits)
  have "fresh_wait (cycle (mem s)) False (threads s ! t)"
    using w sleep(1,2) p by (auto simp: wakeful_def list_all_length)
  then show ?thesis
    by (intro wakeful_acted [OF w _ sleep(1)]) (use sleep(2) p th m in \<open>auto simp: sleep(1)\<close>)
next
  case rest
  have lead: "list_ex at_broadcast (threads s) \<longrightarrow> list_ex at_broadcast (threads s')"
    by (rule lead_mono) (use rest(1) rested_fst [OF rest(1)] in \<open>auto simp: rested_def at_broadcast_fst\<close>)
  show ?thesis
    unfolding wakeful_def list_all_length
  proof (intro allI impI)
    fix u assume u: "u < length (threads s')"
    then have ul: "u < length (threads s)" using rest(1) by (simp add: rested_def)
    then have "fresh_wait (cycle (mem s)) (list_ex at_broadcast (threads s)) (threads s ! u)"
      using w by (simp add: wakeful_def list_all_length)
    moreover have "threads s' ! u = threads s ! u \<or> (\<exists>v. threads s' ! u = rouse v (threads s ! u))"
      using rest(1) ul by (simp add: rested_def)
    ultimately have "fresh_wait (cycle (mem s)) (list_ex at_broadcast (threads s)) (threads s' ! u)"
      using fresh_rouse by metis
    then show "fresh_wait (cycle (mem s')) (list_ex at_broadcast (threads s')) (threads s' ! u)"
      using fresh_lead lead rest(1) by (auto simp: rested_def)
  qed
qed

lemma bar_reach_wakeful:
  assumes "reach no_failures bar_client (bar_system N c0) s"
  shows "wakeful s"
  using assms
proof (induction rule: reach.induct)
  case reach_start
  show ?case by (simp add: wakeful_def bar_system_def list_all_iff)
next
  case (reach_step s e s')
  then show ?case using wakeful_step bar_locks.locked_reach bar_locked by blast
qed

section \<open>Properties\<close>

text \<open>C1. No thread gets ahead of the barrier: when a thread has completed its \<open>n\<close>-th
  \<open>barrier_wait\<close>, every thread has entered its \<open>n\<close>-th \<open>barrier_wait\<close>. This holds for every
  interleaving, spurious wakeups included, every number of threads and every start value of
  the cycle counter (its wrap-around included), as long as no call fails.\<close>
theorem barrier_lockstep:
  assumes "reach no_failures bar_client (bar_system N c0) s" and "t < N" and "u < N"
  shows "passed (pcs s ! t) \<le> arrived (pcs s ! u)"
proof -
  have "0 < N" using assms(2) by simp
  then obtain R where R: "round_inv N c0 R (mem s) (pcs s)" using bar_reach_round assms(1) by blast
  then have "in_round c0 R (pcs s ! t)" "in_round c0 R (pcs s ! u)"
    using assms(2,3) by (auto simp: round_inv_def list_all_length)
  then show ?thesis
    by (cases "pcs s ! t" rule: bc_exhaust; cases "pcs s ! u" rule: bc_exhaust) (auto simp: in_round_def)
qed

theorem barrier_lockstep_witness:
  "case run no_failures bar_client
      [Exec 0 0, Exec 0 0, Exec 0 0, Exec 0 0, Exec 0 0, Exec 1 0, Exec 1 0, Exec 1 0, Exec 1 0,
       Exec 1 0, Exec 1 0] (bar_system 2 (-1)) of
     Some s \<Rightarrow> passed (pcs s ! 1) = 1 \<and> passed (pcs s ! 1) \<le> arrived (pcs s ! 0)
   | None \<Rightarrow> False" (is "case ?r of Some s \<Rightarrow> ?P s | None \<Rightarrow> False")
proof -
  have "map_option (\<lambda>s. passed (pcs s ! 1)) ?r = Some 1" by code_simp
  then obtain s where s: "?r = Some s" "passed (pcs s ! 1) = 1" by auto
  show ?thesis using barrier_lockstep [OF reach_run [OF s(1)], of 1 0] s by simp
qed

lemma bar_not_ended:
  assumes "reach no_failures bar_client (bar_system N c0) s" and "0 < N"
  shows "ended s = None"
proof (rule ccontr)
  assume "ended s \<noteq> None"
  then obtain res where res: "ended s = Some res" by auto
  have nohalt: "bar_client p \<noteq> Halt q" if "p \<in> set (pcs s)" for p q
  proof -
    obtain R where "round_inv N c0 R (mem s) (pcs s)" using bar_reach_round [OF assms] by blast
    with that have "in_round c0 R p" by (auto simp: round_inv_def list_all_iff)
    then show ?thesis by (cases p rule: bc_exhaust) (auto simp: in_round_def)
  qed
  have "ended s \<noteq> Some Undefined"
    by (rule bar_locks.no_undefined [OF assms(1) bar_locked]) (use nohalt in auto)
  then show False using ended_cases [OF assms(1) _ res] nohalt res by (auto simp: bar_system_def)
qed

text \<open>C2. The barrier never deadlocks: with as many threads as its threshold, from every state
  the process can reach some thread can take a step of its own - no spurious wakeup, timeout
  or cancellation is needed, no wakeup is lost.\<close>
theorem barrier_no_deadlock:
  assumes r: "reach no_failures bar_client (bar_system N c0) s" and N: "0 < N"
  shows "\<exists>e s'. acts e \<and> step no_failures bar_client e s = Some s'"
proof -
  obtain R where R: "round_inv N c0 R (mem s) (pcs s)" using bar_reach_round [OF r N] by blast
  then have len: "length (threads s) = N" by (simp add: round_inv_def)
  have aw: "list_all (awake no_failures bar_client (now s)) (threads s)"
    by (rule reach_awake [OF r bar_awake])
  have "\<exists>t < length (threads s). \<not> parked bar_client s (threads s ! t)"
  proof (rule ccontr)
    assume np: "\<not> (\<exists>t < length (threads s). \<not> parked bar_client s (threads s ! t))"
    have sleeping: "\<exists>n c d x l. threads s ! t = (BC_in n (BW_wait c), Asleep d x l)"
      if "t < N" for t
    proof -
      have "parked bar_client s (threads s ! t)" and "awake no_failures bar_client (now s) (threads s ! t)"
        using that len aw np by (auto simp: list_all_length)
      then show ?thesis
        by (cases "threads s ! t" rule: thread_exhaust; cases "fst (threads s ! t)" rule: bc_exhaust)
           (auto simp: wait_call_def split: option.splits)
    qed
    have "\<not> list_ex at_broadcast (threads s)"
      using sleeping len by (fastforce simp: list_ex_length)
    then have fresh: "fresh_wait (cycle (mem s)) False (threads s ! t)" if "t < N" for t
      using bar_reach_wakeful [OF r] that len by (simp add: wakeful_def list_all_length)
    have "counted c0 R (pcs s ! t)" if "t < N" for t
    proof -
      have "in_round c0 R (pcs s ! t)" using R that by (auto simp: round_inv_def list_all_length)
      then show ?thesis
        using sleeping [OF that] fresh [OF that] R that len
        by (auto simp: round_inv_def in_round_def)
    qed
    then have "list_all (counted c0 R) (pcs s)" using len by (simp add: list_all_length)
    then have "headcount c0 R (pcs s) = int (length (pcs s))"
      unfolding headcount_def by (rule tally_all)
    then show False using R len by (simp add: round_inv_def)
  qed
  then show ?thesis
    using bar_locks.progress [OF r bar_locked bar_awake bar_not_ended [OF r N]] by blast
qed

theorem barrier_no_deadlock_witness:
  "case run no_failures bar_client
      [Exec 0 0, Exec 0 0, Exec 0 0, Exec 0 0, Exec 0 0] (bar_system 2 0) of
     Some s \<Rightarrow> snd (threads s ! 0) \<noteq> Ready \<and> (\<exists>e s'. acts e \<and> step no_failures bar_client e s = Some s')
   | None \<Rightarrow> False" (is "case ?r of Some s \<Rightarrow> ?P s | None \<Rightarrow> False")
proof -
  have "map_option (\<lambda>s. snd (threads s ! 0)) ?r = Some (Asleep Bar_cv Bar_mutex None)" by code_simp
  then obtain s where s: "?r = Some s" "snd (threads s ! 0) = Asleep Bar_cv Bar_mutex None" by auto
  show ?thesis using barrier_no_deadlock [OF reach_run [OF s(1)]] s by simp
qed

text \<open>\<open>barrier_wait\<close> never returns \<open>-1\<close>, whatever the calls it makes return: the status of
  the broadcasting thread is overwritten by the status of the final unlock. The comment above
  the function, and the loop of \<^verbatim>\<open>main.cxx\<close> that looks for \<open>-1\<close>, expect the opposite.\<close>
theorem barrier_wait_never_minus_one:
  assumes "reach bar_env bar_client (bar_system N c0) s" and "t < length (pcs s)"
    and "pcs s ! t = BC_in n (BW_return v)"
  shows "0 \<le> v"
proof -
  let ?Q = "\<lambda>p. \<forall>n v. p = BC_in n (BW_return v) \<longrightarrow> 0 \<le> v"
  have "list_all ?Q (pcs s)"
    using assms(1)
  proof (induction rule: reach_invariant)
    case (move n m ps t c k r m' p')
    have "?Q p'" and "spawned c r = []" and "entry_mem c r (length ps) m = m"
      using move(3,4,5,6)
      by (cases "ps ! t" rule: bc_exhaust; auto simp: bar_env_def bw_while_def Let_def split: if_splits)+
    then show ?case using move(1) by (simp add: list_all_update)
  qed (simp_all add: bar_system_def list_all_iff)
  then show ?thesis using assms(2,3) by (auto simp: list_all_length)
qed

theorem barrier_wait_never_minus_one_witness:
  "case run bar_env bar_client
      [Exec 0 0, Exec 0 0, Exec 0 0, Exec 0 0, Exec 0 0] (bar_system 1 7) of
     Some s \<Rightarrow> pcs s ! 0 = BC_in 0 (BW_return 0) \<and> cycle (mem s) = 8 \<and> (0::int) \<le> 0
   | None \<Rightarrow> False" (is "case ?r of Some s \<Rightarrow> ?P s | None \<Rightarrow> False")
proof -
  have "map_option (\<lambda>s. (pcs s ! 0, length (pcs s), cycle (mem s))) ?r = Some (BC_in 0 (BW_return 0), 1, 8)"
    by code_simp
  then obtain s where s: "?r = Some s" "pcs s ! 0 = BC_in 0 (BW_return 0)" "length (pcs s) = 1"
    "cycle (mem s) = 8" by auto
  have "(0::int) \<le> 0" by (rule barrier_wait_never_minus_one [OF reach_run [OF s(1)], of 0]) (use s in auto)
  then show ?thesis using s by simp
qed

text \<open>When the wait inside \<open>barrier_wait\<close> fails, the thread leaves the barrier early and is
  told that it passed: the error status of the wait is lost, the call returns 0, and the
  counter stays decremented.\<close>
theorem barrier_wait_hides_errors:
  assumes "bar_valid b = BARRIER_VALID" and "bar_counter b \<noteq> 1" and "e \<noteq> 0"
  shows "seq_run barrier_wait [0, 0, 0, e, 0] BW_start b =
    (b\<lparr>bar_counter := bar_counter b - 1\<rparr>, BW_return 0)"
  using assms by (simp add: bw_while_def Let_def)

theorem barrier_wait_hides_errors_witness:
  "seq_run barrier_wait [0, 0, 0, EINVAL, 0] BW_start (BARRIER_INITIALIZER 3) =
    ((BARRIER_INITIALIZER 3)\<lparr>bar_counter := 2\<rparr>, BW_return 0)"
  using barrier_wait_hides_errors [of "BARRIER_INITIALIZER 3" EINVAL]
  by (simp add: BARRIER_INITIALIZER_def)

text \<open>\<open>barrier_destroy\<close> on every branch: an invalid barrier is \<open>EINVAL\<close>, a failed lock is
  reported, a barrier with waiting threads is \<open>EBUSY\<close> and stays as it was; otherwise the
  barrier becomes invalid and the first error of the two destructions is returned.\<close>
theorem barrier_destroy_result:
  "\<exists>n. seq_run barrier_destroy (take n [0, l, 0, m, c]) BD_start b =
    (if bar_valid b \<noteq> BARRIER_VALID then (b, BD_return EINVAL)
     else if l \<noteq> 0 then (b, BD_return l)
     else if bar_counter b \<noteq> threshold b then (b, BD_return EBUSY)
     else (b\<lparr>bar_valid := 0\<rparr>, BD_return (if m \<noteq> 0 then m else c)))"
  by (rule exI [of _ 5]) simp

end
