(* ===== verification/BarrierMain.thy ===== *)
theory BarrierMain
  imports Barrier
begin

text \<open>
  The client of the barrier, \<^verbatim>\<open>chap7-RealCode/barrier/main.cxx\<close>: five threads add to their own
  arrays between waits; the thread that gets \<open>-1\<close> from \<open>barrier_wait\<close> is meant to raise
  everybody's increment. The calls of \<open>barrier_wait\<close> and \<open>barrier_init\<close> are those of
  \<open>Barrier\<close>, on the part \<open>bm_barrier\<close> of the memory.
\<close>

section \<open>The data\<close>

definition THREADS :: nat where "THREADS = 5"
definition ARRAY :: nat where "ARRAY = 6"
definition INLOOPS :: nat where "INLOOPS = 1000"
definition OUTLOOPS :: int where "OUTLOOPS = 10"

record thread_tag =
  thread_id :: "tid option"
  number :: int
  increment :: int
  arr :: "int list"

text \<open>\<open>printout\<close> are the lines \<^verbatim>\<open>main\<close> prints: number, increment and the printed part of the array.\<close>

record barrier_program =
  bm_barrier :: barrier
  bm_thread :: "thread_tag list"
  printout :: "(nat \<times> int \<times> int list) list"

definition int_ok :: "int \<Rightarrow> bool" where
  "int_ok x \<longleftrightarrow> -2147483648 \<le> x \<and> x \<le> 2147483647"

section \<open>The threads\<close>

text \<open>The two inner loops; \<open>None\<close> is a signed overflow.\<close>

fun add_loops :: "nat \<Rightarrow> int \<Rightarrow> int list \<Rightarrow> int list option" where
  "add_loops 0 d xs = Some xs"
| "add_loops (Suc n) d xs =
     (if list_all (\<lambda>x. int_ok (x + d)) xs then add_loops n d (map (\<lambda>x. x + d) xs) else None)"

text \<open>\<open>k\<close> is \<^verbatim>\<open>out_loop\<close>, which the source does not initialise.\<close>

datatype tr_pc = TR_start | TR_wait1 int bw_pc | TR_wait2 int bw_pc | TR_return | TR_abort | TR_crash

definition tr_for :: "int \<Rightarrow> barrier_program \<Rightarrow> barrier_program \<times> tr_pc" where
  "tr_for k m = (m, if k < OUTLOOPS then TR_wait1 k BW_start else TR_return)"

definition tr_work :: "nat \<Rightarrow> int \<Rightarrow> barrier_program \<Rightarrow> barrier_program \<times> tr_pc" where
  "tr_work i k m =
     (let x = bm_thread m ! i in
      case add_loops INLOOPS (increment x) (arr x) of
        None \<Rightarrow> (m, TR_crash)
      | Some xs \<Rightarrow> (m\<lparr>bm_thread := (bm_thread m)[i := x\<lparr>arr := xs\<rparr>]\<rparr>, TR_wait2 k BW_start))"

definition raise_all :: "barrier_program \<Rightarrow> barrier_program" where
  "raise_all m = m\<lparr>bm_thread := map (\<lambda>x. x\<lparr>increment := increment x + 1\<rparr>) (bm_thread m)\<rparr>"

abbreviation in_barrier :: "('p \<Rightarrow> tr_pc) \<Rightarrow> (int \<Rightarrow> barrier_program \<Rightarrow> barrier_program \<times> tr_pc) \<Rightarrow>
    (bar_mutex, bar_cond, barrier, 'p) act \<Rightarrow> (bar_mutex, bar_cond, barrier_program, tr_pc) act" where
  "in_barrier w \<equiv> call_fun bm_barrier (\<lambda>b m. m\<lparr>bm_barrier := b\<rparr>) w w"

fun thread_routine :: "nat \<Rightarrow> tr_pc \<Rightarrow> (bar_mutex, bar_cond, barrier_program, tr_pc) act" where
  "thread_routine i TR_start = Do (Env (\<lambda>r _. int_ok r)) tr_for"
| "thread_routine i (TR_wait1 k p) =
     in_barrier (TR_wait1 k) (\<lambda>status m. if status > 0 then (m, TR_abort) else tr_work i k m) (barrier_wait p)"
| "thread_routine i (TR_wait2 k p) =
     in_barrier (TR_wait2 k)
       (\<lambda>status m. if status > 0 then (m, TR_abort)
         else tr_for (k + 1) (if status = -1 then raise_all m else m)) (barrier_wait p)"
| "thread_routine i TR_return = Return 0"
| "thread_routine i TR_abort = Halt Aborted"
| "thread_routine i TR_crash = Halt Undefined"

section \<open>The main thread\<close>

datatype bm_pc = BM_init bi_pc | BM_create nat | BM_join nat tid | BM_print nat | BM_exit | BM_abort | BM_crash
  | BM_thread nat tr_pc

definition bm_setup :: "nat \<Rightarrow> barrier_program \<Rightarrow> barrier_program" where
  "bm_setup i m = m\<lparr>bm_thread := (bm_thread m)[i := (bm_thread m ! i)\<lparr>increment := int i, number := int i,
     arr := map (\<lambda>c. int c + 1) [0..<ARRAY]\<rparr>]\<rparr>"

definition bm_after :: "nat \<Rightarrow> barrier_program \<Rightarrow> barrier_program \<times> bm_pc" where
  "bm_after i m =
     (m, if i < THREADS
         then (case thread_id (bm_thread m ! i) of None \<Rightarrow> BM_crash | Some u \<Rightarrow> BM_join i u) else BM_exit)"

definition bm_next :: "nat \<Rightarrow> barrier_program \<Rightarrow> barrier_program \<times> bm_pc" where
  "bm_next i m = (if i < THREADS then (bm_setup i m, BM_create i) else bm_after 0 m)"

text \<open>The index of the printing loop is not initialised either: \<open>r\<close> is its first value.\<close>

definition bm_print :: "nat \<Rightarrow> int \<Rightarrow> barrier_program \<Rightarrow> barrier_program \<times> bm_pc" where
  "bm_print i r m =
     (let x = bm_thread m ! i in
      if r < 0 then (m, BM_crash)
      else bm_after (Suc i) (m\<lparr>printout := printout m @ [(i, increment x, drop (nat r) (arr x))]\<rparr>))"

fun barrier_main :: "bm_pc \<Rightarrow> (bar_mutex, bar_cond, barrier_program, bm_pc) act" where
  "barrier_main (BM_init p) =
     call_fun bm_barrier (\<lambda>b m. m\<lparr>bm_barrier := b\<rparr>) BM_init BM_init (\<lambda>_. bm_next 0)
       (barrier_init (int THREADS) p)"
| "barrier_main (BM_create i) =
     Do (Create (\<lambda>u m. m\<lparr>bm_thread := (bm_thread m)[i := (bm_thread m ! i)\<lparr>thread_id := Some u\<rparr>]\<rparr>)
           (BM_thread i TR_start))
       (\<lambda>status m. if status \<noteq> 0 then (m, BM_abort) else bm_next (Suc i) m)"
| "barrier_main (BM_join i u) =
     Do (Join u) (\<lambda>status m. (m, if status \<noteq> 0 then BM_abort else BM_print i))"
| "barrier_main (BM_print i) = Do (Env (\<lambda>r _. int_ok r)) (bm_print i)"
| "barrier_main BM_exit = Halt (Exited 0)"
| "barrier_main BM_abort = Halt Aborted"
| "barrier_main BM_crash = Halt Undefined"
| "barrier_main (BM_thread i p) = thread_fun (BM_thread i) (thread_routine i p)"

text \<open>Objects with static storage are zero at the start.\<close>

definition bm_mem :: "barrier_program" where
  "bm_mem = \<lparr>bm_barrier = \<lparr>bar_valid = 0, threshold = 0, bar_counter = 0, cycle = 0\<rparr>,
     bm_thread = replicate THREADS \<lparr>thread_id = None, number = 0, increment = 0, arr = replicate ARRAY 0\<rparr>,
     printout = []\<rparr>"

definition bm_system :: "(bar_mutex, bar_cond, barrier_program, bm_pc) sys" where
  "bm_system = (boot bm_mem [BM_init BI_start])\<lparr>mtx := \<lambda>_. Raw, cnd := \<lambda>_. False\<rparr>"

section \<open>What the threads compute\<close>

lemma add_loops_eq: "add_loops n d xs = Some ys \<Longrightarrow> ys = map (\<lambda>x. x + int n * d) xs"
proof (induction n arbitrary: xs)
  case (Suc n)
  then have "ys = map (\<lambda>x. x + int n * d) (map (\<lambda>x. x + d) xs)"
    using Suc.IH [of "map (\<lambda>x. x + d) xs"] by (simp split: if_splits del: map_map)
  then show ?case by (simp add: comp_def algebra_simps)
qed simp

definition sums :: "nat \<Rightarrow> int \<Rightarrow> int list" where
  "sums i n = map (\<lambda>c. int c + 1 + 1000 * int i * n) [0..<ARRAY]"

definition own :: "barrier_program \<Rightarrow> nat \<Rightarrow> int \<Rightarrow> bool" where
  "own m i n \<longleftrightarrow> increment (bm_thread m ! i) = int i \<and> arr (bm_thread m ! i) = sums i n"

lemma own_cong: "bm_thread m' ! i = bm_thread m ! i \<Longrightarrow> own m' i n = own m i n"
  by (simp add: own_def)

definition bw_ok :: "bw_pc \<Rightarrow> bool" where
  "bw_ok p \<longleftrightarrow> (\<forall>v. p = BW_return v \<longrightarrow> 0 \<le> v)"

text \<open>\<open>k0 i\<close> is the value \<^verbatim>\<open>out_loop\<close> happens to have in thread \<open>i\<close>; the thread makes \<open>bm_rounds (k0 i)\<close> rounds.\<close>

definition bm_rounds :: "int \<Rightarrow> int" where
  "bm_rounds x = (if x < OUTLOOPS then OUTLOOPS - x else 0)"

fun tr_fit :: "(nat \<Rightarrow> int) \<Rightarrow> barrier_program \<Rightarrow> nat \<Rightarrow> tr_pc \<Rightarrow> bool" where
  "tr_fit k0 m i TR_start \<longleftrightarrow> own m i 0"
| "tr_fit k0 m i (TR_wait1 k p) \<longleftrightarrow> own m i (k - k0 i) \<and> bw_ok p \<and> k0 i \<le> k \<and> k < 10"
| "tr_fit k0 m i (TR_wait2 k p) \<longleftrightarrow> own m i (k + 1 - k0 i) \<and> bw_ok p \<and> k0 i \<le> k \<and> k < 10"
| "tr_fit k0 m i TR_return \<longleftrightarrow> own m i (bm_rounds (k0 i))"
| "tr_fit k0 m i p \<longleftrightarrow> True"

fun starts_at :: "(nat \<Rightarrow> int) \<Rightarrow> bm_pc policy" where
  "starts_at k0 (BM_thread i TR_start) r \<longleftrightarrow> r = k0 i"
| "starts_at k0 p r \<longleftrightarrow> True"

definition only :: "nat \<Rightarrow> barrier_program \<Rightarrow> barrier_program \<Rightarrow> bool" where
  "only i m m' \<longleftrightarrow> length (bm_thread m') = length (bm_thread m) \<and>
     (\<forall>j. j \<noteq> i \<longrightarrow> bm_thread m' ! j = bm_thread m ! j)"

lemma tr_fit_only: "only i m m' \<Longrightarrow> j \<noteq> i \<Longrightarrow> tr_fit k0 m j q \<Longrightarrow> tr_fit k0 m' j q"
  using own_cong [of m' j m] by (cases q) (auto simp: only_def)

lemma tr_fit_cong: "bm_thread m' = bm_thread m \<Longrightarrow> tr_fit k0 m' j q = tr_fit k0 m j q"
  using own_cong [of m' j m] by (cases q) auto

lemma bw_step:
  assumes "barrier_wait p = Do c k" and "answer_ok c r b n" and "k r b' = (b'', p')"
  shows "bw_ok p'"
  using assms by (cases p) (auto simp: bw_ok_def bw_while_def Let_def split: if_splits)

lemma tr_for_fit:
  "tr_for k m = (m', q) \<Longrightarrow> own m i (k - k0 i) \<Longrightarrow> k0 i \<le> k \<Longrightarrow> k \<le> 10 \<or> k = k0 i \<Longrightarrow> m' = m \<and> tr_fit k0 m' i q"
  by (auto simp: tr_for_def OUTLOOPS_def bm_rounds_def bw_ok_def split: if_splits)

lemma tr_work_fit:
  assumes "tr_work i k m = (m', q)" and "own m i (k - k0 i)" and "k0 i \<le> k" and "k < 10" and "i < length (bm_thread m)"
  shows "only i m m' \<and> tr_fit k0 m' i q"
proof (cases "add_loops INLOOPS (int i) (sums i (k - k0 i))")
  case None
  then show ?thesis using assms by (auto simp: tr_work_def own_def only_def Let_def)
next
  case (Some ys)
  have "ys = sums i (k + 1 - k0 i)"
    unfolding add_loops_eq [OF Some] by (simp add: sums_def INLOOPS_def algebra_simps)
  then show ?thesis using assms Some
    by (auto simp: tr_work_def own_def only_def Let_def bw_ok_def)
qed

lemma tr_step:
  assumes c: "thread_routine i q = Do c k" and r: "starts_at k0 (BM_thread i q) r" "answer_ok c r m n"
    and k: "k r m = (m', q')" and fit: "tr_fit k0 m i q" and i: "i < length (bm_thread m)"
  shows "only i m m' \<and> tr_fit k0 m' i q'"
proof (cases q)
  case TR_start
  then show ?thesis using c k r fit tr_for_fit [of r m m' q' i k0] by (auto simp: only_def)
next
  case (TR_wait1 l p)
  from c [unfolded TR_wait1 thread_routine.simps] show ?thesis
  proof (cases rule: call_fun_cases)
    case (inside c0 k0')
    obtain b p' where b: "k0' r (bm_barrier m) = (b, p')" by (cases "k0' r (bm_barrier m)")
    have "answer_ok c0 r (bm_barrier m) n" using r(2) inside(2) by (cases c0) auto
    then have "bw_ok p'" by (rule bw_step [OF inside(1) _ b])
    then show ?thesis using k b inside(3) fit TR_wait1 own_cong [of m' i m] by (auto simp: only_def)
  next
    case (ret v)
    then show ?thesis using k fit TR_wait1 tr_work_fit [of i l m m' q' k0] i
      by (auto simp: only_def split: if_splits)
  qed
next
  case (TR_wait2 l p)
  from c [unfolded TR_wait2 thread_routine.simps] show ?thesis
  proof (cases rule: call_fun_cases)
    case (inside c0 k0')
    obtain b p' where b: "k0' r (bm_barrier m) = (b, p')" by (cases "k0' r (bm_barrier m)")
    have "answer_ok c0 r (bm_barrier m) n" using r(2) inside(2) by (cases c0) auto
    then have "bw_ok p'" by (rule bw_step [OF inside(1) _ b])
    then show ?thesis using k b inside(3) fit TR_wait2 own_cong [of m' i m] by (auto simp: only_def)
  next
    case (ret v)
    then have "p = BW_return v" by (cases p) auto
    then have "0 \<le> v" using fit TR_wait2 by (simp add: bw_ok_def)
    then show ?thesis using ret k fit TR_wait2 tr_for_fit [of "l + 1" m m' q' i k0]
      by (auto simp: only_def split: if_splits)
  qed
qed (use c in auto)

lemma barrier_init_spawned: "barrier_init n p = Do c k \<Longrightarrow> spawned c r = []"
  by (cases p) auto

lemma barrier_wait_spawned: "barrier_wait p = Do c k \<Longrightarrow> spawned c r = []"
  by (cases p) auto

lemma bm_spawned:
  assumes "barrier_main p = Do c k"
  shows "spawned c r = [] \<or> (\<exists>i. p = BM_create i \<and> spawned c r = [BM_thread i TR_start])"
proof -
  have T: "spawned c r = []" if "thread_routine i q = Do c k" for i q c k r
    using that barrier_wait_spawned by (cases q) (auto elim!: call_fun_cases)
  show ?thesis
  proof (cases p)
    case (BM_init q)
    from assms [unfolded BM_init barrier_main.simps] show ?thesis
      by (cases rule: call_fun_cases) (auto dest: barrier_init_spawned)
  next
    case (BM_thread i q)
    from assms [unfolded BM_thread barrier_main.simps] show ?thesis
      by (cases rule: thread_fun_cases) (auto dest: T)
  qed (use assms in auto)
qed

text \<open>\<open>n\<close> is the number of threads that have been created.\<close>

fun bm_fit :: "barrier_program \<Rightarrow> nat \<Rightarrow> bm_pc \<Rightarrow> bool" where
  "bm_fit m n (BM_init p) \<longleftrightarrow> n = 0"
| "bm_fit m n (BM_create i) \<longleftrightarrow> n = i \<and> i < 5 \<and> own m i 0"
| "bm_fit m n (BM_thread i p) \<longleftrightarrow> False"
| "bm_fit m n p \<longleftrightarrow> True"

definition bm_inv :: "(nat \<Rightarrow> int) \<Rightarrow> barrier_program \<Rightarrow> bm_pc \<Rightarrow> bm_pc list \<Rightarrow> bool" where
  "bm_inv k0 m p ws \<longleftrightarrow> length (bm_thread m) = 5 \<and> length ws \<le> 5 \<and> bm_fit m (length ws) p \<and>
     (\<forall>j < length ws. \<exists>q. ws ! j = BM_thread j q \<and> tr_fit k0 m j q)"

lemma bm_after_step: "bm_inv k0 m p ws \<Longrightarrow> bm_after i m = (m', p') \<Longrightarrow> bm_inv k0 m' p' ws"
  by (auto simp: bm_after_def bm_inv_def split: option.splits)

lemma bm_next_step:
  assumes inv: "bm_inv k0 m p ws" and k: "bm_next (length ws) m = (m', p')"
  shows "bm_inv k0 m' p' ws"
proof (cases "length ws < 5")
  case True
  let ?n = "length ws"
  have m': "m' = bm_setup ?n m" "p' = BM_create ?n" using k True by (auto simp: bm_next_def THREADS_def)
  have "only ?n m m'" "own m' ?n 0" "length (bm_thread m') = 5"
    using m' inv True by (auto simp: bm_setup_def only_def own_def sums_def bm_inv_def)
  then show ?thesis using inv m' True tr_fit_only [of ?n m m'] unfolding bm_inv_def by (metis (no_types) bm_fit.simps(2) nat_neq_iff less_or_eq_imp_le)
next
  case False
  then have "bm_after 0 m = (m', p')" using k by (simp add: bm_next_def THREADS_def)
  then show ?thesis using bm_after_step [OF inv] by blast
qed

lemma bm_main_step:
  assumes inv: "bm_inv k0 m p ws" and c: "barrier_main p = Do c k"
    and k: "k r (entry_mem c r (Suc (length ws)) m) = (m', p')"
  shows "bm_inv k0 m' p' (ws @ spawned c r)"
proof (cases p)
  case (BM_init q)
  have e: "spawned c r = []" "entry_mem c r (Suc (length ws)) m = m"
    using bm_spawned [OF c] BM_init by (auto intro: entry_mem_plain)
  have ws: "ws = []" using inv BM_init by (simp add: bm_inv_def)
  from c [unfolded BM_init barrier_main.simps] show ?thesis
  proof (cases rule: call_fun_cases)
    case (inside c0 k0')
    then show ?thesis using k e inv ws by (auto simp: bm_inv_def split: prod.splits)
  next
    case (ret v)
    then show ?thesis using k e ws bm_next_step [OF inv, of m' p'] by simp
  qed
next
  case (BM_create i)
  then have i: "i = length ws" "i < 5" "own m i 0" "length (bm_thread m) = 5" using inv by (simp_all add: bm_inv_def)
  show ?thesis
  proof (cases "r = 0")
    case True
    let ?m = "m\<lparr>bm_thread := (bm_thread m)[i := (bm_thread m ! i)\<lparr>thread_id := Some (Suc (length ws))\<rparr>]\<rparr>"
    have o: "only i m ?m" "own ?m i 0" using i by (simp_all add: only_def own_def)
    have "\<exists>q. (ws @ [BM_thread i TR_start]) ! j = BM_thread j q \<and> tr_fit k0 ?m j q" if j: "j < Suc (length ws)" for j
    proof (cases "j = i")
      case True
      then show ?thesis using i(1) o(2) by simp
    next
      case False
      then have jl: "j < length ws" using j i(1) by simp
      then obtain q where "ws ! j = BM_thread j q" "tr_fit k0 m j q" using inv unfolding bm_inv_def by blast
      then show ?thesis using tr_fit_only [OF o(1) False] jl by (simp add: nth_append)
    qed
    then have "bm_inv k0 ?m BM_exit (ws @ [BM_thread i TR_start])" using i by (simp add: bm_inv_def)
    moreover have "spawned c r = [BM_thread i TR_start]" "bm_next (length (ws @ [BM_thread i TR_start])) ?m = (m', p')"
      using c k BM_create True i(1) by auto
    ultimately show ?thesis using bm_next_step by metis
  next
    case False
    then show ?thesis using c k BM_create inv by (auto simp: bm_inv_def)
  qed
next
  case (BM_print i)
  have P: "bm_inv k0 (m\<lparr>printout := x\<rparr>) BM_exit ws" for x
    using inv tr_fit_cong [of "m\<lparr>printout := x\<rparr>" m] by (simp add: bm_inv_def)
  have "spawned c r = []" "bm_print i r m = (m', p')" using BM_print c k by auto
  then show ?thesis using bm_after_step [OF P] inv
    by (auto simp: bm_print_def bm_inv_def Let_def split: if_splits)
qed (use inv c k in \<open>auto simp: bm_inv_def split: if_splits\<close>)

lemma bm_thread_step:
  assumes inv: "bm_inv k0 m p ws" and j: "j < length ws" and c: "barrier_main (ws ! j) = Do c k"
    and r: "starts_at k0 (ws ! j) r" "answer_ok c r m n" and k: "k r m = (m', p')"
  shows "bm_inv k0 m' p (ws[j := p'])"
proof -
  obtain q where q: "ws ! j = BM_thread j q" "tr_fit k0 m j q" "length (bm_thread m) = 5" "length ws \<le> 5"
    using inv j by (auto simp: bm_inv_def)
  from c [unfolded q(1) barrier_main.simps] obtain c0 k0' q' where
    w: "thread_routine j q = Do c0 k0'" "answer_ok c0 r m n" "k0' r m = (m', q')" "p' = BM_thread j q'"
    using r(2) k by (auto elim!: thread_fun_cases split: prod.splits)
  have s: "only j m m'" "tr_fit k0 m' j q'"
    using tr_step [OF w(1) _ w(2,3) q(2)] r(1) q j by auto
  have "\<exists>q. (ws[j := p']) ! u = BM_thread u q \<and> tr_fit k0 m' u q" if u: "u < length ws" for u
  proof (cases "u = j")
    case True
    then show ?thesis using s w(4) j by simp
  next
    case False
    obtain x where "ws ! u = BM_thread u x" "tr_fit k0 m u x" using inv u unfolding bm_inv_def by blast
    then show ?thesis using tr_fit_only [OF s(1) False] False by simp
  qed
  moreover have "bm_fit m' (length ws) p"
  proof (cases p)
    case (BM_create i)
    then have "i = length ws" "own m i 0" using inv by (auto simp: bm_inv_def)
    then have "own m' i 0" using s(1) j own_cong [of m' i m] by (simp add: only_def)
    then show ?thesis using inv BM_create by (simp add: bm_inv_def)
  qed (use inv in \<open>auto simp: bm_inv_def\<close>)
  ultimately show ?thesis using s(1) q by (simp add: bm_inv_def only_def)
qed

section \<open>What is printed\<close>

text \<open>The identifiers of the threads, and the lines: number, increment and the array from some element on.\<close>

definition known_ids :: "barrier_program \<Rightarrow> bm_pc list \<Rightarrow> bool" where
  "known_ids m ws \<longleftrightarrow> (\<forall>j < length ws. thread_id (bm_thread m ! j) = Some (Suc j))"

definition printed :: "(nat \<Rightarrow> int) \<Rightarrow> (nat \<times> int \<times> int list) list \<Rightarrow> bool" where
  "printed k0 ls \<longleftrightarrow> (\<forall>l < length ls. \<exists>r. ls ! l = (l, int l, drop r (sums l (bm_rounds (k0 l)))))"

fun at_print :: "barrier_program \<Rightarrow> bm_pc list \<Rightarrow> bm_pc \<Rightarrow> bool" where
  "at_print m ws (BM_init p) \<longleftrightarrow> printout m = []"
| "at_print m ws (BM_create i) \<longleftrightarrow> printout m = []"
| "at_print m ws (BM_join i u) \<longleftrightarrow> length (printout m) = i \<and> i < 5 \<and> length ws = 5 \<and> u = Suc i"
| "at_print m ws (BM_print i) \<longleftrightarrow> length (printout m) = i \<and> i < 5 \<and> length ws = 5 \<and> ws ! i = BM_thread i TR_return"
| "at_print m ws BM_exit \<longleftrightarrow> length (printout m) = 5"
| "at_print m ws p \<longleftrightarrow> True"

definition bm_all :: "(nat \<Rightarrow> int) \<Rightarrow> barrier_program \<Rightarrow> bm_pc \<Rightarrow> bm_pc list \<Rightarrow> bool" where
  "bm_all k0 m p ws \<longleftrightarrow> bm_inv k0 m p ws \<and> known_ids m ws \<and> printed k0 (printout m) \<and> at_print m ws p"

lemma bm_after_print:
  assumes "bm_after i m = (m', p')" and "length (printout m) = i" and "i \<le> 5" and "known_ids m ws" and "length ws = 5"
  shows "m' = m \<and> at_print m ws p'"
  using assms by (auto simp: bm_after_def known_ids_def THREADS_def split: option.splits)

lemma bm_next_print:
  assumes "bm_next i m = (m', p')" and "printout m = []" and "known_ids m ws" and "length ws = i" and "i \<le> 5"
    and "length (bm_thread m) = 5"
  shows "known_ids m' ws \<and> printout m' = [] \<and> at_print m' ws p'"
proof (cases "i < 5")
  case True
  then show ?thesis using assms by (auto simp: bm_next_def bm_setup_def known_ids_def THREADS_def)
next
  case False
  then have "bm_after 0 m = (m', p')" "length ws = 5" using assms by (auto simp: bm_next_def THREADS_def)
  then show ?thesis using bm_after_print [of 0 m m' p' ws] assms by simp
qed

lemma tr_frame:
  assumes c: "thread_routine i q = Do c k" and k: "k r m = (m', q')"
  shows "printout m' = printout m \<and> map thread_id (bm_thread m') = map thread_id (bm_thread m)"
proof -
  have w: "printout m' = printout m \<and> map thread_id (bm_thread m') = map thread_id (bm_thread m)" if "tr_work i l m = (m', q')" for l
    using that by (cases "i < length (bm_thread m)")
      (auto simp: tr_work_def Let_def map_update list_update_beyond intro!: list_update_same_conv [THEN iffD2] split: option.splits)
  have f: "m' = x" if "tr_for l x = (m', q')" for l x using that by (simp add: tr_for_def)
  show ?thesis
  proof (cases q)
    case (TR_wait1 l p)
    from c [unfolded TR_wait1 thread_routine.simps] show ?thesis
      by (cases rule: call_fun_cases) (use k w in \<open>auto split: prod.splits if_splits\<close>)
  next
    case (TR_wait2 l p)
    from c [unfolded TR_wait2 thread_routine.simps] show ?thesis
      by (cases rule: call_fun_cases) (use k in \<open>auto dest!: f simp: raise_all_def comp_def split: prod.splits if_splits\<close>)
  qed (use c k f in auto)
qed

lemma bm_thread_print:
  assumes all: "bm_all k0 m p ws" and j: "j < length ws" and c: "barrier_main (ws ! j) = Do c k" and k: "k r m = (m', p')"
  shows "known_ids m' (ws[j := p']) \<and> printed k0 (printout m') \<and> at_print m' (ws[j := p']) p"
proof -
  obtain q where q: "ws ! j = BM_thread j q" using all j by (auto simp: bm_all_def bm_inv_def)
  with c have "thread_fun (BM_thread j) (thread_routine j q) = Do c k" by simp
  then obtain c0 k0' where t: "thread_routine j q = Do c0 k0'" "k = (\<lambda>r s. case k0' r s of (s', p) \<Rightarrow> (s', BM_thread j p))"
    by (rule thread_fun_cases)
  then obtain q' where "k0' r m = (m', q')" using k by (cases "k0' r m") auto
  note f = tr_frame [OF t(1) this]
  have len: "length (bm_thread m) = 5" "length ws \<le> 5" using all by (simp_all add: bm_all_def bm_inv_def)
  have "thread_id (bm_thread m' ! i) = thread_id (bm_thread m ! i)" if "i < 5" for i
    using f len(1) that by (metis length_map nth_map)
  then have "known_ids m' (ws[j := p'])" using all len by (simp add: bm_all_def known_ids_def)
  moreover have "at_print m' (ws[j := p']) p"
  proof (cases p)
    case (BM_print i)
    then have "ws ! i = BM_thread i TR_return" using all by (simp add: bm_all_def)
    then have "i \<noteq> j" using c by auto
    then show ?thesis using all BM_print f by (simp add: bm_all_def)
  qed (use all f in \<open>auto simp: bm_all_def\<close>)
  ultimately show ?thesis using all f by (simp add: bm_all_def)
qed

lemma bm_main_print:
  assumes all: "bm_all k0 m p ws" and c: "barrier_main p = Do c k" and k: "k r (entry_mem c r (Suc (length ws)) m) = (m', p')"
    and j: "\<forall>u. c = Join u \<and> r = 0 \<longrightarrow> u < Suc (length ws) \<and> (\<exists>v. barrier_main ((p # ws) ! u) = Return v)"
  shows "known_ids m' (ws @ spawned c r) \<and> printed k0 (printout m') \<and> at_print m' (ws @ spawned c r) p'"
proof -
  have I: "known_ids m ws" "printed k0 (printout m)" "at_print m ws p" "length (bm_thread m) = 5" "length ws \<le> 5" "bm_fit m (length ws) p"
    using all by (simp_all add: bm_all_def bm_inv_def)
  show ?thesis
  proof (cases p)
    case (BM_init q)
    have e: "spawned c r = []" "entry_mem c r (Suc (length ws)) m = m"
      using bm_spawned [OF c] BM_init by (auto intro: entry_mem_plain)
    from c [unfolded BM_init barrier_main.simps] show ?thesis
    proof (cases rule: call_fun_cases)
      case (inside c0 k0')
      then obtain b q' where "m' = m\<lparr>bm_barrier := b\<rparr>" "p' = BM_init q'" using k e by (auto split: prod.splits)
      then show ?thesis using I BM_init e by (simp add: known_ids_def)
    next
      case (ret v)
      then have "bm_next 0 m = (m', p')" using k e by simp
      then show ?thesis using bm_next_print [of 0 m m' p' ws] I BM_init e by (simp add: printed_def)
    qed
  next
    case (BM_create i)
    show ?thesis
    proof (cases "r = 0")
      case True
      let ?m = "m\<lparr>bm_thread := (bm_thread m)[i := (bm_thread m ! i)\<lparr>thread_id := Some (Suc (length ws))\<rparr>]\<rparr>"
      let ?ws = "ws @ [BM_thread i TR_start]"
      have i: "i = length ws" "i < 5" using I(6) BM_create by simp_all
      then have "known_ids ?m ?ws" using I(1,4) by (auto simp: known_ids_def nth_list_update less_Suc_eq)
      moreover have "spawned c r = [BM_thread i TR_start]" "bm_next (Suc i) ?m = (m', p')" using c k BM_create True by auto
      ultimately show ?thesis using bm_next_print [of "Suc i" ?m m' p' ?ws] I BM_create i by (simp add: printed_def)
    qed (use c k BM_create I in auto)
  next
    case (BM_join i u)
    show ?thesis
    proof (cases "r = 0")
      case True
      have u: "u = Suc i" "i < 5" "length ws = 5" "length (printout m) = i" using I(3) BM_join by simp_all
      obtain q where q: "ws ! i = BM_thread i q" using all u by (auto simp: bm_all_def bm_inv_def)
      have "c = Join u" using c BM_join by auto
      then obtain v where "thread_fun (BM_thread i) (thread_routine i q) = Return v" using j True u q by auto
      then have "q = TR_return"
        by (cases q) (auto elim!: thread_fun.elims call_fun.elims)
      then show ?thesis using c k BM_join True u q I(1,2) by auto
    qed (use c k BM_join I in auto)
  next
    case (BM_print i)
    have i: "length (printout m) = i" "i < 5" "length ws = 5" "ws ! i = BM_thread i TR_return" using I(3) BM_print by simp_all
    have o: "own m i (bm_rounds (k0 i))"
    proof -
      have "tr_fit k0 m i TR_return" using all i by (auto simp: bm_all_def bm_inv_def)
      then show ?thesis by simp
    qed
    have e: "spawned c r = []" "bm_print i r m = (m', p')" using c k BM_print by auto
    show ?thesis
    proof (cases "r < 0")
      case False
      let ?line = "(i, int i, drop (nat r) (sums i (bm_rounds (k0 i))))"
      have a: "bm_after (Suc i) (m\<lparr>printout := printout m @ [?line]\<rparr>) = (m', p')" using e(2) o False by (simp add: bm_print_def own_def)
      have "m' = m\<lparr>printout := printout m @ [?line]\<rparr> \<and> at_print m' ws p'"
        using bm_after_print [OF a, of ws] i I(1) by (auto simp: known_ids_def)
      moreover have "printed k0 (printout m @ [?line])" using I(2) i(1) by (auto simp: printed_def nth_append less_Suc_eq)
      ultimately show ?thesis using e(1) I(1) by (auto simp: known_ids_def)
    qed (use e I in \<open>simp add: bm_print_def\<close>)
  qed (use c I in auto)
qed

lemma bm_reach:
  assumes "reach (starts_at k0) barrier_main bm_system s"
  shows "\<exists>p ws. pcs s = p # ws \<and> bm_all k0 (mem s) p ws"
  using assms
proof (induction rule: reach_joined)
  case start
  show ?case by (simp add: bm_system_def bm_inv_def bm_mem_def THREADS_def bm_all_def known_ids_def printed_def)
next
  case (move n m ps t c k r m' p')
  then obtain p ws where ps: "ps = p # ws" and all: "bm_all k0 m p ws" by blast
  then have inv: "bm_inv k0 m p ws" by (simp add: bm_all_def)
  show ?case
  proof (cases t)
    case 0
    then have p: "barrier_main p = Do c k" using move ps by simp
    have "bm_inv k0 m' p' (ws @ spawned c r)" using bm_main_step [OF inv p, of r m' p'] move(6) ps by simp
    then have "bm_all k0 m' p' (ws @ spawned c r)"
      using bm_main_print [OF all p, of r m' p'] move(6,7) ps by (simp add: bm_all_def)
    then show ?thesis using ps 0 by simp
  next
    case (Suc j)
    then have j: "j < length ws" "barrier_main (ws ! j) = Do c k" "starts_at k0 (ws ! j) r"
      using move ps by simp_all
    obtain q where "ws ! j = BM_thread j q" using inv j(1) by (auto simp: bm_inv_def)
    then have e: "spawned c r = []" "entry_mem c r (length ps) m = m"
      using bm_spawned [OF j(2)] by (auto intro: entry_mem_plain)
    then have k: "k r m = (m', p')" using move(6) by simp
    have "bm_all k0 m' p (ws[j := p'])"
      using bm_thread_step [OF inv j move(5) k] bm_thread_print [OF all j(1,2) k] by (simp add: bm_all_def)
    then show ?thesis using ps Suc e by simp
  qed
qed

section \<open>The property\<close>

text \<open>C19. What the program prints. The loop variable \<^verbatim>\<open>out_loop\<close> is not initialised: let \<open>k0 i\<close> be the value it has in thread \<open>i\<close>, any values.
  Each line has the number of its thread, the increment of the thread, which is still that number (the rise that the thread which
  gets \<open>-1\<close> is to make never happens), and the array, to each element of which the thread has added its number
  \<open>1000\<close> times in each of its \<open>10 - k0 i\<close> rounds (none, if \<open>k0 i\<close> is more than 10); of the array, the elements from some place on, as the
  index of the printing loop is not initialised either. The lines are in the order of the threads, and all five are there when the
  program has ended normally. A thread that has returned has left these values. Every interleaving, every status the calls may
  return.\<close>
theorem barrier_program_result:
  assumes "reach (starts_at k0) barrier_main bm_system s"
  shows "(\<forall>i < length (printout (mem s)). \<exists>r. printout (mem s) ! i =
      (i, int i, drop r (map (\<lambda>c. int c + 1 + 1000 * int i * (if k0 i < 10 then 10 - k0 i else 0)) [0..<6]))) \<and>
    (ended s = Some (Exited 0) \<longrightarrow> length (printout (mem s)) = 5) \<and>
    (\<forall>i. BM_thread i TR_return \<in> set (pcs s) \<longrightarrow> increment (bm_thread (mem s) ! i) = int i \<and>
      arr (bm_thread (mem s) ! i) = map (\<lambda>c. int c + 1 + 1000 * int i * (if k0 i < 10 then 10 - k0 i else 0)) [0..<6])"
proof -
  have sums: "sums i (bm_rounds (k0 i)) = map (\<lambda>c. int c + 1 + 1000 * int i * (if k0 i < 10 then 10 - k0 i else 0)) [0..<6]" for i
    by (simp add: sums_def ARRAY_def bm_rounds_def OUTLOOPS_def)
  obtain p ws where p: "pcs s = p # ws" and all: "bm_all k0 (mem s) p ws" using bm_reach [OF assms] by auto
  have ws: "\<exists>q. w = BM_thread j q \<and> tr_fit k0 (mem s) j q" if "j < length ws" "ws ! j = w" for w j
    using all that by (auto simp: bm_all_def bm_inv_def)
  have "length (printout (mem s)) = 5" if e: "ended s = Some (Exited 0)"
  proof -
    have "ended (bm_system :: (bar_mutex, bar_cond, barrier_program, bm_pc) sys) = None" by (simp add: bm_system_def)
    from ended_cases [OF assms this e] obtain q where q: "q \<in> set (pcs s)" "barrier_main q = Halt (Exited 0)" by auto
    have "q = BM_exit"
    proof (cases q)
      case (BM_thread j x)
      then show ?thesis using q(2) by (cases x) (auto elim!: thread_fun.elims call_fun.elims barrier_wait.elims)
    next
      case (BM_init x)
      then show ?thesis using q(2) by (cases x) (auto elim!: call_fun.elims)
    qed (use q(2) in auto)
    moreover have "q = p \<or> q \<in> set ws" using q(1) unfolding p by simp
    ultimately have "p = BM_exit" using ws by (auto simp: in_set_conv_nth)
    then show ?thesis using all by (simp add: bm_all_def)
  qed
  moreover have "increment (bm_thread (mem s) ! i) = int i \<and> arr (bm_thread (mem s) ! i) = sums i (bm_rounds (k0 i))"
    if "BM_thread i TR_return \<in> set (pcs s)" for i
  proof -
    have "BM_thread i TR_return \<in> set ws" using that p all by (auto simp: bm_all_def bm_inv_def)
    then obtain j where "j < length ws" "ws ! j = BM_thread i TR_return" by (auto simp: in_set_conv_nth)
    then have "tr_fit k0 (mem s) i TR_return" using ws by fastforce
    then show ?thesis by (simp add: own_def)
  qed
  moreover have "printed k0 (printout (mem s))" using all by (simp add: bm_all_def)
  ultimately show ?thesis unfolding printed_def sums by blast
qed

definition bm_round :: "event list" where
  "bm_round = concat (map (\<lambda>t. replicate 4 (Exec t 0)) [1, 2, 3, 4]) @ replicate 5 (Exec 5 0) @
     concat (map (\<lambda>t. replicate 3 (Exec t 0)) [1, 2, 3, 4])"

theorem barrier_program_result_witness:
  "case run (starts_at (\<lambda>_. 9)) barrier_main
      (replicate 9 (Exec 0 0) @ map (\<lambda>t. Exec t 9) [1, 2, 3, 4, 5] @ bm_round @ bm_round @
       concat (replicate 4 [Exec 0 0, Exec 0 2]) @ [Exec 0 0, Exec 0 4, Exec 0 0]) bm_system of
     Some s \<Rightarrow> length (printout (mem s)) = 5 \<and> arr (bm_thread (mem s) ! 4) = [4001, 4002, 4003, 4004, 4005, 4006] \<and>
       (\<exists>r. printout (mem s) ! 4 = (4, 4, drop r [4001, 4002, 4003, 4004, 4005, 4006])) | None \<Rightarrow> False"
  (is "case ?r of Some s \<Rightarrow> ?P s | None \<Rightarrow> False")
proof -
  have "map_option (\<lambda>s. (drop 5 (pcs s), ended s)) ?r = Some ([BM_thread 4 TR_return], Some (Exited 0))" by code_simp
  then obtain s where s: "?r = Some s" "drop 5 (pcs s) = [BM_thread 4 TR_return]" "ended s = Some (Exited 0)" by auto
  have t: "BM_thread 4 TR_return \<in> set (pcs s)" by (rule in_set_dropD [of _ 5]) (simp add: s(2))
  note b = barrier_program_result [OF reach_run [OF s(1)]]
  have n: "length (printout (mem s)) = 5" using b s(3) by blast
  have "arr (bm_thread (mem s) ! 4) = [4001, 4002, 4003, 4004, 4005, 4006]" using b t by (simp add: upt_rec)
  moreover have "\<exists>r. printout (mem s) ! 4 = (4, 4, drop r [4001, 4002, 4003, 4004, 4005, 4006])"
  proof -
    from b n have "\<forall>i < 5. \<exists>r. printout (mem s) ! i =
        (i, int i, drop r (map (\<lambda>c. int c + 1 + 1000 * int i * (if 9 < (10::int) then 10 - 9 else 0)) [0..<6]))" by presburger
    from spec [OF this, of 4] show ?thesis by (simp add: upt_rec)
  qed
  ultimately show ?thesis using s(1) n by simp
qed

end
