(* ===== verification/Rwlock.thy ===== *)
theory Rwlock
  imports Calls
begin

text \<open>
  The read/write lock of \<^verbatim>\<open>chap7-RealCode/rwlock/rwlock.cxx\<close> and \<^verbatim>\<open>rwlock.hxx\<close>: its eight
  operations and two cleanup handlers as code tables, and a process whose threads take and
  release the lock in any way. The reader counts, the exclusion the lock gives and does not
  give, and the waiters it loses are stated of that process.
\<close>

section \<open>The structure\<close>

datatype rwl_mutex = Rwl_mutex
datatype rwl_cond = Rwl_read | Rwl_write

record rwlock =
  rwl_valid :: int
  r_active :: int
  w_active :: int
  r_wait :: int
  w_wait :: int

definition RWLOCK_VALID :: int where "RWLOCK_VALID = 0xfacade"

definition RWL_INITIALIZER :: rwlock where
  "RWL_INITIALIZER =
     \<lparr>rwl_valid = RWLOCK_VALID, r_active = 0, w_active = 0, r_wait = 0, w_wait = 0\<rparr>"

section \<open>Initialisation and destruction\<close>

datatype ri_pc =
    RI_start | RI_mutex | RI_read | RI_write | RI_undo_read int | RI_undo_mutex int | RI_return int

fun rwl_init :: "ri_pc \<Rightarrow> (rwl_mutex, rwl_cond, rwlock, ri_pc) act" where
  "rwl_init RI_start =
     Do Tau (\<lambda>_ m. (m\<lparr>r_active := 0, r_wait := 0, w_active := 0, w_wait := 0\<rparr>, RI_mutex))"
| "rwl_init RI_mutex =
     Do (MInit Rwl_mutex) (\<lambda>status m. (m, if status \<noteq> 0 then RI_return status else RI_read))"
| "rwl_init RI_read =
     Do (CInit Rwl_read) (\<lambda>status m. (m, if status \<noteq> 0 then RI_undo_mutex status else RI_write))"
| "rwl_init RI_write =
     Do (CInit Rwl_write) (\<lambda>status m.
       if status \<noteq> 0 then (m, RI_undo_read status)
       else (m\<lparr>rwl_valid := RWLOCK_VALID\<rparr>, RI_return 0))"
| "rwl_init (RI_undo_read status) = Do (CDestroy Rwl_read) (goto (RI_undo_mutex status))"
| "rwl_init (RI_undo_mutex status) = Do (MDestroy Rwl_mutex) (goto (RI_return status))"
| "rwl_init (RI_return status) = Return status"

datatype rd_pc =
    RD_start | RD_lock | RD_busy | RD_unlock | RD_mutex | RD_read int | RD_write int int
  | RD_return int

fun rwl_destroy :: "rd_pc \<Rightarrow> (rwl_mutex, rwl_cond, rwlock, rd_pc) act" where
  "rwl_destroy RD_start =
     Do Tau (\<lambda>_ m. (m, if rwl_valid m \<noteq> RWLOCK_VALID then RD_return EINVAL else RD_lock))"
| "rwl_destroy RD_lock =
     Do (Lock Rwl_mutex) (\<lambda>status m.
       if status \<noteq> 0 then (m, RD_return status)
       else if r_active m > 0 \<or> w_active m > 0 then (m, RD_busy)
       else if r_wait m > 0 \<or> w_wait m > 0 then (m, RD_busy)
       else (m\<lparr>rwl_valid := 0\<rparr>, RD_unlock))"
| "rwl_destroy RD_busy = Do (Unlock Rwl_mutex) (goto (RD_return EBUSY))"
| "rwl_destroy RD_unlock =
     Do (Unlock Rwl_mutex) (\<lambda>status m. (m, if status \<noteq> 0 then RD_return status else RD_mutex))"
| "rwl_destroy RD_mutex = Do (MDestroy Rwl_mutex) (\<lambda>status m. (m, RD_read status))"
| "rwl_destroy (RD_read status) = Do (CDestroy Rwl_read) (\<lambda>status1 m. (m, RD_write status status1))"
| "rwl_destroy (RD_write status status1) =
     Do (CDestroy Rwl_write) (\<lambda>status2 m.
       (m, RD_return (if status \<noteq> 0 then status else if status1 \<noteq> 0 then status1 else status2)))"
| "rwl_destroy (RD_return status) = Return status"

section \<open>Readers\<close>

text \<open>
  The cleanup handlers run when a waiting thread is cancelled: \<^verbatim>\<open>pthread_cond_wait\<close> is the
  only cancellation point between push and pop. After the handler the thread has ended with
  the value \<^verbatim>\<open>PTHREAD_CANCELED\<close>, which here is what the function returns.
\<close>

datatype rc_pc = RC_start | RC_unlock | RC_return

fun rwl_readcleanup :: "rc_pc \<Rightarrow> (rwl_mutex, rwl_cond, rwlock, rc_pc) act" where
  "rwl_readcleanup RC_start = Do Tau (\<lambda>_ m. (m\<lparr>r_wait := r_wait m - 1\<rparr>, RC_unlock))"
| "rwl_readcleanup RC_unlock = Do (Unlock Rwl_mutex) (goto RC_return)"
| "rwl_readcleanup RC_return = Return 0"

fun rwl_writecleanup :: "rc_pc \<Rightarrow> (rwl_mutex, rwl_cond, rwlock, rc_pc) act" where
  "rwl_writecleanup RC_start = Do Tau (\<lambda>_ m. (m\<lparr>w_wait := w_wait m - 1\<rparr>, RC_unlock))"
| "rwl_writecleanup RC_unlock = Do (Unlock Rwl_mutex) (goto RC_return)"
| "rwl_writecleanup RC_return = Return 0"

datatype rl_pc = RL_start | RL_lock | RL_wait | RL_cleanup rc_pc | RL_unlock int | RL_return int

text \<open>What follows the wait loop, and the loop test.\<close>

definition rl_granted :: "int \<Rightarrow> rwlock \<Rightarrow> rwlock \<times> rl_pc" where
  "rl_granted status m =
     (if status = 0 then m\<lparr>r_active := r_active m + 1\<rparr> else m, RL_unlock status)"

definition rl_while :: "int \<Rightarrow> rwlock \<Rightarrow> rwlock \<times> rl_pc" where
  "rl_while status m = (if w_active m \<noteq> 0 then (m, RL_wait) else rl_granted status m)"

fun rwl_readlock :: "rl_pc \<Rightarrow> (rwl_mutex, rwl_cond, rwlock, rl_pc) act" where
  "rwl_readlock RL_start =
     Do Tau (\<lambda>_ m. (m, if rwl_valid m \<noteq> RWLOCK_VALID then RL_return EINVAL else RL_lock))"
| "rwl_readlock RL_lock =
     Do (Lock Rwl_mutex) (\<lambda>status m.
       if status \<noteq> 0 then (m, RL_return status)
       else if w_active m \<noteq> 0 then rl_while status (m\<lparr>r_wait := r_wait m + 1\<rparr>)
       else rl_granted status m)"
| "rwl_readlock RL_wait =
     Do (Wait Rwl_read Rwl_mutex) (\<lambda>status m.
       if status = CANCELED then (m, RL_cleanup RC_start)
       else if status \<noteq> 0 then rl_granted status m
       else rl_while status m)"
| "rwl_readlock (RL_cleanup p) =
     call_here RL_cleanup (\<lambda>_ m. (m, RL_return CANCELED)) (rwl_readcleanup p)"
| "rwl_readlock (RL_unlock status) = Do (Unlock Rwl_mutex) (goto (RL_return status))"
| "rwl_readlock (RL_return status) = Return status"

datatype rt_pc = RT_start | RT_lock | RT_unlock int | RT_return int

fun rwl_readtrylock :: "rt_pc \<Rightarrow> (rwl_mutex, rwl_cond, rwlock, rt_pc) act" where
  "rwl_readtrylock RT_start =
     Do Tau (\<lambda>_ m. (m, if rwl_valid m \<noteq> RWLOCK_VALID then RT_return EINVAL else RT_lock))"
| "rwl_readtrylock RT_lock =
     Do (Lock Rwl_mutex) (\<lambda>status1 m.
       if status1 \<noteq> 0 then (m, RT_return status1)
       else if w_active m \<noteq> 0 then (m, RT_unlock EBUSY)
       else (m\<lparr>r_active := r_active m + 1\<rparr>, RT_unlock status1))"
| "rwl_readtrylock (RT_unlock status1) =
     Do (Unlock Rwl_mutex) (\<lambda>status2 m.
       (m, if status2 \<noteq> 0 then RT_return status2 else RT_return status1))"
| "rwl_readtrylock (RT_return status) = Return status"

datatype ru_pc = RU_start | RU_lock | RU_signal | RU_unlock int | RU_return int

fun rwl_readunlock :: "ru_pc \<Rightarrow> (rwl_mutex, rwl_cond, rwlock, ru_pc) act" where
  "rwl_readunlock RU_start =
     Do Tau (\<lambda>_ m. (m, if rwl_valid m \<noteq> RWLOCK_VALID then RU_return EINVAL else RU_lock))"
| "rwl_readunlock RU_lock =
     Do (Lock Rwl_mutex) (\<lambda>status1 m.
       if status1 \<noteq> 0 then (m, RU_return status1)
       else let m1 = m\<lparr>r_active := r_active m - 1\<rparr> in
         (m1, if r_active m1 = 0 \<and> w_wait m1 > 0 then RU_signal else RU_unlock status1))"
| "rwl_readunlock RU_signal = Do (Signal Rwl_write) (\<lambda>status1 m. (m, RU_unlock status1))"
| "rwl_readunlock (RU_unlock status1) =
     Do (Unlock Rwl_mutex) (\<lambda>status2 m.
       (m, if status2 \<noteq> 0 then RU_return status2 else RU_return status1))"
| "rwl_readunlock (RU_return status) = Return status"

section \<open>Writers\<close>

datatype wl_pc = WL_start | WL_lock | WL_wait | WL_cleanup rc_pc | WL_unlock int | WL_return int

definition wl_blocked :: "rwlock \<Rightarrow> bool" where
  "wl_blocked m \<longleftrightarrow> w_active m > 0 \<or> r_active m > 0"

definition wl_leave :: "int \<Rightarrow> rwlock \<Rightarrow> rwlock \<times> wl_pc" where
  "wl_leave status m = (m\<lparr>w_wait := w_wait m - 1\<rparr>, WL_unlock status)"

definition wl_while :: "int \<Rightarrow> rwlock \<Rightarrow> rwlock \<times> wl_pc" where
  "wl_while status m = (if wl_blocked m then (m, WL_wait) else wl_leave status m)"

fun rwl_writelock :: "wl_pc \<Rightarrow> (rwl_mutex, rwl_cond, rwlock, wl_pc) act" where
  "rwl_writelock WL_start =
     Do Tau (\<lambda>_ m. (m, if rwl_valid m \<noteq> RWLOCK_VALID then WL_return EINVAL else WL_lock))"
| "rwl_writelock WL_lock =
     Do (Lock Rwl_mutex) (\<lambda>status m.
       if status \<noteq> 0 then (m, WL_return status)
       else if wl_blocked m then wl_while status (m\<lparr>w_wait := w_wait m + 1\<rparr>)
       else (m, WL_unlock status))"
| "rwl_writelock WL_wait =
     Do (Wait Rwl_write Rwl_mutex) (\<lambda>status m.
       if status = CANCELED then (m, WL_cleanup RC_start)
       else if status \<noteq> 0 then wl_leave status m
       else wl_while status m)"
| "rwl_writelock (WL_cleanup p) =
     call_here WL_cleanup (\<lambda>_ m. (m, WL_return CANCELED)) (rwl_writecleanup p)"
| "rwl_writelock (WL_unlock status) = Do (Unlock Rwl_mutex) (goto (WL_return status))"
| "rwl_writelock (WL_return status) = Return status"

datatype wt_pc = WT_start | WT_lock | WT_unlock int | WT_return int

fun rwl_writetrylock :: "wt_pc \<Rightarrow> (rwl_mutex, rwl_cond, rwlock, wt_pc) act" where
  "rwl_writetrylock WT_start =
     Do Tau (\<lambda>_ m. (m, if rwl_valid m \<noteq> RWLOCK_VALID then WT_return EINVAL else WT_lock))"
| "rwl_writetrylock WT_lock =
     Do (Lock Rwl_mutex) (\<lambda>status1 m.
       if status1 \<noteq> 0 then (m, WT_return status1)
       else if w_active m > 0 \<or> r_active m > 0 then (m, WT_unlock EBUSY)
       else (m\<lparr>w_active := w_active m + 1\<rparr>, WT_unlock status1))"
| "rwl_writetrylock (WT_unlock status1) =
     Do (Unlock Rwl_mutex) (\<lambda>status2 m.
       (m, if status2 \<noteq> 0 then WT_return status2 else WT_return status1))"
| "rwl_writetrylock (WT_return status) = Return status"

datatype wu_pc = WU_start | WU_lock | WU_broadcast | WU_signal | WU_undo int | WU_unlock | WU_return int

fun rwl_writeunlock :: "wu_pc \<Rightarrow> (rwl_mutex, rwl_cond, rwlock, wu_pc) act" where
  "rwl_writeunlock WU_start =
     Do Tau (\<lambda>_ m. (m, if rwl_valid m \<noteq> RWLOCK_VALID then WU_return EINVAL else WU_lock))"
| "rwl_writeunlock WU_lock =
     Do (Lock Rwl_mutex) (\<lambda>status m.
       if status \<noteq> 0 then (m, WU_return status)
       else let m1 = m\<lparr>w_active := 0\<rparr> in
         (m1, if r_wait m1 > 0 then WU_broadcast
              else if w_wait m1 > 0 then WU_signal
              else WU_unlock))"
| "rwl_writeunlock WU_broadcast =
     Do (Broadcast Rwl_read) (\<lambda>status m. (m, if status \<noteq> 0 then WU_undo status else WU_unlock))"
| "rwl_writeunlock WU_signal =
     Do (Signal Rwl_write) (\<lambda>status m. (m, if status \<noteq> 0 then WU_undo status else WU_unlock))"
| "rwl_writeunlock (WU_undo status) = Do (Unlock Rwl_mutex) (goto (WU_return status))"
| "rwl_writeunlock WU_unlock = Do (Unlock Rwl_mutex) (\<lambda>status m. (m, WU_return status))"
| "rwl_writeunlock (WU_return status) = Return status"

section \<open>The process: threads that use the lock in any way\<close>

text \<open>
  An idle thread picks an operation (0 \<open>rwl_readlock\<close>, 1 \<open>rwl_readtrylock\<close>,
  2 \<open>rwl_writelock\<close>, 3 \<open>rwl_writetrylock\<close>) or stops (4). A thread that got the lock calls the
  matching unlock; a thread that was refused, or got an error, is idle again; a thread that
  was cancelled has ended. An unlock that fails is not repeated.
\<close>

datatype rw_pc =
    RW_idle | RW_rl rl_pc | RW_rt rt_pc | RW_wl wl_pc | RW_wt wt_pc
  | RW_reading | RW_writing | RW_ru ru_pc | RW_wu wu_pc | RW_done

definition rw_pick :: "int \<Rightarrow> rw_pc" where
  "rw_pick r = (if r = 0 then RW_rl RL_start else if r = 1 then RW_rt RT_start
     else if r = 2 then RW_wl WL_start else if r = 3 then RW_wt WT_start else RW_done)"

definition rw_got :: "rw_pc \<Rightarrow> int \<Rightarrow> 's \<Rightarrow> 's \<times> rw_pc" where
  "rw_got p v m = (m, if v = 0 then p else if v = CANCELED then RW_done else RW_idle)"

fun rw_client :: "rw_pc \<Rightarrow> (rwl_mutex, rwl_cond, rwlock, rw_pc) act" where
  "rw_client RW_idle = Do (Env (\<lambda>r _. 0 \<le> r \<and> r \<le> 4)) (\<lambda>r m. (m, rw_pick r))"
| "rw_client (RW_rl p) = call_here RW_rl (rw_got RW_reading) (rwl_readlock p)"
| "rw_client (RW_rt p) = call_here RW_rt (rw_got RW_reading) (rwl_readtrylock p)"
| "rw_client (RW_wl p) = call_here RW_wl (rw_got RW_writing) (rwl_writelock p)"
| "rw_client (RW_wt p) = call_here RW_wt (rw_got RW_writing) (rwl_writetrylock p)"
| "rw_client RW_reading = Do Tau (goto (RW_ru RU_start))"
| "rw_client RW_writing = Do Tau (goto (RW_wu WU_start))"
| "rw_client (RW_ru p) = call_here RW_ru (\<lambda>_ m. (m, RW_idle)) (rwl_readunlock p)"
| "rw_client (RW_wu p) = call_here RW_wu (\<lambda>_ m. (m, RW_idle)) (rwl_writeunlock p)"
| "rw_client RW_done = Return 0"

definition rw_system :: "nat \<Rightarrow> (rwl_mutex, rwl_cond, rwlock, rw_pc) sys" where
  "rw_system n = boot RWL_INITIALIZER (replicate n RW_idle)"

text \<open>The mutex each point holds; its case rule lists the points of all the functions.\<close>

fun rw_holds :: "rw_pc \<Rightarrow> rwl_mutex set" where
  "rw_holds (RW_rl RL_wait) = {Rwl_mutex}"
| "rw_holds (RW_rl (RL_cleanup RC_start)) = {Rwl_mutex}"
| "rw_holds (RW_rl (RL_cleanup RC_unlock)) = {Rwl_mutex}"
| "rw_holds (RW_rl (RL_unlock v)) = {Rwl_mutex}"
| "rw_holds (RW_rt (RT_unlock v)) = {Rwl_mutex}"
| "rw_holds (RW_wl WL_wait) = {Rwl_mutex}"
| "rw_holds (RW_wl (WL_cleanup RC_start)) = {Rwl_mutex}"
| "rw_holds (RW_wl (WL_cleanup RC_unlock)) = {Rwl_mutex}"
| "rw_holds (RW_wl (WL_unlock v)) = {Rwl_mutex}"
| "rw_holds (RW_wt (WT_unlock v)) = {Rwl_mutex}"
| "rw_holds (RW_ru RU_signal) = {Rwl_mutex}"
| "rw_holds (RW_ru (RU_unlock v)) = {Rwl_mutex}"
| "rw_holds (RW_wu WU_broadcast) = {Rwl_mutex}"
| "rw_holds (RW_wu WU_signal) = {Rwl_mutex}"
| "rw_holds (RW_wu (WU_undo v)) = {Rwl_mutex}"
| "rw_holds (RW_wu WU_unlock) = {Rwl_mutex}"
| "rw_holds _ = {}"

fun wl_holds :: "wl_pc \<Rightarrow> rwl_mutex set" where
  "wl_holds (WL_cleanup RC_start) = {Rwl_mutex}"
| "wl_holds (WL_cleanup p) = {}"
| "wl_holds _ = {}"

lemmas wl_case = wl_holds.cases
lemmas rw_case = rw_holds.cases
lemmas rw_defs = rl_granted_def rl_while_def wl_blocked_def wl_leave_def wl_while_def
  rw_got_def rw_pick_def Let_def

section \<open>Locking discipline\<close>

definition rw_env :: "rw_pc policy" where
  "rw_env p r \<longleftrightarrow> CANCELED \<le> r"

interpretation rw_any: lock_discipline rw_env rw_client rw_holds
proof unfold_locales
  fix p c k r m n m' m'' p'
  assume "rw_client p = Do c k" "rw_env p r" "answer_ok c r m n" "k r m' = (m'', p')"
  then show "rw_holds p' = held_after c r (rw_holds p)"
    by (cases p rule: rw_case) (auto simp: rw_defs split: if_splits)
next
  fix p c and k :: "int \<Rightarrow> rwlock \<Rightarrow> rwlock \<times> rw_pc"
  assume "rw_client p = Do c k"
  then show "call_ok c (rw_holds p)" by (cases p rule: rw_case) auto
next
  fix p q and st :: "nat \<Rightarrow> rwlock \<Rightarrow> rwlock" and k :: "int \<Rightarrow> rwlock \<Rightarrow> rwlock \<times> rw_pc"
  assume "rw_client p = Do (Create st q) k"
  then show "rw_holds q = {}" by (cases p rule: rw_case) auto
qed

lemma rw_locked: "locked_inv rw_client rw_holds (rw_system n)"
  by (auto simp: rw_system_def list_all_iff intro!: locked_inv_boot)


lemma rw_any_length: "reach allow rw_client (rw_system n) s \<Longrightarrow> length (pcs s) = n"
proof (induction rule: reach_invariant)
  case (move n m ps t c k r m' p')
  then show ?case by (cases "ps ! t" rule: rw_case) auto
qed (simp_all add: rw_system_def)

section \<open>What the lock counts\<close>

text \<open>
  \<open>reads\<close> and \<open>writes\<close> are 1 at the points at which a thread has the lock, from the update
  of the counter that grants it to the one that gives it back.
\<close>

fun reads :: "rw_pc \<Rightarrow> int" where
  "reads (RW_rl (RL_unlock v)) = of_bool (v = 0)"
| "reads (RW_rl (RL_return v)) = of_bool (v = 0)"
| "reads (RW_rt (RT_unlock v)) = of_bool (v = 0)"
| "reads (RW_rt (RT_return v)) = of_bool (v = 0)"
| "reads RW_reading = 1"
| "reads (RW_ru RU_start) = 1"
| "reads (RW_ru RU_lock) = 1"
| "reads _ = 0"

fun writes :: "rw_pc \<Rightarrow> int" where
  "writes (RW_wt (WT_unlock v)) = of_bool (v = 0)"
| "writes (RW_wt (WT_return v)) = of_bool (v = 0)"
| "writes RW_writing = 1"
| "writes (RW_wu WU_start) = 1"
| "writes (RW_wu WU_lock) = 1"
| "writes _ = 0"

fun in_writelock :: "rw_pc \<Rightarrow> bool" where
  "in_writelock (RW_wl p) \<longleftrightarrow> True"
| "in_writelock _ \<longleftrightarrow> False"

lemma reads_nonneg [simp]: "0 \<le> reads p" by (cases p rule: reads.cases) auto
lemma writes_nonneg [simp]: "0 \<le> writes p" by (cases p rule: writes.cases) auto

text \<open>The environment in which nobody calls \<open>rwl_writelock\<close>; calls may fail.\<close>

definition no_writelock :: "rw_pc policy" where
  "no_writelock p r \<longleftrightarrow> CANCELED \<le> r \<and> (p = RW_idle \<longrightarrow> r \<noteq> 2)"

definition excl_inv :: "rwlock \<Rightarrow> rw_pc list \<Rightarrow> bool" where
  "excl_inv m ps \<longleftrightarrow> rwl_valid m = RWLOCK_VALID \<and> list_all (\<lambda>p. \<not> in_writelock p) ps \<and>
     tally reads ps \<le> r_active m \<and> tally writes ps \<le> w_active m \<and>
     tally writes ps \<le> 1 \<and> (tally writes ps = 0 \<or> tally reads ps = 0)"

lemma no_writelock_moves:
  assumes "rw_client p = Do c k" and "no_writelock p r" and "answer_ok c r m n" and "k r m = (m', p')"
    and "\<not> in_writelock p" and "rwl_valid m = RWLOCK_VALID"
  shows "\<not> in_writelock p' \<and> rwl_valid m' = RWLOCK_VALID"
  using assms
  by (cases p rule: rw_case) (auto simp: rw_defs no_writelock_def split: if_splits)

text \<open>How one move changes the counts: what is granted was free.\<close>

lemma excl_shape:
  assumes "rw_client p = Do c k" and "no_writelock p r" and "k r m = (m', p')"
    and "\<not> in_writelock p" and "rwl_valid m = RWLOCK_VALID"
  shows "reads p' - reads p \<le> r_active m' - r_active m"
    and "writes p' \<le> writes p \<or> writes p' = 1 \<and> writes p = 0 \<and> reads p' = 0 \<and> reads p = 0 \<and>
      w_active m \<le> 0 \<and> r_active m \<le> 0"
    and "reads p' \<le> reads p \<or> reads p' = 1 \<and> w_active m = 0 \<and> writes p' = 0 \<and> writes p = 0"
    and "writes p' - writes p \<le> w_active m' - w_active m \<or>
      writes p = 1 \<and> writes p' = 0 \<and> w_active m' = 0"
proof -
  have "reads p' - reads p \<le> r_active m' - r_active m \<and>
    (writes p' \<le> writes p \<or> writes p' = 1 \<and> writes p = 0 \<and> reads p' = 0 \<and> reads p = 0 \<and> w_active m \<le> 0 \<and> r_active m \<le> 0) \<and>
    (reads p' \<le> reads p \<or> reads p' = 1 \<and> w_active m = 0 \<and> writes p' = 0 \<and> writes p = 0) \<and>
    (writes p' - writes p \<le> w_active m' - w_active m \<or> writes p = 1 \<and> writes p' = 0 \<and> w_active m' = 0)"
    using assms by (cases p rule: rw_case) (auto simp: rw_defs no_writelock_def split: if_splits)
  then show "reads p' - reads p \<le> r_active m' - r_active m"
    and "writes p' \<le> writes p \<or> writes p' = 1 \<and> writes p = 0 \<and> reads p' = 0 \<and> reads p = 0 \<and>
      w_active m \<le> 0 \<and> r_active m \<le> 0"
    and "reads p' \<le> reads p \<or> reads p' = 1 \<and> w_active m = 0 \<and> writes p' = 0 \<and> writes p = 0"
    and "writes p' - writes p \<le> w_active m' - w_active m \<or>
      writes p = 1 \<and> writes p' = 0 \<and> w_active m' = 0" by simp_all
qed

lemma excl_inv_move:
  assumes inv: "excl_inv m ps" and t: "t < length ps" and p: "rw_client (ps ! t) = Do c k"
    and r: "no_writelock (ps ! t) r" "answer_ok c r m n" and k: "k r m = (m', p')"
  shows "excl_inv m' (ps[t := p'])"
proof -
  have ge: "0 \<le> tally reads ps" "0 \<le> tally writes ps" "reads (ps ! t) \<le> tally reads ps"
    "writes (ps ! t) \<le> tally writes ps"
    using t by (auto intro!: tally_nonneg tally_ge_elem)
  have nw: "\<not> in_writelock (ps ! t)" using inv t by (simp add: excl_inv_def list_all_length)
  have v: "rwl_valid m = RWLOCK_VALID" using inv by (simp add: excl_inv_def)
  have stays: "\<not> in_writelock p' \<and> rwl_valid m' = RWLOCK_VALID"
    by (rule no_writelock_moves [OF p r k nw v])
  note I = inv [unfolded excl_inv_def]
  let ?R = "tally reads ps - reads (ps ! t) + reads p'"
  let ?W = "tally writes ps - writes (ps ! t) + writes p'"
  note shape = excl_shape [OF p r(1) k nw v]
  have R: "?R \<le> r_active m'" using shape(1) I by linarith
  have W: "?W \<le> w_active m'" using shape(4) I by linarith
  have W1: "?W \<le> 1" using shape(2) I ge by linarith
  have ex: "?W = 0 \<or> ?R = 0"
    using shape(2)
  proof (elim disjE)
    assume le: "writes p' \<le> writes (ps ! t)"
    from shape(3) show ?thesis
    proof (elim disjE)
      assume "reads p' \<le> reads (ps ! t)"
      then show ?thesis using le I ge reads_nonneg [of p'] writes_nonneg [of p'] by linarith
    qed (use I ge in linarith)
  qed (use I ge in linarith)
  from R W W1 ex show ?thesis
    using I t stays by (auto simp: excl_inv_def tally_update intro: list_all_update)
qed

lemma rw_simple_calls:
  "rw_client p = Do c k \<Longrightarrow> entry_mem c r n m = m \<and> spawned c r = []"
  by (cases p rule: rw_case) auto

lemma rw_reach_excl:
  assumes "reach no_writelock rw_client (rw_system n) s"
  shows "excl_inv (mem s) (pcs s)"
  using assms
proof (induction rule: reach_invariant)
  case (move n m ps t c k r m' p')
  have "excl_inv m' (ps[t := p'])"
    by (rule excl_inv_move [OF move(1-5)]) (use move(3,6) rw_simple_calls in auto)
  with move(3) rw_simple_calls show ?case by simp
qed (simp_all add: rw_system_def excl_inv_def RWL_INITIALIZER_def list_all_iff)

text \<open>With no failing call the count of readers is exact.\<close>

definition rw_quiet :: "rw_pc policy" where
  "rw_quiet p r \<longleftrightarrow> (p = RW_idle \<or> r = 0)"

interpretation readers: conservation rw_quiet rw_client reads r_active "\<lambda>m. rwl_valid m = RWLOCK_VALID"
proof unfold_locales
  fix p c k r m n l m' p'
  assume "rw_client p = Do c k" "rw_quiet p r" "answer_ok c r m n" "rwl_valid m = RWLOCK_VALID"
    "k r (entry_mem c r l m) = (m', p')"
  then show "rwl_valid m' = RWLOCK_VALID \<and>
      r_active m' + reads p = r_active m + reads p' + tally reads (spawned c r)"
    by (cases p rule: rw_case) (auto simp: rw_defs rw_quiet_def split: if_splits)
qed

text \<open>
  Readers that are counted in \<open>r_wait\<close> and still wait. A reader that leaves its wait loop is
  not taken out of \<open>r_wait\<close>: the difference never gets smaller.
\<close>

fun waits :: "rw_pc \<Rightarrow> int" where
  "waits (RW_rl RL_wait) = 1"
| "waits (RW_rl (RL_cleanup RC_start)) = 1"
| "waits _ = 0"

lemma waits_nonneg [simp]: "0 \<le> waits p" by (cases p rule: waits.cases) auto

lemma stale_moves:
  assumes "rw_client p = Do c k" and "rw_env p r" and "k r m = (m', p')"
  shows "rwl_valid m' = rwl_valid m \<and> r_wait m - waits p \<le> r_wait m' - waits p'"
  using assms by (cases p rule: rw_case) (auto simp: rw_defs split: if_splits)

lemma stale_waiters_grow:
  assumes "reach rw_env rw_client s0 s"
  shows "rwl_valid (mem s) = rwl_valid (mem s0) \<and>
    r_wait (mem s0) - tally waits (pcs s0) \<le> r_wait (mem s) - tally waits (pcs s)"
  using assms
proof (induction rule: reach_invariant)
  case (move n m ps t c k r m' p')
  have mm: "k r m = (m', p')" and sp: "spawned c r = []"
    using move(3,6) rw_simple_calls by auto
  have "rwl_valid m' = rwl_valid m \<and> r_wait m - waits (ps ! t) \<le> r_wait m' - waits p'"
    by (rule stale_moves [OF move(3,4) mm])
  then show ?case using move(1,2) sp by (auto simp: tally_update)
qed simp_all


text \<open>Threads that only use the two trylocks: no call fails, nobody waits.\<close>

definition rw_try :: "rw_pc policy" where
  "rw_try p r \<longleftrightarrow> (if p = RW_idle then r \<in> {1, 3, 4} else r = 0)"

lemma rw_try_pick: "\<exists>r::int. (r = 1 \<or> r = 3 \<or> r = 4) \<and> 0 \<le> r \<and> r \<le> 4"
  by (rule exI [of _ 1]) simp

interpretation rw_tries: leaf_locks rw_try rw_client rw_holds
proof unfold_locales
  fix p c k r m n m' m'' p'
  assume "rw_client p = Do c k" "rw_try p r" "answer_ok c r m n" "k r m' = (m'', p')"
  then show "rw_holds p' = held_after c r (rw_holds p)"
    using rw_any.held_moves [of p c k r m n m' m'' p'] by (auto simp: rw_env_def rw_try_def split: if_splits)
next
  fix p d x l and k :: "int \<Rightarrow> rwlock \<Rightarrow> rwlock \<times> rw_pc"
  assume "rw_client p = Do (wait_call d x l) k"
  then show "rw_holds p = {x}"
    by (cases p rule: rw_case; cases x) (auto simp: wait_call_def split: option.splits)
next
  fix p x and k :: "int \<Rightarrow> rwlock \<Rightarrow> rwlock \<times> rw_pc"
  assume "rw_client p = Do (Lock x) k"
  then show "rw_holds p = {}" by (cases p rule: rw_case) auto
next
  fix p u and k :: "int \<Rightarrow> rwlock \<Rightarrow> rwlock \<times> rw_pc"
  assume "rw_client p = Do (Join u) k"
  then show "rw_holds p = {}" by (cases p rule: rw_case) auto
next
  fix p v
  assume "rw_client p = Return v"
  then show "rw_holds p = {}" by (cases p rule: rw_case) auto
next
  fix p c m n and k :: "int \<Rightarrow> rwlock \<Rightarrow> rwlock \<times> rw_pc"
  assume "rw_client p = Do c k"
  then show "responsive rw_try p c m n"
    by (cases p rule: rw_case) (auto simp: rw_try_def rw_try_pick)
qed (erule rw_any.calls_ok, erule rw_any.spawn_free)

fun no_wait :: "rw_pc \<Rightarrow> bool" where
  "no_wait (RW_rl p) \<longleftrightarrow> False"
| "no_wait (RW_wl p) \<longleftrightarrow> False"
| "no_wait _ \<longleftrightarrow> True"

lemma rw_try_no_wait:
  assumes "reach rw_try rw_client (rw_system n) s"
  shows "list_all no_wait (pcs s)"
  using assms
proof (induction rule: reach_invariant)
  case (move n m ps t c k r m' p')
  have "no_wait p' \<and> spawned c r = []" if "ps ! t = p" "no_wait p" for p
    using move(3,4,6) that
    by (cases p rule: rw_case) (auto simp: rw_defs rw_try_def split: if_splits)
  with move(1,2) show ?case by (auto simp: list_all_length nth_list_update)
qed (simp_all add: rw_system_def list_all_iff)

lemma rw_not_ended:
  assumes "reach rw_try rw_client (rw_system n) s"
  shows "ended s = None"
proof (rule ccontr)
  assume "ended s \<noteq> None"
  then obtain res where res: "ended s = Some res" by auto
  have nohalt: "rw_client p \<noteq> Halt q" for p q by (cases p rule: rw_case) auto
  have "ended s \<noteq> Some Undefined"
    by (rule rw_tries.no_undefined [OF assms rw_locked]) (use nohalt in auto)
  then show False using ended_cases [OF assms _ res] nohalt res by (auto simp: rw_system_def)
qed

section \<open>Initialisation\<close>

text \<open>A process that runs \<open>rwl_init\<close> on memory in which nothing is initialised.\<close>

definition ri_system :: "rwlock \<Rightarrow> (rwl_mutex, rwl_cond, rwlock, ri_pc) sys" where
  "ri_system m = (boot m [RI_start])\<lparr>mtx := \<lambda>_. Raw, cnd := \<lambda>_. False\<rparr>"

text \<open>Any call that creates may fail; destroying an object that was just created does not.\<close>

definition ri_env :: "ri_pc policy" where
  "ri_env p r \<longleftrightarrow> (case p of RI_undo_read _ \<Rightarrow> r = 0 | RI_undo_mutex _ \<Rightarrow> r = 0 | _ \<Rightarrow> True)"

text \<open>The objects that exist at each point: the mutex, the two condition variables.\<close>

fun ri_objects :: "ri_pc \<Rightarrow> bool \<times> bool \<times> bool" where
  "ri_objects RI_start = (False, False, False)"
| "ri_objects RI_mutex = (False, False, False)"
| "ri_objects RI_read = (True, False, False)"
| "ri_objects RI_write = (True, True, False)"
| "ri_objects (RI_undo_read v) = (True, True, False)"
| "ri_objects (RI_undo_mutex v) = (True, False, False)"
| "ri_objects (RI_return v) = (v = 0, v = 0, v = 0)"

fun ri_status :: "ri_pc \<Rightarrow> bool" where
  "ri_status (RI_undo_read v) \<longleftrightarrow> 0 < v"
| "ri_status (RI_undo_mutex v) \<longleftrightarrow> 0 < v"
| "ri_status _ \<longleftrightarrow> True"

definition ri_inv :: "(rwl_mutex, rwl_cond, rwlock, ri_pc) sys \<Rightarrow> bool" where
  "ri_inv s \<longleftrightarrow> (\<exists>p. threads s = [(p, Ready)] \<and> ended s = None \<and> ri_status p \<and>
     ri_objects p = (mtx s Rwl_mutex = Free, cnd s Rwl_read, cnd s Rwl_write) \<and>
     (mtx s Rwl_mutex = Free \<or> mtx s Rwl_mutex = Raw) \<and>
     (p = RI_return 0 \<longrightarrow> rwl_valid (mem s) = RWLOCK_VALID))"

lemma ri_inv_exec:
  assumes "threads s = [(p, Ready)]" and "ended s = None" and "ri_status p"
    and "ri_objects p = (mtx s Rwl_mutex = Free, cnd s Rwl_read, cnd s Rwl_write)"
    and "mtx s Rwl_mutex = Free \<or> mtx s Rwl_mutex = Raw"
    and "exec_thread ri_env rwl_init 0 r s = Some s'"
  shows "ri_inv s'"
  using assms
  by (cases p) (auto simp: ri_inv_def exec_thread_def ri_env_def proceed_def effect_defs split: if_splits)

lemma ri_inv_reach:
  assumes "reach ri_env rwl_init (ri_system m) s"
  shows "ri_inv s"
  using assms
proof (induction rule: reach.induct)
  case reach_start
  show ?case by (simp add: ri_inv_def ri_system_def)
next
  case (reach_step s e s')
  obtain p where p: "threads s = [(p, Ready)]" "ended s = None" "ri_status p"
    "ri_objects p = (mtx s Rwl_mutex = Free, cnd s Rwl_read, cnd s Rwl_write)"
    "mtx s Rwl_mutex = Free \<or> mtx s Rwl_mutex = Raw" using reach_step.IH by (auto simp: ri_inv_def)
  show ?case
  proof (cases e)
    case (Exec t r)
    with reach_step.hyps(2) p show ?thesis by (auto intro: ri_inv_exec split: if_splits)
  next
    case (Notify t u)
    with reach_step.hyps(2) p show ?thesis by (cases p) (auto simp: notify_thread_def split: if_splits)
  next
    case Tick
    with reach_step show ?thesis by (auto simp: ri_inv_def split: if_splits)
  qed (use reach_step.hyps(2) p in \<open>auto simp: wake_thread_def split: if_splits\<close>)
qed

section \<open>Properties\<close>

text \<open>C8. \<open>rwl_init\<close> is all or nothing: if it returns 0 the mutex and both condition variables
  exist and the lock is valid; if any of the three initialisations fails it returns the error
  and none of the three exists.\<close>
theorem rwl_init_all_or_nothing:
  assumes "reach ri_env rwl_init (ri_system m) s" and "pcs s = [RI_return v]"
  shows "ended s = None \<and>
    (if v = 0 then mtx s Rwl_mutex = Free \<and> cnd s Rwl_read \<and> cnd s Rwl_write \<and>
        rwl_valid (mem s) = RWLOCK_VALID
     else mtx s Rwl_mutex = Raw \<and> \<not> cnd s Rwl_read \<and> \<not> cnd s Rwl_write)"
  using ri_inv_reach [OF assms(1)] assms(2) by (auto simp: ri_inv_def)

theorem rwl_init_all_or_nothing_witness:
  "case run ri_env rwl_init [Exec 0 0, Exec 0 0, Exec 0 0, Exec 0 12, Exec 0 0, Exec 0 0]
      (ri_system RWL_INITIALIZER) of
     Some s \<Rightarrow> pcs s = [RI_return ENOMEM] \<and> mtx s Rwl_mutex = Raw \<and> \<not> cnd s Rwl_read
   | None \<Rightarrow> False" (is "case ?r of Some s \<Rightarrow> ?P s | None \<Rightarrow> False")
proof -
  have "map_option pcs ?r = Some [RI_return ENOMEM]" by code_simp
  then obtain s where s: "?r = Some s" "pcs s = [RI_return ENOMEM]" by auto
  show ?thesis using rwl_init_all_or_nothing [OF reach_run [OF s(1)] s(2)] s by simp
qed

text \<open>C10. Threads that only use the trylocks never block each other for good: from every state
  they can reach, either all have stopped or one of them can take a step of its own.\<close>
theorem rwl_try_progress:
  assumes r: "reach rw_try rw_client (rw_system n) s" and "t < n" and "pcs s ! t \<noteq> RW_done"
  shows "\<exists>e s'. acts e \<and> step rw_try rw_client e s = Some s'"
proof -
  have aw: "list_all (awake rw_try rw_client (now (rw_system n))) (threads (rw_system n))"
    unfolding rw_system_def by (rule awake_boot)
  have t: "t < length (threads s)" using rw_any_length [OF r] assms(2) by simp
  have "awake rw_try rw_client (now s) (threads s ! t)" "no_wait (fst (threads s ! t))"
    using reach_awake [OF r aw] rw_try_no_wait [OF r] t by (auto simp: list_all_length)
  moreover have "fst (threads s ! t) \<noteq> RW_done" using assms(3) t by simp
  ultimately have "\<not> parked rw_client s (threads s ! t)"
    by (cases "threads s ! t" rule: thread_exhaust; cases "fst (threads s ! t)" rule: rw_case)
       (auto simp: wait_call_def split: option.splits)
  then show ?thesis
    using rw_tries.progress [OF r rw_locked aw rw_not_ended [OF r] t] by blast
qed

theorem rwl_try_progress_witness:
  "case run rw_try rw_client [Exec 0 3, Exec 0 0, Exec 0 0, Exec 1 1, Exec 1 0] (rw_system 2) of
     Some s \<Rightarrow> pcs s ! 1 = RW_rt RT_lock \<and> mtx s Rwl_mutex = Held 0 \<and>
       (\<exists>e s'. acts e \<and> step rw_try rw_client e s = Some s')
   | None \<Rightarrow> False" (is "case ?r of Some s \<Rightarrow> ?P s | None \<Rightarrow> False")
proof -
  have "map_option (\<lambda>s. (pcs s ! 1, mtx s Rwl_mutex)) ?r = Some (RW_rt RT_lock, Held 0)" by code_simp
  then obtain s where s: "?r = Some s" "pcs s ! 1 = RW_rt RT_lock" "mtx s Rwl_mutex = Held 0" by auto
  have "\<exists>e s'. acts e \<and> step rw_try rw_client e s = Some s'"
    by (rule rwl_try_progress [OF reach_run [OF s(1)], of 1]) (use s(2) in auto)
  then show ?thesis using s by simp
qed

text \<open>C7. Threads that use \<open>rwl_readlock\<close>, \<open>rwl_readtrylock\<close> and \<open>rwl_writetrylock\<close> exclude
  each other as a read/write lock has to: while one thread has the lock for writing, no other
  thread has it for writing or reading. Every number of threads, every interleaving, with
  failing calls and cancelled waits.\<close>
theorem rwl_trylock_exclusion:
  assumes "reach no_writelock rw_client (rw_system n) s" and "t < n" and "u < n"
    and "pcs s ! t = RW_writing" and "u \<noteq> t"
  shows "writes (pcs s ! u) = 0 \<and> reads (pcs s ! u) = 0"
proof -
  define ps where "ps = pcs s"
  have inv: "excl_inv (mem s) ps" and tu: "t < length ps" "u < length ps"
    using rw_reach_excl [OF assms(1)] rw_any_length [OF assms(1)] assms(2,3) by (simp_all add: ps_def)
  have w: "writes (ps ! t) = 1" using assms(4) by (simp add: ps_def)
  have "writes (ps ! t) + writes (ps ! u) \<le> tally writes ps"
    using assms(5) tu by (intro tally_ge_two) auto
  moreover have "writes (ps ! t) \<le> tally writes ps" "reads (ps ! u) \<le> tally reads ps"
    using tu by (auto intro!: tally_ge_elem)
  ultimately show ?thesis
    using inv w writes_nonneg [of "ps ! u"] reads_nonneg [of "ps ! u"]
    unfolding ps_def [symmetric] excl_inv_def by linarith
qed

theorem rwl_trylock_exclusion_witness:
  "case run no_writelock rw_client [Exec 0 3, Exec 0 0, Exec 0 0, Exec 0 0, Exec 0 0, Exec 1 1, Exec 1 0,
      Exec 1 0, Exec 1 0, Exec 1 0] (rw_system 2) of
     Some s \<Rightarrow> pcs s = [RW_writing, RW_idle] \<and> writes (pcs s ! 1) = 0 \<and> reads (pcs s ! 1) = 0
   | None \<Rightarrow> False" (is "case ?r of Some s \<Rightarrow> ?P s | None \<Rightarrow> False")
proof -
  have "map_option pcs ?r = Some [RW_writing, RW_idle]" by code_simp
  then obtain s where s: "?r = Some s" "pcs s = [RW_writing, RW_idle]" by auto
  have "writes (pcs s ! 1) = 0 \<and> reads (pcs s ! 1) = 0"
    by (rule rwl_trylock_exclusion [OF reach_run [OF s(1)], of 0]) (use s(2) in auto)
  then show ?thesis using s by simp
qed

text \<open>\<open>rwl_writelock\<close> does not take the lock: whatever the calls it makes return, the counts
  of active readers and writers are what they were.\<close>
theorem rwl_writelock_takes_nothing:
  "w_active (fst (seq_run rwl_writelock rs WL_start m)) = w_active m \<and>
   r_active (fst (seq_run rwl_writelock rs WL_start m)) = r_active m"
proof -
  have "w_active (fst (seq_run rwl_writelock rs p m)) = w_active m \<and>
    r_active (fst (seq_run rwl_writelock rs p m)) = r_active m" for p
  proof (induction rs arbitrary: p m)
    case (Cons r rs)
    have "w_active (fst (k r m)) = w_active m \<and> r_active (fst (k r m)) = r_active m"
      if "rwl_writelock p = Do c k" for c k
      using that by (cases p rule: wl_case) (auto simp: rw_defs)
    with Cons.IH show ?case by (auto split: act.splits prod.splits)
  qed simp
  then show ?thesis .
qed

text \<open>So two threads that have both called \<open>rwl_writelock\<close> successfully can both hold the
  lock for writing, and a reader with them.\<close>
theorem rwl_writelock_no_exclusion:
  "\<exists>s. reach rw_quiet rw_client (rw_system 3) s \<and> pcs s = [RW_writing, RW_writing, RW_reading]"
proof -
  have "map_option pcs (run rw_quiet rw_client
      [Exec 0 2, Exec 0 0, Exec 0 0, Exec 0 0, Exec 0 0,
       Exec 1 2, Exec 1 0, Exec 1 0, Exec 1 0, Exec 1 0,
       Exec 2 0, Exec 2 0, Exec 2 0, Exec 2 0, Exec 2 0] (rw_system 3)) =
    Some [RW_writing, RW_writing, RW_reading]" by code_simp
  from reach_exists [OF this] show ?thesis .
qed

text \<open>No run of the eight operations misuses a mutex or condition variable: nobody unlocks or
  waits with a mutex it does not hold, with any number of threads, failing calls and cancelled
  waits.\<close>
theorem rwl_no_undefined:
  assumes "reach rw_env rw_client (rw_system n) s"
  shows "ended s \<noteq> Some Undefined"
proof (rule rw_any.no_undefined [OF assms rw_locked])
  show "rw_client p \<noteq> Halt Undefined" for p by (cases p rule: rw_case) auto
qed

theorem rwl_no_undefined_witness:
  "case run rw_env rw_client [Exec 0 3, Exec 0 0, Exec 0 0, Exec 0 0, Exec 0 0, Exec 1 0, Exec 1 0,
      Exec 1 0, Exec 1 0, Cancel 1, Exec 1 (-1), Exec 1 0, Exec 1 0, Exec 1 0, Exec 1 0] (rw_system 2) of
     Some s \<Rightarrow> pcs s = [RW_writing, RW_done] \<and> r_wait (mem s) = 0 \<and> ended s \<noteq> Some Undefined
   | None \<Rightarrow> False" (is "case ?r of Some s \<Rightarrow> ?P s | None \<Rightarrow> False")
proof -
  have "map_option (\<lambda>s. (pcs s, r_wait (mem s))) ?r = Some ([RW_writing, RW_done], 0)" by code_simp
  then obtain s where s: "?r = Some s" "pcs s = [RW_writing, RW_done]" "r_wait (mem s) = 0" by auto
  show ?thesis using rwl_no_undefined [OF reach_run [OF s(1)]] s by simp
qed

text \<open>C9. As long as no call fails, \<open>r_active\<close> is the number of threads that have the lock for
  reading.\<close>
theorem rwl_reader_count:
  assumes "reach rw_quiet rw_client (rw_system n) s"
  shows "r_active (mem s) = tally reads (pcs s)"
  using readers.conserved [OF assms] by (simp add: rw_system_def RWL_INITIALIZER_def)

theorem rwl_reader_count_witness:
  "case run rw_quiet rw_client [Exec 0 0, Exec 0 0, Exec 0 0, Exec 0 0, Exec 0 0, Exec 1 1, Exec 1 0,
      Exec 1 0, Exec 1 0, Exec 1 0] (rw_system 2) of
     Some s \<Rightarrow> pcs s = [RW_reading, RW_reading] \<and> r_active (mem s) = tally reads (pcs s)
   | None \<Rightarrow> False" (is "case ?r of Some s \<Rightarrow> ?P s | None \<Rightarrow> False")
proof -
  have "map_option pcs ?r = Some [RW_reading, RW_reading]" by code_simp
  then obtain s where s: "?r = Some s" "pcs s = [RW_reading, RW_reading]" by auto
  show ?thesis using rwl_reader_count [OF reach_run [OF s(1)]] s by simp
qed

text \<open>\<open>rwl_readlock\<close> forgets to take a reader out of \<open>r_wait\<close>: once a reader has waited and
  gone on, the lock can never be destroyed again (\<open>EBUSY\<close> for ever), and \<open>rwl_writeunlock\<close>
  only ever broadcasts to readers, it does not signal a waiting writer again.\<close>
theorem rwl_stale_readers:
  assumes "reach rw_env rw_client s0 s" and "rwl_valid (mem s0) = RWLOCK_VALID"
    and "tally waits (pcs s0) < r_wait (mem s0)"
  shows "snd (seq_run rwl_destroy [0, 0, 0] RD_start (mem s)) = RD_return EBUSY \<and>
    snd (seq_run rwl_writeunlock [0, 0] WU_start (mem s)) = WU_broadcast"
proof -
  have "0 \<le> tally waits (pcs s)" by (intro tally_nonneg) simp
  with stale_waiters_grow [OF assms(1)] assms(2,3)
  have "rwl_valid (mem s) = RWLOCK_VALID" and "0 < r_wait (mem s)" by auto
  then show ?thesis by (simp add: Let_def)
qed

theorem rwl_stale_readers_witness:
  "case run rw_env rw_client [Exec 0 3, Exec 0 0, Exec 0 0, Exec 0 0, Exec 0 0, Exec 1 0, Exec 1 0,
      Exec 1 0, Exec 1 0, Exec 0 0, Exec 0 0, Exec 0 0, Exec 0 0, Exec 0 0, Exec 0 0,
      Exec 1 0, Exec 1 0, Exec 1 0, Exec 1 0, Exec 1 0, Exec 1 0, Exec 1 0, Exec 1 0] (rw_system 2) of
     Some s \<Rightarrow> pcs s = [RW_idle, RW_idle] \<and>
       snd (seq_run rwl_destroy [0, 0, 0] RD_start (mem s)) = RD_return EBUSY
   | None \<Rightarrow> False" (is "case ?r of Some s \<Rightarrow> ?P s | None \<Rightarrow> False")
proof -
  have "map_option (\<lambda>s. (pcs s, mem s)) ?r = Some ([RW_idle, RW_idle], RWL_INITIALIZER\<lparr>r_wait := 1\<rparr>)"
    by code_simp
  then obtain s where s: "?r = Some s" "pcs s = [RW_idle, RW_idle]"
    "mem s = RWL_INITIALIZER\<lparr>r_wait := 1\<rparr>" by auto
  have "snd (seq_run rwl_destroy [0, 0, 0] RD_start (mem s)) = RD_return EBUSY"
    using rwl_stale_readers [of s s, OF reach_start] s by (simp add: RWL_INITIALIZER_def)
  then show ?thesis using s by (simp add: RWL_INITIALIZER_def)
qed

text \<open>A writer can be forgotten: there is a run in which no call fails, at whose end the lock is
  free, the other threads have finished, and a thread sleeps in \<open>rwl_writelock\<close> that nobody
  will ever wake.\<close>
theorem rwl_writer_forgotten:
  "\<exists>s. reach rw_quiet rw_client (rw_system 3) s \<and> stuck rw_quiet rw_client s \<and> ended s = None \<and>
     mem s = RWL_INITIALIZER\<lparr>r_wait := 1, w_wait := 1\<rparr> \<and>
     threads s = [(RW_done, Ready), (RW_done, Ready), (RW_wl WL_wait, Asleep Rwl_write Rwl_mutex None)]"
proof -
  have "map_option (\<lambda>s. (ended s, mem s, threads s)) (run rw_quiet rw_client
     [Exec 0 3, Exec 0 0, Exec 0 0, Exec 0 0, Exec 0 0, Exec 1 0, Exec 1 0, Exec 1 0, Exec 1 0,
      Exec 0 0, Exec 0 0, Exec 0 0, Exec 0 0, Exec 0 0, Exec 0 0, Exec 1 0, Exec 1 0, Exec 1 0,
      Exec 1 0, Exec 1 0, Exec 1 0, Exec 1 0, Exec 1 0, Exec 1 4,
      Exec 0 3, Exec 0 0, Exec 0 0, Exec 0 0, Exec 0 0, Exec 2 2, Exec 2 0, Exec 2 0, Exec 2 0,
      Exec 0 0, Exec 0 0, Exec 0 0, Exec 0 0, Exec 0 0, Exec 0 0, Exec 0 4] (rw_system 3)) =
    Some (None, RWL_INITIALIZER\<lparr>r_wait := 1, w_wait := 1\<rparr>,
      [(RW_done, Ready), (RW_done, Ready), (RW_wl WL_wait, Asleep Rwl_write Rwl_mutex None)])"
    by code_simp
  from reach_exists [OF this] obtain s where s: "reach rw_quiet rw_client (rw_system 3) s"
    "ended s = None" "mem s = RWL_INITIALIZER\<lparr>r_wait := 1, w_wait := 1\<rparr>"
    "threads s = [(RW_done, Ready), (RW_done, Ready), (RW_wl WL_wait, Asleep Rwl_write Rwl_mutex None)]"
    by auto
  have "stuck rw_quiet rw_client s" by (rule stopped_stuck) (simp add: s(4))
  with s show ?thesis by blast
qed

end
