(* ===== verification/Queue.thy ===== *)
theory Queue
  imports Prelude
begin

text \<open>
  The contract of a first-in first-out queue (\<open>fifo\<close>), and the two data structures the
  programs use for it: linked lists of cells in a heap with pointers to the first and the last
  cell, and a ring buffer. What every client of a queue relies on - the items come out
  in the order they went in, none lost, none twice - is proved once from the contract.
\<close>

section \<open>The contract\<close>

text \<open>A sequence of requests: \<open>Some (a, d)\<close> puts \<open>d\<close> in, using the cell \<open>a\<close>; \<open>None\<close> takes
  an item out, if there is one.\<close>

fun serve :: "('a \<Rightarrow> 'd \<Rightarrow> 'q \<Rightarrow> 'q) \<Rightarrow> ('q \<Rightarrow> bool) \<Rightarrow> ('q \<Rightarrow> 'd \<times> 'q) \<Rightarrow> ('q \<Rightarrow> 'a \<Rightarrow> bool) \<Rightarrow>
    ('a \<times> 'd) option list \<Rightarrow> 'q \<Rightarrow> ('d list \<times> 'd list \<times> 'q)" where
  "serve enq emp deq room [] q = ([], [], q)"
| "serve enq emp deq room (Some (a, d) # rs) q =
     (if room q a
      then case serve enq emp deq room rs (enq a d q) of (ins, outs, q') \<Rightarrow> (d # ins, outs, q')
      else serve enq emp deq room rs q)"
| "serve enq emp deq room (None # rs) q =
     (if emp q then serve enq emp deq room rs q
      else case deq q of (d, q1) \<Rightarrow>
        case serve enq emp deq room rs q1 of (ins, outs, q') \<Rightarrow> (ins, d # outs, q'))"

locale fifo =
  fixes content :: "'q \<Rightarrow> 'd list \<Rightarrow> bool"
    and enq :: "'a \<Rightarrow> 'd \<Rightarrow> 'q \<Rightarrow> 'q"
    and emp :: "'q \<Rightarrow> bool"
    and deq :: "'q \<Rightarrow> 'd \<times> 'q"
    and room :: "'q \<Rightarrow> 'a \<Rightarrow> bool"
  assumes content_emp: "content q xs \<Longrightarrow> emp q \<longleftrightarrow> xs = []"
    and content_enq: "content q xs \<Longrightarrow> room q a \<Longrightarrow> content (enq a d q) (xs @ [d])"
    and content_deq: "content q (x # xs) \<Longrightarrow> fst (deq q) = x \<and> content (snd (deq q)) xs"
begin

lemma in_order:
  assumes "content q xs" and "serve enq emp deq room rs q = (ins, outs, q')"
  shows "\<exists>ys. content q' ys \<and> xs @ ins = outs @ ys"
  using assms
proof (induction rs arbitrary: q xs ins outs q')
  case (Cons r rs)
  show ?case
  proof (cases r)
    case None
    show ?thesis
    proof (cases "emp q")
      case False
      then obtain x xs' where xs: "xs = x # xs'" using content_emp [OF Cons.prems(1)] by (cases xs) auto
      obtain d q1 where d: "deq q = (d, q1)" by (cases "deq q")
      have c: "d = x" "content q1 xs'" using content_deq [of q x xs'] Cons.prems(1) xs d by auto
      show ?thesis using Cons.IH [OF c(2)] Cons.prems(2) None False d xs c(1)
        by (auto split: prod.splits)
    qed (use Cons None in auto)
  next
    case (Some ad)
    obtain a d where ad: "ad = (a, d)" by (cases ad)
    show ?thesis
    proof (cases "room q a")
      case True
      show ?thesis using Cons.IH [OF content_enq [OF Cons.prems(1) True, of d]] Cons.prems(2) Some ad True
        by (fastforce split: prod.splits)
    qed (use Cons Some ad in auto)
  qed
qed auto

lemma exact:
  assumes "content q []" and "serve enq emp deq room rs q = (ins, outs, q')" and "emp q'"
  shows "outs = ins"
  using in_order [OF assms(1,2)] content_emp assms(3) by auto

end

section \<open>Linked lists\<close>

text \<open>\<open>linked next p as\<close>: following the pointers from \<open>p\<close> one sees the cells \<open>as\<close> and then
  \<^verbatim>\<open>NULL\<close>. \<open>nxt a\<close> is the pointer in the cell \<open>a\<close>, if the cell exists.\<close>

primrec linked :: "('c \<Rightarrow> nat option) \<Rightarrow> (nat \<Rightarrow> 'c option) \<Rightarrow> nat option \<Rightarrow> nat list \<Rightarrow> bool" where
  "linked nxt h p [] \<longleftrightarrow> p = None"
| "linked nxt h p (a # as) \<longleftrightarrow> p = Some a \<and>
     (case h a of None \<Rightarrow> False | Some c \<Rightarrow> linked nxt h (nxt c) as)"

lemma linked_cong: "\<forall>a \<in> set as. h' a = h a \<Longrightarrow> linked nxt h' p as = linked nxt h p as"
  by (induction as arbitrary: p) (auto split: option.splits)

lemma linked_alloc: "linked nxt h p as \<Longrightarrow> a \<in> set as \<Longrightarrow> h a \<noteq> None"
  by (induction as arbitrary: p) (auto split: option.splits)

lemma linked_snoc:
  assumes "linked nxt h p as" and "as \<noteq> []" and "distinct as" and "a \<notin> set as"
    and "h (last as) = Some c" and "nxt (c' c) = Some a"
    and "h a = Some e" and "nxt e = None"
  shows "linked nxt (h(last as \<mapsto> c' c)) p (as @ [a])"
  using assms
proof (induction as arbitrary: p)
  case (Cons b bs)
  show ?case
  proof (cases "bs = []")
    case True
    then show ?thesis using Cons.prems by auto
  next
    case False
    then have b: "b \<noteq> last bs" using Cons.prems(3) by auto
    obtain cb where cb: "h b = Some cb" "linked nxt h (nxt cb) bs"
      using Cons.prems(1) by (auto split: option.splits)
    have "linked nxt (h(last bs \<mapsto> c' c)) (nxt cb) (bs @ [a])"
      by (rule Cons.IH) (use Cons.prems False cb in auto)
    then show ?thesis using Cons.prems(1) cb b False by (simp add: fun_upd_def)
  qed
qed simp

definition front :: "nat list \<Rightarrow> nat option" where
  "front as = (case as of [] \<Rightarrow> None | a # _ \<Rightarrow> Some a)"

lemma front_simps [simp]: "front [] = None" "front (a # as) = Some a"
  by (simp_all add: front_def)

lemma linked_front: "linked nxt h p as \<Longrightarrow> p = front as"
  by (cases as) (auto simp: front_def)

text \<open>A cell is put between \<open>pre\<close> and \<open>rest\<close>: the last cell of \<open>pre\<close> (or the head) points to it.\<close>

lemma linked_insert:
  assumes "linked nxt h p (pre @ rest)" and "distinct (pre @ rest)" and "a \<notin> set (pre @ rest)"
    and "h' a = Some c" and "nxt c = front rest"
    and "\<forall>b \<in> set (pre @ rest). (pre \<noteq> [] \<longrightarrow> b \<noteq> last pre) \<longrightarrow> h' b = h b"
    and "pre \<noteq> [] \<longrightarrow> (\<exists>c'. h' (last pre) = Some c' \<and> nxt c' = Some a)"
  shows "linked nxt h' (if pre = [] then Some a else p) (pre @ a # rest)"
  using assms
proof (induction pre arbitrary: p)
  case Nil
  then have "linked nxt h' (front rest) rest"
    using linked_front [of nxt h p rest] linked_cong [of rest h' h] by simp
  then show ?case using Nil by simp
next
  case (Cons b bs)
  obtain cb where cb: "h b = Some cb" "linked nxt h (nxt cb) (bs @ rest)"
    using Cons.prems(1) by (auto split: option.splits)
  show ?case
  proof (cases "bs = []")
    case True
    have e: "\<forall>x \<in> set rest. h' x = h x" using Cons.prems(2,6) True by auto
    have "linked nxt h' (front rest) rest"
      using linked_cong [OF e, of nxt "nxt cb"] linked_front [of nxt h "nxt cb" rest] cb(2) True by simp
    then show ?thesis using Cons.prems True by auto
  next
    case False
    then have b: "b \<noteq> last bs" using Cons.prems(2) by auto
    have "linked nxt h' (if bs = [] then Some a else nxt cb) (bs @ a # rest)"
      by (rule Cons.IH) (use Cons.prems cb False in auto)
    moreover have "h' b = h b" using Cons.prems(6) False b by simp
    ultimately show ?thesis using Cons.prems(1) cb False by simp
  qed
qed

lemma linked_front_cell:
  "linked nxt h p (a # as) \<Longrightarrow> \<exists>c. h a = Some c \<and> linked nxt h (nxt c) as"
  by (auto split: option.splits)

lemma linked_suffix: "linked nxt h p (pre @ rest) \<Longrightarrow> \<exists>q. linked nxt h q rest"
  by (induction pre arbitrary: p) (auto split: option.splits)

lemma linked_middle:
  assumes "linked nxt h p (pre @ a # rest)"
  shows "\<exists>c. h a = Some c \<and> linked nxt h (nxt c) rest"
  using linked_suffix [OF assms] linked_front_cell by blast

end
