(* ===== verification/Workq.thy ===== *)
theory Workq
  imports Calls Queue "HOL-Library.Multiset"
begin

text \<open>
  The work queue of \<^verbatim>\<open>chap7-RealCode/workqueue/workq.cxx\<close> and \<^verbatim>\<open>workq.hxx\<close>: a linked list of
  work items in the heap, worker threads that are created on demand and leave when they have
  been idle for two seconds, and a destruction that waits for them. The engine, a function
  pointer of the user, is represented by the list of the data it was called with.
\<close>

section \<open>The structures\<close>

datatype wq_mutex = Wq_mutex
datatype wq_cond = Wq_cv

record workq_ele =
  ele_next :: "nat option"
  ele_data :: int

text \<open>\<open>wq_heap\<close> holds the items that \<^verbatim>\<open>malloc\<close> returned and \<^verbatim>\<open>free\<close> has not taken back;
  \<open>wq_attr\<close> says whether the thread attributes object is initialised.\<close>

record workq =
  wq_heap :: "nat \<Rightarrow> workq_ele option"
  wq_first :: "nat option"
  wq_last :: "nat option"
  wq_valid :: int
  quit :: int
  parallelism :: int
  wq_counter :: int
  idle :: int
  wq_attr :: bool
  engine_calls :: "int list"

definition WORKQ_VALID :: int where "WORKQ_VALID = 0xdec1992"

section \<open>Initialisation\<close>

datatype wi_pc =
    WI_attr | WI_detach | WI_mutex | WI_cond | WI_undo_mutex int | WI_undo_attr int | WI_return int

fun workq_init :: "int \<Rightarrow> wi_pc \<Rightarrow> (wq_mutex, wq_cond, workq, wi_pc) act" where
  "workq_init n WI_attr =
     Do (Env (\<lambda>r _. 0 \<le> r)) (\<lambda>status m.
       if status \<noteq> 0 then (m, WI_return status) else (m\<lparr>wq_attr := True\<rparr>, WI_detach))"
| "workq_init n WI_detach =
     Do (Env (\<lambda>r _. 0 \<le> r)) (\<lambda>status m. (m, if status \<noteq> 0 then WI_undo_attr status else WI_mutex))"
| "workq_init n WI_mutex =
     Do (MInit Wq_mutex) (\<lambda>status m. (m, if status \<noteq> 0 then WI_undo_attr status else WI_cond))"
| "workq_init n WI_cond =
     Do (CInit Wq_cv) (\<lambda>status m.
       if status \<noteq> 0 then (m, WI_undo_mutex status)
       else (m\<lparr>quit := 0, wq_first := None, wq_last := None, parallelism := n,
           wq_counter := 0, idle := 0, wq_valid := WORKQ_VALID\<rparr>, WI_return status))"
| "workq_init n (WI_undo_mutex status) = Do (MDestroy Wq_mutex) (goto (WI_undo_attr status))"
| "workq_init n (WI_undo_attr status) =
     Do (Env (\<lambda>r _. 0 \<le> r)) (\<lambda>r m. (if r = 0 then m\<lparr>wq_attr := False\<rparr> else m, WI_return status))"
| "workq_init n (WI_return status) = Return status"

section \<open>The worker\<close>

text \<open>
  The points carry the local variables that are alive: the deadline, the item \<^verbatim>\<open>we\<close> and the
  flag \<^verbatim>\<open>timedout\<close>. \<open>WS_crash\<close> is the use of an item that is not allocated (with or without
  the mutex).
\<close>

datatype ws_pc =
    WS_start | WS_clock | WS_wait int | WS_give nat bool | WS_engine nat bool | WS_relock bool
  | WS_broadcast | WS_leave | WS_return | WS_crash bool

text \<open>The two tests after an item has been served (or there was none).\<close>

definition ws_after :: "bool \<Rightarrow> workq \<Rightarrow> workq \<times> ws_pc" where
  "ws_after timedout m =
     (if wq_first m = None \<and> quit m \<noteq> 0
      then let m1 = m\<lparr>wq_counter := wq_counter m - 1\<rparr> in
        (m1, if wq_counter m1 = 0 then WS_broadcast else WS_leave)
      else if wq_first m = None \<and> timedout
      then (m\<lparr>wq_counter := wq_counter m - 1\<rparr>, WS_leave)
      else (m, WS_clock))"

text \<open>Taking the first item off the list.\<close>

definition ws_body :: "bool \<Rightarrow> workq \<Rightarrow> workq \<times> ws_pc" where
  "ws_body timedout m =
     (case wq_first m of
        None \<Rightarrow> ws_after timedout m
      | Some we \<Rightarrow>
          (case wq_heap m we of
             None \<Rightarrow> (m, WS_crash True)
           | Some e \<Rightarrow>
               (m\<lparr>wq_first := ele_next e,
                  wq_last := (if wq_last m = Some we then None else wq_last m)\<rparr>,
                WS_give we timedout)))"

definition ws_while :: "int \<Rightarrow> workq \<Rightarrow> workq \<times> ws_pc" where
  "ws_while timeout m =
     (if wq_first m = None \<and> quit m = 0 then (m, WS_wait timeout) else ws_body False m)"

fun workq_server :: "ws_pc \<Rightarrow> (wq_mutex, wq_cond, workq, ws_pc) act" where
  "workq_server WS_start =
     Do (Lock Wq_mutex) (\<lambda>status m. (m, if status \<noteq> 0 then WS_return else WS_clock))"
| "workq_server WS_clock = Do Clock (\<lambda>seconds m. ws_while (seconds + 2) m)"
| "workq_server (WS_wait timeout) =
     Do (Timedwait Wq_cv Wq_mutex timeout) (\<lambda>status m.
       if status = ETIMEDOUT then ws_body True m
       else if status \<noteq> 0 then (m\<lparr>wq_counter := wq_counter m - 1\<rparr>, WS_leave)
       else ws_while timeout m)"
| "workq_server (WS_give we timedout) =
     Do (Unlock Wq_mutex) (\<lambda>status m. (m, if status \<noteq> 0 then WS_return else WS_engine we timedout))"
| "workq_server (WS_engine we timedout) =
     Do Tau (\<lambda>_ m.
       case wq_heap m we of
         None \<Rightarrow> (m, WS_crash False)
       | Some e \<Rightarrow>
           (m\<lparr>engine_calls := engine_calls m @ [ele_data e], wq_heap := (wq_heap m)(we := None)\<rparr>,
            WS_relock timedout))"
| "workq_server (WS_relock timedout) =
     Do (Lock Wq_mutex) (\<lambda>status m. if status \<noteq> 0 then (m, WS_return) else ws_after timedout m)"
| "workq_server WS_broadcast = Do (Broadcast Wq_cv) (goto WS_leave)"
| "workq_server WS_leave = Do (Unlock Wq_mutex) (goto WS_return)"
| "workq_server WS_return = Return 0"
| "workq_server (WS_crash locked) = Halt Undefined"

section \<open>Adding work\<close>

text \<open>\<open>WA_server\<close> is not a point of \<open>workq_add\<close>: it names the thread that
  \<^verbatim>\<open>pthread_create\<close> starts, with the start routine \<open>workq_server\<close>.\<close>

datatype wa_pc =
    WA_start | WA_malloc | WA_lock nat | WA_signal | WA_create | WA_undo int | WA_unlock
  | WA_return int | WA_crash | WA_server

text \<open>Appending the item \<open>a\<close> to the list.\<close>

definition wa_insert :: "nat \<Rightarrow> workq \<Rightarrow> workq option" where
  "wa_insert a m =
     (if wq_first m = None then Some (m\<lparr>wq_first := Some a, wq_last := Some a\<rparr>)
      else case wq_last m of
        None \<Rightarrow> None
      | Some l \<Rightarrow>
          (case wq_heap m l of
             None \<Rightarrow> None
           | Some e \<Rightarrow>
               Some (m\<lparr>wq_heap := (wq_heap m)(l \<mapsto> e\<lparr>ele_next := Some a\<rparr>), wq_last := Some a\<rparr>)))"

fun workq_add :: "int \<Rightarrow> wa_pc \<Rightarrow> (wq_mutex, wq_cond, workq, wa_pc) act" where
  "workq_add element WA_start =
     Do Tau (\<lambda>_ m. (m, if wq_valid m \<noteq> WORKQ_VALID then WA_return EINVAL else WA_malloc))"
| "workq_add element WA_malloc =
     Do (Env (\<lambda>r m. r = 0 \<or> 0 < r \<and> wq_heap m (nat r) = None)) (\<lambda>item m.
       if item = 0 then (m, WA_return ENOMEM)
       else (m\<lparr>wq_heap := (wq_heap m)(nat item \<mapsto> \<lparr>ele_next = None, ele_data = element\<rparr>)\<rparr>,
             WA_lock (nat item)))"
| "workq_add element (WA_lock item) =
     Do (Lock Wq_mutex) (\<lambda>status m.
       if status \<noteq> 0 then (m\<lparr>wq_heap := (wq_heap m)(item := None)\<rparr>, WA_return status)
       else case wa_insert item m of
         None \<Rightarrow> (m, WA_crash)
       | Some m1 \<Rightarrow>
           (m1, if idle m1 > 0 then WA_signal
                else if wq_counter m1 < parallelism m1 then WA_create
                else WA_unlock))"
| "workq_add element WA_signal =
     Do (Signal Wq_cv) (\<lambda>status m. (m, if status \<noteq> 0 then WA_undo status else WA_unlock))"
| "workq_add element WA_create =
     Do (Create (\<lambda>_ m. m) WA_server) (\<lambda>status m.
       if status \<noteq> 0 then (m, WA_undo status)
       else (m\<lparr>wq_counter := wq_counter m + 1\<rparr>, WA_unlock))"
| "workq_add element (WA_undo status) = Do (Unlock Wq_mutex) (goto (WA_return status))"
| "workq_add element WA_unlock = Do (Unlock Wq_mutex) (goto (WA_return 0))"
| "workq_add element (WA_return status) = Return status"
| "workq_add element WA_crash = Halt Undefined"
| "workq_add element WA_server = Halt Undefined"

section \<open>Destruction\<close>

datatype wd_pc =
    WD_start | WD_lock | WD_broadcast | WD_wait | WD_undo int | WD_unlock | WD_mutex
  | WD_cond int | WD_attr int int | WD_return int

definition wd_while :: "workq \<Rightarrow> workq \<times> wd_pc" where
  "wd_while m = (m, if wq_counter m > 0 then WD_wait else WD_unlock)"

fun workq_destroy :: "wd_pc \<Rightarrow> (wq_mutex, wq_cond, workq, wd_pc) act" where
  "workq_destroy WD_start =
     Do Tau (\<lambda>_ m. (m, if wq_valid m \<noteq> WORKQ_VALID then WD_return EINVAL else WD_lock))"
| "workq_destroy WD_lock =
     Do (Lock Wq_mutex) (\<lambda>status m.
       if status \<noteq> 0 then (m, WD_return status)
       else if wq_counter m > 0
       then let m1 = m\<lparr>quit := 1\<rparr> in if idle m1 > 0 then (m1, WD_broadcast) else wd_while m1
       else (m, WD_unlock))"
| "workq_destroy WD_broadcast =
     Do (Broadcast Wq_cv) (\<lambda>status m. if status \<noteq> 0 then (m, WD_undo status) else wd_while m)"
| "workq_destroy WD_wait =
     Do (Wait Wq_cv Wq_mutex) (\<lambda>status m. if status \<noteq> 0 then (m, WD_undo status) else wd_while m)"
| "workq_destroy (WD_undo status) = Do (Unlock Wq_mutex) (goto (WD_return status))"
| "workq_destroy WD_unlock =
     Do (Unlock Wq_mutex) (\<lambda>status m. (m, if status \<noteq> 0 then WD_return status else WD_mutex))"
| "workq_destroy WD_mutex = Do (MDestroy Wq_mutex) (\<lambda>status m. (m, WD_cond status))"
| "workq_destroy (WD_cond status) = Do (CDestroy Wq_cv) (\<lambda>status1 m. (m, WD_attr status status1))"
| "workq_destroy (WD_attr status status1) =
     Do (Env (\<lambda>r _. 0 \<le> r)) (\<lambda>status2 m.
       (if status2 = 0 then m\<lparr>wq_attr := False\<rparr> else m,
        WD_return (if status \<noteq> 0 then status else if status1 \<noteq> 0 then status1 else status2)))"
| "workq_destroy (WD_return status) = Return status"

section \<open>The process: adders, workers and a destroyer\<close>

text \<open>
  An adder has a list of items and adds them one after the other. The destroyer is followed
  up to the destruction of the mutex. Nobody is cancelled.
\<close>

datatype wq_pc =
    WQ_adder "int list" | WQ_add int "int list" wa_pc | WQ_server ws_pc | WQ_destroy wd_pc

fun wd_final :: "wd_pc \<Rightarrow> bool" where
  "wd_final WD_mutex \<longleftrightarrow> True"
| "wd_final (WD_cond v) \<longleftrightarrow> True"
| "wd_final (WD_attr v w) \<longleftrightarrow> True"
| "wd_final _ \<longleftrightarrow> False"

fun wq_process :: "wq_pc \<Rightarrow> (wq_mutex, wq_cond, workq, wq_pc) act" where
  "wq_process (WQ_adder []) = Return 0"
| "wq_process (WQ_adder (d # ds)) = Do Tau (goto (WQ_add d ds WA_start))"
| "wq_process (WQ_add d ds p) =
     call_new (WQ_add d ds) (WQ_server WS_start) (\<lambda>_ m. (m, WQ_adder ds)) (workq_add d p)"
| "wq_process (WQ_server p) = thread_fun WQ_server (workq_server p)"
| "wq_process (WQ_destroy p) =
     (if wd_final p then Return 0 else thread_fun WQ_destroy (workq_destroy p))"

definition wq_mem :: "int \<Rightarrow> workq" where
  "wq_mem n = \<lparr>wq_heap = (\<lambda>_. None), wq_first = None, wq_last = None, wq_valid = WORKQ_VALID,
     quit = 0, parallelism = n, wq_counter = 0, idle = 0, wq_attr = True, engine_calls = []\<rparr>"

definition wq_system :: "int \<Rightarrow> int list list \<Rightarrow> (wq_mutex, wq_cond, workq, wq_pc) sys" where
  "wq_system n dss = boot (wq_mem n) (map WQ_adder dss @ [WQ_destroy WD_start])"

fun wq_holds :: "wq_pc \<Rightarrow> wq_mutex set" where
  "wq_holds (WQ_adder []) = {}"
| "wq_holds (WQ_add d ds WA_signal) = {Wq_mutex}"
| "wq_holds (WQ_add d ds WA_create) = {Wq_mutex}"
| "wq_holds (WQ_add d ds (WA_undo v)) = {Wq_mutex}"
| "wq_holds (WQ_add d ds WA_unlock) = {Wq_mutex}"
| "wq_holds (WQ_add d ds WA_crash) = {Wq_mutex}"
| "wq_holds (WQ_server WS_clock) = {Wq_mutex}"
| "wq_holds (WQ_server (WS_wait v)) = {Wq_mutex}"
| "wq_holds (WQ_server (WS_give a v)) = {Wq_mutex}"
| "wq_holds (WQ_server WS_broadcast) = {Wq_mutex}"
| "wq_holds (WQ_server WS_leave) = {Wq_mutex}"
| "wq_holds (WQ_server (WS_crash True)) = {Wq_mutex}"
| "wq_holds (WQ_destroy WD_broadcast) = {Wq_mutex}"
| "wq_holds (WQ_destroy WD_wait) = {Wq_mutex}"
| "wq_holds (WQ_destroy (WD_undo v)) = {Wq_mutex}"
| "wq_holds (WQ_destroy WD_unlock) = {Wq_mutex}"
| "wq_holds _ = {}"

lemma wq_holds_adder [simp]: "wq_holds (WQ_adder ds) = {}"
  by (cases ds) auto

lemmas wq_case = wq_holds.cases
lemmas wq_defs = ws_after_def ws_body_def ws_while_def wa_insert_def wd_while_def Let_def

section \<open>Locking discipline\<close>

definition wq_env :: "wq_pc policy" where
  "wq_env p r \<longleftrightarrow> 0 \<le> r"

interpretation wq_any: lock_discipline wq_env wq_process wq_holds
proof unfold_locales
  fix p c k r m n m' m'' p'
  assume "wq_process p = Do c k" "wq_env p r" "answer_ok c r m n" "k r m' = (m'', p')"
  then show "wq_holds p' = held_after c r (wq_holds p)"
    by (cases p rule: wq_case) (auto simp: wq_defs wq_env_def split: if_splits option.splits)
next
  fix p c and k :: "int \<Rightarrow> workq \<Rightarrow> workq \<times> wq_pc"
  assume "wq_process p = Do c k"
  then show "call_ok c (wq_holds p)" by (cases p rule: wq_case) auto
next
  fix p q and st :: "nat \<Rightarrow> workq \<Rightarrow> workq" and k :: "int \<Rightarrow> workq \<Rightarrow> workq \<times> wq_pc"
  assume "wq_process p = Do (Create st q) k"
  then show "wq_holds q = {}" by (cases p rule: wq_case) auto
qed

lemma wq_locked: "locked_inv wq_process wq_holds (wq_system n dss)"
  by (auto simp: wq_system_def list_all_iff intro!: locked_inv_boot)

section \<open>The list of items\<close>

definition wq_rep :: "workq \<Rightarrow> nat list \<Rightarrow> bool" where
  "wq_rep m xs \<longleftrightarrow> linked ele_next (wq_heap m) (wq_first m) xs \<and> distinct xs \<and>
     (xs \<noteq> [] \<longrightarrow> wq_last m = Some (last xs))"

lemma wq_rep_empty: "wq_rep m xs \<Longrightarrow> wq_first m = None \<longleftrightarrow> xs = []"
  by (cases xs) (auto simp: wq_rep_def)

lemma wq_rep_cong:
  assumes "wq_rep m xs" and "\<forall>a \<in> set xs. wq_heap m' a = wq_heap m a"
    and "wq_first m' = wq_first m" and "wq_last m' = wq_last m"
  shows "wq_rep m' xs"
  using assms linked_cong [of xs "wq_heap m'" "wq_heap m"] by (simp add: wq_rep_def)

lemma wa_insert_rep:
  assumes rep: "wq_rep m xs" and a: "a \<notin> set xs" "wq_heap m a = Some e" "ele_next e = None"
  obtains m' where "wa_insert a m = Some m'" "wq_rep m' (xs @ [a])"
    "\<And>b. b \<notin> set xs \<Longrightarrow> wq_heap m' b = wq_heap m b"
    "\<And>b. map_option ele_data (wq_heap m' b) = map_option ele_data (wq_heap m b)"
proof (cases "xs = []")
  case True
  then have "wq_first m = None" using rep by (simp add: wq_rep_def)
  then show ?thesis
    using that [of "m\<lparr>wq_first := Some a, wq_last := Some a\<rparr>"] a True
    by (simp add: wa_insert_def wq_rep_def)
next
  case False
  then have l: "wq_last m = Some (last xs)" "wq_first m \<noteq> None" using rep by (auto simp: wq_rep_def neq_Nil_conv)
  have "wq_heap m (last xs) \<noteq> None"
    by (rule linked_alloc [of ele_next _ "wq_first m" xs]) (use rep False in \<open>auto simp: wq_rep_def\<close>)
  then obtain c where c: "wq_heap m (last xs) = Some c" by auto
  let ?m = "m\<lparr>wq_heap := (wq_heap m)(last xs \<mapsto> c\<lparr>ele_next := Some a\<rparr>), wq_last := Some a\<rparr>"
  have "linked ele_next ((wq_heap m)(last xs \<mapsto> c\<lparr>ele_next := Some a\<rparr>)) (wq_first m) (xs @ [a])"
    by (rule linked_snoc [where c' = "\<lambda>c. c\<lparr>ele_next := Some a\<rparr>"]) (use rep False a c in \<open>auto simp: wq_rep_def\<close>)
  then have "wq_rep ?m (xs @ [a])" using rep a by (simp add: wq_rep_def)
  moreover have "wa_insert a m = Some ?m" using l c by (auto simp: wa_insert_def)
  ultimately show ?thesis using c False by (intro that [of ?m]) auto
qed

lemma ws_take_rep:
  assumes "wq_rep m xs" and "wq_first m = Some a"
  obtains e ys where "xs = a # ys" "wq_heap m a = Some e"
    "wq_rep (m\<lparr>wq_first := ele_next e, wq_last := (if wq_last m = Some a then None else wq_last m)\<rparr>) ys"
proof -
  obtain ys where xs: "xs = a # ys" using assms by (cases xs) (auto simp: wq_rep_def)
  then obtain e where e: "wq_heap m a = Some e" "linked ele_next (wq_heap m) (ele_next e) ys"
    using assms by (auto simp: wq_rep_def split: option.splits)
  have "wq_last m \<noteq> Some a" if "ys \<noteq> []" using assms(1) xs that by (auto simp: wq_rep_def)
  then have "wq_rep (m\<lparr>wq_first := ele_next e, wq_last := (if wq_last m = Some a then None else wq_last m)\<rparr>) ys"
    using assms(1) xs e by (simp add: wq_rep_def)
  with that xs e(1) show ?thesis by blast
qed

section \<open>Ownership of the items\<close>

text \<open>The item a thread has in its hands: allocated and not in the list.\<close>

fun own :: "wq_pc \<Rightarrow> nat option" where
  "own (WQ_add d ds (WA_lock a)) = Some a"
| "own (WQ_server (WS_give a v)) = Some a"
| "own (WQ_server (WS_engine a v)) = Some a"
| "own _ = None"

fun crashed :: "wq_pc \<Rightarrow> bool" where
  "crashed (WQ_add d ds WA_crash) \<longleftrightarrow> True"
| "crashed (WQ_add d ds WA_server) \<longleftrightarrow> True"
| "crashed (WQ_server (WS_crash v)) \<longleftrightarrow> True"
| "crashed _ \<longleftrightarrow> False"

fun fresh_item :: "(nat \<Rightarrow> workq_ele option) \<Rightarrow> wq_pc \<Rightarrow> bool" where
  "fresh_item h (WQ_add d ds (WA_lock a)) \<longleftrightarrow> h a = Some \<lparr>ele_next = None, ele_data = d\<rparr>"
| "fresh_item h _ \<longleftrightarrow> True"

text \<open>The five things a step can do to the items.\<close>

definition q_same :: "workq \<Rightarrow> workq \<Rightarrow> bool" where
  "q_same m m' \<longleftrightarrow> wq_heap m' = wq_heap m \<and> wq_first m' = wq_first m \<and> wq_last m' = wq_last m"

definition q_move :: "workq \<Rightarrow> wq_pc \<Rightarrow> workq \<Rightarrow> wq_pc \<Rightarrow> bool" where
  "q_move m p m' p' \<longleftrightarrow>
     (own p' = own p \<and> q_same m m') \<or>
     (\<exists>a e. own p = None \<and> own p' = Some a \<and> wq_heap m a = None \<and>
        q_same (m\<lparr>wq_heap := (wq_heap m)(a \<mapsto> e)\<rparr>) m') \<or>
     (\<exists>a m1 d ds. p = WQ_add d ds (WA_lock a) \<and> own p' = None \<and> wa_insert a m = Some m1 \<and> q_same m1 m') \<or>
     (\<exists>a e. own p = None \<and> own p' = Some a \<and> wq_first m = Some a \<and> wq_heap m a = Some e \<and>
        q_same (m\<lparr>wq_first := ele_next e, wq_last := (if wq_last m = Some a then None else wq_last m)\<rparr>) m') \<or>
     (\<exists>a. own p = Some a \<and> own p' = None \<and> q_same (m\<lparr>wq_heap := (wq_heap m)(a := None)\<rparr>) m')"

definition q_fault :: "workq \<Rightarrow> wq_pc \<Rightarrow> bool" where
  "q_fault m p \<longleftrightarrow>
     (\<exists>a d ds. p = WQ_add d ds (WA_lock a) \<and> wa_insert a m = None) \<or>
     (\<exists>a. wq_first m = Some a \<and> wq_heap m a = None) \<or>
     (\<exists>a. own p = Some a \<and> wq_heap m a = None)"

lemma q_same_refl [simp]: "q_same m m" by (simp add: q_same_def)

lemma q_move_same: "own p' = own p \<Longrightarrow> q_same m m' \<Longrightarrow> q_move m p m' p'"
  by (simp add: q_move_def)

lemma q_move_new:
  "own p = None \<Longrightarrow> own p' = Some a \<Longrightarrow> wq_heap m a = None \<Longrightarrow>
   q_same (m\<lparr>wq_heap := (wq_heap m)(a \<mapsto> e)\<rparr>) m' \<Longrightarrow> q_move m p m' p'"
  unfolding q_move_def by blast

lemma ws_body_shape:
  assumes "ws_body t m = (m', q)"
  shows "q_move m (WQ_server WS_clock) m' (WQ_server q) \<and> \<not> crashed (WQ_server q) \<or>
    (\<exists>a. wq_first m = Some a \<and> wq_heap m a = None)"
  using assms by (auto simp: wq_defs q_move_def q_same_def split: option.splits if_splits)

lemma q_shape_server:
  assumes "workq_server p = Do c k" and "answer_ok c r m n" and "k r m = (m', p')"
  shows "(q_move m (WQ_server p) m' (WQ_server p') \<and> \<not> crashed (WQ_server p')) \<or> q_fault m (WQ_server p)"
proof (cases p)
  case WS_clock
  then show ?thesis using assms ws_body_shape [of False m m' p']
    by (auto simp: ws_while_def q_fault_def q_move_def split: if_splits)
next
  case (WS_wait d)
  then show ?thesis using assms ws_body_shape [of False m m' p'] ws_body_shape [of True m m' p']
    by (auto simp: ws_while_def q_fault_def q_move_def q_same_def split: if_splits)
qed (use assms in \<open>auto simp: ws_after_def Let_def q_move_def q_fault_def q_same_def split: if_splits option.splits\<close>)

lemma q_shape_add:
  assumes "workq_add d p = Do c k" and "answer_ok c r m n" and "k r m = (m', p')"
  shows "(q_move m (WQ_add d ds p) m' (WQ_add d ds p') \<and> \<not> crashed (WQ_add d ds p') \<and>
      fresh_item (wq_heap m') (WQ_add d ds p')) \<or> q_fault m (WQ_add d ds p)"
proof (cases p)
  case WA_malloc
  show ?thesis
  proof (cases "r = 0")
    case True
    then show ?thesis using assms WA_malloc by (auto intro!: q_move_same)
  next
    case False
    then show ?thesis using assms WA_malloc
      by (auto intro!: disjI1 q_move_new [where a = "nat r" and e = "\<lparr>ele_next = None, ele_data = d\<rparr>"])
  qed
next
  case (WA_lock a)
  then show ?thesis using assms
    by (cases "wa_insert a m") (auto simp: q_move_def q_fault_def q_same_def split: if_splits)
qed (use assms in \<open>auto simp: q_move_def q_fault_def q_same_def split: if_splits\<close>)

lemma q_shape_destroy:
  assumes "workq_destroy p = Do c k" and "k r m = (m', p')" and "\<not> wd_final p"
  shows "q_same m m'"
  using assms by (cases p) (auto simp: wd_while_def Let_def q_same_def split: if_splits)

lemma q_shape:
  assumes p: "wq_process p = Do c k" and r: "answer_ok c r m n" and k: "k r m = (m', p')"
    and "\<not> crashed p"
  shows "(q_move m p m' p' \<and> \<not> crashed p' \<and> fresh_item (wq_heap m') p') \<or> q_fault m p"
proof (cases p)
  case (WQ_adder ds)
  then show ?thesis using assms by (cases ds) (auto intro!: q_move_same)
next
  case (WQ_add d ds q)
  show ?thesis
  proof (cases "workq_add d q")
    case (Do c0 k0)
    obtain q' where q': "k0 r m = (m', q')" "p' = WQ_add d ds q'"
      using p k WQ_add Do by (auto split: prod.splits)
    have "answer_ok c0 r m n" using r p WQ_add Do by (cases c0) auto
    from q_shape_add [OF Do this q'(1)] q'(2) WQ_add show ?thesis by simp
  next
    case (Return v)
    then have "own p = None" using WQ_add by (cases q) auto
    then show ?thesis using p k WQ_add Return by (auto intro!: q_move_same)
  qed (use p WQ_add in simp)
next
  case (WQ_server q)
  show ?thesis
  proof (cases "workq_server q")
    case (Do c0 k0)
    obtain q' where q': "k0 r m = (m', q')" "p' = WQ_server q'"
      using p k WQ_server Do by (auto split: prod.splits)
    have "answer_ok c0 r m n" using r p WQ_server Do by (cases c0) auto
    from q_shape_server [OF Do this q'(1)] q'(2) WQ_server show ?thesis by simp
  qed (use p WQ_server in simp_all)
next
  case (WQ_destroy q)
  then have nf: "\<not> wd_final q" using p by (auto split: if_splits)
  show ?thesis
  proof (cases "workq_destroy q")
    case (Do c0 k0)
    obtain q' where q': "k0 r m = (m', q')" "p' = WQ_destroy q'"
      using p k WQ_destroy Do nf by (auto split: prod.splits)
    from q_shape_destroy [OF Do q'(1) nf] q'(2) WQ_destroy show ?thesis by (auto intro!: q_move_same)
  qed (use p WQ_destroy nf in simp_all)
qed

definition q_owned :: "workq \<Rightarrow> nat list \<Rightarrow> wq_pc list \<Rightarrow> bool" where
  "q_owned m xs ps \<longleftrightarrow> (\<forall>a. of_bool (wq_heap m a \<noteq> None) =
     int (count_list xs a) + tally (\<lambda>p. of_bool (own p = Some a)) ps)"

text \<open>
  The list is a list, every allocated item is in the list or in the hands of exactly one
  thread, nothing else is, and the items that adders hold are as they made them.
\<close>

definition wq_safe :: "workq \<Rightarrow> wq_pc list \<Rightarrow> bool" where
  "wq_safe m ps \<longleftrightarrow> list_all (\<lambda>p. \<not> crashed p) ps \<and> list_all (fresh_item (wq_heap m)) ps \<and>
     (\<exists>xs. wq_rep m xs \<and> q_owned m xs ps)"

lemma q_owned_held:
  assumes "q_owned m xs ps" and "t < length ps" and "own (ps ! t) = Some a"
  shows "wq_heap m a \<noteq> None" and "a \<notin> set xs" and "\<And>u. u < length ps \<Longrightarrow> u \<noteq> t \<Longrightarrow> own (ps ! u) \<noteq> Some a"
proof -
  let ?w = "\<lambda>p. of_bool (own p = Some a) :: int"
  have e: "of_bool (wq_heap m a \<noteq> None) = int (count_list xs a) + tally ?w ps"
    using assms(1) by (simp add: q_owned_def)
  have ge: "?w (ps ! t) \<le> tally ?w ps" using assms(2) by (intro tally_ge_elem) auto
  then show "wq_heap m a \<noteq> None" using e assms(3) by (cases "wq_heap m a") auto
  have "int (count_list xs a) = 0" using e ge assms(3) by (cases "wq_heap m a") auto
  then show "a \<notin> set xs" by (simp add: count_list_0_iff)
  fix u assume u: "u < length ps" "u \<noteq> t"
  have "?w (ps ! t) + ?w (ps ! u) \<le> tally ?w ps" using assms(2) u by (intro tally_ge_two) auto
  then show "own (ps ! u) \<noteq> Some a" using e assms(3) by (cases "wq_heap m a") auto
qed

lemma q_owned_listed:
  assumes "q_owned m xs ps" and "a \<in> set xs"
  shows "wq_heap m a \<noteq> None" and "\<And>u. u < length ps \<Longrightarrow> own (ps ! u) \<noteq> Some a"
proof -
  have "0 < int (count_list xs a)" using assms(2) count_list_0_iff [of xs a] by linarith
  moreover have "of_bool (wq_heap m a \<noteq> None) =
     int (count_list xs a) + tally (\<lambda>p. of_bool (own p = Some a)) ps"
    using assms(1) by (simp add: q_owned_def)
  moreover have "0 \<le> tally (\<lambda>p. of_bool (own p = Some a)) ps" by (rule tally_nonneg) simp
  ultimately show "wq_heap m a \<noteq> None" by (cases "wq_heap m a") auto
  show "own (ps ! u) \<noteq> Some a" if "u < length ps" for u
    using q_owned_held(2) [OF assms(1) that] assms(2) by blast
qed

lemma no_fault:
  assumes safe: "wq_safe m ps" and t: "t < length ps"
  shows "\<not> q_fault m (ps ! t)"
proof
  assume f: "q_fault m (ps ! t)"
  obtain xs where rep: "wq_rep m xs" and o: "q_owned m xs ps" using safe by (auto simp: wq_safe_def)
  from f [unfolded q_fault_def] show False
  proof (elim disjE exE conjE)
    fix a d ds assume p: "ps ! t = WQ_add d ds (WA_lock a)" and n: "wa_insert a m = None"
    have "a \<notin> set xs" using q_owned_held(2) [OF o t] p by simp
    moreover have "fresh_item (wq_heap m) (ps ! t)" using safe t by (simp add: wq_safe_def list_all_nth)
    ultimately show False using n p by (auto intro: wa_insert_rep [OF rep, of a])
  next
    fix a assume "wq_first m = Some a" "wq_heap m a = None"
    with ws_take_rep [OF rep] show False by (metis option.distinct(1))
  next
    fix a assume "own (ps ! t) = Some a" "wq_heap m a = None"
    with q_owned_held(1) [OF o t] show False by simp
  qed
qed

lemma fresh_item_frame:
  "fresh_item h p \<Longrightarrow> (\<And>a. own p = Some a \<Longrightarrow> h' a = h a) \<Longrightarrow> fresh_item h' p"
  by (cases "(h, p)" rule: fresh_item.cases) auto

lemma q_owned_update:
  assumes "q_owned m xs ps" and "t < length ps"
    and "\<And>b. of_bool (wq_heap m' b \<noteq> None) - of_bool (wq_heap m b \<noteq> None) =
      int (count_list xs' b) - int (count_list xs b) + of_bool (own p' = Some b) - of_bool (own (ps ! t) = Some b)"
  shows "q_owned m' xs' (ps[t := p'])"
  unfolding q_owned_def
proof
  fix b
  have "of_bool (wq_heap m b \<noteq> None) = int (count_list xs b) + tally (\<lambda>p. of_bool (own p = Some b)) ps"
    using assms(1) by (simp add: q_owned_def)
  then show "of_bool (wq_heap m' b \<noteq> None) =
      int (count_list xs' b) + tally (\<lambda>p. of_bool (own p = Some b)) (ps[t := p'])"
    using assms(3) [of b] tally_update [OF assms(2), of "\<lambda>p. of_bool (own p = Some b)" p'] by linarith
qed

lemma wq_safe_update:
  assumes safe: "wq_safe m ps" and t: "t < length ps" and p': "\<not> crashed p'" "fresh_item (wq_heap m') p'"
    and others: "\<And>u a. u < length ps \<Longrightarrow> u \<noteq> t \<Longrightarrow> own (ps ! u) = Some a \<Longrightarrow> wq_heap m' a = wq_heap m a"
    and rep: "wq_rep m' xs'" and o: "q_owned m' xs' (ps[t := p'])"
  shows "wq_safe m' (ps[t := p'])"
proof -
  have "fresh_item (wq_heap m') (ps ! u)" if "u < length ps" "u \<noteq> t" for u
    by (rule fresh_item_frame [of "wq_heap m"]) (use safe that others in \<open>auto simp: wq_safe_def list_all_nth\<close>)
  then have "list_all (fresh_item (wq_heap m')) (ps[t := p'])"
    using t p' by (intro list_all_update_others) auto
  then show ?thesis using safe p' rep o by (auto simp: wq_safe_def list_all_update)
qed

lemma wq_safe_move:
  assumes safe: "wq_safe m ps" and t: "t < length ps" and mv: "q_move m (ps ! t) m' p'"
    and p': "\<not> crashed p'" "fresh_item (wq_heap m') p'"
  shows "wq_safe m' (ps[t := p'])"
proof -
  obtain xs where rep: "wq_rep m xs" and o: "q_owned m xs ps" using safe by (auto simp: wq_safe_def)
  note update = wq_safe_update [OF safe t p'] and owned = q_owned_update [OF o t]
  from mv [unfolded q_move_def] show ?thesis
  proof (elim disjE exE conjE)
    assume "own p' = own (ps ! t)" "q_same m m'"
    then show ?thesis by (intro update [where xs' = xs] owned) (use rep in \<open>auto simp: q_same_def intro: wq_rep_cong\<close>)
  next
    fix a e assume a: "own (ps ! t) = None" "own p' = Some a" "wq_heap m a = None"
      and m': "q_same (m\<lparr>wq_heap := (wq_heap m)(a \<mapsto> e)\<rparr>) m'"
    have nx: "a \<notin> set xs" using q_owned_listed(1) [OF o, of a] a(3) by blast
    show ?thesis
    proof (intro update [where xs' = xs] owned)
      show "wq_rep m' xs" by (rule wq_rep_cong [OF rep]) (use m' nx in \<open>auto simp: q_same_def\<close>)
      show "wq_heap m' b = wq_heap m b" if "u < length ps" "own (ps ! u) = Some b" for u b
        using q_owned_held(1) [OF o that] a(3) m' by (auto simp: q_same_def)
    qed (use a m' in \<open>auto simp: q_same_def\<close>)
  next
    fix a m1 d ds assume p: "ps ! t = WQ_add d ds (WA_lock a)" and a: "own p' = None"
      "wa_insert a m = Some m1" and m': "q_same m1 m'"
    have na: "a \<notin> set xs" using q_owned_held(2) [OF o t] p by simp
    have "fresh_item (wq_heap m) (ps ! t)" using safe t by (simp add: wq_safe_def list_all_nth)
    then have "wq_heap m a = Some \<lparr>ele_next = None, ele_data = d\<rparr>" using p by simp
    then obtain m2 where m2: "wa_insert a m = Some m2" "wq_rep m2 (xs @ [a])"
      "\<And>b. b \<notin> set xs \<Longrightarrow> wq_heap m2 b = wq_heap m b"
      "\<And>b. map_option ele_data (wq_heap m2 b) = map_option ele_data (wq_heap m b)"
      by (rule wa_insert_rep [OF rep na]) simp_all
    then have "m2 = m1" using a(2) by simp
    note m1 = m2(2-4) [unfolded this]
    have same: "wq_heap m' b = None \<longleftrightarrow> wq_heap m b = None" for b
      using m1(3) [of b] m' by (auto simp: q_same_def)
    show ?thesis
    proof (intro update [where xs' = "xs @ [a]"] owned)
      show "wq_rep m' (xs @ [a])" by (rule wq_rep_cong [OF m1(1)]) (use m' in \<open>auto simp: q_same_def\<close>)
      show "wq_heap m' b = wq_heap m b" if "u < length ps" "own (ps ! u) = Some b" for u b
        using q_owned_held(2) [OF o that] m1(2) m' by (simp add: q_same_def)
    qed (use p a same in auto)
  next
    fix a e assume a: "own (ps ! t) = None" "own p' = Some a" and f: "wq_first m = Some a" "wq_heap m a = Some e"
      and m': "q_same (m\<lparr>wq_first := ele_next e, wq_last := (if wq_last m = Some a then None else wq_last m)\<rparr>) m'"
    obtain ys where ys: "xs = a # ys"
      "wq_rep (m\<lparr>wq_first := ele_next e, wq_last := (if wq_last m = Some a then None else wq_last m)\<rparr>) ys"
      using ws_take_rep [OF rep f(1)] f(2) by (metis option.inject)
    show ?thesis
    proof (intro update [where xs' = ys] owned)
      show "wq_rep m' ys" by (rule wq_rep_cong [OF ys(2)]) (use m' in \<open>auto simp: q_same_def\<close>)
    qed (use a m' ys(1) in \<open>auto simp: q_same_def\<close>)
  next
    fix a assume a: "own (ps ! t) = Some a" "own p' = None"
      and m': "q_same (m\<lparr>wq_heap := (wq_heap m)(a := None)\<rparr>) m'"
    note h = q_owned_held [OF o t a(1)]
    show ?thesis
    proof (intro update [where xs' = xs] owned)
      show "wq_rep m' xs" by (rule wq_rep_cong [OF rep]) (use m' h(2) in \<open>auto simp: q_same_def\<close>)
      show "wq_heap m' b = wq_heap m b" if "u < length ps" "u \<noteq> t" "own (ps ! u) = Some b" for u b
        using h(3) [OF that(1,2)] that(3) m' by (auto simp: q_same_def)
    qed (use a m' h(1) in \<open>auto simp: q_same_def\<close>)
  qed
qed

lemma wq_start:
  "mem (wq_system n dss) = wq_mem n" "now (wq_system n dss) = 0"
  "pcs (wq_system n dss) = map WQ_adder dss @ [WQ_destroy WD_start]"
  by (simp_all add: wq_system_def comp_def)

lemma wq_calls:
  "wq_process p = Do c k \<Longrightarrow> entry_mem c r n m = m \<and>
     spawned c r = (if r = 0 \<and> (\<exists>d ds. p = WQ_add d ds WA_create) then [WQ_server WS_start] else [])"
  by (cases p rule: wq_case) (auto split: if_splits)

lemma wq_safe_spawn:
  "wq_safe m ps \<Longrightarrow> wq_safe m (ps @ [WQ_server WS_start])"
  by (auto simp: wq_safe_def q_owned_def)

lemma wq_reach_safe:
  assumes "reach wq_env wq_process (wq_system n dss) s"
  shows "wq_safe (mem s) (pcs s)"
  using assms
proof (induction rule: reach_invariant)
  case start
  have "tally (\<lambda>p. of_bool (own p = Some a)) (map WQ_adder dss) = 0" for a
    by (simp add: tally_def comp_def sum_list_triv)
  then show ?case
    unfolding wq_start
    by (auto simp: wq_mem_def wq_safe_def list_all_iff wq_rep_def q_owned_def intro!: exI [of _ "[]"])
next
  case (move n m ps t c k r m' p')
  have nc: "\<not> crashed (ps ! t)" using move(1,2) by (simp add: wq_safe_def list_all_length)
  have k: "k r m = (m', p')" using move(6) wq_calls [OF move(3), of r] by simp
  from q_shape [OF move(3,5) k nc] no_fault [OF move(1,2)]
  have "wq_safe m' (ps[t := p'])" by (auto intro: wq_safe_move [OF move(1,2)])
  then show ?case using wq_calls [OF move(3), of r] by (auto intro: wq_safe_spawn)
qed

section \<open>Counting workers\<close>

text \<open>The environment in which no call fails: \<open>malloc\<close> finds memory, waits end by a wakeup
  or a timeout.\<close>

fun wq_quiet :: "wq_pc policy" where
  "wq_quiet (WQ_server (WS_wait d)) r \<longleftrightarrow> r = 0 \<or> r = ETIMEDOUT"
| "wq_quiet (WQ_server WS_clock) r \<longleftrightarrow> 0 \<le> r"
| "wq_quiet (WQ_add d ds WA_malloc) r \<longleftrightarrow> 0 < r"
| "wq_quiet p r \<longleftrightarrow> r = 0"

lemma wq_quiet_env: "wq_quiet p r \<Longrightarrow> wq_env p r"
  by (cases "(p, r)" rule: wq_quiet.cases) (auto simp: wq_env_def)

interpretation wq_q: lock_discipline wq_quiet wq_process wq_holds
  by unfold_locales (metis wq_any.held_moves wq_quiet_env, erule wq_any.calls_ok, erule wq_any.spawn_free)

lemmas wq_quiet_reach = reach_mono [OF _ wq_quiet_env]

text \<open>1 from the creation of a worker to its decrement of \<open>wq_counter\<close>.\<close>

fun live :: "wq_pc \<Rightarrow> int" where
  "live (WQ_server WS_broadcast) = 0"
| "live (WQ_server WS_leave) = 0"
| "live (WQ_server WS_return) = 0"
| "live (WQ_server p) = 1"
| "live _ = 0"

lemma live_nonneg [simp]: "0 \<le> live p" by (cases p rule: live.cases) auto

interpretation workers: conservation wq_quiet wq_process live wq_counter "\<lambda>_. True"
proof unfold_locales
  fix p c k r m n l m' p'
  assume "wq_process p = Do c k" "wq_quiet p r" "answer_ok c r m n" "k r (entry_mem c r l m) = (m', p')"
  then show "True \<and> wq_counter m' + live p = wq_counter m + live p' + tally live (spawned c r)"
    by (cases p rule: wq_case) (auto simp: wq_defs split: if_splits option.splits)
qed

text \<open>A worker that ends because a lock fails keeps its place: then \<open>wq_counter\<close> is too high, never too low.\<close>

lemma live_move:
  assumes "wq_process p = Do c k" and "wq_env p r" and "k r (entry_mem c r l m) = (m', p')"
  shows "live p' + tally live (spawned c r) - live p \<le> wq_counter m' - wq_counter m"
  using assms by (cases p rule: wq_case) (auto simp: wq_defs wq_env_def split: if_splits option.splits)

lemma live_le_counter:
  assumes "reach wq_env wq_process (wq_system n dss) s"
  shows "tally live (pcs s) \<le> wq_counter (mem s)"
  using assms
proof (induction rule: reach_invariant)
  case start
  have "tally live (map WQ_adder dss) = 0" by (simp add: tally_def comp_def sum_list_triv)
  then show ?case by (simp add: wq_start wq_mem_def del: map_map)
next
  case (move h m ps t c k r m' p')
  show ?case using live_move [OF move(3,4,6)] move(1,2) by (simp add: tally_update)
qed simp

fun at_create :: "wq_pc \<Rightarrow> bool" where
  "at_create (WQ_add d ds WA_create) \<longleftrightarrow> True"
| "at_create _ \<longleftrightarrow> False"

lemma at_create_iff: "at_create p \<longleftrightarrow> (\<exists>d ds. p = WQ_add d ds WA_create)"
  by (cases p rule: at_create.cases) auto

lemma wq_awake: "list_all (awake allow wq_process (now (wq_system n dss))) (threads (wq_system n dss))"
  unfolding wq_system_def by (rule awake_boot)

text \<open>What a step does to the numbers.\<close>

lemma wq_number_moves:
  assumes "wq_process p = Do c k" and "k r m = (m', p')"
  shows "parallelism m' = parallelism m \<and> idle m' = idle m \<and> wq_valid m' = wq_valid m" (is ?A)
    and "wq_counter m' \<le> wq_counter m \<or> at_create p \<and> wq_counter m' = wq_counter m + 1" (is ?B)
    and "at_create p' \<Longrightarrow> wq_counter m' < parallelism m'" (is "?c \<Longrightarrow> ?C")
proof -
  have "?A \<and> ?B \<and> (?c \<longrightarrow> ?C)"
    using assms by (cases p rule: wq_case) (auto simp: wq_defs split: if_splits option.splits)
  then show ?A ?B "?c \<Longrightarrow> ?C" by blast+
qed

lemma alone_create:
  assumes "alone wq_process wq_holds ps t p'" and "at_create (ps ! t)" and "u < length ps" and "u \<noteq> t"
  shows "\<not> at_create (ps ! u)" and "ps ! u \<noteq> WQ_destroy WD_unlock"
  using assms by (fastforce simp: alone_def at_create_iff waiting_def wait_call_def split: option.splits)+

definition bounded :: "int \<Rightarrow> workq \<Rightarrow> wq_pc list \<Rightarrow> bool" where
  "bounded n m ps \<longleftrightarrow> parallelism m = n \<and> wq_counter m \<le> n \<and>
     list_all (\<lambda>p. at_create p \<longrightarrow> wq_counter m < n) ps"

lemma wq_reach_bounded:
  assumes r: "reach wq_env wq_process (wq_system n dss) s" and "0 \<le> n"
  shows "bounded n (mem s) (pcs s)"
  using r wq_locked wq_awake
proof (induction rule: wq_any.exclusive_invariant)
  case start
  show ?case using assms(2) unfolding wq_start by (simp add: bounded_def wq_mem_def list_all_iff)
next
  case (move h m ps t c k r m' p')
  have k: "k r m = (m', p')" using move(6) wq_calls [OF move(3), of r] by simp
  note num = wq_number_moves [OF move(3) k]
  have others: "list_all (\<lambda>p. at_create p \<longrightarrow> wq_counter m' < n) (ps[t := p'])"
  proof (rule list_all_update_others [OF move(2)])
    show "at_create p' \<longrightarrow> wq_counter m' < n" using num(1,3) move(1) by (simp add: bounded_def)
    show "at_create (ps ! u) \<longrightarrow> wq_counter m' < n" if "u < length ps" "u \<noteq> t" for u
      using num(2) alone_create(1) [OF move(7) _ that] move(1) that by (auto simp: bounded_def list_all_length)
  qed
  have "wq_counter m' \<le> n" using num(2) move(1,2) by (auto simp: bounded_def list_all_length)
  with others num(1) move(1) wq_calls [OF move(3), of r] show ?case by (auto simp: bounded_def)
qed

section \<open>Every item is served\<close>

text \<open>Occurrences of a datum in the allocated items, and in what a thread has still to add.\<close>

definition data_at :: "(nat \<Rightarrow> workq_ele option) \<Rightarrow> int \<Rightarrow> nat set" where
  "data_at h d = {a. map_option ele_data (h a) = Some d}"

fun todo :: "int \<Rightarrow> wq_pc \<Rightarrow> int" where
  "todo d (WQ_adder ds) = int (count (mset ds) d)"
| "todo d (WQ_add e ds WA_start) = of_bool (e = d) + int (count (mset ds) d)"
| "todo d (WQ_add e ds WA_malloc) = of_bool (e = d) + int (count (mset ds) d)"
| "todo d (WQ_add e ds p) = int (count (mset ds) d)"
| "todo d _ = 0"

definition stored :: "int \<Rightarrow> workq \<Rightarrow> int" where
  "stored d m = int (count (mset (engine_calls m)) d) + int (card (data_at (wq_heap m) d))"

lemma data_at_finite: "finite (dom h) \<Longrightarrow> finite (data_at h d)"
  by (rule finite_subset [of _ "dom h"]) (auto simp: data_at_def)

lemma card_data_new:
  assumes "finite (dom h)" and "h a = None"
  shows "card (data_at (h(a \<mapsto> e)) d) = of_bool (ele_data e = d) + card (data_at h d)"
proof -
  have "data_at (h(a \<mapsto> e)) d = (if ele_data e = d then insert a (data_at h d) else data_at h d)"
    using assms(2) by (auto simp: data_at_def)
  moreover have "a \<notin> data_at h d" using assms(2) by (simp add: data_at_def)
  ultimately show ?thesis using data_at_finite [OF assms(1)] by simp
qed

lemma card_data_free:
  assumes "finite (dom h)" and "h a = Some e"
  shows "card (data_at h d) = of_bool (ele_data e = d) + card (data_at (h(a := None)) d)"
proof -
  have "h = (h(a := None))(a \<mapsto> e)" using assms(2) by auto
  then show ?thesis using card_data_new [of "h(a := None)" a e d] assms(1) by simp
qed

lemma wa_insert_frame:
  assumes "wa_insert a m = Some m'"
  shows "(\<forall>d. data_at (wq_heap m') d = data_at (wq_heap m) d) \<and>
    (\<forall>b. wq_heap m' b = None \<longleftrightarrow> wq_heap m b = None) \<and>
    engine_calls m' = engine_calls m \<and> wq_valid m' = wq_valid m \<and> wq_counter m' = wq_counter m \<and>
    idle m' = idle m \<and> parallelism m' = parallelism m"
  using assms by (auto simp: wa_insert_def data_at_def split: if_splits option.splits)

lemma wq_data_moves:
  assumes "wq_process p = Do c k" and "wq_quiet p r" and "answer_ok c r m n" and "k r m = (m', p')"
    and "finite (dom (wq_heap m))" and "wq_valid m = WORKQ_VALID" and "\<not> q_fault m p"
  shows "finite (dom (wq_heap m'))" (is ?A) and "stored d m' + todo d p' = stored d m + todo d p" (is ?B)
proof -
  have "?A \<and> ?B"
  proof (cases "\<exists>e ds. p = WQ_add e ds WA_malloc")
    case True
    then show ?thesis using assms by (auto simp: stored_def card_data_new)
  next
    case nm: False
    show ?thesis
    proof (cases "\<exists>a v. p = WQ_server (WS_engine a v)")
      case True
      then obtain a v where p: "p = WQ_server (WS_engine a v)" by auto
      then obtain e where e: "wq_heap m a = Some e" using assms(7) by (auto simp: q_fault_def)
      then show ?thesis using assms p card_data_free [OF assms(5) e, of d] by (auto simp: stored_def)
    next
      case False
      have same: "(\<forall>b. wq_heap m' b = None \<longleftrightarrow> wq_heap m b = None) \<and> data_at (wq_heap m') d = data_at (wq_heap m) d \<and>
          engine_calls m' = engine_calls m \<and> todo d p' = todo d p"
        using assms(1-4,6,7) nm False
        by (cases p rule: wq_case)
           (auto simp: ws_after_def ws_body_def ws_while_def wd_while_def Let_def q_fault_def
             dest!: wa_insert_frame split: if_splits option.splits)
      then have "dom (wq_heap m') = dom (wq_heap m)" by (simp add: dom_def)
      then show ?thesis using same assms(5) by (simp add: stored_def)
    qed
  qed
  then show ?A ?B by auto
qed

definition data_inv :: "workq \<Rightarrow> int \<Rightarrow> int \<Rightarrow> wq_pc list \<Rightarrow> bool" where
  "data_inv m N d ps \<longleftrightarrow> wq_valid m = WORKQ_VALID \<and> finite (dom (wq_heap m)) \<and>
     stored d m + tally (todo d) ps = N"

lemma tally_todo_start: "tally (todo d) (map WQ_adder dss) = int (count (mset (concat dss)) d)"
  by (induction dss) auto

lemma wq_reach_data:
  assumes r: "reach wq_quiet wq_process (wq_system n dss) s"
  shows "data_inv (mem s) (int (count (mset (concat dss)) d)) d (pcs s) \<and> wq_safe (mem s) (pcs s)"
  using r
proof (induction rule: reach_invariant)
  case start
  show ?case
    unfolding wq_start using wq_reach_safe [OF reach_start, of n dss]
    by (simp add: data_inv_def stored_def wq_mem_def data_at_def tally_todo_start wq_start)
next
  case (move h m ps t c k r m' p')
  have k: "k r m = (m', p')" using move(6) wq_calls [OF move(3), of r] by simp
  have safe: "wq_safe m ps" using move(1) by simp
  have nc: "\<not> crashed (ps ! t)" using safe move(2) by (simp add: wq_safe_def list_all_length)
  note nf = no_fault [OF safe move(2)]
  from q_shape [OF move(3,5) k nc] nf
  have "wq_safe m' (ps[t := p'])" by (auto intro: wq_safe_move [OF safe move(2)])
  then have safe': "wq_safe m' (ps[t := p'] @ spawned c r)"
    using wq_calls [OF move(3), of r] by (auto intro: wq_safe_spawn)
  have fin: "finite (dom (wq_heap m))" and v: "wq_valid m = WORKQ_VALID"
    using move(1) by (auto simp: data_inv_def)
  note d = wq_data_moves(1) [OF move(3-5) k fin v nf] wq_data_moves(2) [OF move(3-5) k fin v nf, of d]
  have "wq_valid m' = WORKQ_VALID" using wq_number_moves(1) [OF move(3) k] v by simp
  then show ?case using safe' d move(1,2) wq_calls [OF move(3), of r]
    by (auto simp: data_inv_def tally_update)
qed (simp add: data_inv_def)

text \<open>The kinds of the threads do not change.\<close>

fun kind :: "wq_pc \<Rightarrow> nat" where
  "kind (WQ_adder ds) = 0"
| "kind (WQ_add d ds p) = 0"
| "kind (WQ_destroy p) = 1"
| "kind (WQ_server p) = 2"

lemma kind_moves: "wq_process p = Do c k \<Longrightarrow> k r m = (m', p') \<Longrightarrow> kind p' = kind p"
  by (cases p rule: wq_case) (auto simp: wq_defs split: if_splits option.splits)

lemma wq_kinds:
  assumes "reach wq_quiet wq_process (wq_system n dss) s"
  shows "\<exists>w. map kind (pcs s) = replicate (length dss) 0 @ 1 # replicate w 2"
  using assms
proof (induction rule: reach_invariant)
  case start
  show ?case unfolding wq_start by (auto simp: comp_def map_replicate_const intro: exI [of _ 0])
next
  case (move h m ps t c k r m' p')
  have "kind p' = kind (ps ! t)" by (rule kind_moves [OF move(3,6)])
  then have same: "map kind (ps[t := p']) = map kind ps"
    using move(2) by (simp add: map_update list_update_same_conv)
  obtain w where w: "map kind ps = replicate (length dss) 0 @ 1 # replicate w 2" using move(1) by auto
  have "map kind (spawned c r) = [] \<or> map kind (spawned c r) = [2]"
    using wq_calls [OF move(3), of r] by auto
  then show ?case
  proof
    assume "map kind (spawned c r) = [2]"
    then show ?thesis using same w by (auto intro!: exI [of _ "Suc w"] simp: replicate_append_same)
  qed (use same w in auto)
qed

text \<open>While the destroyer has passed its loop and holds the mutex, no worker is left; work in the
  list has a worker, or the thread that added it is about to create one.\<close>

definition served :: "workq \<Rightarrow> wq_pc list \<Rightarrow> bool" where
  "served m ps \<longleftrightarrow> 1 \<le> parallelism m \<and> idle m = 0 \<and>
     (wq_first m \<noteq> None \<longrightarrow> 0 < wq_counter m \<or> list_ex at_create ps) \<and>
     list_all (\<lambda>p. p = WQ_destroy WD_unlock \<longrightarrow> wq_counter m \<le> 0) ps"

lemma ws_keeps_work:
  "ws_after t m = (m', q) \<Longrightarrow> wq_first m' = None \<or> wq_first m \<noteq> None \<and> wq_counter m' = wq_counter m"
  "ws_body t m = (m', q) \<Longrightarrow> wq_first m' = None \<or> wq_first m \<noteq> None \<and> wq_counter m' = wq_counter m"
  "ws_while d m = (m', q) \<Longrightarrow> wq_first m' = None \<or> wq_first m \<noteq> None \<and> wq_counter m' = wq_counter m"
  by (auto simp: wq_defs split: if_splits option.splits)

lemma served_moves:
  assumes "wq_process p = Do c k" and "wq_quiet p r" and "k r m = (m', p')"
    and "1 \<le> parallelism m" and "idle m = 0"
  shows "wq_first m' = None \<or> 0 < wq_counter m' \<or> at_create p' \<or>
      at_create p \<and> wq_counter m' = wq_counter m + 1 \<or>
      \<not> at_create p \<and> wq_first m \<noteq> None \<and> wq_counter m' = wq_counter m" (is ?A)
    and "p' = WQ_destroy WD_unlock \<Longrightarrow> wq_counter m' \<le> 0" (is "_ \<Longrightarrow> ?B")
proof -
  show ?A
    using assms
    by (cases p rule: wq_case)
       (auto simp: wd_while_def Let_def dest!: wa_insert_frame ws_keeps_work
         split: if_splits option.splits prod.splits)
  show ?B if "p' = WQ_destroy WD_unlock"
    using assms(1,3) that
    by (cases p rule: wq_case) (auto simp: wq_defs split: if_splits option.splits)
qed

lemma served_move:
  assumes inv: "served m ps" "wq_counter m = tally live ps" and t: "t < length ps"
    and p: "wq_process (ps ! t) = Do c k" "wq_quiet (ps ! t) r" and k: "k r m = (m', p')"
    and al: "alone wq_process wq_holds ps t p'"
  shows "served m' (ps[t := p'])"
proof -
  have I: "1 \<le> parallelism m" "idle m = 0"
    "wq_first m \<noteq> None \<Longrightarrow> 0 < wq_counter m \<or> list_ex at_create ps"
    "\<And>u. u < length ps \<Longrightarrow> ps ! u = WQ_destroy WD_unlock \<Longrightarrow> wq_counter m \<le> 0"
    using inv(1) by (auto simp: served_def list_all_length)
  note num = wq_number_moves [OF p(1) k] and mv = served_moves [OF p k I(1,2)]
  have c0: "0 \<le> wq_counter m" unfolding inv(2) by (rule tally_nonneg) simp
  have work: "0 < wq_counter m' \<or> list_ex at_create (ps[t := p'])" if "wq_first m' \<noteq> None"
    using mv(1)
  proof (elim disjE conjE)
    assume "at_create p'"
    then show ?thesis using t by (auto simp: list_ex_length intro!: exI [of _ t])
  next
    assume nc: "\<not> at_create (ps ! t)" and f: "wq_first m \<noteq> None" and "wq_counter m' = wq_counter m"
    moreover have "list_ex at_create (ps[t := p'])" if "list_ex at_create ps"
      using that nc t by (metis length_list_update list_ex_length nth_list_update_neq)
    ultimately show ?thesis using I(3) by auto
  qed (use that c0 in auto)
  have "list_all (\<lambda>p. p = WQ_destroy WD_unlock \<longrightarrow> wq_counter m' \<le> 0) (ps[t := p'])"
  proof (rule list_all_update_others [OF t])
    show "p' = WQ_destroy WD_unlock \<longrightarrow> wq_counter m' \<le> 0" using mv(2) by blast
    show "ps ! u = WQ_destroy WD_unlock \<longrightarrow> wq_counter m' \<le> 0" if "u < length ps" "u \<noteq> t" for u
      using num(2) alone_create(2) [OF al _ that] I(4) [OF that(1)] by auto
  qed
  with work num(1) I(1,2) show ?thesis by (auto simp: served_def)
qed

lemma wq_reach_served:
  assumes r: "reach wq_quiet wq_process (wq_system n dss) s" and n: "1 \<le> n"
  shows "served (mem s) (pcs s) \<and> wq_counter (mem s) = tally live (pcs s)"
  using r wq_locked wq_awake
proof (induction rule: wq_q.exclusive_invariant)
  case start
  have "tally live (map WQ_adder dss) = 0" by (simp add: tally_def comp_def sum_list_triv)
  then show ?case using n unfolding wq_start by (simp add: served_def wq_mem_def list_all_iff)
next
  case (move h m ps t c k r m' p')
  have k: "k r m = (m', p')" using move(6) wq_calls [OF move(3), of r] by simp
  have "served m' (ps[t := p'])" using served_move [OF _ _ move(2,3,4) k move(7)] move(1) by blast
  then have "served m' (ps[t := p'] @ spawned c r)"
    using wq_calls [OF move(3), of r] by (auto simp: served_def)
  moreover have "wq_counter m' + live (ps ! t) = wq_counter m + live p' + tally live (spawned c r)"
    using workers.conserve [OF move(3-5) TrueI move(6)] by simp
  ultimately show ?case using move(1,2) by (simp add: tally_update)
qed simp

text \<open>No two threads are at points that hold the mutex, unless they wait.\<close>

lemma wq_apart:
  assumes r: "reach wq_quiet wq_process (wq_system n dss) s" and "t < length (pcs s)" "u < length (pcs s)"
    and "Wq_mutex \<in> wq_holds (pcs s ! t)" "\<not> waiting wq_process Wq_mutex (pcs s ! t)"
    and "Wq_mutex \<in> wq_holds (pcs s ! u)" "\<not> waiting wq_process Wq_mutex (pcs s ! u)"
  shows "t = u"
proof (rule wq_q.mutual_exclusion [OF r wq_locked])
  have "Wq_mutex \<in> holding wq_holds (threads s ! v)"
    if "v < length (pcs s)" "Wq_mutex \<in> wq_holds (pcs s ! v)" "\<not> waiting wq_process Wq_mutex (pcs s ! v)" for v
    using not_waiting_holding [of wq_quiet wq_process "now s" "fst (threads s ! v)" "snd (threads s ! v)" Wq_mutex wq_holds]
      reach_awake [OF r wq_awake] that by (simp add: list_all_length)
  then show "Wq_mutex \<in> holding wq_holds (threads s ! t)" "Wq_mutex \<in> holding wq_holds (threads s ! u)"
    using assms(2-) by auto
qed (use assms(2,3) in simp_all)

lemma dead_owns_nothing: "kind p \<noteq> 0 \<Longrightarrow> live p = 0 \<Longrightarrow> own p = None \<and> todo y p = 0"
  by (cases p rule: wq_case) auto

lemma wq_nothing_left:
  assumes r: "reach wq_quiet wq_process (wq_system n dss) s" and n: "1 \<le> n"
    and d: "pcs s ! length dss = WQ_destroy WD_unlock"
    and a: "\<forall>t < length dss. pcs s ! t = WQ_adder []"
  shows "wq_heap (mem s) x = None" and "tally (todo y) (pcs s) = 0"
proof -
  note served = wq_reach_served [OF r n]
  obtain w where w: "map kind (pcs s) = replicate (length dss) 0 @ 1 # replicate w 2"
    using wq_kinds [OF r] by blast
  have len: "length (pcs s) = length dss + Suc w" using arg_cong [OF w, of length] by simp
  have "list_all (\<lambda>p. p = WQ_destroy WD_unlock \<longrightarrow> wq_counter (mem s) \<le> 0) (pcs s)"
    using conjunct1 [OF served] unfolding served_def by blast
  from list_all_nth [OF this, of "length dss"] have c0: "wq_counter (mem s) \<le> 0" using d len by simp
  have kinds: "kind (pcs s ! t) = (if t < length dss then 0 else if t = length dss then 1 else 2)"
    if "t < length (pcs s)" for t
  proof -
    have "kind (pcs s ! t) = (replicate (length dss) 0 @ 1 # replicate w 2) ! t"
      using that w by (metis nth_map)
    then show ?thesis using that len by (auto simp: nth_append nth_Cons')
  qed
  have dead: "live (pcs s ! t) = 0" if "t < length (pcs s)" for t
    by (rule tally_le_zero [OF live_nonneg _ that]) (use served c0 in simp)
  have "\<not> list_ex at_create (pcs s)"
  proof
    assume "list_ex at_create (pcs s)"
    then obtain t where t: "t < length (pcs s)" "at_create (pcs s ! t)" by (auto simp: list_ex_length)
    then have "t = length dss"
      using wq_apart [OF r t(1), of "length dss"] d len
      by (auto simp: at_create_iff waiting_def wait_call_def split: option.splits)
    with t d show False by (simp add: at_create_iff)
  qed
  then have "wq_first (mem s) = None" using served c0 by (auto simp: served_def)
  moreover obtain xs where xs: "wq_rep (mem s) xs" "q_owned (mem s) xs (pcs s)"
    using wq_reach_data [OF r, of 0] by (auto simp: wq_safe_def)
  ultimately have "xs = []" using wq_rep_empty by blast
  have idle_pc: "own p = None \<and> todo y p = 0" if "p \<in> set (pcs s)" for p
  proof -
    from that obtain t where t: "t < length (pcs s)" "p = pcs s ! t" by (metis in_set_conv_nth)
    show ?thesis
    proof (cases "t < length dss")
      case True
      then show ?thesis using t(2) a by simp
    next
      case False
      then have "kind p \<noteq> 0" using kinds [OF t(1)] t(2) by simp
      then show ?thesis using dead [OF t(1)] t(2) by (intro dead_owns_nothing) simp_all
    qed
  qed
  then have "tally (\<lambda>p. of_bool (own p = Some x)) (pcs s) = tally (\<lambda>_. 0) (pcs s)"
    by (intro tally_cong) auto
  then show "wq_heap (mem s) x = None"
    using xs(2) \<open>xs = []\<close> by (cases "wq_heap (mem s) x") (auto simp: q_owned_def dest: spec [of _ x])
  have "tally (todo y) (pcs s) = tally (\<lambda>_. 0) (pcs s)" using idle_pc by (intro tally_cong) auto
  then show "tally (todo y) (pcs s) = 0" by simp
qed

section \<open>First in, first out\<close>

text \<open>Adding an item and taking one, put together from the pieces of \<open>workq_add\<close> and
  \<open>workq_server\<close>: what happens to the list between the locks.\<close>

definition wq_put :: "nat \<Rightarrow> int \<Rightarrow> workq \<Rightarrow> workq" where
  "wq_put a d m = fst (seq_run (workq_add d) [0, int a, 0] WA_start m)"

definition wq_empty :: "workq \<Rightarrow> bool" where
  "wq_empty m \<longleftrightarrow> wq_first m = None"

definition wq_get :: "workq \<Rightarrow> int \<times> workq" where
  "wq_get m = (let m1 = fst (seq_run workq_server [0, 0, 0] WS_clock m) in (last (engine_calls m1), m1))"

definition wq_room :: "workq \<Rightarrow> nat \<Rightarrow> bool" where
  "wq_room m a \<longleftrightarrow> 0 < a \<and> wq_heap m a = None"

definition wq_content :: "workq \<Rightarrow> int list \<Rightarrow> bool" where
  "wq_content m ds \<longleftrightarrow> wq_valid m = WORKQ_VALID \<and>
     (\<exists>xs. wq_rep m xs \<and> map (\<lambda>a. map_option ele_data (wq_heap m a)) xs = map Some ds)"

lemma wq_content_put:
  assumes c: "wq_content m ds" and a: "wq_room m a"
  shows "wq_content (wq_put a d m) (ds @ [d])"
proof -
  obtain xs where v: "wq_valid m = WORKQ_VALID" and rep: "wq_rep m xs"
    and ds: "map (\<lambda>a. map_option ele_data (wq_heap m a)) xs = map Some ds"
    using c by (auto simp: wq_content_def)
  let ?m = "m\<lparr>wq_heap := (wq_heap m)(a \<mapsto> \<lparr>ele_next = None, ele_data = d\<rparr>)\<rparr>"
  have nx: "a \<notin> set xs" and fr: "0 < a" "wq_heap m a = None"
    using a rep linked_alloc [of ele_next "wq_heap m" "wq_first m" xs a]
    by (auto simp: wq_room_def wq_rep_def)
  have rep': "wq_rep ?m xs" by (rule wq_rep_cong [OF rep]) (use nx in auto)
  have h: "wq_heap ?m a = Some \<lparr>ele_next = None, ele_data = d\<rparr>"
    "ele_next \<lparr>ele_next = None, ele_data = d\<rparr> = None" by simp_all
  obtain m1 where m1: "wa_insert a ?m = Some m1" "wq_rep m1 (xs @ [a])"
    "\<And>b. map_option ele_data (wq_heap m1 b) = map_option ele_data (wq_heap ?m b)"
    by (rule wa_insert_rep [OF rep' nx h]) blast
  have put: "wq_put a d m = m1"
    using v fr m1(1) by (simp add: wq_put_def)
  have "map (\<lambda>b. map_option ele_data (wq_heap ?m b)) xs = map (\<lambda>b. map_option ele_data (wq_heap m b)) xs"
    using nx by (intro map_cong) auto
  then have "map (\<lambda>b. map_option ele_data (wq_heap m1 b)) (xs @ [a]) = map Some (ds @ [d])"
    using ds m1(3) by simp
  moreover have "wq_valid m1 = WORKQ_VALID" using wa_insert_frame [OF m1(1)] v by simp
  ultimately show ?thesis using m1(2) put unfolding wq_content_def by blast
qed

lemma wq_content_get:
  assumes "wq_content m (d # ds)"
  shows "fst (wq_get m) = d \<and> wq_content (snd (wq_get m)) ds"
proof -
  obtain a xs where v: "wq_valid m = WORKQ_VALID" and rep: "wq_rep m (a # xs)"
    and d: "map_option ele_data (wq_heap m a) = Some d"
    and ds: "map (\<lambda>a. map_option ele_data (wq_heap m a)) xs = map Some ds"
    using assms by (auto simp: wq_content_def Cons_eq_map_conv map_eq_Cons_conv)
  have f: "wq_first m = Some a" and nx: "a \<notin> set xs" using rep by (auto simp: wq_rep_def)
  obtain e where e0: "wq_heap m a = Some e"
    "wq_rep (m\<lparr>wq_first := ele_next e, wq_last := (if wq_last m = Some a then None else wq_last m)\<rparr>) xs"
    by (rule ws_take_rep [OF rep f]) blast
  have e: "wq_heap m a = Some e" "ele_data e = d"
    "wq_rep (m\<lparr>wq_first := ele_next e, wq_last := (if wq_last m = Some a then None else wq_last m)\<rparr>) xs"
    using e0 d by simp_all
  let ?m = "m\<lparr>wq_first := ele_next e, wq_last := (if wq_last m = Some a then None else wq_last m),
     engine_calls := engine_calls m @ [d], wq_heap := (wq_heap m)(a := None)\<rparr>"
  have get: "wq_get m = (d, ?m)"
    using f e by (simp add: wq_get_def ws_while_def ws_body_def Let_def)
  have rep': "wq_rep ?m xs" by (rule wq_rep_cong [OF e(3)]) (use nx in auto)
  have "map (\<lambda>b. map_option ele_data (wq_heap ?m b)) xs = map Some ds"
    unfolding ds [symmetric] using nx by (intro map_cong) auto
  then show ?thesis using get rep' v unfolding wq_content_def by auto
qed

interpretation items: fifo wq_content wq_put wq_empty wq_get wq_room
proof unfold_locales
  show "wq_empty m \<longleftrightarrow> ds = []" if "wq_content m ds" for m ds
    using that by (auto simp: wq_content_def wq_empty_def dest: wq_rep_empty)
qed (fact wq_content_put, fact wq_content_get)

section \<open>Properties\<close>

text \<open>C6. The list is first in, first out: in any sequence of additions and removals that starts
  with an empty queue, the items come out in the order they were put in.\<close>
theorem workq_fifo:
  "case serve wq_put wq_empty wq_get wq_room rs (wq_mem n) of
     (ins, outs, m) \<Rightarrow> \<exists>rest. ins = outs @ rest \<and> (wq_empty m \<longleftrightarrow> rest = [])"
proof -
  obtain ins outs m where r: "serve wq_put wq_empty wq_get wq_room rs (wq_mem n) = (ins, outs, m)"
    by (cases "serve wq_put wq_empty wq_get wq_room rs (wq_mem n)") auto
  have "wq_content (wq_mem n) []" by (simp add: wq_content_def wq_mem_def wq_rep_def)
  from items.in_order [OF this r] obtain rest where "wq_content m rest" "ins = outs @ rest" by auto
  then show ?thesis using r items.content_emp by auto
qed

text \<open>C3. When \<open>workq_destroy\<close> goes past its wait, nothing is left undone: if the adders have
  finished and the destroyer is about to release the mutex and destroy it, then every item
  that was added has been passed to the engine, exactly once, and all items are freed. For
  every number of adders, any items, every interleaving, spurious wakeups and timeouts; no call
  fails and at least one worker is allowed.\<close>
theorem workq_destroy_drains:
  assumes "reach wq_quiet wq_process (wq_system n dss) s" and "1 \<le> n"
    and "pcs s ! length dss = WQ_destroy WD_unlock"
    and "\<forall>t < length dss. pcs s ! t = WQ_adder []"
  shows "mset (engine_calls (mem s)) = mset (concat dss) \<and> wq_heap (mem s) = Map.empty"
proof
  have heap: "wq_heap (mem s) = Map.empty" using wq_nothing_left(1) [OF assms] by auto
  then show "wq_heap (mem s) = Map.empty" .
  show "mset (engine_calls (mem s)) = mset (concat dss)"
  proof (rule multiset_eqI)
    fix d
    have "data_at (wq_heap (mem s)) d = {}" by (simp add: heap data_at_def)
    then show "count (mset (engine_calls (mem s))) d = count (mset (concat dss)) d"
      using wq_reach_data [OF assms(1), of d] wq_nothing_left(2) [OF assms, of d]
      by (simp add: data_inv_def stored_def)
  qed
qed

text \<open>C4. The work queue never touches an item that is not allocated: no run dereferences a null
  or freed pointer, unlocks a mutex it does not hold or waits without it, whatever the calls
  return.\<close>
theorem workq_memory_safe:
  assumes "reach wq_env wq_process (wq_system n dss) s"
  shows "ended s \<noteq> Some Undefined"
proof (rule wq_any.no_undefined [OF assms wq_locked])
  fix p assume "p \<in> set (pcs s)"
  then have "\<not> crashed p" using wq_reach_safe [OF assms] by (auto simp: wq_safe_def list_all_iff)
  then show "wq_process p \<noteq> Halt Undefined" by (cases p rule: wq_case) auto
qed

text \<open>C5. No more workers than \<open>parallelism\<close> are ever running, whatever the calls return (no worker is canceled): \<open>wq_counter\<close> is at least
  their number and at most \<open>parallelism\<close>. As long as no call fails it is their number exactly; after a failed lock
  it stays too high.\<close>
theorem workq_parallelism:
  assumes "reach wq_env wq_process (wq_system n dss) s" and "0 \<le> n"
  shows "tally live (pcs s) \<le> wq_counter (mem s) \<and> wq_counter (mem s) \<le> n \<and>
    (reach wq_quiet wq_process (wq_system n dss) s \<longrightarrow> wq_counter (mem s) = tally live (pcs s))"
proof -
  have "tally live (map WQ_adder dss) = 0" by (simp add: tally_def comp_def sum_list_triv)
  then have "wq_counter (mem s) = tally live (pcs s)" if "reach wq_quiet wq_process (wq_system n dss) s"
    using workers.conserved [OF that] by (simp add: wq_start wq_mem_def del: map_map)
  moreover have "wq_counter (mem s) \<le> n"
    using wq_reach_bounded [OF assms] by (simp add: bounded_def)
  ultimately show ?thesis using live_le_counter [OF assms(1)] by blast
qed

theorem workq_destroy_drains_witness:
  "case run wq_quiet wq_process
      [Exec 0 0, Exec 0 0, Exec 0 1, Exec 0 0, Exec 0 0, Exec 0 0, Exec 0 0,
       Exec 2 0, Exec 2 0, Exec 2 0, Exec 2 0, Exec 2 0, Exec 2 0, Exec 2 0,
       Exec 1 0, Exec 1 0, Exec 1 0, Tick, Tick, Timeout 2, Exec 2 110, Exec 2 0, Exec 2 0, Exec 1 0]
      (wq_system 1 [[5]]) of
     Some s \<Rightarrow> pcs s ! 1 = WQ_destroy WD_unlock \<and> mset (engine_calls (mem s)) = {#5#}
   | None \<Rightarrow> False" (is "case ?r of Some s \<Rightarrow> ?P s | None \<Rightarrow> False")
proof -
  have "map_option pcs ?r = Some [WQ_adder [], WQ_destroy WD_unlock, WQ_server WS_return]" by code_simp
  then obtain s where s: "?r = Some s" "pcs s = [WQ_adder [], WQ_destroy WD_unlock, WQ_server WS_return]"
    by auto
  have "mset (engine_calls (mem s)) = mset (concat [[5]]) \<and> wq_heap (mem s) = Map.empty"
    by (rule workq_destroy_drains [OF reach_run [OF s(1)]]) (use s(2) in auto)
  then show ?thesis using s by simp
qed

theorem workq_memory_safe_witness:
  "case run wq_env wq_process
      [Exec 0 0, Exec 0 0, Exec 0 1, Exec 0 0, Exec 0 0, Exec 0 0, Exec 0 0, Exec 2 0, Exec 2 0, Exec 2 0,
       Exec 2 0] (wq_system 1 [[5]]) of
     Some s \<Rightarrow> engine_calls (mem s) = [5] \<and> ended s \<noteq> Some Undefined
   | None \<Rightarrow> False" (is "case ?r of Some s \<Rightarrow> ?P s | None \<Rightarrow> False")
proof -
  have "map_option (\<lambda>s. engine_calls (mem s)) ?r = Some [5]" by code_simp
  then obtain s where s: "?r = Some s" "engine_calls (mem s) = [5]" by auto
  show ?thesis using workq_memory_safe [OF reach_run [OF s(1)]] s by simp
qed

theorem workq_parallelism_witness:
  "case run wq_quiet wq_process
      [Exec 0 0, Exec 0 0, Exec 0 1, Exec 0 0, Exec 0 0, Exec 0 0, Exec 0 0, Exec 0 0, Exec 0 0, Exec 0 2,
       Exec 0 0] (wq_system 1 [[5, 7]]) of
     Some s \<Rightarrow> pcs s = [WQ_add 7 [] WA_unlock, WQ_destroy WD_start, WQ_server WS_start] \<and>
       wq_counter (mem s) \<le> 1 \<and> wq_counter (mem s) = tally live (pcs s)
   | None \<Rightarrow> False" (is "case ?r of Some s \<Rightarrow> ?P s | None \<Rightarrow> False")
proof -
  have "map_option pcs ?r = Some [WQ_add 7 [] WA_unlock, WQ_destroy WD_start, WQ_server WS_start]" by code_simp
  then obtain s where s: "?r = Some s"
    "pcs s = [WQ_add 7 [] WA_unlock, WQ_destroy WD_start, WQ_server WS_start]" by auto
  have q: "reach wq_quiet wq_process (wq_system 1 [[5, 7]]) s" by (rule reach_run [OF s(1)])
  have "wq_counter (mem s) \<le> 1 \<and> wq_counter (mem s) = tally live (pcs s)"
    using workq_parallelism [OF wq_quiet_reach [OF q]] q by auto
  then show ?thesis using s by simp
qed

text \<open>\<open>idle\<close> is never changed: it is 0 for ever, so \<open>workq_add\<close> never signals a waiting worker
  and \<open>workq_destroy\<close> never broadcasts to the workers.\<close>
theorem workq_never_signals:
  assumes "reach wq_env wq_process (wq_system n dss) s" and "t < length (pcs s)"
  shows "idle (mem s) = 0 \<and> pcs s ! t \<noteq> WQ_add d ds WA_signal \<and> pcs s ! t \<noteq> WQ_destroy WD_broadcast"
proof -
  let ?Q = "\<lambda>p. (\<forall>d ds. p \<noteq> WQ_add d ds WA_signal) \<and> p \<noteq> WQ_destroy WD_broadcast"
  have "idle (mem s) = 0 \<and> list_all ?Q (pcs s)"
    using assms(1)
  proof (induction rule: reach_invariant)
    case start
    show ?case unfolding wq_start by (auto simp: wq_mem_def list_all_iff)
  next
    case (move h m ps t c k r m' p')
    have k: "k r m = (m', p')" using move(6) wq_calls [OF move(3), of r] by simp
    have i: "idle m' = 0" using wq_number_moves(1) [OF move(3) k] move(1) by simp
    have "?Q p'" if "wq_process p = Do c k" "idle m = 0" for p
      using that k by (cases p rule: wq_case)
        (auto simp: wd_while_def Let_def dest!: wa_insert_frame split: if_splits option.splits prod.splits)
    then have "list_all ?Q (ps[t := p'])" using move(1,3) by (intro list_all_update) auto
    then show ?case using i wq_calls [OF move(3), of r] by auto
  qed
  then show ?thesis using assms(2) by (auto simp: list_all_length)
qed

theorem workq_never_signals_witness:
  "case run wq_env wq_process [Exec 0 0, Exec 0 0, Exec 0 1, Exec 0 0] (wq_system 1 [[5]]) of
     Some s \<Rightarrow> pcs s ! 0 = WQ_add 5 [] WA_create \<and> idle (mem s) = 0
   | None \<Rightarrow> False" (is "case ?r of Some s \<Rightarrow> ?P s | None \<Rightarrow> False")
proof -
  have "map_option (\<lambda>s. (pcs s ! 0, length (pcs s))) ?r = Some (WQ_add 5 [] WA_create, 2)" by code_simp
  then obtain s where s: "?r = Some s" "pcs s ! 0 = WQ_add 5 [] WA_create" "length (pcs s) = 2" by auto
  have "idle (mem s) = 0" by (rule workq_never_signals [OF reach_run [OF s(1)], of 0 0 "[]", THEN conjunct1]) (use s(3) in auto)
  then show ?thesis using s by simp
qed

text \<open>As a consequence work can lie in the list while a worker sleeps and nobody wakes it: there is
  a run without any failure to a state in which an item waits, the only worker sleeps, and no
  thread can move before the two seconds of the worker's wait are over.\<close>
theorem workq_work_sleeps:
  "\<exists>s. reach wq_quiet wq_process (wq_system 1 [[5, 7]]) s \<and> stuck wq_quiet wq_process s \<and>
     wq_first (mem s) = Some 2 \<and> engine_calls (mem s) = [5] \<and> now s = 0 \<and>
     threads s = [(WQ_adder [], Ready), (WQ_destroy WD_wait, Asleep Wq_cv Wq_mutex None),
       (WQ_server (WS_wait 2), Asleep Wq_cv Wq_mutex (Some 2))]"
proof -
  have "map_option (\<lambda>s. (wq_first (mem s), engine_calls (mem s), now s, threads s)) (run wq_quiet wq_process
     [Exec 0 0, Exec 0 0, Exec 0 1, Exec 0 0, Exec 0 0, Exec 0 0, Exec 0 0,
      Exec 2 0, Exec 2 0, Exec 2 0, Exec 2 0, Exec 2 0, Exec 2 0, Exec 2 0,
      Exec 0 0, Exec 0 0, Exec 0 2, Exec 0 0, Exec 0 0, Exec 0 0,
      Exec 1 0, Exec 1 0, Exec 1 0] (wq_system 1 [[5, 7]])) =
    Some (Some 2, [5], 0, [(WQ_adder [], Ready), (WQ_destroy WD_wait, Asleep Wq_cv Wq_mutex None),
       (WQ_server (WS_wait 2), Asleep Wq_cv Wq_mutex (Some 2))])" by code_simp
  from reach_exists [OF this] obtain s where s: "reach wq_quiet wq_process (wq_system 1 [[5, 7]]) s"
    "wq_first (mem s) = Some 2" "engine_calls (mem s) = [5]" "now s = 0"
    "threads s = [(WQ_adder [], Ready), (WQ_destroy WD_wait, Asleep Wq_cv Wq_mutex None),
       (WQ_server (WS_wait 2), Asleep Wq_cv Wq_mutex (Some 2))]" by auto
  have "stuck wq_quiet wq_process s" by (rule stopped_stuck) (simp add: s(5))
  with s show ?thesis by blast
qed

text \<open>A worker whose first lock fails returns without giving its place back: \<open>wq_counter\<close> stays
  too high and a \<open>workq_destroy\<close> that waits for the workers sleeps for ever.\<close>
theorem workq_lost_worker:
  "\<exists>s. reach wq_env wq_process (wq_system 1 [[5]]) s \<and> stuck wq_env wq_process s \<and>
     wq_counter (mem s) = 1 \<and> tally live (pcs s) = 0 \<and>
     threads s ! 1 = (WQ_destroy WD_wait, Asleep Wq_cv Wq_mutex None)"
proof -
  have "map_option (\<lambda>s. (wq_counter (mem s), threads s)) (run wq_env wq_process
     [Exec 0 0, Exec 0 0, Exec 0 1, Exec 0 0, Exec 0 0, Exec 0 0, Exec 0 0,
      Exec 2 22, Exec 1 0, Exec 1 0, Exec 1 0] (wq_system 1 [[5]])) =
    Some (1, [(WQ_adder [], Ready), (WQ_destroy WD_wait, Asleep Wq_cv Wq_mutex None),
       (WQ_server WS_return, Ready)])" by code_simp
  from reach_exists [OF this] obtain s where s: "reach wq_env wq_process (wq_system 1 [[5]]) s"
    "wq_counter (mem s) = 1"
    "threads s = [(WQ_adder [], Ready), (WQ_destroy WD_wait, Asleep Wq_cv Wq_mutex None),
       (WQ_server WS_return, Ready)]" by auto
  have "stuck wq_env wq_process s" by (rule stopped_stuck) (simp add: s(3))
  with s show ?thesis by (intro exI [of _ s]) simp
qed

text \<open>\<open>workq_destroy\<close> does not invalidate the queue: a destroyed queue still passes the check of
  \<open>workq_add\<close>, which goes on to lock the destroyed mutex.\<close>
theorem workq_destroy_stays_valid:
  "wq_valid (fst (seq_run workq_destroy rs WD_start m)) = wq_valid m"
proof -
  have "wq_valid (fst (seq_run workq_destroy rs p m)) = wq_valid m" for p
  proof (induction rs arbitrary: p m)
    case (Cons r rs)
    have "wq_valid (fst (k r m)) = wq_valid m" if "workq_destroy p = Do c k" for c k
      using that by (cases p) (auto simp: wd_while_def Let_def)
    with Cons.IH show ?case by (auto split: act.splits prod.splits)
  qed simp
  then show ?thesis .
qed

end
