(* ===== verification/Alarm.thy ===== *)
theory Alarm
  imports Calls Queue
begin

text \<open>
  The alarm program of \<^verbatim>\<open>chap3-sync/alarm_cond.cc\<close>: the main thread reads requests and puts
  them into a list sorted by time, the alarm thread takes the first one, waits until it is due
  (or an earlier one arrives, which sends it back to the list) and prints it. The points \<open>abort\<close> and \<open>crash\<close> say whether the thread
  has the mutex there, \<open>AT_failed\<close> and \<open>AM_failed\<close> are an abort with an
  alarm in hand.
\<close>

section \<open>The data\<close>

datatype al_mutex = Alarm_mutex
datatype al_cond = Alarm_cond

record alarm =
  link :: "nat option"
  seconds :: int
  al_time :: int
  message :: string

text \<open>What \<^verbatim>\<open>fgets\<close> and \<^verbatim>\<open>sscanf\<close> make of an input line: at most one character, no number and
  text, or a number and a text.\<close>

datatype input = Blank | Bad | Request int string

text \<open>\<open>printed\<close> are the alarms that have been printed, \<open>stdin\<close> the lines to come.\<close>

record alarms =
  al_heap :: "nat \<Rightarrow> alarm option"
  alarm_list :: "nat option"
  current_alarm :: int
  printed :: "alarm list"
  stdin :: "input list"

section \<open>Insertion\<close>

text \<open>\<open>lp\<close> is \<^verbatim>\<open>&alarm_list\<close> (\<open>None\<close>) or the address of the link of a cell.\<close>

definition al_store :: "nat option \<Rightarrow> nat \<Rightarrow> alarms \<Rightarrow> alarms option" where
  "al_store lp a m =
     (case lp of
        None \<Rightarrow> Some (m\<lparr>alarm_list := Some a\<rparr>)
      | Some l \<Rightarrow>
          (case al_heap m l of
             None \<Rightarrow> None
           | Some c \<Rightarrow> Some (m\<lparr>al_heap := (al_heap m)(l \<mapsto> c\<lparr>link := Some a\<rparr>)\<rparr>)))"

definition al_link :: "nat \<Rightarrow> nat option \<Rightarrow> alarms \<Rightarrow> alarms option" where
  "al_link a next m =
     (case al_heap m a of
        None \<Rightarrow> None
      | Some c \<Rightarrow> Some (m\<lparr>al_heap := (al_heap m)(a \<mapsto> c\<lparr>link := next\<rparr>)\<rparr>))"

text \<open>The loop; \<open>None\<close> is the use of a cell that is not allocated (or a list without end).\<close>

partial_function (option) alarm_walk ::
  "alarms \<Rightarrow> nat option \<Rightarrow> nat option \<Rightarrow> nat \<Rightarrow> int \<Rightarrow> alarms option" where
  "alarm_walk m lp next a t =
     (case next of
        None \<Rightarrow> Option.bind (al_store lp a m) (al_link a None)
      | Some n \<Rightarrow>
          (case al_heap m n of
             None \<Rightarrow> None
           | Some c \<Rightarrow>
               (if al_time c \<ge> t then Option.bind (al_link a next m) (al_store lp a)
                else alarm_walk m (Some n) (link c) a t)))"

declare alarm_walk.simps [code]

datatype ai_pc = AI_start | AI_signal | AI_return | AI_abort | AI_crash

text \<open>The debug output, which reads the list and the clock, is left out.\<close>

fun alarm_insert :: "nat \<Rightarrow> ai_pc \<Rightarrow> (al_mutex, al_cond, alarms, ai_pc) act" where
  "alarm_insert a AI_start =
     Do Tau (\<lambda>_ m.
       case al_heap m a of
         None \<Rightarrow> (m, AI_crash)
       | Some c \<Rightarrow>
           (case alarm_walk m None (alarm_list m) a (al_time c) of
              None \<Rightarrow> (m, AI_crash)
            | Some m1 \<Rightarrow>
                if current_alarm m1 = 0 \<or> al_time c < current_alarm m1
                then (case Option.bind (alarm_list m1) (al_heap m1) of
                        None \<Rightarrow> (m1, AI_crash)
                      | Some f \<Rightarrow> (m1\<lparr>current_alarm := al_time f\<rparr>, AI_signal))
                else (m1, AI_return)))"
| "alarm_insert a AI_signal =
     Do (Signal Alarm_cond) (\<lambda>status m. (m, if status \<noteq> 0 then AI_abort else AI_return))"
| "alarm_insert a AI_return = Return 0"
| "alarm_insert a AI_abort = Halt Aborted"
| "alarm_insert a AI_crash = Halt Undefined"

section \<open>The alarm thread\<close>

datatype at_pc =
    AT_lock | AT_wait | AT_time nat | AT_timedwait nat int | AT_insert nat ai_pc | AT_abort bool | AT_failed nat | AT_crash

text \<open>Taking the first alarm of the list, when there is one.\<close>

definition at_while :: "alarms \<Rightarrow> alarms \<times> at_pc" where
  "at_while m =
     (case alarm_list m of
        None \<Rightarrow> (m, AT_wait)
      | Some a \<Rightarrow>
          (case al_heap m a of
             None \<Rightarrow> (m, AT_crash)
           | Some c \<Rightarrow> (m\<lparr>alarm_list := link c\<rparr>, AT_time a)))"

definition at_loop :: "alarms \<Rightarrow> alarms \<times> at_pc" where
  "at_loop m = at_while (m\<lparr>current_alarm := 0\<rparr>)"

text \<open>The alarm has expired: print it, free it, and around again.\<close>

definition at_expired :: "nat \<Rightarrow> alarms \<Rightarrow> alarms \<times> at_pc" where
  "at_expired a m =
     (case al_heap m a of
        None \<Rightarrow> (m, AT_crash)
      | Some c \<Rightarrow> at_loop (m\<lparr>printed := printed m @ [c], al_heap := (al_heap m)(a := None)\<rparr>))"

fun alarm_thread :: "at_pc \<Rightarrow> (al_mutex, al_cond, alarms, at_pc) act" where
  "alarm_thread AT_lock =
     Do (Lock Alarm_mutex) (\<lambda>status m. if status \<noteq> 0 then (m, AT_abort False) else at_loop m)"
| "alarm_thread AT_wait =
     Do (Wait Alarm_cond Alarm_mutex) (\<lambda>status m.
       if status \<noteq> 0 then (m, AT_abort True) else at_while m)"
| "alarm_thread (AT_time a) =
     Do Clock (\<lambda>t m.
       case al_heap m a of
         None \<Rightarrow> (m, AT_crash)
       | Some c \<Rightarrow>
           if al_time c > t then (m\<lparr>current_alarm := al_time c\<rparr>, AT_timedwait a (al_time c))
           else at_expired a m)"
| "alarm_thread (AT_timedwait a cond_time) =
     Do (Timedwait Alarm_cond Alarm_mutex cond_time) (\<lambda>status m.
       if status = ETIMEDOUT then at_expired a m
       else if status \<noteq> 0 then (m, AT_failed a)
       else case al_heap m a of
         None \<Rightarrow> (m, AT_crash)
       | Some c \<Rightarrow>
           (m, if current_alarm m = al_time c then AT_timedwait a cond_time else AT_insert a AI_start))"
| "alarm_thread (AT_insert a p) = call_here (AT_insert a) (\<lambda>_. at_loop) (alarm_insert a p)"
| "alarm_thread (AT_abort locked) = Halt Aborted"
| "alarm_thread (AT_failed a) = Halt Aborted"
| "alarm_thread AT_crash = Halt Undefined"

section \<open>The main thread\<close>

datatype am_pc =
    AM_create | AM_read | AM_malloc input | AM_lock nat | AM_time nat | AM_insert nat ai_pc
  | AM_unlock | AM_exit | AM_abort | AM_failed nat | AM_crash bool | AM_thread

text \<open>\<^verbatim>\<open>%64[^\n]\<close> stores up to 64 characters and a terminating null in \<^verbatim>\<open>message[64]\<close>.\<close>

fun alarm_main :: "am_pc \<Rightarrow> (al_mutex, al_cond, alarms, am_pc) act" where
  "alarm_main AM_create =
     Do (Create (\<lambda>_ m. m) AM_thread) (\<lambda>status m. (m, if status \<noteq> 0 then AM_abort else AM_read))"
| "alarm_main AM_read =
     Do Tau (\<lambda>_ m.
       case stdin m of
         [] \<Rightarrow> (m, AM_exit)
       | l # ls \<Rightarrow> (m\<lparr>stdin := ls\<rparr>, if l = Blank then AM_read else AM_malloc l))"
| "alarm_main (AM_malloc l) =
     Do (Env (\<lambda>r m. r = 0 \<or> 0 < r \<and> al_heap m (nat r) = None)) (\<lambda>r m.
       if r = 0 then (m, AM_abort)
       else case l of
         Request s msg \<Rightarrow>
           if length msg \<ge> 64 then (m, AM_crash False)
           else (m\<lparr>al_heap := (al_heap m)(nat r \<mapsto>
                    \<lparr>link = None, seconds = s, al_time = 0, message = msg\<rparr>)\<rparr>, AM_lock (nat r))
       | _ \<Rightarrow> (m, AM_read))"
| "alarm_main (AM_lock a) =
     Do (Lock Alarm_mutex) (\<lambda>status m. (m, if status \<noteq> 0 then AM_failed a else AM_time a))"
| "alarm_main (AM_time a) =
     Do Clock (\<lambda>t m.
       case al_heap m a of
         None \<Rightarrow> (m, AM_crash True)
       | Some c \<Rightarrow>
           (m\<lparr>al_heap := (al_heap m)(a \<mapsto> c\<lparr>al_time := t + seconds c\<rparr>)\<rparr>, AM_insert a AI_start))"
| "alarm_main (AM_insert a p) =
     call_here (AM_insert a) (\<lambda>_ m. (m, AM_unlock)) (alarm_insert a p)"
| "alarm_main AM_unlock =
     Do (Unlock Alarm_mutex) (\<lambda>status m. (m, if status \<noteq> 0 then AM_abort else AM_read))"
| "alarm_main AM_exit = Halt (Exited 0)"
| "alarm_main AM_abort = Halt Aborted"
| "alarm_main (AM_failed a) = Halt Aborted"
| "alarm_main (AM_crash locked) = Halt Undefined"
| "alarm_main AM_thread = Halt Undefined"

datatype al_pc = AL_main am_pc | AL_thread at_pc

fun al_process :: "al_pc \<Rightarrow> (al_mutex, al_cond, alarms, al_pc) act" where
  "al_process (AL_main p) =
     call_new AL_main (AL_thread AT_lock) (\<lambda>_ m. (m, AL_main AM_exit)) (alarm_main p)"
| "al_process (AL_thread p) = thread_fun AL_thread (alarm_thread p)"

definition al_mem :: "input list \<Rightarrow> alarms" where
  "al_mem ls = \<lparr>al_heap = (\<lambda>_. None), alarm_list = None, current_alarm = 0, printed = [], stdin = ls\<rparr>"

definition al_system :: "input list \<Rightarrow> (al_mutex, al_cond, alarms, al_pc) sys" where
  "al_system ls = boot (al_mem ls) [AL_main AM_create]"

fun al_holds :: "al_pc \<Rightarrow> al_mutex set" where
  "al_holds (AL_main (AM_time a)) = {Alarm_mutex}"
| "al_holds (AL_main (AM_insert a AI_start)) = {Alarm_mutex}"
| "al_holds (AL_main (AM_insert a p)) = {Alarm_mutex}"
| "al_holds (AL_main AM_unlock) = {Alarm_mutex}"
| "al_holds (AL_main (AM_crash b)) = (if b then {Alarm_mutex} else {})"
| "al_holds (AL_main p) = {}"
| "al_holds (AL_thread AT_lock) = {}"
| "al_holds (AL_thread (AT_abort b)) = (if b then {Alarm_mutex} else {})"
| "al_holds (AL_thread (AT_insert a AI_start)) = {Alarm_mutex}"
| "al_holds (AL_thread p) = {Alarm_mutex}"

lemmas al_case = al_holds.cases
lemmas al_defs = at_while_def at_loop_def at_expired_def

section \<open>Insertion keeps the list sorted\<close>

definition al_rep :: "alarms \<Rightarrow> nat list \<Rightarrow> bool" where
  "al_rep m xs \<longleftrightarrow> linked link (al_heap m) (alarm_list m) xs \<and> distinct xs"

text \<open>When an alarm is due; the cells it is applied to are allocated.\<close>

definition due :: "alarms \<Rightarrow> nat \<Rightarrow> int" where
  "due m a = (case al_heap m a of None \<Rightarrow> 0 | Some c \<Rightarrow> al_time c)"

definition place :: "(nat \<Rightarrow> int) \<Rightarrow> nat \<Rightarrow> nat list \<Rightarrow> nat list" where
  "place d a xs = takeWhile (\<lambda>b. d b < d a) xs @ a # dropWhile (\<lambda>b. d b < d a) xs"

lemma set_place [simp]: "set (place d a xs) = insert a (set xs)"
  unfolding place_def by (metis Un_insert_right list.simps(15) set_append takeWhile_dropWhile_id)

lemma place_Cons: "place d a (x # xs) = (if d x < d a then x # place d a xs else a # x # xs)"
  by (simp add: place_def)

lemma sorted_place: "sorted (map d xs) \<Longrightarrow> sorted (map d (place d a xs))"
proof (induction xs)
  case (Cons x xs)
  then show ?case by (auto simp: place_Cons)
qed (simp add: place_def)

lemma count_list_place: "count_list (place d a xs) b = count_list xs b + (if b = a then 1 else 0)"
  by (induction xs) (auto simp: place_Cons, auto simp: place_def)

lemma distinct_place: "distinct xs \<Longrightarrow> a \<notin> set xs \<Longrightarrow> distinct (place d a xs)"
  by (induction xs) (auto simp: place_Cons, simp add: place_def)

lemma place_append:
  assumes "\<forall>b \<in> set pre. d b < d a"
  shows "place d a (pre @ rest) = pre @ place d a rest"
  using assms by (induction pre) (auto simp: place_Cons)

text \<open>What the walk leaves as it was: everything but the links.\<close>

definition relinked :: "alarms \<Rightarrow> alarms \<Rightarrow> bool" where
  "relinked m m' \<longleftrightarrow> current_alarm m' = current_alarm m \<and> printed m' = printed m \<and> stdin m' = stdin m \<and>
     (\<forall>b. map_option (\<lambda>c. c\<lparr>link := None\<rparr>) (al_heap m' b) = map_option (\<lambda>c. c\<lparr>link := None\<rparr>) (al_heap m b))"

lemma al_link_store:
  assumes "lp \<noteq> Some a" and "al_heap m a = Some c"
  shows "Option.bind (al_link a n m) (al_store lp a) = Option.bind (al_store lp a m) (al_link a n)"
  using assms by (auto simp: al_link_def al_store_def fun_upd_twist split: option.splits)

lemma al_splice:
  assumes l: "linked link (al_heap m) (alarm_list m) (pre @ rest)" and d: "distinct (pre @ rest)"
    and a: "a \<notin> set (pre @ rest)" "al_heap m a = Some ca"
  obtains m' where "Option.bind (al_store (if pre = [] then None else Some (last pre)) a m) (al_link a (front rest)) = Some m'"
    "linked link (al_heap m') (alarm_list m') (pre @ a # rest)" "relinked m m'"
    "\<And>b. b \<notin> set (a # pre) \<Longrightarrow> al_heap m' b = al_heap m b"
proof (cases "pre = []")
  case True
  let ?m = "m\<lparr>alarm_list := Some a, al_heap := (al_heap m)(a \<mapsto> ca\<lparr>link := front rest\<rparr>)\<rparr>"
  have "linked link (al_heap ?m) (if pre = [] then Some a else alarm_list m) (pre @ a # rest)"
    by (rule linked_insert [OF l d a(1)]) (use a True in auto)
  then show ?thesis using True a(2)
    by (intro that [of ?m]) (auto simp: al_store_def al_link_def relinked_def)
next
  case False
  have "al_heap m (last pre) \<noteq> None" by (rule linked_alloc [OF l]) (use False in simp)
  then obtain cl where cl: "al_heap m (last pre) = Some cl" by auto
  have ne: "last pre \<noteq> a" using a(1) False by auto
  let ?m = "m\<lparr>al_heap := (al_heap m)(last pre \<mapsto> cl\<lparr>link := Some a\<rparr>, a \<mapsto> ca\<lparr>link := front rest\<rparr>)\<rparr>"
  have "linked link (al_heap ?m) (if pre = [] then Some a else alarm_list m) (pre @ a # rest)"
    by (rule linked_insert [OF l d a(1)]) (use a False ne in auto)
  then show ?thesis using False a(2) cl ne
    by (intro that [of ?m]) (auto simp: al_store_def al_link_def relinked_def)
qed

lemma alarm_walk_place:
  assumes "linked link (al_heap m) (alarm_list m) (pre @ rest)" and "distinct (pre @ rest)"
    and "a \<notin> set (pre @ rest)" and "al_heap m a = Some ca" and "\<forall>b \<in> set pre. due m b < due m a"
  shows "\<exists>m'. alarm_walk m (if pre = [] then None else Some (last pre)) (front rest) a (al_time ca) = Some m' \<and>
    linked link (al_heap m') (alarm_list m') (place (due m) a (pre @ rest)) \<and> relinked m m' \<and>
    (\<forall>b. b \<notin> set (a # pre @ rest) \<longrightarrow> al_heap m' b = al_heap m b)"
  using assms
proof (induction rest arbitrary: pre)
  case Nil
  obtain m' where m': "Option.bind (al_store (if pre = [] then None else Some (last pre)) a m) (al_link a (front [])) = Some m'"
    "linked link (al_heap m') (alarm_list m') (pre @ [a])" "relinked m m'"
    "\<And>b. b \<notin> set (a # pre) \<Longrightarrow> al_heap m' b = al_heap m b"
    by (rule al_splice [OF Nil.prems(1-4)]) blast
  have "place (due m) a pre = pre @ [a]" using place_append [OF Nil.prems(5), of "[]"] by (simp add: place_def)
  with m' show ?case by (simp add: alarm_walk.simps)
next
  case (Cons n rest)
  obtain c where c: "al_heap m n = Some c" "linked link (al_heap m) (link c) rest"
    using linked_middle [OF Cons.prems(1)] by blast
  show ?case
  proof (cases "al_time c \<ge> al_time ca")
    case True
    then have pl: "place (due m) a (pre @ n # rest) = pre @ a # n # rest"
      using c(1) Cons.prems(4) by (simp add: place_append [OF Cons.prems(5)] place_Cons due_def)
    obtain m' where m': "Option.bind (al_store (if pre = [] then None else Some (last pre)) a m) (al_link a (front (n # rest))) = Some m'"
      "linked link (al_heap m') (alarm_list m') (pre @ a # n # rest)" "relinked m m'"
      "\<And>b. b \<notin> set (a # pre) \<Longrightarrow> al_heap m' b = al_heap m b"
      by (rule al_splice [OF Cons.prems(1-4)]) blast
    have "(if pre = [] then None else Some (last pre)) \<noteq> Some a" using Cons.prems(3) by auto
    from al_link_store [OF this Cons.prems(4)] m' pl True c(1) show ?thesis
      by (simp add: alarm_walk.simps [of m _ "Some n"])
  next
    case False
    then have lt: "\<forall>b \<in> set (pre @ [n]). due m b < due m a"
      using Cons.prems(4,5) c(1) by (auto simp: due_def)
    have "link c = front rest" by (rule linked_front [OF c(2)])
    then show ?thesis
      using Cons.IH [of "pre @ [n]"] Cons.prems lt c(1) False
      by (simp add: alarm_walk.simps [of m _ "Some n"])
  qed
qed

section \<open>Who has which alarm\<close>

text \<open>
  \<open>al_safe m x g\<close>: the list is sorted, and every allocated alarm is in the list once, or in the
  hands of the acting thread (\<open>x\<close>), or of one of the others (\<open>g\<close> counts them).
\<close>

definition al_safe :: "alarms \<Rightarrow> nat option \<Rightarrow> (nat \<Rightarrow> int) \<Rightarrow> bool" where
  "al_safe m x g \<longleftrightarrow> (\<forall>a. 0 \<le> g a) \<and> (\<exists>xs. al_rep m xs \<and> sorted (map (due m) xs) \<and>
     (\<forall>a. of_bool (al_heap m a \<noteq> None) = int (count_list xs a) + of_bool (x = Some a) + g a))"

definition kept :: "(nat \<Rightarrow> int) \<Rightarrow> alarms \<Rightarrow> alarms \<Rightarrow> bool" where
  "kept g m m' \<longleftrightarrow> (\<forall>a. 0 < g a \<longrightarrow> al_heap m' a = al_heap m a)"

lemma kept_refl [simp]: "kept g m m" by (simp add: kept_def)

lemma kept_trans: "kept g m m1 \<Longrightarrow> kept g m1 m2 \<Longrightarrow> kept g m m2" by (simp add: kept_def)

lemma al_safe_count:
  assumes "\<forall>a. 0 \<le> g a"
    and "of_bool (al_heap m a \<noteq> None) = int (count_list xs a) + of_bool (x = Some a) + g a"
  shows "a \<in> set xs \<Longrightarrow> x \<noteq> Some a \<and> g a = 0 \<and> al_heap m a \<noteq> None"
    and "x = Some a \<Longrightarrow> a \<notin> set xs \<and> g a = 0 \<and> al_heap m a \<noteq> None"
    and "0 < g a \<Longrightarrow> a \<notin> set xs \<and> x \<noteq> Some a \<and> al_heap m a \<noteq> None"
proof -
  have c: "a \<in> set xs \<Longrightarrow> 1 \<le> int (count_list xs a)" using count_list_0_iff [of xs a] by linarith
  have g: "0 \<le> g a" using assms(1) by simp
  have b: "int (count_list xs a) + of_bool (x = Some a) + g a \<le> 1" unfolding assms(2) [symmetric] by simp
  show "a \<in> set xs \<Longrightarrow> x \<noteq> Some a \<and> g a = 0 \<and> al_heap m a \<noteq> None"
    using c g b assms(2) by (cases "x = Some a"; cases "al_heap m a") auto
  show "x = Some a \<Longrightarrow> a \<notin> set xs \<and> g a = 0 \<and> al_heap m a \<noteq> None"
    using c g b assms(2) by (cases "al_heap m a"; cases "a \<in> set xs") auto
  show "0 < g a \<Longrightarrow> a \<notin> set xs \<and> x \<noteq> Some a \<and> al_heap m a \<noteq> None"
    using c g b assms(2) by (cases "x = Some a"; cases "al_heap m a"; cases "a \<in> set xs") auto
qed

lemma al_safe_alloc: "al_safe m (Some a) g \<Longrightarrow> \<exists>c. al_heap m a = Some c"
  using al_safe_count(2) unfolding al_safe_def by blast

lemma due_cong: "al_heap m' = al_heap m \<Longrightarrow> due m' = due m"
  by (simp add: due_def fun_eq_iff)

lemma al_safe_cong:
  "al_safe m x g \<Longrightarrow> al_heap m' = al_heap m \<Longrightarrow> alarm_list m' = alarm_list m \<Longrightarrow> al_safe m' x g"
  using due_cong [of m' m] by (simp add: al_safe_def al_rep_def)

text \<open>A list that does not contain the cells that change.\<close>

lemma al_rep_frame:
  assumes "al_rep m xs" and "\<forall>b \<in> set xs. al_heap m' b = al_heap m b" and "alarm_list m' = alarm_list m"
  shows "al_rep m' xs" and "map (due m') xs = map (due m) xs"
  using assms linked_cong [of xs "al_heap m'" "al_heap m"] by (auto simp: al_rep_def due_def)

lemma al_safe_heap:
  assumes safe: "al_safe m x g" and al: "alarm_list m' = alarm_list m"
    and change: "\<And>b. al_heap m' b \<noteq> al_heap m b \<Longrightarrow> x = Some b \<or> al_heap m b = None"
    and count: "\<And>b. of_bool (al_heap m' b \<noteq> None) - of_bool (al_heap m b \<noteq> None) =
       (of_bool (x' = Some b) - of_bool (x = Some b) :: int)"
  shows "al_safe m' x' g \<and> kept g m m'"
proof -
  obtain xs where xs: "al_rep m xs" "sorted (map (due m) xs)" and g: "\<forall>a. 0 \<le> g a"
    and o: "\<And>a. of_bool (al_heap m a \<noteq> None) = int (count_list xs a) + of_bool (x = Some a) + g a"
    using safe by (auto simp: al_safe_def)
  have same: "\<forall>b \<in> set xs. al_heap m' b = al_heap m b"
    using al_safe_count(1) [OF g o] change by blast
  have "kept g m m'" unfolding kept_def using al_safe_count(3) [OF g o] change by blast
  moreover have "of_bool (al_heap m' a \<noteq> None) = int (count_list xs a) + of_bool (x' = Some a) + g a" for a
    using o [of a] count [of a] by linarith
  ultimately show ?thesis
    using al_rep_frame [OF xs(1) same al] xs(2) g unfolding al_safe_def by metis
qed

lemma al_safe_pop:
  assumes safe: "al_safe m None g" and a: "alarm_list m = Some a"
  obtains c where "al_heap m a = Some c" "al_safe (m\<lparr>alarm_list := link c\<rparr>) (Some a) g"
proof -
  obtain xs where xs: "al_rep m xs" "sorted (map (due m) xs)" and g: "\<forall>a. 0 \<le> g a"
    and o: "\<And>a. of_bool (al_heap m a \<noteq> None) = int (count_list xs a) + of_bool (None = Some a) + g a"
    using safe by (auto simp: al_safe_def)
  obtain ys where ys: "xs = a # ys" using xs(1) a by (cases xs) (auto simp: al_rep_def)
  then have "linked link (al_heap m) (alarm_list m) (a # ys)" using xs(1) by (simp add: al_rep_def)
  from linked_front_cell [OF this] obtain c where c: "al_heap m a = Some c" "linked link (al_heap m) (link c) ys"
    by blast
  have "due (m\<lparr>alarm_list := link c\<rparr>) = due m" by (rule due_cong) simp
  then have "al_safe (m\<lparr>alarm_list := link c\<rparr>) (Some a) g"
    using xs c(2) g o unfolding al_safe_def ys
    by (intro conjI exI [of _ ys]) (auto simp: al_rep_def ys)
  with c(1) show ?thesis by (rule that)
qed

lemma al_safe_insert:
  assumes safe: "al_safe m (Some a) g" and a: "al_heap m a = Some c"
  obtains m' f where "alarm_walk m None (alarm_list m) a (al_time c) = Some m'" "al_safe m' None g"
    "kept g m m'" "relinked m m'" "Option.bind (alarm_list m') (al_heap m') = Some f"
proof -
  obtain xs where xs: "al_rep m xs" "sorted (map (due m) xs)" and g: "\<forall>a. 0 \<le> g a"
    and o: "\<And>b. of_bool (al_heap m b \<noteq> None) = int (count_list xs b) + of_bool (Some a = Some b) + g b"
    using safe by (auto simp: al_safe_def)
  have na: "a \<notin> set xs" using al_safe_count(2) [OF g o] by simp
  have fr: "alarm_list m = front xs" using xs(1) linked_front by (auto simp: al_rep_def)
  obtain m' where m': "alarm_walk m None (alarm_list m) a (al_time c) = Some m'"
    "linked link (al_heap m') (alarm_list m') (place (due m) a xs)" "relinked m m'"
    "\<And>b. b \<notin> set (a # xs) \<Longrightarrow> al_heap m' b = al_heap m b"
    using alarm_walk_place [of m "[]" xs a c] xs(1) na a fr by (auto simp: al_rep_def)
  have rl: "map_option (\<lambda>c. c\<lparr>link := None\<rparr>) (al_heap m' b) = map_option (\<lambda>c. c\<lparr>link := None\<rparr>) (al_heap m b)" for b
    using m'(3) by (simp add: relinked_def)
  have due: "due m' = due m"
  proof
    fix b
    show "due m' b = due m b"
      using rl [of b] by (cases "al_heap m b"; cases "al_heap m' b") (auto simp: due_def dest: arg_cong [of _ _ al_time])
  qed
  have dom: "al_heap m' b \<noteq> None \<longleftrightarrow> al_heap m b \<noteq> None" for b
    using rl [of b] by (cases "al_heap m b"; cases "al_heap m' b") auto
  have cnt: "int (count_list (place (due m) a xs) b) = int (count_list xs b) + of_bool (b = a)" for b
    using na by (auto simp: count_list_place)
  have "al_rep m' (place (due m) a xs)"
    using m'(2) na xs(1) by (simp add: al_rep_def distinct_place)
  moreover have "sorted (map (due m') (place (due m) a xs))"
    unfolding due by (rule sorted_place [OF xs(2)])
  moreover have "of_bool (al_heap m' b \<noteq> None) = int (count_list (place (due m) a xs) b) + of_bool (None = Some b) + g b" for b
    unfolding dom cnt using o [of b] by (auto simp: eq_commute)
  ultimately have "al_safe m' None g" using g unfolding al_safe_def by blast
  moreover have "kept g m m'"
    unfolding kept_def
  proof (intro allI impI)
    fix b assume "0 < g b"
    then have "b \<notin> set (a # xs)" using al_safe_count(3) [OF g o, of b] by auto
    then show "al_heap m' b = al_heap m b" by (rule m'(4))
  qed
  moreover obtain f where "Option.bind (alarm_list m') (al_heap m') = Some f"
    using m'(2) by (cases "place (due m) a xs") (auto simp: place_def split: option.splits)
  ultimately show ?thesis using that m'(1,3) by blast
qed

section \<open>The steps of the functions\<close>

text \<open>The alarm a point has in its hands, and what holds of it; \<open>n\<close> is the time.\<close>

fun ai_own :: "nat \<Rightarrow> ai_pc \<Rightarrow> nat option" where
  "ai_own a AI_start = Some a"
| "ai_own a p = None"

fun at_own :: "at_pc \<Rightarrow> nat option" where
  "at_own (AT_time a) = Some a"
| "at_own (AT_timedwait a d) = Some a"
| "at_own (AT_failed a) = Some a"
| "at_own (AT_insert a p) = ai_own a p"
| "at_own p = None"

fun am_own :: "am_pc \<Rightarrow> nat option" where
  "am_own (AM_lock a) = Some a"
| "am_own (AM_time a) = Some a"
| "am_own (AM_failed a) = Some a"
| "am_own (AM_insert a p) = ai_own a p"
| "am_own p = None"

fun at_fit :: "alarms \<Rightarrow> at_pc \<Rightarrow> bool" where
  "at_fit m (AT_timedwait a d) \<longleftrightarrow> due m a = d"
| "at_fit m (AT_insert a p) \<longleftrightarrow> p \<noteq> AI_crash"
| "at_fit m AT_crash \<longleftrightarrow> False"
| "at_fit m p \<longleftrightarrow> True"

fun ok_line :: "input \<Rightarrow> bool" where
  "ok_line (Request s msg) \<longleftrightarrow> length msg < 64"
| "ok_line l \<longleftrightarrow> True"

fun am_fit :: "alarms \<Rightarrow> am_pc \<Rightarrow> bool" where
  "am_fit m (AM_malloc l) \<longleftrightarrow> ok_line l"
| "am_fit m (AM_insert a p) \<longleftrightarrow> p \<noteq> AI_crash"
| "am_fit m (AM_crash b) \<longleftrightarrow> False"
| "am_fit m AM_thread \<longleftrightarrow> False"
| "am_fit m p \<longleftrightarrow> True"

text \<open>The rest of the memory: lines that fit into the buffers, alarms printed in time.\<close>

definition al_rest :: "int \<Rightarrow> alarms \<Rightarrow> bool" where
  "al_rest n m \<longleftrightarrow> list_all ok_line (stdin m) \<and> (\<forall>c \<in> set (printed m). al_time c \<le> n)"

lemma al_safe_same: "al_safe m x g \<Longrightarrow> al_safe (m\<lparr>current_alarm := v\<rparr>) x g"
  "al_safe m x g \<Longrightarrow> al_safe (m\<lparr>stdin := ls\<rparr>) x g" "al_safe m x g \<Longrightarrow> al_safe (m\<lparr>printed := cs\<rparr>) x g"
  by (auto elim: al_safe_cong)

lemma kept_same [simp]: "kept g (m\<lparr>current_alarm := v\<rparr>) m' = kept g m m'"
  "kept g m (m'\<lparr>current_alarm := v\<rparr>) = kept g m m'" "kept g m (m'\<lparr>stdin := ls\<rparr>) = kept g m m'"
  "kept g m (m'\<lparr>alarm_list := l\<rparr>) = kept g m m'"
  by (simp_all add: kept_def)

lemma al_rest_same [simp]: "al_rest n (m\<lparr>current_alarm := v\<rparr>) = al_rest n m"
  "al_rest n (m\<lparr>al_heap := h\<rparr>) = al_rest n m" "al_rest n (m\<lparr>alarm_list := l\<rparr>) = al_rest n m"
  by (simp_all add: al_rest_def)

lemma al_rest_relinked: "relinked m m' \<Longrightarrow> al_rest n m' = al_rest n m"
  by (simp add: al_rest_def relinked_def)

lemma ai_step:
  assumes p: "alarm_insert a p = Do c k" and safe: "al_safe m (ai_own a p) g" and k: "k r m = (m', p')"
    and rest: "al_rest n m"
  shows "al_safe m' (ai_own a p') g \<and> kept g m m' \<and> p' \<noteq> AI_crash \<and> al_rest n m'"
proof (cases p)
  case AI_start
  have sa: "al_safe m (Some a) g" using safe AI_start by simp
  then obtain ca where ca: "al_heap m a = Some ca" using al_safe_alloc by blast
  obtain m1 f where m1: "alarm_walk m None (alarm_list m) a (al_time ca) = Some m1" "al_safe m1 None g"
    "kept g m m1" "relinked m m1" "Option.bind (alarm_list m1) (al_heap m1) = Some f"
    by (rule al_safe_insert [OF sa ca])
  show ?thesis
    using p k AI_start ca m1 rest al_rest_relinked [OF m1(4)] al_safe_same(1) [OF m1(2)]
    by (auto split: if_splits)
qed (use assms in \<open>auto split: if_splits\<close>)

lemma at_while_step:
  assumes safe: "al_safe m None g" and k: "at_while m = (m', p')" and rest: "al_rest n m"
  shows "al_safe m' (at_own p') g \<and> kept g m m' \<and> at_fit m' p' \<and> al_rest n m'"
proof (cases "alarm_list m")
  case None
  then show ?thesis using assms by (auto simp: at_while_def)
next
  case (Some a)
  obtain c where "al_heap m a = Some c" "al_safe (m\<lparr>alarm_list := link c\<rparr>) (Some a) g"
    by (rule al_safe_pop [OF safe Some])
  then show ?thesis using k Some rest by (auto simp: at_while_def)
qed

lemma at_loop_step:
  assumes "al_safe m None g" and "at_loop m = (m', p')" and "al_rest n m"
  shows "al_safe m' (at_own p') g \<and> kept g m m' \<and> at_fit m' p' \<and> al_rest n m'"
  using at_while_step [OF al_safe_same(1) [OF assms(1)], of 0 m' p' n] assms(2,3) by (simp add: at_loop_def)

lemma at_expired_step:
  assumes safe: "al_safe m (Some a) g" and k: "at_expired a m = (m', p')" and rest: "al_rest n m"
    and d: "due m a \<le> n"
  shows "al_safe m' (at_own p') g \<and> kept g m m' \<and> at_fit m' p' \<and> al_rest n m'"
proof -
  obtain c where c: "al_heap m a = Some c" using al_safe_alloc [OF safe] by blast
  let ?m = "m\<lparr>printed := printed m @ [c], al_heap := (al_heap m)(a := None)\<rparr>"
  have "al_safe ?m None g \<and> kept g m ?m"
    by (rule al_safe_heap [OF safe]) (use c in \<open>auto split: if_splits\<close>)
  moreover have "al_rest n ?m" using rest c d by (auto simp: al_rest_def due_def)
  moreover have "at_loop ?m = (m', p')" using k c by (simp add: at_expired_def)
  ultimately show ?thesis using at_loop_step [of ?m g m' p' n] kept_trans [of g m ?m m'] by blast
qed

lemma at_step:
  assumes p: "alarm_thread p = Do c k" and r: "answer_ok c r m n" "r \<noteq> CANCELED" and k: "k r m = (m', p')"
    and safe: "al_safe m (at_own p) g" and fit: "at_fit m p" and rest: "al_rest n m"
  shows "al_safe m' (at_own p') g \<and> kept g m m' \<and> at_fit m' p' \<and> al_rest n m'"
proof (cases p)
  case AT_lock
  then show ?thesis using assms at_loop_step [of m g m' p' n] by (auto split: if_splits)
next
  case AT_wait
  then show ?thesis using assms at_while_step [of m g m' p' n] by (auto split: if_splits)
next
  case (AT_time a)
  obtain ca where ca: "al_heap m a = Some ca" using al_safe_alloc safe AT_time by fastforce
  then show ?thesis
    using assms AT_time at_expired_step [of m a g m' p' n] al_safe_same(1) [of m "Some a" g]
    by (auto simp: due_def split: if_splits)
next
  case (AT_timedwait a d)
  obtain ca where ca: "al_heap m a = Some ca" using al_safe_alloc safe AT_timedwait by fastforce
  then show ?thesis
    using assms AT_timedwait at_expired_step [of m a g m' p' n]
    by (auto simp: due_def split: if_splits)
next
  case (AT_insert a q)
  show ?thesis
  proof (cases "alarm_insert a q")
    case (Do c0 k0)
    then obtain q' where "k0 r m = (m', q')" "p' = AT_insert a q'" using p k AT_insert by (auto split: prod.splits)
    with ai_step [OF Do _ this(1) rest, of g] safe AT_insert show ?thesis by auto
  next
    case (Return v)
    then have "ai_own a q = None" by (cases q) auto
    with at_loop_step [of m g m' p' n] p k safe rest AT_insert Return show ?thesis by auto
  qed (use p AT_insert in auto)
qed (use p in auto)

lemma am_step:
  assumes p: "alarm_main p = Do c k" and r: "answer_ok c r m n" and k: "k r m = (m', p')"
    and safe: "al_safe m (am_own p) g" and fit: "am_fit m p" and rest: "al_rest n m"
  shows "al_safe m' (am_own p') g \<and> kept g m m' \<and> am_fit m' p' \<and> al_rest n m'"
proof (cases p)
  case AM_read
  show ?thesis
  proof (cases "stdin m")
    case (Cons l ls)
    then show ?thesis using assms AM_read al_safe_same(2) [of m None g ls]
      by (auto simp: al_rest_def split: if_splits)
  qed (use assms AM_read in auto)
next
  case (AM_malloc l)
  show ?thesis
  proof (cases "r = 0 \<or> (\<forall>s msg. l \<noteq> Request s msg)")
    case True
    then show ?thesis using assms AM_malloc by (auto split: input.splits if_splits)
  next
    case False
    then obtain s msg where l: "l = Request s msg" and r0: "r \<noteq> 0" by auto
    let ?m = "m\<lparr>al_heap := (al_heap m)(nat r \<mapsto> \<lparr>link = None, seconds = s, al_time = 0, message = msg\<rparr>)\<rparr>"
    have free: "al_heap m (nat r) = None" using r p AM_malloc r0 by auto
    have "al_safe ?m (Some (nat r)) g \<and> kept g m ?m"
      by (rule al_safe_heap [where x = None]) (use safe AM_malloc free in \<open>auto split: if_splits\<close>)
    then show ?thesis using p k fit rest AM_malloc l r0 by auto
  qed
next
  case (AM_time a)
  have sa: "al_safe m (Some a) g" using safe AM_time by simp
  then obtain ca where ca: "al_heap m a = Some ca" using al_safe_alloc by blast
  let ?m = "m\<lparr>al_heap := (al_heap m)(a \<mapsto> ca\<lparr>al_time := r + seconds ca\<rparr>)\<rparr>"
  have "al_safe ?m (Some a) g \<and> kept g m ?m"
    by (rule al_safe_heap [OF sa]) (use ca in \<open>auto split: if_splits\<close>)
  then show ?thesis using p k rest AM_time ca by auto
next
  case (AM_insert a q)
  show ?thesis
  proof (cases "alarm_insert a q")
    case (Do c0 k0)
    then obtain q' where "k0 r m = (m', q')" "p' = AM_insert a q'" using p k AM_insert by (auto split: prod.splits)
    with ai_step [OF Do _ this(1) rest, of g] safe AM_insert show ?thesis by auto
  next
    case (Return v)
    then have "ai_own a q = None" by (cases q) auto
    with p k safe rest AM_insert Return show ?thesis by auto
  qed (use p AM_insert in auto)
qed (use assms in \<open>auto split: if_splits\<close>)

section \<open>The process\<close>

fun al_own :: "al_pc \<Rightarrow> nat option" where
  "al_own (AL_main p) = am_own p"
| "al_own (AL_thread p) = at_own p"

fun al_fit :: "alarms \<Rightarrow> al_pc \<Rightarrow> bool" where
  "al_fit m (AL_main p) = am_fit m p"
| "al_fit m (AL_thread p) = at_fit m p"

definition others :: "al_pc list \<Rightarrow> nat \<Rightarrow> nat \<Rightarrow> int" where
  "others ps t a = tally (\<lambda>p. of_bool (al_own p = Some a)) ps - of_bool (al_own (ps ! t) = Some a)"

definition al_inv :: "int \<Rightarrow> alarms \<Rightarrow> al_pc list \<Rightarrow> bool" where
  "al_inv n m ps \<longleftrightarrow> al_safe m None (\<lambda>a. tally (\<lambda>p. of_bool (al_own p = Some a)) ps) \<and>
     list_all (al_fit m) ps \<and> al_rest n m"

lemma others_nonneg: "t < length ps \<Longrightarrow> 0 \<le> others ps t a"
  using tally_ge_elem [of ps "\<lambda>p. of_bool (al_own p = Some a)" t] by (simp add: others_def)

lemma others_pos:
  assumes "t < length ps" and "u < length ps" and "u \<noteq> t" and "al_own (ps ! u) = Some a"
  shows "0 < others ps t a"
  using tally_ge_two [of ps "\<lambda>p. of_bool (al_own p = Some a)" t u] assms by (simp add: others_def)

lemma al_safe_split:
  assumes "t < length ps" and "al_safe m None (\<lambda>a. tally (\<lambda>p. of_bool (al_own p = Some a)) ps)"
  shows "al_safe m (al_own (ps ! t)) (others ps t)"
  using assms others_nonneg [OF assms(1)] unfolding al_safe_def others_def by auto

lemma al_safe_join:
  assumes "t < length ps" and "al_safe m (al_own p) (others ps t)"
  shows "al_safe m None (\<lambda>a. tally (\<lambda>p. of_bool (al_own p = Some a)) (ps[t := p]))"
proof -
  have "0 \<le> tally (\<lambda>p. of_bool (al_own p = Some a)) (ps[t := p])" for a by (rule tally_nonneg) simp
  moreover have "of_bool (al_own p = Some a) + others ps t a = tally (\<lambda>p. of_bool (al_own p = Some a)) (ps[t := p])" for a
    using tally_update [OF assms(1), of "\<lambda>p. of_bool (al_own p = Some a)" p] by (simp add: others_def)
  ultimately show ?thesis using assms(2) unfolding al_safe_def by (auto simp: add.assoc)
qed

lemma al_fit_kept:
  assumes "al_fit m p" and "\<And>a. al_own p = Some a \<Longrightarrow> al_heap m' a = al_heap m a"
  shows "al_fit m' p"
proof (cases p)
  case (AL_main q)
  then show ?thesis using assms by (cases q) auto
next
  case (AL_thread q)
  then show ?thesis using assms by (cases q) (auto simp: due_def)
qed

text \<open>Nobody is cancelled.\<close>

definition al_env :: "al_pc policy" where
  "al_env p r \<longleftrightarrow> 0 \<le> r"

lemma al_calls:
  "al_process p = Do c k \<Longrightarrow> entry_mem c r n m = m \<and>
     (spawned c r = [] \<or> spawned c r = [AL_thread AT_lock])"
  by (cases p rule: al_case) (auto split: if_splits)

lemma al_step:
  assumes p: "al_process p = Do c k" and r: "answer_ok c r m n" "r \<noteq> CANCELED" and k: "k r m = (m', p')"
    and safe: "al_safe m (al_own p) g" and fit: "al_fit m p" and rest: "al_rest n m"
  shows "al_safe m' (al_own p') g \<and> kept g m m' \<and> al_fit m' p' \<and> al_rest n m'"
proof (cases p)
  case (AL_main q)
  show ?thesis
  proof (cases "alarm_main q")
    case (Do c0 k0)
    then obtain q' where q': "k0 r m = (m', q')" "p' = AL_main q'" using p k AL_main by (auto split: prod.splits)
    have "answer_ok c0 r m n" using r p AL_main Do by (cases c0) auto
    from am_step [OF Do this q'(1) _ _ rest, of g] q'(2) safe fit AL_main show ?thesis by simp
  next
    case (Return v)
    then show ?thesis using AL_main by (cases q) (auto split: if_splits elim: call_fun.elims)
  qed (use p AL_main in simp)
next
  case (AL_thread q)
  show ?thesis
  proof (cases "alarm_thread q")
    case (Do c0 k0)
    then obtain q' where q': "k0 r m = (m', q')" "p' = AL_thread q'" using p k AL_thread by (auto split: prod.splits)
    have "answer_ok c0 r m n" using r p AL_thread Do by (cases c0) auto
    from at_step [OF Do this r(2) q'(1) _ _ rest, of g] q'(2) safe fit AL_thread show ?thesis by simp
  qed (use p AL_thread in simp_all)
qed

lemma al_reach_inv:
  assumes "reach al_env al_process (al_system ls) s" and "list_all ok_line ls"
  shows "al_inv (now s) (mem s) (pcs s)"
  using assms(1)
proof (induction rule: reach_invariant)
  case start
  show ?case using assms(2)
    by (auto simp: al_system_def al_mem_def al_inv_def al_safe_def al_rep_def al_rest_def intro!: exI [of _ "[]"])
next
  case (tick n m ps)
  then show ?case by (auto simp: al_inv_def al_rest_def)
next
  case (move n m ps t c k r m' p')
  have k: "k r m = (m', p')" using move(6) al_calls [OF move(3), of r] by simp
  have safe: "al_safe m (al_own (ps ! t)) (others ps t)"
    by (rule al_safe_split [OF move(2)]) (use move(1) in \<open>simp add: al_inv_def\<close>)
  have "r \<noteq> CANCELED" using move(4) by (auto simp: al_env_def)
  moreover have "al_fit m (ps ! t)" "al_rest n m" using move(1,2) by (auto simp: al_inv_def list_all_length)
  ultimately have new: "al_safe m' (al_own p') (others ps t)" "kept (others ps t) m m'" "al_fit m' p'" "al_rest n m'"
    using al_step [OF move(3,5) _ k safe] by auto
  have "al_fit m' (ps ! u)" if "u < length ps" "u \<noteq> t" for u
    by (rule al_fit_kept [of m])
       (use move(1) that others_pos [OF move(2) that] new(2) in \<open>auto simp: al_inv_def list_all_length kept_def\<close>)
  then have "list_all (al_fit m') (ps[t := p'])" using new(3) move(2) by (intro list_all_update_others) auto
  moreover have "spawned c r = [] \<or> spawned c r = [AL_thread AT_lock]" using al_calls [OF move(3)] by blast
  ultimately show ?case using al_safe_join [OF move(2) new(1)] new(4)
    by (auto simp: al_inv_def)
qed

section \<open>Locking discipline\<close>

interpretation al_any: lock_discipline al_env al_process al_holds
proof unfold_locales
  fix p c k r m n m' m'' p'
  assume "al_process p = Do c k" "al_env p r" "answer_ok c r m n" "k r m' = (m'', p')"
  then show "al_holds p' = held_after c r (al_holds p)"
    by (cases p rule: al_case) (auto simp: al_defs al_env_def split: if_splits option.splits list.splits input.splits)
next
  fix p c and k :: "int \<Rightarrow> alarms \<Rightarrow> alarms \<times> al_pc"
  assume "al_process p = Do c k"
  then show "call_ok c (al_holds p)" by (cases p rule: al_case) (auto split: if_splits)
next
  fix p q and st :: "nat \<Rightarrow> alarms \<Rightarrow> alarms" and k :: "int \<Rightarrow> alarms \<Rightarrow> alarms \<times> al_pc"
  assume "al_process p = Do (Create st q) k"
  then show "al_holds q = {}" by (cases p rule: al_case) auto
qed

lemma al_locked: "locked_inv al_process al_holds (al_system ls)"
  by (auto simp: al_system_def intro!: locked_inv_boot)

section \<open>Properties\<close>

text \<open>C14. \<open>alarm_insert\<close> puts the alarm at its place by time: if the list holds the alarms \<open>xs\<close>, the
  walk ends without touching an unallocated cell, the list then holds \<open>place d a xs\<close> (before
  the first alarm that is not due earlier), sorted if it was sorted, and nothing but links has
  changed.\<close>
theorem alarm_insert_refines:
  assumes "al_rep m xs" and "a \<notin> set xs" and "al_heap m a = Some c"
  shows "\<exists>m'. alarm_walk m None (alarm_list m) a (al_time c) = Some m' \<and>
    al_rep m' (place (due m) a xs) \<and> relinked m m' \<and>
    (sorted (map (due m) xs) \<longrightarrow> sorted (map (due m) (place (due m) a xs)))"
proof -
  have "alarm_list m = front xs" using assms(1) linked_front by (auto simp: al_rep_def)
  then obtain m' where "alarm_walk m None (alarm_list m) a (al_time c) = Some m'"
    "linked link (al_heap m') (alarm_list m') (place (due m) a xs)" "relinked m m'"
    using alarm_walk_place [of m "[]" xs a c] assms by (auto simp: al_rep_def)
  then show ?thesis
    using assms(1,2) sorted_place [of "due m" xs a] by (auto simp: al_rep_def distinct_place)
qed

theorem alarm_insert_refines_witness:
  "\<exists>m m'. alarm_walk m None (alarm_list m) 2 5 = Some m' \<and> al_rep m' [1, 2, 3] \<and>
     due m 1 = 4 \<and> due m 2 = 5 \<and> due m 3 = 6"
proof -
  let ?m = "\<lparr>al_heap = [1 \<mapsto> \<lparr>link = Some 3, seconds = 4, al_time = 4, message = []\<rparr>,
       2 \<mapsto> \<lparr>link = None, seconds = 5, al_time = 5, message = []\<rparr>,
       3 \<mapsto> \<lparr>link = None, seconds = 6, al_time = 6, message = []\<rparr>],
     alarm_list = Some 1, current_alarm = 0, printed = [], stdin = []\<rparr>"
  have "al_rep ?m [1, 3]" by (simp add: al_rep_def)
  from alarm_insert_refines [OF this, of 2] obtain m' where
    "alarm_walk ?m None (alarm_list ?m) 2 5 = Some m'" "al_rep m' (place (due ?m) 2 [1, 3])" by auto
  moreover have "place (due ?m) 2 [1, 3] = [1, 2, 3]" by (simp add: place_def due_def)
  ultimately show ?thesis by (intro exI [of _ ?m] exI [of _ m']) (simp add: due_def)
qed

text \<open>C15. In every state the program can reach the list of pending alarms is a proper list (no
  cycle, no unallocated cell) sorted by the time the alarms are due, whatever the calls return,
  as long as no input text has 64 characters or more.\<close>
theorem alarm_list_sorted:
  assumes "reach al_env al_process (al_system ls) s" and "list_all ok_line ls"
  shows "\<exists>xs. al_rep (mem s) xs \<and> sorted (map (due (mem s)) xs)"
  using al_reach_inv [OF assms] by (auto simp: al_inv_def al_safe_def)

theorem alarm_list_sorted_witness:
  "case run al_env al_process
      [Exec 0 0, Exec 0 0, Exec 0 1, Exec 0 0, Exec 0 0, Exec 0 0, Exec 0 0, Exec 0 0, Exec 0 0,
       Exec 1 0, Exec 1 0, Exec 1 0, Tick, Tick, Timeout 1, Exec 1 110] (al_system [Request 2 ''tea'']) of
     Some s \<Rightarrow> map message (printed (mem s)) = [''tea''] \<and> (\<exists>xs. al_rep (mem s) xs \<and> sorted (map (due (mem s)) xs))
   | None \<Rightarrow> False" (is "case ?r of Some s \<Rightarrow> ?P s | None \<Rightarrow> False")
proof -
  have "map_option (\<lambda>s. printed (mem s)) ?r =
      Some [\<lparr>link = None, seconds = 2, al_time = 2, message = ''tea''\<rparr>]" by code_simp
  then obtain s where s: "?r = Some s"
    "printed (mem s) = [\<lparr>link = None, seconds = 2, al_time = 2, message = ''tea''\<rparr>]" by auto
  have "list_all ok_line [Request 2 ''tea'']" by simp
  from alarm_list_sorted [OF reach_run [OF s(1)] this] s show ?thesis by simp
qed

text \<open>C16. No alarm is printed before it is due.\<close>
theorem alarm_never_early:
  assumes "reach al_env al_process (al_system ls) s" and "list_all ok_line ls"
    and "c \<in> set (printed (mem s))"
  shows "al_time c \<le> now s"
  using al_reach_inv [OF assms(1,2)] assms(3) by (auto simp: al_inv_def al_rest_def)

theorem alarm_never_early_witness:
  "case run al_env al_process
      [Exec 0 0, Exec 0 0, Exec 0 1, Exec 0 0, Exec 0 0, Exec 0 0, Exec 0 0, Exec 0 0, Exec 0 0,
       Exec 1 0, Exec 1 0, Exec 1 0, Tick, Tick, Timeout 1, Exec 1 110] (al_system [Request 2 ''tea'']) of
     Some s \<Rightarrow> map message (printed (mem s)) = [''tea''] \<and> 2 \<le> now s
   | None \<Rightarrow> False" (is "case ?r of Some s \<Rightarrow> ?P s | None \<Rightarrow> False")
proof -
  have "map_option (\<lambda>s. printed (mem s)) ?r =
      Some [\<lparr>link = None, seconds = 2, al_time = 2, message = ''tea''\<rparr>]" by code_simp
  then obtain s where s: "?r = Some s"
    "printed (mem s) = [\<lparr>link = None, seconds = 2, al_time = 2, message = ''tea''\<rparr>]" by auto
  have "list_all ok_line [Request 2 ''tea'']" by simp
  from alarm_never_early [OF reach_run [OF s(1)] this] s show ?thesis by simp
qed

text \<open>The program never uses an alarm that is not allocated, nor misuses the mutex.\<close>
theorem alarm_memory_safe:
  assumes "reach al_env al_process (al_system ls) s" and "list_all ok_line ls"
  shows "ended s \<noteq> Some Undefined"
proof (rule al_any.no_undefined [OF assms(1) al_locked])
  fix p assume "p \<in> set (pcs s)"
  then have "al_fit (mem s) p" using al_reach_inv [OF assms] by (auto simp: al_inv_def list_all_iff)
  then show "al_process p \<noteq> Halt Undefined" by (cases p rule: al_case) (auto split: if_splits)
qed

theorem alarm_memory_safe_witness:
  "case run al_env al_process
      [Exec 0 0, Exec 0 0, Exec 0 1, Exec 0 0, Exec 0 0, Exec 0 0, Exec 0 0, Exec 0 0, Exec 0 0,
       Exec 1 0, Exec 1 0, Exec 1 0, Tick, Tick, Timeout 1, Exec 1 110] (al_system [Request 2 ''tea'']) of
     Some s \<Rightarrow> map message (printed (mem s)) = [''tea''] \<and> ended s \<noteq> Some Undefined
   | None \<Rightarrow> False" (is "case ?r of Some s \<Rightarrow> ?P s | None \<Rightarrow> False")
proof -
  have "map_option (\<lambda>s. printed (mem s)) ?r =
      Some [\<lparr>link = None, seconds = 2, al_time = 2, message = ''tea''\<rparr>]" by code_simp
  then obtain s where s: "?r = Some s"
    "printed (mem s) = [\<lparr>link = None, seconds = 2, al_time = 2, message = ''tea''\<rparr>]" by auto
  have "list_all ok_line [Request 2 ''tea'']" by simp
  from alarm_memory_safe [OF reach_run [OF s(1)] this] s show ?thesis by simp
qed

text \<open>A text of 64 characters or more overruns the message buffer: \<^verbatim>\<open>%64[^\n]\<close> writes up to
  65 characters into \<^verbatim>\<open>char message[64]\<close>.\<close>
theorem alarm_long_message:
  assumes "64 \<le> length msg"
  shows "\<exists>s. reach al_env al_process (al_system [Request n msg]) s \<and> ended s = Some Undefined"
proof -
  have "run al_env al_process [Exec 0 0, Exec 0 0, Exec 0 1, Exec 0 0] (al_system [Request n msg]) \<noteq> None"
    and "\<And>s. run al_env al_process [Exec 0 0, Exec 0 0, Exec 0 1, Exec 0 0] (al_system [Request n msg]) = Some s \<Longrightarrow>
      ended s = Some Undefined"
    using assms by (auto simp: al_system_def al_mem_def boot_def exec_thread_def proceed_def put_thread_def
        al_env_def halt_def Let_def)
  then show ?thesis using reach_run by blast
qed

theorem alarm_long_message_witness:
  "\<exists>s. reach al_env al_process (al_system [Request 3 (replicate 64 CHR ''a'')]) s \<and> ended s = Some Undefined"
  by (rule alarm_long_message) simp

end
