(* ===== verification/AlarmMutex.thy ===== *)
theory AlarmMutex
  imports Alarm
begin

text \<open>
  The first version of the alarm program, \<^verbatim>\<open>chap3-sync/alarm_mutex.cc\<close>: it has a mutex but no
  condition variable; the alarm thread takes the first alarm, is meant to release the mutex,
  sleeps until the alarm is due and prints it. Alarms and the list are those of
  \<open>Alarm\<close> (the loop that inserts an alarm is the same text in both files);
  \<open>current_alarm\<close> is not used here.
\<close>

section \<open>The alarm thread\<close>

text \<open>\<open>x\<close> is \<^verbatim>\<open>alarm\<close>, \<open>n\<close> is \<^verbatim>\<open>sleep_time\<close>.\<close>

datatype ax_pc =
    AX_lock | AX_time nat | AX_relock "nat option" int | AX_sleep "nat option" int | AX_abort | AX_crash

definition ax_take :: "alarms \<Rightarrow> alarms \<times> ax_pc" where
  "ax_take m =
     (case alarm_list m of
        None \<Rightarrow> (m, AX_relock None 1)
      | Some a \<Rightarrow>
          (case al_heap m a of
             None \<Rightarrow> (m, AX_crash)
           | Some c \<Rightarrow> (m\<lparr>alarm_list := link c\<rparr>, AX_time a)))"

definition ax_print :: "nat option \<Rightarrow> alarms \<Rightarrow> alarms \<times> ax_pc" where
  "ax_print x m =
     (case x of
        None \<Rightarrow> (m, AX_lock)
      | Some a \<Rightarrow>
          (case al_heap m a of
             None \<Rightarrow> (m, AX_crash)
           | Some c \<Rightarrow>
               (m\<lparr>printed := printed m @ [c], al_heap := (al_heap m)(a := None)\<rparr>, AX_lock)))"

fun mutex_alarm_thread :: "ax_pc \<Rightarrow> (al_mutex, al_cond, alarms, ax_pc) act" where
  "mutex_alarm_thread AX_lock =
     Do (Lock Alarm_mutex) (\<lambda>status m. if status \<noteq> 0 then (m, AX_abort) else ax_take m)"
| "mutex_alarm_thread (AX_time a) =
     Do Clock (\<lambda>t m.
       case al_heap m a of
         None \<Rightarrow> (m, AX_crash)
       | Some c \<Rightarrow> (m, AX_relock (Some a) (if al_time c \<le> t then 0 else al_time c - t)))"
| "mutex_alarm_thread (AX_relock x n) = Do (Lock Alarm_mutex) (checked AX_abort (AX_sleep x n))"
| "mutex_alarm_thread (AX_sleep x n) = Do Tau (\<lambda>_. ax_print x)"
| "mutex_alarm_thread AX_abort = Halt Aborted"
| "mutex_alarm_thread AX_crash = Halt Undefined"

section \<open>The main thread\<close>

datatype ay_pc =
    AY_create | AY_read | AY_malloc input | AY_lock nat | AY_time nat | AY_unlock | AY_exit | AY_abort
  | AY_crash | AY_thread

fun mutex_alarm_main :: "ay_pc \<Rightarrow> (al_mutex, al_cond, alarms, ay_pc) act" where
  "mutex_alarm_main AY_create =
     Do (Create (\<lambda>_ m. m) AY_thread) (\<lambda>status m. (m, if status \<noteq> 0 then AY_abort else AY_read))"
| "mutex_alarm_main AY_read =
     Do Tau (\<lambda>_ m.
       case stdin m of
         [] \<Rightarrow> (m, AY_exit)
       | l # ls \<Rightarrow> (m\<lparr>stdin := ls\<rparr>, if l = Blank then AY_read else AY_malloc l))"
| "mutex_alarm_main (AY_malloc l) =
     Do (Env (\<lambda>r m. r = 0 \<or> 0 < r \<and> al_heap m (nat r) = None)) (\<lambda>r m.
       if r = 0 then (m, AY_abort)
       else case l of
         Request s msg \<Rightarrow>
           if length msg \<ge> 64 then (m, AY_crash)
           else (m\<lparr>al_heap := (al_heap m)(nat r \<mapsto>
                    \<lparr>link = None, seconds = s, al_time = 0, message = msg\<rparr>)\<rparr>, AY_lock (nat r))
       | _ \<Rightarrow> (m, AY_read))"
| "mutex_alarm_main (AY_lock a) =
     Do (Lock Alarm_mutex) (\<lambda>status m. (m, if status \<noteq> 0 then AY_abort else AY_time a))"
| "mutex_alarm_main (AY_time a) =
     Do Clock (\<lambda>t m.
       case al_heap m a of
         None \<Rightarrow> (m, AY_crash)
       | Some c \<Rightarrow>
           (let m1 = m\<lparr>al_heap := (al_heap m)(a \<mapsto> c\<lparr>al_time := t + seconds c\<rparr>)\<rparr> in
            case alarm_walk m1 None (alarm_list m1) a (t + seconds c) of
              None \<Rightarrow> (m, AY_crash)
            | Some m2 \<Rightarrow> (m2, AY_unlock)))"
| "mutex_alarm_main AY_unlock =
     Do (Unlock Alarm_mutex) (\<lambda>status m. (m, if status \<noteq> 0 then AY_abort else AY_read))"
| "mutex_alarm_main AY_exit = Halt (Exited 0)"
| "mutex_alarm_main AY_abort = Halt Aborted"
| "mutex_alarm_main AY_crash = Halt Undefined"
| "mutex_alarm_main AY_thread = Halt Undefined"

datatype az_pc = AZ_main ay_pc | AZ_thread ax_pc

fun az_start :: "ay_pc \<Rightarrow> az_pc" where
  "az_start AY_thread = AZ_thread AX_lock"
| "az_start p = AZ_main p"

fun az_process :: "az_pc \<Rightarrow> (al_mutex, al_cond, alarms, az_pc) act" where
  "az_process (AZ_main p) =
     call_fun (\<lambda>m. m) (\<lambda>m' m. m') AZ_main az_start (\<lambda>_ m. (m, AZ_main AY_exit)) (mutex_alarm_main p)"
| "az_process (AZ_thread p) = thread_fun AZ_thread (mutex_alarm_thread p)"

definition az_system :: "input list \<Rightarrow> (al_mutex, al_cond, alarms, az_pc) sys" where
  "az_system ls = boot (al_mem ls) [AZ_main AY_create]"

section \<open>The alarm thread blocks itself\<close>

fun az_holds :: "az_pc \<Rightarrow> al_mutex set" where
  "az_holds (AZ_thread (AX_time a)) = {Alarm_mutex}"
| "az_holds (AZ_thread (AX_relock x n)) = {Alarm_mutex}"
| "az_holds p = {}"

lemma az_spawned:
  assumes "az_process p = Do c k"
  shows "spawned c r = [] \<or> spawned c r = [AZ_thread AX_lock]"
proof (cases p)
  case (AZ_main q)
  have "spawned c0 r = [] \<or> spawned c0 r = [AY_thread]" if "mutex_alarm_main q = Do c0 k0" for c0 k0
    using that by (cases q) auto
  with assms [unfolded AZ_main az_process.simps] show ?thesis
    by (cases rule: call_fun_cases) auto
next
  case (AZ_thread q)
  have "spawned c0 r = []" if "mutex_alarm_thread q = Do c0 k0" for c0 k0
    using that by (cases q) auto
  with assms [unfolded AZ_thread az_process.simps] show ?thesis
    by (cases rule: thread_fun_cases) auto
qed

text \<open>The main thread never touches what was printed and holds nothing that matters here.\<close>

lemma az_main_step:
  assumes "az_process (AZ_main q) = Do c k" and "k r m = (m', p')"
  shows "\<exists>q'. p' = AZ_main q'"
proof -
  from assms(1) [unfolded az_process.simps] show ?thesis
    by (cases rule: call_fun_cases) (use assms(2) in \<open>auto split: prod.splits\<close>)
qed

lemma az_entry: "az_process p = Do c k \<Longrightarrow> printed (entry_mem c r l m) = printed m"
proof (cases p)
  case (AZ_main q)
  have "printed (entry_mem c0 r l m) = printed m" if "mutex_alarm_main q = Do c0 k0" for c0 k0
    using that by (cases q) auto
  then show "az_process p = Do c k \<Longrightarrow> ?thesis" unfolding AZ_main by (auto elim!: call_fun_cases)
next
  case (AZ_thread q)
  have "printed (entry_mem c0 r l m) = printed m" if "mutex_alarm_thread q = Do c0 k0" for c0 k0
    using that by (cases q) auto
  then show "az_process p = Do c k \<Longrightarrow> ?thesis" unfolding AZ_thread by (auto elim!: thread_fun_cases)
qed

lemma walk_printed:
  assumes "alarm_walk m lp x a t = Some m'"
  shows "printed m' = printed m"
  by (rule alarm_walk.raw_induct [where P = "\<lambda>m lp x a t m'. printed m' = printed m", OF _ assms])
     (auto simp: al_store_def al_link_def Option.bind_eq_Some_conv split: option.splits if_splits)

lemma az_step:
  assumes c: "az_process p = Do c k" and k: "k r m = (m', p')"
    and fresh: "\<forall>z. (c = Lock z \<or> c = Trylock z) \<and> r = 0 \<longrightarrow> z \<notin> az_holds p"
    and p: "\<forall>x n. p \<noteq> AZ_thread (AX_sleep x n)"
  shows "printed m' = printed m \<and> (\<forall>x n. p' \<noteq> AZ_thread (AX_sleep x n))"
proof (cases p)
  case (AZ_main q)
  from c [unfolded AZ_main az_process.simps] show ?thesis
  proof (cases rule: call_fun_cases)
    case (inside c0 k0)
    have "printed m1 = printed m" if "k0 r m = (m1, q1)" for m1 q1
      using that inside(1) walk_printed
      by (cases q) (fastforce simp: Let_def split: if_splits option.splits list.splits input.splits)+
    then show ?thesis using inside(3) k by (auto split: prod.splits)
  qed (use k in auto)
next
  case (AZ_thread q)
  then show ?thesis using c k fresh p
    by (cases q) (auto simp: ax_take_def split: if_splits option.splits)
qed

interpretation az_any: lock_tracking any_status az_process az_holds
proof unfold_locales
  fix p c r m k and n :: int and m' m'' p'
  assume p: "az_process p = Do c k" and k: "k r m' = (m'', p')"
  show "az_holds p' \<subseteq> held_after c r (az_holds p)"
  proof (cases p)
    case (AZ_main q)
    then have "\<exists>q'. p' = AZ_main q'" using az_main_step p k by blast
    then show ?thesis by auto
  next
    case (AZ_thread q)
    then show ?thesis using p k
      by (cases q) (auto simp: ax_take_def ax_print_def split: if_splits option.splits)
  qed
next
  fix p q and st :: "nat \<Rightarrow> alarms \<Rightarrow> alarms" and k :: "int \<Rightarrow> alarms \<Rightarrow> alarms \<times> az_pc"
  assume "az_process p = Do (Create st q) k"
  then show "az_holds q = {}" using az_spawned [of p "Create st q" k 0] by auto
qed

lemma az_tracked: "tracked az_holds (az_system ls)"
  by (simp add: tracked_def az_system_def)

lemma az_awake: "list_all (awake allow az_process n) (threads (az_system ls))"
  by (simp add: az_system_def)

lemma az_reach:
  assumes "reach any_status az_process (az_system ls) s"
  shows "printed (mem s) = [] \<and> (\<forall>p \<in> set (pcs s). \<forall>x n. p \<noteq> AZ_thread (AX_sleep x n))"
  using assms az_tracked az_awake
proof (induction rule: az_any.tracked_invariant)
  case start
  show ?case by (simp add: az_system_def al_mem_def)
next
  case (tick n m ps)
  then show ?case .
next
  case (move n m ps t c k r m' p')
  have e: "entry_mem c r (length ps) m = m \<or> printed (entry_mem c r (length ps) m) = printed m"
    using az_entry [OF move(3)] by blast
  have "printed m' = printed (entry_mem c r (length ps) m) \<and> (\<forall>x n. p' \<noteq> AZ_thread (AX_sleep x n))"
    using az_step [OF move(3) move(6) move(8)] move(1,2) by (metis nth_mem)
  moreover have "\<forall>x n. q \<noteq> AZ_thread (AX_sleep x n)" if "q \<in> set (spawned c r)" for q
    using az_spawned [OF move(3), of r] that by auto
  moreover have "set (ps[t := p'] @ spawned c r) \<subseteq> insert p' (set ps) \<union> set (spawned c r)"
    using set_update_subset_insert [of ps t p'] by auto
  ultimately show ?case using move(1) e by fastforce
qed

section \<open>The property\<close>

text \<open>Every call may fail, but not the second lock of the alarm thread (which POSIX allows to
  report a deadlock).\<close>

fun az_env :: "az_pc policy" where
  "az_env (AZ_thread (AX_relock x n)) r \<longleftrightarrow> r = 0"
| "az_env p r \<longleftrightarrow> True"

text \<open>C20. The program never prints an alarm: where the alarm thread means to unlock the mutex it locks
  it again. Once it is there it stays there, with the mutex, whatever the rest of the process
  does, and nothing is ever printed.\<close>
theorem alarm_mutex_hangs:
  assumes "reach az_env az_process (az_system ls) s" and "threads s ! t = (AZ_thread (AX_relock x n), Ready)"
    and "t < length (threads s)" and "reach az_env az_process s s'"
  shows "threads s' ! t = (AZ_thread (AX_relock x n), Ready) \<and> mtx s' Alarm_mutex = Held t \<and>
    printed (mem s') = []"
proof -
  have r: "reach any_status az_process (az_system ls) s"
    by (rule reach_mono [OF assms(1)]) (simp add: any_status_def)
  have "mtx s Alarm_mutex = Held t"
    by (rule trackedD [OF az_any.tracked_reach [OF r az_tracked] assms(3)]) (simp add: assms(2))
  from self_deadlock [OF assms(4) this assms(3,2)]
  have "mtx s' Alarm_mutex = Held t \<and> t < length (threads s') \<and> threads s' ! t = (AZ_thread (AX_relock x n), Ready)"
    by simp
  moreover have "reach any_status az_process (az_system ls) s'"
    by (rule reach_mono [OF reach_trans [OF assms(1,4)]]) (simp add: any_status_def)
  ultimately show ?thesis using az_reach by blast
qed

theorem alarm_mutex_hangs_witness:
  "case run az_env az_process [Exec 0 0, Exec 1 0, Tick] (az_system [Request 1 ''hi'']) of
     Some s \<Rightarrow> threads s ! 1 = (AZ_thread (AX_relock None 1), Ready) \<and> mtx s Alarm_mutex = Held 1
   | None \<Rightarrow> False" (is "case ?r of Some s \<Rightarrow> ?P s | None \<Rightarrow> False")
proof -
  have "map_option (\<lambda>s. threads s) ?r = Some [(AZ_main AY_read, Ready), (AZ_thread (AX_relock None 1), Ready)]"
    by code_simp
  then obtain s where s: "?r = Some s"
    "threads s = [(AZ_main AY_read, Ready), (AZ_thread (AX_relock None 1), Ready)]" by auto
  have "threads s ! 1 = (AZ_thread (AX_relock None 1), Ready) \<and> mtx s Alarm_mutex = Held 1 \<and> printed (mem s) = []"
    by (rule alarm_mutex_hangs [OF reach_run [OF s(1)] _ _ reach_start]) (simp_all add: s(2))
  then show ?thesis using s by simp
qed

end
