(* ===== verification/ThreadPool.thy ===== *)
theory ThreadPool
  imports Calls Queue "HOL-Library.Multiset"
begin

text \<open>
  The thread pool of \<^verbatim>\<open>chap4-pattern/crew_gpt.cc\<close>: a ring buffer of tasks, workers that take
  tasks from it, an orderly (\<open>shutdown = 1\<close>) and an immediate (\<open>shutdown = 2\<close>) shutdown, and the
  main program, which runs ten tasks on five workers. A task is a function (0 is \<^verbatim>\<open>NULL\<close>)
  and its argument; \<open>executed\<close> are the tasks that have been called.
\<close>

section \<open>The structure\<close>

datatype tp_mutex = Tp_lock
datatype tp_cond = Tp_notify

type_synonym task = "int \<times> int"

text \<open>\<open>None\<close> in an array is an element that has not been written. \<open>tp_arrays_ok\<close> says
  whether \<^verbatim>\<open>malloc\<close> returned both arrays; if not, they are never accessed.\<close>

record thread_pool =
  tp_threads :: "tid option list"
  tp_tasks :: "task option list"
  tp_arrays_ok :: bool
  thread_count :: int
  task_queue_size :: int
  head :: int
  tail :: int
  tp_count :: int
  shutdown :: int
  started :: int
  executed :: "task list"

section \<open>Adding a task\<close>

datatype pa_pc = PA_start | PA_lock | PA_signal | PA_unlock int | PA_return int | PA_crash

definition pa_insert :: "task \<Rightarrow> thread_pool \<Rightarrow> thread_pool \<times> pa_pc" where
  "pa_insert x m =
     (let next = (tail m + 1) mod task_queue_size m in
      if tp_count m = task_queue_size m then (m, PA_unlock (-1))
      else if shutdown m \<noteq> 0 then (m, PA_unlock (-1))
      else if nat (tail m) \<ge> length (tp_tasks m) then (m, PA_crash)
      else (m\<lparr>tp_tasks := (tp_tasks m)[nat (tail m) := Some x], tail := next,
             tp_count := tp_count m + 1\<rparr>, PA_signal))"

fun thread_pool_add :: "task \<Rightarrow> pa_pc \<Rightarrow> (tp_mutex, tp_cond, thread_pool, pa_pc) act" where
  "thread_pool_add x PA_start =
     Do Tau (\<lambda>_ m. (m, if fst x = 0 then PA_return (-1) else PA_lock))"
| "thread_pool_add x PA_lock =
     Do (Lock Tp_lock) (\<lambda>status m. if status \<noteq> 0 then (m, PA_return (-1)) else pa_insert x m)"
| "thread_pool_add x PA_signal =
     Do (Signal Tp_notify) (\<lambda>status m. (m, PA_unlock (if status \<noteq> 0 then -1 else 0)))"
| "thread_pool_add x (PA_unlock err) =
     Do (Unlock Tp_lock) (\<lambda>status m. (m, PA_return (if status \<noteq> 0 then -1 else err)))"
| "thread_pool_add x (PA_return v) = Return v"
| "thread_pool_add x PA_crash = Halt Undefined"

section \<open>The worker\<close>

datatype tw_pc =
    TW_lock | TW_wait | TW_unlock "task option" | TW_run "task option" | TW_leave | TW_exit | TW_crash

definition tw_while :: "thread_pool \<Rightarrow> thread_pool \<times> tw_pc" where
  "tw_while m =
     (if tp_count m = 0 \<and> shutdown m = 0 then (m, TW_wait)
      else if shutdown m = 1 \<and> tp_count m = 0 then (m\<lparr>started := started m - 1\<rparr>, TW_leave)
      else if nat (head m) \<ge> length (tp_tasks m) then (m, TW_crash)
      else (m\<lparr>head := (head m + 1) mod task_queue_size m, tp_count := tp_count m - 1\<rparr>,
            TW_unlock (tp_tasks m ! nat (head m))))"

fun thread_do_work :: "tw_pc \<Rightarrow> (tp_mutex, tp_cond, thread_pool, tw_pc) act" where
  "thread_do_work TW_lock = Do (Lock Tp_lock) (\<lambda>_. tw_while)"
| "thread_do_work TW_wait = Do (Wait Tp_notify Tp_lock) (\<lambda>_. tw_while)"
| "thread_do_work (TW_unlock x) = Do (Unlock Tp_lock) (goto (TW_run x))"
| "thread_do_work (TW_run x) =
     Do Tau (\<lambda>_ m. case x of
         None \<Rightarrow> (m, TW_crash)
       | Some t \<Rightarrow> (m\<lparr>executed := executed m @ [t]\<rparr>, TW_lock))"
| "thread_do_work TW_leave = Do (Unlock Tp_lock) (goto TW_exit)"
| "thread_do_work TW_exit = Return 0"
| "thread_do_work TW_crash = Halt Undefined"

section \<open>Destruction\<close>

datatype pd_pc =
    PD_lock | PD_broadcast | PD_unlock_join | PD_join nat tid | PD_unlock | PD_mutex | PD_cond
  | PD_return int | PD_crash

definition pd_next :: "nat \<Rightarrow> thread_pool \<Rightarrow> thread_pool \<times> pd_pc" where
  "pd_next i m =
     (if int i < thread_count m
      then (m, if i \<ge> length (tp_threads m) then PD_crash
               else case tp_threads m ! i of None \<Rightarrow> PD_crash | Some u \<Rightarrow> PD_join i u)
      else (m, PD_unlock))"

fun thread_pool_destroy :: "int \<Rightarrow> pd_pc \<Rightarrow> (tp_mutex, tp_cond, thread_pool, pd_pc) act" where
  "thread_pool_destroy graceful PD_lock =
     Do (Lock Tp_lock) (\<lambda>status m.
       if status \<noteq> 0 then (m, PD_return (-1))
       else if shutdown m \<noteq> 0 then (m, PD_unlock)
       else (m\<lparr>shutdown := (if graceful \<noteq> 0 then 1 else 2)\<rparr>, PD_broadcast))"
| "thread_pool_destroy graceful PD_broadcast =
     Do (Broadcast Tp_notify) (\<lambda>status m. (m, if status \<noteq> 0 then PD_unlock else PD_unlock_join))"
| "thread_pool_destroy graceful PD_unlock_join =
     Do (Unlock Tp_lock) (\<lambda>status m. if status \<noteq> 0 then (m, PD_unlock) else pd_next 0 m)"
| "thread_pool_destroy graceful (PD_join i u) =
     Do (Join u) (\<lambda>status m. if status \<noteq> 0 then (m, PD_unlock) else pd_next (Suc i) m)"
| "thread_pool_destroy graceful PD_unlock =
     Do (Unlock Tp_lock) (\<lambda>status m. (m, if status \<noteq> 0 then PD_return (-1) else PD_mutex))"
| "thread_pool_destroy graceful PD_mutex = Do (MDestroy Tp_lock) (goto PD_cond)"
| "thread_pool_destroy graceful PD_cond =
     Do (CDestroy Tp_notify) (\<lambda>_ m.
       (m\<lparr>tp_tasks := [], tp_threads := [], started := 0, shutdown := 0\<rparr>, PD_return 0))"
| "thread_pool_destroy graceful (PD_return v) = Return v"
| "thread_pool_destroy graceful PD_crash = Halt Undefined"

section \<open>Initialisation\<close>

text \<open>\<open>PI_worker\<close> names the thread that is created, with the start routine
  \<open>thread_do_work\<close>.\<close>

datatype pi_pc =
    PI_start | PI_malloc | PI_malloc_tasks bool | PI_mutex | PI_cond | PI_create nat | PI_destroy pd_pc
  | PI_return int | PI_worker

definition pi_next :: "nat \<Rightarrow> thread_pool \<Rightarrow> thread_pool \<times> pi_pc" where
  "pi_next i m = (m, if int i < thread_count m then PI_create i else PI_return 0)"

fun thread_pool_init :: "int \<Rightarrow> int \<Rightarrow> pi_pc \<Rightarrow> (tp_mutex, tp_cond, thread_pool, pi_pc) act" where
  "thread_pool_init num_threads num_tasks PI_start =
     Do Tau (\<lambda>_ m. (m, if num_threads \<le> 0 \<or> num_tasks \<le> 0 then PI_return (-1) else PI_malloc))"
| "thread_pool_init num_threads num_tasks PI_malloc =
     Do (Env (\<lambda>r _. 0 \<le> r)) (\<lambda>r m. (m, PI_malloc_tasks (r \<noteq> 0)))"
| "thread_pool_init num_threads num_tasks (PI_malloc_tasks ok) =
     Do (Env (\<lambda>r _. 0 \<le> r)) (\<lambda>r m.
       (m\<lparr>tp_threads := replicate (nat num_threads) None, tp_tasks := replicate (nat num_tasks) None,
          tp_arrays_ok := (ok \<and> r \<noteq> 0), thread_count := num_threads, task_queue_size := num_tasks,
          head := 0, tail := 0, tp_count := 0, shutdown := 0, started := 0\<rparr>, PI_mutex))"
| "thread_pool_init num_threads num_tasks PI_mutex =
     Do (MInit Tp_lock) (\<lambda>status m. (m, if status \<noteq> 0 then PI_return (-1) else PI_cond))"
| "thread_pool_init num_threads num_tasks PI_cond =
     Do (CInit Tp_notify) (\<lambda>status m.
       if status \<noteq> 0 \<or> \<not> tp_arrays_ok m then (m, PI_return (-1)) else pi_next 0 m)"
| "thread_pool_init num_threads num_tasks (PI_create i) =
     Do (Create (\<lambda>u m. m\<lparr>tp_threads := (tp_threads m)[i := Some u]\<rparr>) PI_worker) (\<lambda>status m.
       if status \<noteq> 0 then (m, PI_destroy PD_lock)
       else pi_next (Suc i) (m\<lparr>started := started m + 1\<rparr>))"
| "thread_pool_init num_threads num_tasks (PI_destroy p) =
     call_here PI_destroy (\<lambda>_ m. (m, PI_return (-1))) (thread_pool_destroy 0 p)"
| "thread_pool_init num_threads num_tasks (PI_return v) = Return v"
| "thread_pool_init num_threads num_tasks PI_worker = Halt Undefined"

section \<open>The main program\<close>

definition MAX_THREADS :: int where "MAX_THREADS = 5"
definition TASK_QUEUE_SIZE :: int where "TASK_QUEUE_SIZE = 10"

text \<open>The argument of the task \<open>i\<close> is the memory \<^verbatim>\<open>malloc\<close> returned for it, with \<open>i\<close> written
  into it: a null pointer is written to, too. \<^verbatim>\<open>task_function\<close> is the function 1.\<close>

datatype pm_pc =
    PM_init pi_pc | PM_malloc nat | PM_add nat pa_pc | PM_sleep | PM_destroy pd_pc | PM_return int
  | PM_crash | PM_worker tw_pc

definition pm_next :: "nat \<Rightarrow> thread_pool \<Rightarrow> thread_pool \<times> pm_pc" where
  "pm_next i m = (m, if int i < TASK_QUEUE_SIZE then PM_malloc i else PM_sleep)"

fun pool_main :: "pm_pc \<Rightarrow> (tp_mutex, tp_cond, thread_pool, pm_pc) act" where
  "pool_main (PM_init p) =
     call_new PM_init (PM_worker TW_lock)
       (\<lambda>v m. if v \<noteq> 0 then (m, PM_return 1) else pm_next 0 m)
       (thread_pool_init MAX_THREADS TASK_QUEUE_SIZE p)"
| "pool_main (PM_malloc i) =
     Do (Env (\<lambda>r _. 0 \<le> r)) (\<lambda>r m. (m, if r = 0 then PM_crash else PM_add i PA_start))"
| "pool_main (PM_add i p) =
     call_here (PM_add i) (\<lambda>_. pm_next (Suc i)) (thread_pool_add (1, int i) p)"
| "pool_main PM_sleep = Do Tau (goto (PM_destroy PD_lock))"
| "pool_main (PM_destroy p) =
     call_here PM_destroy (\<lambda>_ m. (m, PM_return 0)) (thread_pool_destroy 1 p)"
| "pool_main (PM_return v) = Halt (Exited v)"
| "pool_main PM_crash = Halt Undefined"
| "pool_main (PM_worker p) = thread_fun PM_worker (thread_do_work p)"

definition pool_mem :: "thread_pool" where
  "pool_mem = \<lparr>tp_threads = [], tp_tasks = [], tp_arrays_ok = False, thread_count = 0,
     task_queue_size = 0, head = 0, tail = 0, tp_count = 0, shutdown = 0, started = 0, executed = []\<rparr>"

definition pool_system :: "(tp_mutex, tp_cond, thread_pool, pm_pc) sys" where
  "pool_system = (boot pool_mem [PM_init PI_start])\<lparr>mtx := \<lambda>_. Raw, cnd := \<lambda>_. False\<rparr>"

section \<open>The ring buffer\<close>

definition ring :: "'a list \<Rightarrow> nat \<Rightarrow> nat \<Rightarrow> 'a list" where
  "ring ts h c = map (\<lambda>i. ts ! ((h + i) mod length ts)) [0..<c]"

lemma ring_put:
  assumes "c < length ts"
  shows "ring (ts[(h + c) mod length ts := x]) h (Suc c) = ring ts h c @ [x]"
proof -
  have L: "0 < length ts" using assms by linarith
  have "(h + c) mod length ts \<noteq> (h + i) mod length ts" if "i < c" for i
  proof
    assume e: "(h + c) mod length ts = (h + i) mod length ts"
    have "length ts dvd (h + c) - (h + i)"
      using e that mod_eq_dvd_iff_nat [of "h + i" "h + c" "length ts"] by simp
    then show False using that assms nat_dvd_not_less [of "c - i" "length ts"] by simp
  qed
  then have "map (\<lambda>i. ts[(h + c) mod length ts := x] ! ((h + i) mod length ts)) [0..<c] =
      map (\<lambda>i. ts ! ((h + i) mod length ts)) [0..<c]" by (intro map_cong) auto
  then show ?thesis using L by (simp add: ring_def)
qed

lemma ring_get:
  assumes "h < length ts"
  shows "ring ts h (Suc c) = ts ! h # ring ts ((h + 1) mod length ts) c"
proof -
  have "map (\<lambda>i. ts ! ((h + i) mod length ts)) [Suc 0..<Suc c] =
      map (\<lambda>i. ts ! (((h + 1) mod length ts + i) mod length ts)) [0..<c]"
    by (simp add: map_Suc_upt [symmetric] comp_def mod_add_left_eq del: upt_Suc)
  then show ?thesis using assms unfolding ring_def by (subst upt_conv_Cons) simp_all
qed

definition tp_ok :: "thread_pool \<Rightarrow> bool" where
  "tp_ok m \<longleftrightarrow> 0 < task_queue_size m \<and> length (tp_tasks m) = nat (task_queue_size m) \<and>
     0 \<le> head m \<and> head m < task_queue_size m \<and> 0 \<le> tp_count m \<and> tp_count m \<le> task_queue_size m \<and>
     tail m = (head m + tp_count m) mod task_queue_size m"

definition tp_content :: "thread_pool \<Rightarrow> task option list" where
  "tp_content m = ring (tp_tasks m) (nat (head m)) (nat (tp_count m))"

lemma pa_insert_ok:
  assumes ok: "tp_ok m" and room: "tp_count m < task_queue_size m" "shutdown m = 0"
    and k: "pa_insert x m = (m', p')"
  shows "tp_ok m' \<and> tp_content m' = tp_content m @ [Some x] \<and> p' = PA_signal \<and>
    m' = m\<lparr>tp_tasks := tp_tasks m', tail := tail m', tp_count := tp_count m + 1\<rparr>"
proof -
  let ?L = "task_queue_size m"
  have L: "0 < ?L" "length (tp_tasks m) = nat ?L" and t: "tail m = (head m + tp_count m) mod ?L"
    and h: "0 \<le> head m" "head m < ?L" and c: "0 \<le> tp_count m"
    using ok by (auto simp: tp_ok_def)
  have tl: "0 \<le> tail m" "tail m < ?L" using t L by simp_all
  have lt: "\<not> length (tp_tasks m) \<le> nat (tail m)" using tl L by simp
  have m': "m' = m\<lparr>tp_tasks := (tp_tasks m)[nat (tail m) := Some x], tail := (tail m + 1) mod ?L,
      tp_count := tp_count m + 1\<rparr>" "p' = PA_signal"
    using k room lt by (auto simp: pa_insert_def Let_def)
  have nt: "nat (tail m) = (nat (head m) + nat (tp_count m)) mod length (tp_tasks m)"
    unfolding t L(2) using h c L by (simp add: nat_mod_distrib nat_add_distrib)
  have sc: "nat (tp_count m + 1) = Suc (nat (tp_count m))" using c by simp
  have "nat (tp_count m) < length (tp_tasks m)" using room c L by simp
  from ring_put [OF this, of "nat (head m)" "Some x"]
  have "tp_content m' = tp_content m @ [Some x]"
    unfolding m' tp_content_def by (simp add: nt sc)
  moreover have "tp_ok m'"
    unfolding m' tp_ok_def using L h c room t by (simp add: mod_add_left_eq add.assoc)
  ultimately show ?thesis using m' by simp
qed

lemma tw_take_ok:
  assumes ok: "tp_ok m" and c: "0 < tp_count m"
    and m': "m' = m\<lparr>head := (head m + 1) mod task_queue_size m, tp_count := tp_count m - 1\<rparr>"
  shows "tp_ok m' \<and> tp_content m = tp_tasks m ! nat (head m) # tp_content m'"
proof -
  let ?L = "task_queue_size m"
  have L: "0 < ?L" "length (tp_tasks m) = nat ?L" and t: "tail m = (head m + tp_count m) mod ?L"
    and h: "0 \<le> head m" "head m < ?L"
    using ok by (auto simp: tp_ok_def)
  have sc: "nat (tp_count m) = Suc (nat (tp_count m - 1))" using c by simp
  have nh: "nat ((head m + 1) mod ?L) = (nat (head m) + 1) mod length (tp_tasks m)"
    unfolding L(2) using h L by (simp add: nat_mod_distrib nat_add_distrib)
  have "nat (head m) < length (tp_tasks m)" using h L by simp
  from ring_get [OF this, of "nat (tp_count m - 1)"]
  have "tp_content m = tp_tasks m ! nat (head m) # tp_content m'"
    unfolding m' tp_content_def sc by (simp add: nh)
  moreover have "tail m = ((head m + 1) mod ?L + (tp_count m - 1)) mod ?L"
    unfolding t mod_add_left_eq by simp
  then have "tp_ok m'"
    using ok c L by (auto simp: m' tp_ok_def)
  ultimately show ?thesis by simp
qed

lemma tw_while_cases:
  assumes ok: "tp_ok m" and s: "shutdown m = 0 \<or> shutdown m = 1" and k: "tw_while m = (m', p')"
  obtains (wait) "p' = TW_wait" "m' = m" "tp_count m = 0" "shutdown m = 0"
  | (leave) "p' = TW_leave" "m' = m\<lparr>started := started m - 1\<rparr>" "tp_count m = 0" "shutdown m = 1"
  | (take) x where "p' = TW_unlock x" "0 < tp_count m" "tp_ok m'" "tp_content m = x # tp_content m'"
      "m' = m\<lparr>head := head m', tp_count := tp_count m - 1\<rparr>"
proof (cases "tp_count m = 0")
  case True
  then show ?thesis using s k wait leave by (auto simp: tw_while_def)
next
  case False
  then have c: "0 < tp_count m" using ok by (simp add: tp_ok_def)
  have "\<not> length (tp_tasks m) \<le> nat (head m)" using ok unfolding tp_ok_def by linarith
  then have m': "m' = m\<lparr>head := (head m + 1) mod task_queue_size m, tp_count := tp_count m - 1\<rparr>"
    "p' = TW_unlock (tp_tasks m ! nat (head m))"
    using k False by (auto simp: tw_while_def)
  then show ?thesis using tw_take_ok [OF ok c m'(1)] c take by simp
qed

section \<open>The ring buffer is a queue\<close>

text \<open>Adding a task under the lock; the worker's part under the lock.\<close>

definition tp_put :: "unit \<Rightarrow> task \<Rightarrow> thread_pool \<Rightarrow> thread_pool" where
  "tp_put u x m = fst (pa_insert x m)"

definition tp_empty :: "thread_pool \<Rightarrow> bool" where
  "tp_empty m \<longleftrightarrow> tp_count m = 0"

definition tp_get :: "thread_pool \<Rightarrow> task \<times> thread_pool" where
  "tp_get m = (case tw_while m of
     (m', TW_unlock (Some x)) \<Rightarrow> (x, m')
   | (m', _) \<Rightarrow> ((0, 0), m'))"

definition tp_room :: "thread_pool \<Rightarrow> unit \<Rightarrow> bool" where
  "tp_room m u \<longleftrightarrow> tp_count m < task_queue_size m"

definition tp_holds_tasks :: "thread_pool \<Rightarrow> task list \<Rightarrow> bool" where
  "tp_holds_tasks m xs \<longleftrightarrow> tp_ok m \<and> shutdown m = 0 \<and> tp_content m = map Some xs"

lemma tp_content_length [simp]: "length (tp_content m) = nat (tp_count m)"
  by (simp add: tp_content_def ring_def)

interpretation pool: fifo tp_holds_tasks tp_put tp_empty tp_get tp_room
proof unfold_locales
  fix m xs assume c: "tp_holds_tasks m xs"
  then have "length (tp_content m) = length xs" by (simp add: tp_holds_tasks_def)
  then show "tp_empty m \<longleftrightarrow> xs = []" using c by (auto simp: tp_empty_def tp_holds_tasks_def tp_ok_def)
next
  fix m xs a d assume c: "tp_holds_tasks m xs" "tp_room m a"
  obtain m' p' where k: "pa_insert d m = (m', p')" by (cases "pa_insert d m")
  have "tp_ok m' \<and> tp_content m' = tp_content m @ [Some d] \<and> p' = PA_signal \<and>
    m' = m\<lparr>tp_tasks := tp_tasks m', tail := tail m', tp_count := tp_count m + 1\<rparr>"
    by (rule pa_insert_ok [OF _ _ _ k]) (use c in \<open>simp_all add: tp_holds_tasks_def tp_room_def\<close>)
  moreover from this have "shutdown m' = shutdown m" by (metis thread_pool.surjective thread_pool.update_convs(2,7,8) thread_pool.select_convs(9))
  ultimately show "tp_holds_tasks (tp_put a d m) (xs @ [d])"
    using c k by (simp add: tp_holds_tasks_def tp_put_def)
next
  fix m x xs assume c: "tp_holds_tasks m (x # xs)"
  obtain m' p' where k: "tw_while m = (m', p')" by (cases "tw_while m")
  have ok: "tp_ok m" "shutdown m = 0 \<or> shutdown m = 1" and l: "tp_content m = Some x # map Some xs"
    using c by (simp_all add: tp_holds_tasks_def)
  have "length (tp_content m) \<noteq> 0" using l by simp
  then have "tp_count m \<noteq> 0" by simp
  with tw_while_cases [OF ok k] obtain y where y: "p' = TW_unlock y" "tp_ok m'" "tp_content m = y # tp_content m'"
    "m' = m\<lparr>head := head m', tp_count := tp_count m - 1\<rparr>" by metis
  have "shutdown m' = shutdown m" by (subst y(4)) simp
  moreover have "y = Some x" "tp_content m' = map Some xs" using l y(3) by simp_all
  ultimately show "fst (tp_get m) = x \<and> tp_holds_tasks (snd (tp_get m)) xs"
    using y(1,2) k c by (simp add: tp_get_def tp_holds_tasks_def)
qed

section \<open>Every task is executed once\<close>

text \<open>The environment in which no call fails. The main thread is followed up to its second unlock
  in \<open>thread_pool_destroy\<close>.\<close>

fun tp_quiet :: "pm_pc policy" where
  "tp_quiet (PM_init PI_malloc) r \<longleftrightarrow> 0 < r"
| "tp_quiet (PM_init (PI_malloc_tasks b)) r \<longleftrightarrow> 0 < r"
| "tp_quiet (PM_malloc i) r \<longleftrightarrow> 0 < r"
| "tp_quiet (PM_destroy PD_unlock) r \<longleftrightarrow> False"
| "tp_quiet p r \<longleftrightarrow> r = 0"

fun early :: "pm_pc \<Rightarrow> bool" where
  "early (PM_init PI_start) \<longleftrightarrow> True"
| "early (PM_init PI_malloc) \<longleftrightarrow> True"
| "early (PM_init (PI_malloc_tasks b)) \<longleftrightarrow> b"
| "early _ \<longleftrightarrow> False"

text \<open>The points of the main thread in a run without failures, the number of tasks it has
  added, and whether it has begun the shutdown.\<close>

fun main_ok :: "pm_pc \<Rightarrow> bool" where
  "main_ok (PM_init (PI_destroy p)) \<longleftrightarrow> False"
| "main_ok (PM_init (PI_return v)) \<longleftrightarrow> v = 0"
| "main_ok (PM_init PI_worker) \<longleftrightarrow> False"
| "main_ok (PM_init (PI_malloc_tasks b)) \<longleftrightarrow> False"
| "main_ok (PM_init p) \<longleftrightarrow> True"
| "main_ok (PM_malloc i) \<longleftrightarrow> i < 10"
| "main_ok (PM_add i PA_crash) \<longleftrightarrow> False"
| "main_ok (PM_add i (PA_unlock v)) \<longleftrightarrow> i < 10 \<and> v = 0"
| "main_ok (PM_add i (PA_return v)) \<longleftrightarrow> i < 10 \<and> v = 0"
| "main_ok (PM_add i p) \<longleftrightarrow> i < 10"
| "main_ok PM_sleep \<longleftrightarrow> True"
| "main_ok (PM_destroy PD_mutex) \<longleftrightarrow> False"
| "main_ok (PM_destroy PD_cond) \<longleftrightarrow> False"
| "main_ok (PM_destroy (PD_return v)) \<longleftrightarrow> False"
| "main_ok (PM_destroy p) \<longleftrightarrow> True"
| "main_ok p \<longleftrightarrow> False"

fun added :: "pm_pc \<Rightarrow> nat" where
  "added (PM_init p) = 0"
| "added (PM_malloc i) = i"
| "added (PM_add i PA_start) = i"
| "added (PM_add i PA_lock) = i"
| "added (PM_add i p) = Suc i"
| "added p = 10"

fun closing :: "pm_pc \<Rightarrow> bool" where
  "closing (PM_destroy PD_lock) \<longleftrightarrow> False"
| "closing (PM_destroy p) \<longleftrightarrow> True"
| "closing p \<longleftrightarrow> False"

fun left :: "pm_pc \<Rightarrow> bool" where
  "left (PM_worker TW_leave) \<longleftrightarrow> True"
| "left (PM_worker TW_exit) \<longleftrightarrow> True"
| "left p \<longleftrightarrow> False"

fun hand :: "pm_pc \<Rightarrow> task option list" where
  "hand (PM_worker (TW_unlock x)) = [x]"
| "hand (PM_worker (TW_run x)) = [x]"
| "hand p = []"

definition main_task :: "nat \<Rightarrow> task" where
  "main_task i = (1, int i)"

definition owed :: "nat \<Rightarrow> task option multiset" where
  "owed n = mset (map (Some \<circ> main_task) [0..<n])"

lemma owed_simps [simp]: "owed 0 = {#}" "owed (Suc n) = owed n + {#Some (main_task n)#}"
  by (simp_all add: owed_def)

definition pool_tally :: "thread_pool \<Rightarrow> pm_pc list \<Rightarrow> task option multiset" where
  "pool_tally m ws = mset (map Some (executed m)) + mset (tp_content m) + mset (concat (map hand ws))"

definition worker_ok :: "thread_pool \<Rightarrow> pm_pc \<Rightarrow> bool" where
  "worker_ok m w \<longleftrightarrow> (\<exists>q. w = PM_worker q \<and> q \<noteq> TW_crash) \<and> (left w \<longrightarrow> shutdown m = 1 \<and> tp_count m = 0)"

definition pool_inv :: "thread_pool \<Rightarrow> pm_pc \<Rightarrow> pm_pc list \<Rightarrow> bool" where
  "pool_inv m p ws \<longleftrightarrow>
     early p \<and> ws = [] \<and> executed m = [] \<or>
     \<not> early p \<and> tp_ok m \<and> task_queue_size m = 10 \<and> main_ok p \<and> tp_arrays_ok m \<and>
     shutdown m = of_bool (closing p) \<and>
     list_all (worker_ok m) ws \<and> pool_tally m ws = owed (added p)"

lemma hands_update:
  "t < length ws \<Longrightarrow> mset (concat (map hand (ws[t := w]))) + mset (hand (ws ! t)) =
     mset (concat (map hand ws)) + mset (hand w)"
proof (induction ws arbitrary: t)
  case (Cons x ws)
  then show ?case by (cases t) (auto simp: ac_simps)
qed simp

lemma pool_count_le:
  assumes "pool_tally m ws = owed n" and "tp_ok m"
  shows "tp_count m \<le> int n"
proof -
  have "size (mset (tp_content m)) \<le> size (pool_tally m ws)" by (simp add: pool_tally_def)
  then show ?thesis using assms by (simp add: tp_ok_def owed_def)
qed

text \<open>The worker runs.\<close>

lemma pool_worker_step:
  assumes inv: "pool_inv m p ws" and t: "t < length ws" and w: "ws ! t = PM_worker q"
    and q: "thread_do_work q = Do c k" and r: "tp_quiet (PM_worker q) r" and k: "k r m = (m', q')"
  shows "pool_inv m' p (ws[t := PM_worker q'])"
proof -
  have I: "\<not> early p" "tp_ok m" "task_queue_size m = 10" "main_ok p" "shutdown m = of_bool (closing p)"
    "list_all (worker_ok m) ws" "pool_tally m ws = owed (added p)" "tp_arrays_ok m"
    using inv t by (auto simp: pool_inv_def)
  have sh: "shutdown m = 0 \<or> shutdown m = 1" using I(5) by simp
  note hu = hands_update [OF t, of "PM_worker q'", unfolded w]
  have keep: "list_all (worker_ok m') (ws[t := PM_worker q'])"
    if "shutdown m' = shutdown m" "tp_count m = 0 \<longrightarrow> tp_count m' = 0" "worker_ok m' (PM_worker q')"
  proof (rule list_all_update_mono [where P = "worker_ok m" and Q = "worker_ok m'", OF I(6) that(3)])
    show "worker_ok m' x" if "worker_ok m x" for x using that \<open>shutdown m' = shutdown m\<close>
      \<open>tp_count m = 0 \<longrightarrow> tp_count m' = 0\<close> by (auto simp: worker_ok_def)
  qed
  have loop: ?thesis if "tw_while m = (m', q')" "hand (PM_worker q) = []"
    using I(2) sh that(1)
  proof (cases rule: tw_while_cases)
    case wait
    then show ?thesis using I keep hu that(2) by (auto simp: pool_inv_def pool_tally_def worker_ok_def)
  next
    case leave
    have "tp_ok m' \<and> tp_content m' = tp_content m" using I(2) leave(2) by (simp add: tp_ok_def tp_content_def)
    then show ?thesis using I leave keep hu that(2) by (auto simp: pool_inv_def pool_tally_def worker_ok_def)
  next
    case (take x)
    have m': "shutdown m' = shutdown m" "executed m' = executed m" "task_queue_size m' = task_queue_size m"
      "tp_arrays_ok m' = tp_arrays_ok m"
      by (subst take(5), simp)+
    have "pool_tally m' (ws[t := PM_worker q']) = pool_tally m ws"
      unfolding pool_tally_def take(4) m' using hu that(2) take(1) by (simp add: ac_simps)
    then show ?thesis using I m' take keep by (auto simp: pool_inv_def worker_ok_def)
  qed
  show ?thesis
  proof (cases q)
    case (TW_unlock x)
    then show ?thesis using q k I keep hu by (auto simp: pool_inv_def pool_tally_def worker_ok_def ac_simps)
  next
    case (TW_run x)
    have "x \<in># pool_tally m ws"
    proof -
      have "PM_worker (TW_run x) \<in> set ws" using nth_mem [OF t] w TW_run by simp
      then have "x \<in> set (concat (map hand ws))" by force
      then show ?thesis by (simp add: pool_tally_def)
    qed
    then have "x \<noteq> None" unfolding I(7) by (auto simp: owed_def)
    then obtain y where x: "x = Some y" by blast
    have m': "m' = m\<lparr>executed := executed m @ [y]\<rparr>" "q' = TW_lock" using q k TW_run x by auto
    have "tp_ok m' \<and> tp_content m' = tp_content m" using I(2) m' by (simp add: tp_ok_def tp_content_def)
    moreover have "pool_tally m' (ws[t := PM_worker q']) = pool_tally m ws"
      using hu TW_run x m' calculation by (simp add: pool_tally_def ac_simps)
    ultimately show ?thesis using I m' keep by (auto simp: pool_inv_def worker_ok_def)
  next
    case TW_leave
    then show ?thesis using q k I keep hu w t
      by (auto simp: pool_inv_def pool_tally_def worker_ok_def list_all_length)
  qed (use q k loop in auto)
qed

text \<open>The main thread runs.\<close>

lemma pool_inv_frame:
  assumes "pool_inv m p ws" and "\<not> early p" and "\<not> early p'" and "main_ok p'"
    and "shutdown m' = of_bool (closing p')" and "added p' = added p"
    and "\<forall>w. worker_ok m w \<longrightarrow> worker_ok m' w"
    and "tp_ok m' = tp_ok m" and "task_queue_size m' = task_queue_size m" and "tp_arrays_ok m' = tp_arrays_ok m"
    and "tp_content m' = tp_content m" and "executed m' = executed m"
  shows "pool_inv m' p' ws"
proof -
  have "list_all (worker_ok m') ws" if "list_all (worker_ok m) ws"
    using that assms(7) by (auto simp: list_all_iff)
  then show ?thesis using assms by (auto simp: pool_inv_def pool_tally_def)
qed

lemma pool_init_step:
  assumes inv: "pool_inv m (PM_init q) ws" and p: "pool_main (PM_init q) = Do c k" and r: "tp_quiet (PM_init q) r"
    and k: "k r (entry_mem c r l m) = (m', p')"
  shows "pool_inv m' p' (ws @ spawned c r)"
proof (cases q)
  case (PI_create i)
  have I: "pool_inv (entry_mem c r l m) (PM_init q) (ws @ [PM_worker TW_lock])"
    using inv PI_create p r
    by (auto simp: pool_inv_def worker_ok_def tp_ok_def pool_tally_def tp_content_def list_all_iff)
  have "shutdown m = 0" using inv PI_create by (simp add: pool_inv_def)
  with I show ?thesis
    using PI_create p r k
    by (auto simp: pi_next_def tp_ok_def tp_content_def worker_ok_def intro!: pool_inv_frame [OF I]
        split: if_splits)
next
  case (PI_malloc_tasks b)
  then show ?thesis using inv p r k
    by (auto simp: pool_inv_def MAX_THREADS_def TASK_QUEUE_SIZE_def tp_ok_def pool_tally_def tp_content_def ring_def)
next
  case PI_mutex
  then show ?thesis using inv p r k by (auto intro!: pool_inv_frame [OF inv] simp: pool_inv_def)
next
  case PI_cond
  then show ?thesis using inv p r k
    by (auto intro!: pool_inv_frame [OF inv] simp: pool_inv_def pi_next_def split: if_splits)
next
  case (PI_return v)
  then show ?thesis using inv p r k
    by (auto intro!: pool_inv_frame [OF inv] simp: pool_inv_def pm_next_def TASK_QUEUE_SIZE_def)
next
  case (PI_destroy q')
  then show ?thesis using inv by (simp add: pool_inv_def)
qed (use inv p r k in \<open>auto simp: pool_inv_def MAX_THREADS_def TASK_QUEUE_SIZE_def\<close>)

lemma pool_add_step:
  assumes inv: "pool_inv m (PM_add i q) ws" and p: "pool_main (PM_add i q) = Do c k"
    and r: "tp_quiet (PM_add i q) r" and k: "k r m = (m', p')"
  shows "pool_inv m' p' ws"
proof (cases q)
  case PA_lock
  have I: "tp_ok m" "task_queue_size m = 10" "i < 10" "shutdown m = 0" "tp_arrays_ok m"
    "list_all (worker_ok m) ws" "pool_tally m ws = owed i"
    using inv PA_lock by (auto simp: pool_inv_def)
  have "tp_count m < 10" using pool_count_le [OF I(7,1)] I(3) by simp
  moreover obtain m1 q1 where k1: "pa_insert (main_task i) m = (m1, q1)" by (cases "pa_insert (main_task i) m")
  ultimately have ins: "tp_ok m1" "tp_content m1 = tp_content m @ [Some (main_task i)]" "q1 = PA_signal"
    "m1 = m\<lparr>tp_tasks := tp_tasks m1, tail := tail m1, tp_count := tp_count m + 1\<rparr>"
    using pa_insert_ok [OF I(1) _ I(4) k1] I(2) by simp_all
  have f: "task_queue_size m1 = 10" "shutdown m1 = 0" "tp_arrays_ok m1" "executed m1 = executed m"
    by (subst ins(4), simp add: I)+
  have "pool_tally m1 ws = owed (Suc i)"
    using I(7) by (simp add: pool_tally_def ins(2) f)
  moreover have "list_all (worker_ok m1) ws"
    using I(4,6) by (auto simp: list_all_iff worker_ok_def)
  moreover have "m' = m1" "p' = PM_add i PA_signal"
    using p k k1 r PA_lock ins(3) by (auto simp: main_task_def)
  ultimately show ?thesis using ins f I(3) by (simp add: pool_inv_def)
next
  case (PA_return v)
  have I: "tp_ok m" "task_queue_size m = 10" "i < 10" "shutdown m = 0" "tp_arrays_ok m"
    "list_all (worker_ok m) ws" "pool_tally m ws = owed (Suc i)"
    using inv PA_return by (auto simp: pool_inv_def)
  have "p' = (if i = 9 then PM_sleep else PM_malloc (Suc i))" "m' = m"
    using p k r PA_return I(3) by (auto simp: pm_next_def TASK_QUEUE_SIZE_def)
  moreover have "owed 10 = owed (Suc 9)" by (simp del: owed_simps)
  ultimately show ?thesis using I by (auto simp: pool_inv_def simp del: owed_simps)
qed (use inv p r k in \<open>auto simp: pool_inv_def pm_next_def TASK_QUEUE_SIZE_def split: if_splits\<close>)

lemma pd_next_same: "fst (pd_next i m) = m"
  by (simp add: pd_next_def)

lemma pd_next_ok:
  "main_ok (PM_destroy (snd (pd_next i m)))" "closing (PM_destroy (snd (pd_next i m)))" "added (PM_destroy q) = 10"
  by (auto simp: pd_next_def split: option.splits)

lemma pool_destroy_step:
  assumes inv: "pool_inv m (PM_destroy q) ws" and p: "pool_main (PM_destroy q) = Do c k"
    and r: "tp_quiet (PM_destroy q) r" and k: "k r m = (m', p')"
  shows "pool_inv m' p' ws"
proof (cases q)
  case PD_lock
  have "shutdown m = 0" using inv PD_lock by (simp add: pool_inv_def)
  moreover from this have m': "m' = m\<lparr>shutdown := 1\<rparr>" "p' = PM_destroy PD_broadcast" using PD_lock p r k by auto
  ultimately show ?thesis
    by (intro pool_inv_frame [OF inv]) (simp_all add: PD_lock tp_ok_def tp_content_def worker_ok_def)
next
  case PD_broadcast
  then have "m' = m" "p' = PM_destroy PD_unlock_join" using p r k by auto
  then show ?thesis by (intro pool_inv_frame [OF inv]) (use inv PD_broadcast in \<open>simp_all add: pool_inv_def\<close>)
next
  case PD_unlock_join
  then have "m' = m" "p' = PM_destroy (snd (pd_next 0 m))"
    using p r k pd_next_same [of "0" m] by (auto split: prod.splits)
  then show ?thesis using pd_next_ok(1,2) [of 0 m]
    by (intro pool_inv_frame [OF inv]) (use inv PD_unlock_join in \<open>simp_all add: pool_inv_def\<close>)
next
  case (PD_join i u)
  then have "m' = m" "p' = PM_destroy (snd (pd_next (Suc i) m))"
    using p r k pd_next_same [of "Suc i" m] by (auto split: prod.splits)
  then show ?thesis using pd_next_ok(1,2) [of "Suc i" m]
    by (intro pool_inv_frame [OF inv]) (use inv PD_join in \<open>simp_all add: pool_inv_def\<close>)
qed (use inv p r k in \<open>simp_all add: pool_inv_def\<close>)

lemma pool_main_step:
  assumes inv: "pool_inv m p ws" and p: "pool_main p = Do c k" and r: "tp_quiet p r"
    and k: "k r (entry_mem c r l m) = (m', p')"
  shows "pool_inv m' p' (ws @ spawned c r)"
proof (cases p)
  case (PM_init q)
  then show ?thesis using pool_init_step inv p r k by blast
next
  case (PM_add i q)
  then have "entry_mem c r l m = m" "spawned c r = []" using p by (cases q; auto)+
  then show ?thesis using pool_add_step [of m i q ws c k r m' p'] PM_add inv p r k by simp
next
  case (PM_destroy q)
  then have "entry_mem c r l m = m" "spawned c r = []" using p by (cases q; auto)+
  then show ?thesis using pool_destroy_step [of m q ws c k r m' p'] PM_destroy inv p r k by simp
qed (use inv p r k in \<open>auto simp: pool_inv_def TASK_QUEUE_SIZE_def\<close>)

text \<open>The main thread is thread 0, the workers are the others.\<close>

lemma pool_reach:
  assumes "reach tp_quiet pool_main pool_system s"
  shows "\<exists>p ws. pcs s = p # ws \<and> pool_inv (mem s) p ws"
  using assms
proof (induction rule: reach_invariant)
  case start
  show ?case by (simp add: pool_system_def pool_inv_def pool_mem_def)
next
  case (tick n m ps)
  then show ?case .
next
  case (move n m ps t c k r m' p')
  then obtain p ws where ps: "ps = p # ws" and inv: "pool_inv m p ws" by blast
  show ?case
  proof (cases t)
    case 0
    then have p: "pool_main p = Do c k" "tp_quiet p r" using move ps by simp_all
    show ?thesis using pool_main_step [OF inv p move.hyps(5)] ps 0 by simp
  next
    case (Suc u)
    then have u: "u < length ws" "pool_main (ws ! u) = Do c k" "tp_quiet (ws ! u) r"
      using move ps by simp_all
    have "list_all (worker_ok m) ws" using inv u(1) by (auto simp: pool_inv_def)
    then obtain q where q: "ws ! u = PM_worker q" using u(1) by (auto simp: list_all_length worker_ok_def)
    with u obtain c0 k0 where w: "thread_do_work q = Do c0 k0" by (cases "thread_do_work q") auto
    have c: "entry_mem c r (length ps) m = m" "spawned c r = []" using u(2) w q by (cases q; auto)+
    obtain m1 q1 where k1: "k0 r m = (m1, q1)" by (cases "k0 r m")
    then have "m' = m1" "p' = PM_worker q1" using move.hyps(5) u(2) w q c by auto
    then show ?thesis
      using pool_worker_step [OF inv u(1) q w _ k1] u(3) q c ps Suc by simp
  qed
qed

section \<open>The properties\<close>

text \<open>C11. Nothing the program adds to the pool is lost or run twice: when all workers have left their
  loop, the tasks that were called are exactly the ten tasks \<^verbatim>\<open>main\<close> created, each once. Every
  interleaving, every spurious wakeup; no call fails.\<close>
theorem pool_all_tasks_run:
  assumes "reach tp_quiet pool_main pool_system s"
    and "pcs s = p # ws" and "ws \<noteq> []" and "list_all left ws"
  shows "mset (executed (mem s)) = mset (map main_task [0..<10])"
proof -
  have inv: "pool_inv (mem s) p ws" using pool_reach [OF assms(1)] assms(2) by auto
  then have I: "list_all (worker_ok (mem s)) ws" "shutdown (mem s) = of_bool (closing p)"
    "pool_tally (mem s) ws = owed (added p)"
    using assms(3) by (auto simp: pool_inv_def)
  obtain w ws' where ws: "ws = w # ws'" using assms(3) by (cases ws) auto
  have e: "shutdown (mem s) = 1" "tp_count (mem s) = 0"
    using I(1) assms(4) ws by (auto simp: worker_ok_def)
  have "tp_content (mem s) = []" using e(2) by (simp add: tp_content_def ring_def)
  moreover have "hand w = []" if "left w" for w using that by (cases w rule: left.cases) auto
  then have h: "concat (map hand ws) = []" using assms(4) by (auto simp: list_all_iff)
  moreover have "added p = 10" using e(1) I(2) by (cases p rule: closing.cases) auto
  ultimately have "image_mset Some (mset (executed (mem s))) = image_mset Some (mset (map main_task [0..<10]))"
    using I(3) by (simp add: pool_tally_def owed_def multiset.map_comp h del: upt_Suc)
  then show ?thesis by (rule injD [OF multiset.inj_map [OF inj_Some]])
qed

definition pool_run :: "event list" where
  "pool_run = map (Exec 0) ([0, 1, 1, 0, 0, 0, 0, 0, 0, 0, 0] @ concat (replicate 10 [1, 0, 0, 0, 0, 0])) @
     replicate 30 (Exec 1 0) @ replicate 4 (Exec 0 0) @
     concat (map (\<lambda>t. [Exec t 0, Exec t 0]) [1, 2, 3, 4, 5])"

theorem pool_all_tasks_run_witness:
  "case run tp_quiet pool_main pool_run pool_system of
     Some s \<Rightarrow> length (pcs s) = 6 \<and> mset (executed (mem s)) = mset (map main_task [0..<10])
   | None \<Rightarrow> False" (is "case ?r of Some s \<Rightarrow> ?P s | None \<Rightarrow> False")
proof -
  have "map_option pcs ?r = Some (PM_destroy (PD_join 0 1) # replicate 5 (PM_worker TW_exit))" by code_simp
  then obtain s where s: "?r = Some s" "pcs s = PM_destroy (PD_join 0 1) # replicate 5 (PM_worker TW_exit)"
    by auto
  have "mset (executed (mem s)) = mset (map main_task [0..<10])"
    by (rule pool_all_tasks_run [OF reach_run [OF s(1)] s(2)]) (simp_all add: list_all_iff)
  then show ?thesis using s by simp
qed

text \<open>C12. The ring buffer of the pool is a queue: in any sequence of requests, adding under the
  lock while there is room, and taking as a worker does, the tasks come out in the order they
  went in.\<close>
theorem pool_fifo:
  assumes "tp_ok m" and "tp_count m = 0" and "shutdown m = 0"
    and "serve tp_put tp_empty tp_get tp_room rs m = (ins, outs, m')"
  shows "\<exists>rest. ins = outs @ rest \<and> tp_content m' = map Some rest"
proof -
  have "tp_holds_tasks m []" using assms by (simp add: tp_holds_tasks_def tp_content_def ring_def)
  from pool.in_order [OF this assms(4)] show ?thesis by (auto simp: tp_holds_tasks_def)
qed

definition small_pool :: thread_pool where
  "small_pool = pool_mem\<lparr>tp_tasks := [None, None], task_queue_size := 2\<rparr>"

theorem pool_fifo_witness:
  "\<exists>rest. [(1, 5), (1, 6), (1, 7)] = [(1, 5), (1, 6)] @ rest \<and>
     tp_content (snd (snd (serve tp_put tp_empty tp_get tp_room
       [Some ((), (1, 5)), Some ((), (1, 6)), Some ((), (1, 9)), None, Some ((), (1, 7)), None] small_pool))) =
     map Some rest"
proof -
  let ?rs = "[Some ((), (1, 5)), Some ((), (1, 6)), Some ((), (1, 9)), None, Some ((), (1, 7)), None]"
  have e: "serve tp_put tp_empty tp_get tp_room ?rs small_pool =
    ([(1, 5), (1, 6), (1, 7)], [(1, 5), (1, 6)],
     snd (snd (serve tp_put tp_empty tp_get tp_room ?rs small_pool)))" by code_simp
  show ?thesis
    by (rule pool_fifo [OF _ _ _ e]) (simp_all add: tp_ok_def small_pool_def pool_mem_def)
qed

text \<open>C13. While the pool is up, its indices stay in the ring: \<open>0 \<le> head < size\<close>,
  \<open>0 \<le> count \<le> size\<close> and \<open>tail = (head + count) mod size\<close>, and every \<open>thread_pool_add\<close> of
  \<^verbatim>\<open>main\<close> succeeds: the queue, as large as the number of tasks, never overflows.\<close>
theorem pool_ring_bounds:
  assumes "reach tp_quiet pool_main pool_system s" and "1 < length (pcs s)"
  shows "tp_ok (mem s) \<and> pcs s ! 0 \<noteq> PM_add i (PA_return (-1))"
proof -
  obtain p ws where p: "pcs s = p # ws" "pool_inv (mem s) p ws" using pool_reach [OF assms(1)] by auto
  moreover from p(1) assms(2) have "ws \<noteq> []" by auto
  ultimately show ?thesis by (auto simp: pool_inv_def)
qed

theorem pool_ring_bounds_witness:
  "case run tp_quiet pool_main pool_run pool_system of
     Some s \<Rightarrow> tp_ok (mem s) | None \<Rightarrow> False" (is "case ?r of Some s \<Rightarrow> ?P s | None \<Rightarrow> False")
proof -
  have "map_option (\<lambda>s. length (threads s)) ?r = Some 6" by code_simp
  then obtain s where s: "?r = Some s" "length (threads s) = 6" by auto
  have "tp_ok (mem s) \<and> pcs s ! 0 \<noteq> PM_add 0 (PA_return (-1))"
    by (rule pool_ring_bounds [OF reach_run [OF s(1)]]) (simp add: s(2))
  then show ?thesis using s by simp
qed

text \<open>An immediate shutdown (\<open>thread_pool_destroy\<close> with \<open>graceful = 0\<close>) never ends: with
  \<open>shutdown = 2\<close> a worker does not leave its loop, whatever its calls return, and every task it
  takes, from an empty ring too, counts \<open>count\<close> down.\<close>
theorem pool_immediate_never_ends:
  assumes "shutdown m = 2"
  shows "snd (seq_run thread_do_work rs TW_lock m) \<notin> {TW_leave, TW_exit, TW_wait} \<and>
    tp_count (fst (seq_run thread_do_work rs TW_lock m)) \<le> tp_count m"
proof -
  have "snd (seq_run thread_do_work rs q m) \<notin> {TW_leave, TW_exit, TW_wait} \<and>
    tp_count (fst (seq_run thread_do_work rs q m)) \<le> tp_count m"
    if "q \<notin> {TW_leave, TW_exit, TW_wait}" "shutdown m = 2" for q m
    using that
  proof (induction rs arbitrary: q m)
    case (Cons r rs)
    show ?case
    proof (cases "thread_do_work q")
      case (Do c k)
      obtain m1 q1 where k: "k r m = (m1, q1)" by (cases "k r m")
      have "q1 \<notin> {TW_leave, TW_exit, TW_wait} \<and> shutdown m1 = 2 \<and> tp_count m1 \<le> tp_count m"
        using Do k Cons.prems by (cases q) (auto simp: tw_while_def split: if_splits option.splits)
      with Cons.IH [of q1 m1] Do k show ?thesis by auto
    qed (use Cons.prems in auto)
  qed simp
  then show ?thesis using assms by simp
qed

theorem pool_immediate_never_ends_witness:
  "snd (seq_run thread_do_work [0, 0, 0] TW_lock (small_pool\<lparr>shutdown := 2\<rparr>)) \<notin> {TW_leave, TW_exit, TW_wait} \<and>
    tp_count (fst (seq_run thread_do_work [0, 0, 0] TW_lock (small_pool\<lparr>shutdown := 2\<rparr>))) \<le> 0"
  using pool_immediate_never_ends [of "small_pool\<lparr>shutdown := 2\<rparr>" "[0, 0, 0]"]
  by (simp add: small_pool_def pool_mem_def)

text \<open>A shutdown without any failure ends in undefined behaviour: after joining the workers,
  \<open>thread_pool_destroy\<close> unlocks the mutex it has unlocked already.\<close>
theorem pool_double_unlock:
  "\<exists>s. reach any_status pool_main pool_system s \<and> ended s = Some Undefined \<and>
     pcs s = PM_destroy PD_unlock # replicate 5 (PM_worker TW_exit)"
proof -
  have "map_option (\<lambda>s. (ended s, pcs s)) (run any_status pool_main (pool_run @ replicate 6 (Exec 0 0)) pool_system) =
    Some (Some Undefined, PM_destroy PD_unlock # replicate 5 (PM_worker TW_exit))" by code_simp
  from reach_exists [OF this] show ?thesis by auto
qed

end
