(* ===== verification/Pipe.thy ===== *)
theory Pipe
  imports Calls
begin

text \<open>
  The pipeline of \<^verbatim>\<open>chap4-pattern/pipe.cc\<close>: a list of stages, a thread for each but the
  last; a stage is given a value by \<open>pipe_send\<close>, adds one and sends it to the next stage, the
  main program enters values and asks for results. The stages are cells in a heap,
  with a mutex and two conditions each. \<open>None\<close> in \<open>data\<close> is a value that has never been
  written (\<^verbatim>\<open>malloc\<close> does not initialise it), and what is computed from it.
\<close>

section \<open>The data\<close>

datatype pp_mutex = Pipe_mutex | Stage_mutex nat
datatype pp_cond = Avail nat | Stage_ready nat

record stage =
  data_ready :: int
  data :: "int option"
  stage_thread :: "tid option"
  next_stage :: "nat option"

text \<open>A line of input: at most one character, \<^verbatim>\<open>=\<close>, no number, a number.\<close>

datatype pipe_line = Short_line | Equals | No_number | Value int

record pipe =
  pipe_heap :: "nat \<Rightarrow> stage option"
  pipe_head :: "nat option"
  pipe_tail :: "nat option"
  pipe_stages :: int
  active :: int
  result :: "int option"
  results :: "int option list"
  lines :: "pipe_line list"

definition LONG_MAX :: int where "LONG_MAX = 9223372036854775807"

section \<open>Sending a value to a stage\<close>

datatype ps_pc = PS_lock | PS_wait | PS_signal | PS_unlock | PS_fail int | PS_return int | PS_crash

definition ps_while :: "nat \<Rightarrow> int option \<Rightarrow> pipe \<Rightarrow> pipe \<times> ps_pc" where
  "ps_while a v m =
     (case pipe_heap m a of
        None \<Rightarrow> (m, PS_crash)
      | Some st \<Rightarrow>
          if data_ready st \<noteq> 0 then (m, PS_wait)
          else (m\<lparr>pipe_heap := (pipe_heap m)(a \<mapsto> st\<lparr>data := v, data_ready := 1\<rparr>)\<rparr>, PS_signal))"

fun pipe_send :: "nat \<Rightarrow> int option \<Rightarrow> ps_pc \<Rightarrow> (pp_mutex, pp_cond, pipe, ps_pc) act" where
  "pipe_send a v PS_lock =
     Do (Lock (Stage_mutex a)) (\<lambda>status m.
       if status \<noteq> 0 then (m, PS_return status) else ps_while a v m)"
| "pipe_send a v PS_wait =
     Do (Wait (Stage_ready a) (Stage_mutex a)) (\<lambda>status m.
       if status \<noteq> 0 then (m, PS_fail status) else ps_while a v m)"
| "pipe_send a v PS_signal =
     Do (Signal (Avail a)) (\<lambda>status m. (m, if status \<noteq> 0 then PS_fail status else PS_unlock))"
| "pipe_send a v PS_unlock = Do (Unlock (Stage_mutex a)) (\<lambda>status m. (m, PS_return status))"
| "pipe_send a v (PS_fail status) = Do (Unlock (Stage_mutex a)) (goto (PS_return status))"
| "pipe_send a v (PS_return w) = Return w"
| "pipe_send a v PS_crash = Halt Undefined"

section \<open>The thread of a stage\<close>

text \<open>\<open>a\<close> is the stage, \<open>b\<close> the next one.\<close>

datatype sg_pc =
    SG_start | SG_lock nat | SG_wait nat | SG_send nat "int option" ps_pc | SG_signal nat
  | SG_abort | SG_crash

definition sg_while :: "nat \<Rightarrow> nat \<Rightarrow> pipe \<Rightarrow> pipe \<times> sg_pc" where
  "sg_while a b m =
     (m, case pipe_heap m a of
           None \<Rightarrow> SG_crash
         | Some st \<Rightarrow>
             if data_ready st \<noteq> 0 then SG_wait b
             else if data st = Some LONG_MAX then SG_crash
             else SG_send b (map_option (\<lambda>v. v + 1) (data st)) PS_lock)"

fun pipe_stage :: "nat \<Rightarrow> sg_pc \<Rightarrow> (pp_mutex, pp_cond, pipe, sg_pc) act" where
  "pipe_stage a SG_start =
     Do Tau (\<lambda>_ m. (m, case pipe_heap m a of
         None \<Rightarrow> SG_crash
       | Some st \<Rightarrow> (case next_stage st of None \<Rightarrow> SG_crash | Some b \<Rightarrow> SG_lock b)))"
| "pipe_stage a (SG_lock b) =
     Do (Lock (Stage_mutex a)) (\<lambda>status m. if status \<noteq> 0 then (m, SG_abort) else sg_while a b m)"
| "pipe_stage a (SG_wait b) =
     Do (Wait (Avail a) (Stage_mutex a)) (\<lambda>status m.
       if status \<noteq> 0 then (m, SG_abort) else sg_while a b m)"
| "pipe_stage a (SG_send b v p) =
     call_here (SG_send b v)
       (\<lambda>_ m. case pipe_heap m a of
           None \<Rightarrow> (m, SG_crash)
         | Some st \<Rightarrow>
             (m\<lparr>pipe_heap := (pipe_heap m)(a \<mapsto> st\<lparr>data_ready := 0\<rparr>)\<rparr>, SG_signal b))
       (pipe_send b v p)"
| "pipe_stage a (SG_signal b) =
     Do (Signal (Stage_ready a)) (\<lambda>status m. if status \<noteq> 0 then (m, SG_abort) else sg_while a b m)"
| "pipe_stage a SG_abort = Halt Aborted"
| "pipe_stage a SG_crash = Halt Undefined"

section \<open>Creating the pipe\<close>

text \<open>\<open>i\<close> is the index of the loop; \<open>l\<close> is \<^verbatim>\<open>&pipe->head\<close> (\<open>None\<close>) or the address of the link
  of a stage; \<open>a\<close> is the new stage. \<open>PC_stage a\<close> is the start of the thread of stage \<open>a\<close>.\<close>

datatype pc_pc =
    PC_mutex | PC_malloc nat "nat option" | PC_smutex nat "nat option" nat | PC_avail nat "nat option" nat
  | PC_ready nat "nat option" nat | PC_create nat | PC_return int | PC_abort | PC_crash | PC_stage nat

definition pc_store :: "nat option \<Rightarrow> nat option \<Rightarrow> pipe \<Rightarrow> pipe option" where
  "pc_store l v m =
     (case l of
        None \<Rightarrow> Some (m\<lparr>pipe_head := v\<rparr>)
      | Some b \<Rightarrow>
          (case pipe_heap m b of
             None \<Rightarrow> None
           | Some st \<Rightarrow> Some (m\<lparr>pipe_heap := (pipe_heap m)(b \<mapsto> st\<lparr>next_stage := v\<rparr>)\<rparr>)))"

definition pc_thread :: "nat option \<Rightarrow> pipe \<Rightarrow> pipe \<times> pc_pc" where
  "pc_thread x m =
     (m, case x of
           None \<Rightarrow> PC_crash
         | Some a \<Rightarrow>
             (case pipe_heap m a of
                None \<Rightarrow> PC_crash
              | Some st \<Rightarrow> if next_stage st \<noteq> None then PC_create a else PC_return 0))"

definition pc_next :: "int \<Rightarrow> nat \<Rightarrow> nat option \<Rightarrow> pipe \<Rightarrow> pipe \<times> pc_pc" where
  "pc_next n i l m =
     (if int i \<le> n then (m, PC_malloc i l)
      else case pc_store l None m of
        None \<Rightarrow> (m, PC_crash)
      | Some m1 \<Rightarrow> pc_thread (pipe_head m1) (m1\<lparr>pipe_tail := l\<rparr>))"

definition pc_link :: "int \<Rightarrow> nat \<Rightarrow> nat option \<Rightarrow> nat \<Rightarrow> pipe \<Rightarrow> pipe \<times> pc_pc" where
  "pc_link n i l a m =
     (case pipe_heap m a of
        None \<Rightarrow> (m, PC_crash)
      | Some st \<Rightarrow>
          (case pc_store l (Some a) (m\<lparr>pipe_heap := (pipe_heap m)(a \<mapsto> st\<lparr>data_ready := 0\<rparr>)\<rparr>) of
             None \<Rightarrow> (m, PC_crash)
           | Some m1 \<Rightarrow> pc_next n (Suc i) (Some a) m1))"

fun pipe_create :: "int \<Rightarrow> pc_pc \<Rightarrow> (pp_mutex, pp_cond, pipe, pc_pc) act" where
  "pipe_create n PC_mutex =
     Do (MInit Pipe_mutex) (\<lambda>status m.
       if status \<noteq> 0 then (m, PC_abort) else pc_next n 0 None (m\<lparr>pipe_stages := n, active := 0\<rparr>))"
| "pipe_create n (PC_malloc i l) =
     Do (Env (\<lambda>r m. r = 0 \<or> 0 < r \<and> pipe_heap m (nat r) = None)) (\<lambda>r m.
       if r = 0 then (m, PC_abort)
       else (m\<lparr>pipe_heap := (pipe_heap m)(nat r \<mapsto>
                 \<lparr>data_ready = 0, data = None, stage_thread = None, next_stage = None\<rparr>)\<rparr>,
             PC_smutex i l (nat r)))"
| "pipe_create n (PC_smutex i l a) =
     Do (MInit (Stage_mutex a)) (\<lambda>status m. (m, if status \<noteq> 0 then PC_abort else PC_avail i l a))"
| "pipe_create n (PC_avail i l a) =
     Do (CInit (Avail a)) (\<lambda>status m. (m, if status \<noteq> 0 then PC_abort else PC_ready i l a))"
| "pipe_create n (PC_ready i l a) =
     Do (CInit (Stage_ready a)) (\<lambda>status m. if status \<noteq> 0 then (m, PC_abort) else pc_link n i l a m)"
| "pipe_create n (PC_create a) =
     Do (Create (\<lambda>u m. case pipe_heap m a of None \<Rightarrow> m | Some st \<Rightarrow>
             m\<lparr>pipe_heap := (pipe_heap m)(a \<mapsto> st\<lparr>stage_thread := Some u\<rparr>)\<rparr>) (PC_stage a))
       (\<lambda>status m.
         if status \<noteq> 0 then (m, PC_abort)
         else case pipe_heap m a of None \<Rightarrow> (m, PC_crash) | Some st \<Rightarrow> pc_thread (next_stage st) m)"
| "pipe_create n (PC_return v) = Return v"
| "pipe_create n PC_abort = Halt Aborted"
| "pipe_create n PC_crash = Halt Undefined"
| "pipe_create n (PC_stage a) = Halt Undefined"

section \<open>Values in, results out\<close>

datatype pt_pc = PT_lock | PT_unlock | PT_send nat ps_pc | PT_return int | PT_abort | PT_crash

fun pipe_start :: "int \<Rightarrow> pt_pc \<Rightarrow> (pp_mutex, pp_cond, pipe, pt_pc) act" where
  "pipe_start v PT_lock =
     Do (Lock Pipe_mutex) (\<lambda>status m.
       if status \<noteq> 0 then (m, PT_abort) else (m\<lparr>active := active m + 1\<rparr>, PT_unlock))"
| "pipe_start v PT_unlock =
     Do (Unlock Pipe_mutex) (\<lambda>status m.
       (m, if status \<noteq> 0 then PT_abort
           else case pipe_head m of None \<Rightarrow> PT_crash | Some a \<Rightarrow> PT_send a PS_lock))"
| "pipe_start v (PT_send a p) =
     call_here (PT_send a) (\<lambda>_ m. (m, PT_return 0)) (pipe_send a (Some v) p)"
| "pipe_start v (PT_return w) = Return w"
| "pipe_start v PT_abort = Halt Aborted"
| "pipe_start v PT_crash = Halt Undefined"

datatype pr_pc =
    PR_start | PR_lock nat | PR_unlock nat bool | PR_slock nat | PR_wait nat | PR_signal nat | PR_sunlock nat
  | PR_return int | PR_abort | PR_crash

definition pr_while :: "nat \<Rightarrow> pipe \<Rightarrow> pipe \<times> pr_pc" where
  "pr_while a m =
     (case pipe_heap m a of
        None \<Rightarrow> (m, PR_crash)
      | Some st \<Rightarrow>
          if data_ready st = 0 then (m, PR_wait a)
          else (m\<lparr>result := data st, pipe_heap := (pipe_heap m)(a \<mapsto> st\<lparr>data_ready := 0\<rparr>)\<rparr>, PR_signal a))"

fun pipe_result :: "pr_pc \<Rightarrow> (pp_mutex, pp_cond, pipe, pr_pc) act" where
  "pipe_result PR_start =
     Do Tau (\<lambda>_ m. (m, case pipe_tail m of None \<Rightarrow> PR_crash | Some a \<Rightarrow> PR_lock a))"
| "pipe_result (PR_lock a) =
     Do (Lock Pipe_mutex) (\<lambda>status m.
       if status \<noteq> 0 then (m, PR_abort)
       else if active m \<le> 0 then (m, PR_unlock a True)
       else (m\<lparr>active := active m - 1\<rparr>, PR_unlock a False))"
| "pipe_result (PR_unlock a none) =
     Do (Unlock Pipe_mutex) (\<lambda>status m.
       (m, if status \<noteq> 0 then PR_abort else if none then PR_return 0 else PR_slock a))"
| "pipe_result (PR_slock a) = Do (Lock (Stage_mutex a)) (\<lambda>_. pr_while a)"
| "pipe_result (PR_wait a) = Do (Wait (Avail a) (Stage_mutex a)) (\<lambda>_. pr_while a)"
| "pipe_result (PR_signal a) = Do (Signal (Stage_ready a)) (goto (PR_sunlock a))"
| "pipe_result (PR_sunlock a) = Do (Unlock (Stage_mutex a)) (goto (PR_return 1))"
| "pipe_result (PR_return v) = Return v"
| "pipe_result PR_abort = Halt Aborted"
| "pipe_result PR_crash = Halt Undefined"

section \<open>The main program\<close>

datatype pp_pc =
    PP_create pc_pc | PP_read | PP_start int pt_pc | PP_result pr_pc | PP_exit | PP_stage nat sg_pc

fun pp_line :: "pipe_line \<Rightarrow> pp_pc" where
  "pp_line Short_line = PP_read"
| "pp_line Equals = PP_result PR_start"
| "pp_line No_number = PP_read"
| "pp_line (Value v) = PP_start v PT_lock"

fun pp_thread :: "pc_pc \<Rightarrow> pp_pc" where
  "pp_thread (PC_stage a) = PP_stage a SG_start"
| "pp_thread p = PP_create p"

text \<open>\<open>pipe_main n\<close> is the program with \<open>n\<close> stages and a last one; the source has \<open>n = 10\<close>.\<close>

fun pipe_main :: "int \<Rightarrow> pp_pc \<Rightarrow> (pp_mutex, pp_cond, pipe, pp_pc) act" where
  "pipe_main n (PP_create p) =
     call_fun (\<lambda>m. m) (\<lambda>m' m. m') PP_create pp_thread (\<lambda>_ m. (m, PP_read)) (pipe_create n p)"
| "pipe_main n PP_read =
     Do Tau (\<lambda>_ m. case lines m of
         [] \<Rightarrow> (m, PP_exit)
       | l # ls \<Rightarrow> (m\<lparr>lines := ls\<rparr>, pp_line l))"
| "pipe_main n (PP_start v p) = call_here (PP_start v) (\<lambda>_ m. (m, PP_read)) (pipe_start v p)"
| "pipe_main n (PP_result p) =
     call_here PP_result
       (\<lambda>v m. (if v \<noteq> 0 then m\<lparr>results := results m @ [result m]\<rparr> else m, PP_read))
       (pipe_result p)"
| "pipe_main n PP_exit = Halt (Exited 0)"
| "pipe_main n (PP_stage a p) = thread_fun (PP_stage a) (pipe_stage a p)"

definition pipe_mem :: "pipe_line list \<Rightarrow> pipe" where
  "pipe_mem ls = \<lparr>pipe_heap = \<lambda>_. None, pipe_head = None, pipe_tail = None, pipe_stages = 0,
     active = 0, result = None, results = [], lines = ls\<rparr>"

definition pipe_system :: "pipe_line list \<Rightarrow> (pp_mutex, pp_cond, pipe, pp_pc) sys" where
  "pipe_system ls = (boot (pipe_mem ls) [PP_create PC_mutex])\<lparr>mtx := \<lambda>_. Raw, cnd := \<lambda>_. False\<rparr>"

section \<open>What the threads hold\<close>

fun ps_holds :: "nat \<Rightarrow> ps_pc \<Rightarrow> pp_mutex set" where
  "ps_holds a PS_wait = {Stage_mutex a}"
| "ps_holds a PS_signal = {Stage_mutex a}"
| "ps_holds a PS_unlock = {Stage_mutex a}"
| "ps_holds a (PS_fail v) = {Stage_mutex a}"
| "ps_holds a p = {}"

definition sg_own :: "nat \<Rightarrow> nat \<Rightarrow> pp_mutex set" where
  "sg_own a b = {Stage_mutex a} - {Stage_mutex b}"

fun sg_holds :: "nat \<Rightarrow> sg_pc \<Rightarrow> pp_mutex set" where
  "sg_holds a (SG_wait b) = sg_own a b"
| "sg_holds a (SG_send b v p) = sg_own a b \<union> ps_holds b p"
| "sg_holds a (SG_signal b) = sg_own a b"
| "sg_holds a p = {}"

fun pp_holds :: "pp_pc \<Rightarrow> pp_mutex set" where
  "pp_holds (PP_start v (PT_send a p)) = ps_holds a p"
| "pp_holds (PP_stage a p) = sg_holds a p"
| "pp_holds p = {}"

lemma pp_holds_line [simp]: "pp_holds (pp_line l) = {}"
  by (cases l) auto

lemma ps_tracks:
  "pipe_send a v p = Do c k \<Longrightarrow> k r m = (m', p') \<Longrightarrow>
     ps_holds a p' \<subseteq> held_after c r (ps_holds a p) \<and>
     held_after c r (X \<union> Y) \<supseteq> held_after c r Y \<union> (X - {Stage_mutex a})"
  by (cases p) (auto simp: ps_while_def split: if_splits option.splits)

lemma sg_tracks:
  assumes "pipe_stage a p = Do c k" and "k r m = (m', p')"
  shows "sg_holds a p' \<subseteq> held_after c r (sg_holds a p)"
proof (cases p)
  case (SG_send b v q)
  have own: "sg_own a b - {Stage_mutex b} = sg_own a b" by (auto simp: sg_own_def)
  from assms(1) [unfolded SG_send pipe_stage.simps] show ?thesis
  proof (cases rule: call_fun_cases)
    case (inside c0 k0)
    moreover obtain q' where "k0 r m = (m', q')" "p' = SG_send b v q'"
      using assms(2) inside by (auto split: prod.splits)
    ultimately show ?thesis
      using ps_tracks [of b v q c0 k0 r m m' q' "ps_holds b q" "sg_own a b"] SG_send own by auto
  next
    case (ret w)
    then show ?thesis using assms(2) SG_send by (auto split: option.splits)
  qed
qed (use assms in \<open>auto simp: sg_while_def sg_own_def split: if_splits option.splits\<close>)

lemma pt_tracks:
  assumes "pipe_start v p = Do c k" and "k r m = (m', p')"
  shows "pp_holds (PP_start v p') \<subseteq> held_after c r (pp_holds (PP_start v p))"
proof (cases p)
  case (PT_send a q)
  from assms(1) [unfolded PT_send pipe_start.simps] show ?thesis
  proof (cases rule: call_fun_cases)
    case (inside c0 k0)
    moreover obtain q' where "k0 r m = (m', q')" "p' = PT_send a q'"
      using assms(2) inside by (auto split: prod.splits)
    ultimately show ?thesis
      using ps_tracks [of a "Some v" q c0 k0 r m m' q' "ps_holds a q" "{}"] PT_send by auto
  next
    case (ret w)
    then show ?thesis using assms(2) PT_send by auto
  qed
qed (use assms in \<open>auto split: if_splits option.splits\<close>)

text \<open>The threads the program creates.\<close>

lemma pp_spawned:
  assumes "pipe_main n p = Do c k"
  shows "spawned c r = [] \<or> (\<exists>a. p = PP_create (PC_create a) \<and> spawned c r = [PP_stage a SG_start])"
proof -
  have send: "spawned c r = []" if "pipe_send a v q = Do c k" for a v q c k r using that by (cases q) auto
  have stage: "spawned c r = []" if "pipe_stage a q = Do c k" for a q c k r
    using that send by (cases q) (auto elim!: call_fun_cases)
  have start: "spawned c r = []" if "pipe_start v q = Do c k" for v q c k r
    using that send by (cases q) (auto elim!: call_fun_cases)
  have res: "spawned c r = []" if "pipe_result q = Do c k" for q c k r using that by (cases q) auto
  have create: "spawned c r = [] \<or> (\<exists>a. q = PC_create a \<and> spawned c r = [PC_stage a])"
    if "pipe_create n q = Do c k" for q c k r using that by (cases q) auto
  show ?thesis
  proof (cases p)
    case (PP_create q)
    from assms [unfolded PP_create pipe_main.simps] show ?thesis
    proof (cases rule: call_fun_cases)
      case (inside c0 k0)
      then show ?thesis using create [of q c0 k0 r] PP_create by auto
    qed simp
  next
    case (PP_start v q)
    from assms [unfolded PP_start pipe_main.simps] start show ?thesis
      by (cases rule: call_fun_cases) simp_all
  next
    case (PP_result q)
    from assms [unfolded PP_result pipe_main.simps] res show ?thesis
      by (cases rule: call_fun_cases) simp_all
  next
    case (PP_stage a q)
    from assms [unfolded PP_stage pipe_main.simps] stage show ?thesis
      by (cases rule: thread_fun_cases) simp_all
  qed (use assms in auto)
qed

interpretation pp_any: lock_tracking any_status "pipe_main n" pp_holds
proof unfold_locales
  fix p c r m k and n1 :: int and m' m'' p'
  assume p: "pipe_main n p = Do c k" and k: "k r m' = (m'', p')"
  show "pp_holds p' \<subseteq> held_after c r (pp_holds p)"
  proof (cases p)
    case (PP_start v q)
    from p [unfolded PP_start pipe_main.simps] show ?thesis
    proof (cases rule: call_fun_cases)
      case (inside c0 k0)
      then show ?thesis using pt_tracks [of v q c0 k0 r m' m''] k PP_start by (auto split: prod.splits)
    qed (use k in auto)
  next
    case (PP_stage a q)
    from p [unfolded PP_stage pipe_main.simps] show ?thesis
    proof (cases rule: thread_fun_cases)
      case (1 c0 k0)
      then show ?thesis using sg_tracks [of a q c0 k0 r m' m''] k PP_stage by (auto split: prod.splits)
    qed
  qed (use p k in \<open>auto split: list.splits pipe_line.splits prod.splits elim!: call_fun_cases\<close>)
next
  fix p q and st :: "nat \<Rightarrow> pipe \<Rightarrow> pipe" and k :: "int \<Rightarrow> pipe \<Rightarrow> pipe \<times> pp_pc"
  assume "pipe_main n p = Do (Create st q) k"
  then show "pp_holds q = {}" using pp_spawned [of n p "Create st q" k 0] by auto
qed

section \<open>No value gets through\<close>

text \<open>A value can only be in the first stage, and once it is there it stays: the stage waits until
  its data is \<^emph>\<open>not\<close> ready.\<close>

definition heap_ok :: "pipe \<Rightarrow> bool" where
  "heap_ok m \<longleftrightarrow>
     (\<forall>a st. pipe_heap m a = Some st \<longrightarrow> next_stage st \<noteq> Some a \<and>
        (data st \<noteq> None \<longrightarrow> data_ready st \<noteq> 0 \<and> pipe_head m = Some a)) \<and>
     (pipe_tail m = None \<or> pipe_tail m \<noteq> pipe_head m) \<and>
     result m = None \<and> set (results m) \<subseteq> {None}"

definition no_data :: "pipe \<Rightarrow> nat \<Rightarrow> bool" where
  "no_data m a \<longleftrightarrow> (\<forall>st. pipe_heap m a = Some st \<longrightarrow> data st = None)"

lemma heap_ok_frame [simp]:
  "heap_ok (m\<lparr>active := x\<rparr>) = heap_ok m" "heap_ok (m\<lparr>pipe_stages := n\<rparr>) = heap_ok m"
  "heap_ok (m\<lparr>lines := ls\<rparr>) = heap_ok m"
  by (simp_all add: heap_ok_def)

lemma heap_ok_cell:
  "heap_ok m \<Longrightarrow> next_stage st \<noteq> Some a \<Longrightarrow> data st = None \<Longrightarrow>
     heap_ok (m\<lparr>pipe_heap := (pipe_heap m)(a \<mapsto> st)\<rparr>)"
  by (simp add: heap_ok_def)

lemma heap_ok_same:
  "heap_ok m \<Longrightarrow> pipe_heap m a = Some st \<Longrightarrow> data st' = data st \<Longrightarrow> data_ready st' = data_ready st \<Longrightarrow>
     next_stage st' \<noteq> Some a \<Longrightarrow> heap_ok (m\<lparr>pipe_heap := (pipe_heap m)(a \<mapsto> st')\<rparr>)"
  by (simp add: heap_ok_def)

lemma no_data_same:
  "pipe_heap m a = Some st \<Longrightarrow> data st' = data st \<Longrightarrow>
     no_data (m\<lparr>pipe_heap := (pipe_heap m)(a \<mapsto> st')\<rparr>) b = no_data m b"
  by (auto simp: no_data_def)

lemma heap_ok_tail: "heap_ok m \<Longrightarrow> x \<noteq> pipe_head m \<Longrightarrow> heap_ok (m\<lparr>pipe_tail := x\<rparr>)"
  by (simp add: heap_ok_def)

lemma heap_ok_head:
  "heap_ok m \<Longrightarrow> pipe_head m = None \<Longrightarrow> pipe_tail m = None \<Longrightarrow> heap_ok (m\<lparr>pipe_head := x\<rparr>)"
  by (simp add: heap_ok_def)

lemma heap_ok_next: "heap_ok m \<Longrightarrow> pipe_heap m a = Some st \<Longrightarrow> next_stage st \<noteq> Some a"
  by (simp add: heap_ok_def)

lemma heap_ok_idle: "heap_ok m \<Longrightarrow> pipe_heap m a = Some st \<Longrightarrow> data_ready st = 0 \<Longrightarrow> data st = None"
  unfolding heap_ok_def by blast

lemma heap_ok_other: "heap_ok m \<Longrightarrow> pipe_heap m a = Some st \<Longrightarrow> pipe_head m \<noteq> Some a \<Longrightarrow> data st = None"
  unfolding heap_ok_def by blast

lemma no_data_frame [simp]:
  "no_data (m\<lparr>active := x\<rparr>) = no_data m" "no_data (m\<lparr>pipe_stages := n\<rparr>) = no_data m"
  "no_data (m\<lparr>lines := ls\<rparr>) = no_data m" "no_data (m\<lparr>pipe_head := y\<rparr>) = no_data m"
  "no_data (m\<lparr>pipe_tail := y\<rparr>) = no_data m"
  by (simp_all add: no_data_def fun_eq_iff)

lemma no_data_cell [simp]:
  "no_data (m\<lparr>pipe_heap := (pipe_heap m)(a \<mapsto> st)\<rparr>) b \<longleftrightarrow> (if a = b then data st = None else no_data m b)"
  by (simp add: no_data_def)

fun sg_fit :: "pipe \<Rightarrow> nat \<Rightarrow> sg_pc \<Rightarrow> bool" where
  "sg_fit m a (SG_lock b) \<longleftrightarrow> b \<noteq> a"
| "sg_fit m a (SG_wait b) \<longleftrightarrow> b \<noteq> a"
| "sg_fit m a (SG_send b v p) \<longleftrightarrow> b \<noteq> a \<and> v = None \<and> no_data m a"
| "sg_fit m a (SG_signal b) \<longleftrightarrow> b \<noteq> a"
| "sg_fit m a p \<longleftrightarrow> True"

definition chain_fit :: "pipe \<Rightarrow> nat \<Rightarrow> nat option \<Rightarrow> bool" where
  "chain_fit m i l \<longleftrightarrow> pipe_tail m = None \<and>
     (i = 0 \<and> l = None \<and> pipe_head m = None \<or>
      i \<ge> 1 \<and> (\<exists>h b. pipe_head m = Some h \<and> h \<in> dom (pipe_heap m) \<and> l = Some b \<and> b \<in> dom (pipe_heap m) \<and>
         (i \<ge> 2 \<longrightarrow> b \<noteq> h)))"

fun pc_fit :: "pipe \<Rightarrow> pc_pc \<Rightarrow> bool" where
  "pc_fit m PC_mutex \<longleftrightarrow> chain_fit m 0 None"
| "pc_fit m (PC_malloc i l) \<longleftrightarrow> chain_fit m i l"
| "pc_fit m (PC_smutex i l a) \<longleftrightarrow> chain_fit m i l \<and> a \<in> dom (pipe_heap m) \<and> l \<noteq> Some a \<and> pipe_head m \<noteq> Some a"
| "pc_fit m (PC_avail i l a) \<longleftrightarrow> chain_fit m i l \<and> a \<in> dom (pipe_heap m) \<and> l \<noteq> Some a \<and> pipe_head m \<noteq> Some a"
| "pc_fit m (PC_ready i l a) \<longleftrightarrow> chain_fit m i l \<and> a \<in> dom (pipe_heap m) \<and> l \<noteq> Some a \<and> pipe_head m \<noteq> Some a"
| "pc_fit m (PC_stage a) \<longleftrightarrow> False"
| "pc_fit m p \<longleftrightarrow> True"

fun pp_fit :: "pipe \<Rightarrow> pp_pc \<Rightarrow> bool" where
  "pp_fit m (PP_create p) \<longleftrightarrow> pc_fit m p"
| "pp_fit m (PP_start v (PT_send a p)) \<longleftrightarrow> pipe_head m = Some a"
| "pp_fit m (PP_result (PR_lock a)) \<longleftrightarrow> pipe_tail m = Some a"
| "pp_fit m (PP_result (PR_unlock a e)) \<longleftrightarrow> pipe_tail m = Some a"
| "pp_fit m (PP_result (PR_slock a)) \<longleftrightarrow> pipe_tail m = Some a"
| "pp_fit m (PP_result (PR_wait a)) \<longleftrightarrow> pipe_tail m = Some a"
| "pp_fit m (PP_stage a p) \<longleftrightarrow> False"
| "pp_fit m p \<longleftrightarrow> True"

text \<open>A move of one thread keeps what the others rely on: the first stage, the last one, and
  that the stages of \<open>A\<close> have no data.\<close>

definition steady :: "pipe \<Rightarrow> pipe \<Rightarrow> bool" where
  "steady m m' \<longleftrightarrow> pipe_head m' = pipe_head m \<and> pipe_tail m' = pipe_tail m \<and>
     dom (pipe_heap m) \<subseteq> dom (pipe_heap m')"

definition clean :: "nat set \<Rightarrow> pipe \<Rightarrow> pipe \<Rightarrow> bool" where
  "clean A m m' \<longleftrightarrow> (\<forall>a \<in> A. no_data m a \<longrightarrow> no_data m' a)"

lemma ps_step:
  assumes p: "pipe_send a v p = Do c k" and k: "k r m = (m', p')" and ok: "heap_ok m"
    and v: "v \<noteq> None \<longrightarrow> pipe_head m = Some a"
  shows "heap_ok m' \<and> steady m m' \<and> clean (UNIV - {a}) m m' \<and> (v = None \<longrightarrow> clean UNIV m m') \<and>
    (m' = m \<or> Stage_mutex a \<in> ps_holds a p')"
proof -
  have W: "heap_ok m' \<and> steady m m' \<and> clean (UNIV - {a}) m m' \<and> (v = None \<longrightarrow> clean UNIV m m') \<and>
    (m' = m \<or> Stage_mutex a \<in> ps_holds a p')" if "ps_while a v m = (m', p')"
    using that ok v
    by (auto simp: ps_while_def heap_ok_def steady_def clean_def no_data_def split: option.splits if_splits)
  have S: ?thesis if "m' = m" using that ok by (auto simp: steady_def clean_def)
  have "m' = m \<or> ps_while a v m = (m', p')" using p k by (cases p) (auto split: if_splits)
  then show ?thesis using W S by blast
qed

lemma sg_step:
  assumes p: "pipe_stage a p = Do c k" and k: "k r m = (m', p')" and ok: "heap_ok m" and fit: "sg_fit m a p"
  shows "heap_ok m' \<and> steady m m' \<and> clean UNIV m m' \<and> sg_fit m' a p'"
proof -
  have same: "steady m m \<and> clean UNIV m m" by (simp add: steady_def clean_def)
  have W: "heap_ok m' \<and> steady m m' \<and> clean UNIV m m' \<and> sg_fit m' a p'"
    if "sg_while a b m = (m', p')" "b \<noteq> a" for b
    using that ok same heap_ok_idle [OF ok]
    by (auto simp: sg_while_def no_data_def split: option.splits if_splits)
  show ?thesis
  proof (cases p)
    case (SG_send b v q)
    from p [unfolded SG_send pipe_stage.simps] show ?thesis
    proof (cases rule: call_fun_cases)
      case (inside c0 k0)
      then obtain q' where q': "k0 r m = (m', q')" "p' = SG_send b v q'" using k by (auto split: prod.splits)
      have "v = None" using fit SG_send by simp
      with ps_step [OF inside(1) q'(1) ok] fit SG_send q' show ?thesis by (auto simp: clean_def)
    next
      case (ret w)
      then show ?thesis using k fit ok SG_send
        by (auto simp: heap_ok_def steady_def clean_def no_data_def split: option.splits if_splits)
    qed
  next
    case SG_start
    then show ?thesis using p k ok same by (auto simp: heap_ok_def split: option.splits)
  next
    case (SG_lock b)
    then have "m' = m \<and> p' = SG_abort \<or> sg_while a b m = (m', p')" "b \<noteq> a" using p k fit by (auto split: if_splits)
    then show ?thesis using W same ok by auto
  next
    case (SG_wait b)
    then have "m' = m \<and> p' = SG_abort \<or> sg_while a b m = (m', p')" "b \<noteq> a" using p k fit by (auto split: if_splits)
    then show ?thesis using W same ok by auto
  next
    case (SG_signal b)
    then have "m' = m \<and> p' = SG_abort \<or> sg_while a b m = (m', p')" "b \<noteq> a" using p k fit by (auto split: if_splits)
    then show ?thesis using W same ok by auto
  qed (use p in auto)
qed

text \<open>The main thread. It changes the first stage only while it creates the pipe, when no stage has
  data.\<close>

lemma no_head_clean:
  assumes "heap_ok m" and "pipe_head m = None"
  shows "no_data m a"
  using assms unfolding heap_ok_def no_data_def by auto

lemma pc_thread_step:
  assumes "pc_thread x m = (m', p')"
  shows "m' = m \<and> pc_fit m' p'"
  using assms by (auto simp: pc_thread_def split: option.splits if_splits)

lemma pc_next_step:
  assumes k: "pc_next n i l m = (m', p')" and ok: "heap_ok m" and fit: "chain_fit m i l" and n: "1 \<le> n"
  shows "heap_ok m' \<and> dom (pipe_heap m) \<subseteq> dom (pipe_heap m') \<and> (\<forall>a. no_data m a \<longrightarrow> no_data m' a) \<and> pc_fit m' p'"
proof (cases "int i \<le> n")
  case True
  then show ?thesis using k ok fit by (auto simp: pc_next_def)
next
  case False
  then obtain h b where h: "2 \<le> i" "pipe_head m = Some h" "l = Some b" "b \<noteq> h"
    using fit n by (auto simp: chain_fit_def)
  show ?thesis
  proof (cases "pipe_heap m b")
    case None
    then show ?thesis using False k h ok by (auto simp: pc_next_def pc_store_def)
  next
    case (Some st)
    let ?m = "m\<lparr>pipe_heap := (pipe_heap m)(b \<mapsto> st\<lparr>next_stage := None\<rparr>), pipe_tail := l\<rparr>"
    have "pc_thread (pipe_head m) ?m = (m', p')"
      using False Some k h by (simp add: pc_next_def pc_store_def)
    moreover have "heap_ok ?m"
      using heap_ok_tail [OF heap_ok_cell [OF ok, of "st\<lparr>next_stage := None\<rparr>" b]] heap_ok_other [OF ok Some] h by simp
    moreover have "data st = None" using heap_ok_other [OF ok Some] h by simp
    ultimately show ?thesis
      using pc_thread_step [of "pipe_head m" ?m m' p'] Some by auto
  qed
qed

lemma pc_link_step:
  assumes k: "pc_link n i l a m = (m', p')" and ok: "heap_ok m" and fit: "pc_fit m (PC_ready i l a)" and n: "1 \<le> n"
  shows "heap_ok m' \<and> dom (pipe_heap m) \<subseteq> dom (pipe_heap m') \<and> (\<forall>a. no_data m a \<longrightarrow> no_data m' a) \<and> pc_fit m' p'"
proof -
  obtain st where st: "pipe_heap m a = Some st" using fit by auto
  have fresh: "data st = None" "l \<noteq> Some a" "pipe_head m \<noteq> Some a" "chain_fit m i l"
    using heap_ok_other [OF ok st] fit by auto
  let ?m = "m\<lparr>pipe_heap := (pipe_heap m)(a \<mapsto> st\<lparr>data_ready := 0\<rparr>)\<rparr>"
  show ?thesis
  proof (cases l)
    case None
    then have i: "i = 0" "pipe_head m = None" "pipe_tail m = None" using fresh by (auto simp: chain_fit_def)
    let ?m1 = "?m\<lparr>pipe_head := Some a\<rparr>"
    have "pc_next n 1 (Some a) ?m1 = (m', p')" using k st None i by (simp add: pc_link_def pc_store_def)
    moreover have "heap_ok ?m1"
      using heap_ok_head [OF heap_ok_cell [OF ok, of "st\<lparr>data_ready := 0\<rparr>" a]] heap_ok_next [OF ok st] fresh i
      by simp
    moreover have "chain_fit ?m1 1 (Some a)" using i by (simp add: chain_fit_def)
    ultimately show ?thesis using pc_next_step [of n 1 "Some a" ?m1 m' p'] n st fresh by auto
  next
    case (Some b)
    then obtain h stb where b: "i \<ge> 1" "pipe_head m = Some h" "pipe_heap m b = Some stb" "h \<in> dom (pipe_heap m)"
      "pipe_tail m = None" using fresh by (auto simp: chain_fit_def)
    let ?m1 = "?m\<lparr>pipe_heap := (pipe_heap ?m)(b \<mapsto> stb\<lparr>next_stage := Some a\<rparr>)\<rparr>"
    have ab: "a \<noteq> b" "h \<noteq> a" using fresh Some b by auto
    have go: "pc_next n (Suc i) (Some a) ?m1 = (m', p')" using k st Some b ab by (simp add: pc_link_def pc_store_def)
    have m: "heap_ok ?m" using heap_ok_cell [OF ok] heap_ok_next [OF ok st] fresh by simp
    have "heap_ok ?m1"
      using heap_ok_same [OF m, of b stb "stb\<lparr>next_stage := Some a\<rparr>"] b ab by simp
    moreover have "chain_fit ?m1 (Suc i) (Some a)" using b ab by (auto simp: chain_fit_def)
    moreover have "no_data ?m1 x" if "no_data m x" for x
      using that b fresh by (auto simp: no_data_def)
    ultimately show ?thesis using pc_next_step [of n "Suc i" "Some a" ?m1 m' p'] go n st b by auto
  qed
qed

lemma chain_fit_mono:
  assumes "chain_fit m i l" and "pipe_head m' = pipe_head m" and "pipe_tail m' = pipe_tail m"
    and "dom (pipe_heap m) \<subseteq> dom (pipe_heap m')"
  shows "chain_fit m' i l"
proof -
  have "h \<in> dom (pipe_heap m')" if "h \<in> dom (pipe_heap m)" for h using that assms(4) by blast
  then show ?thesis using assms(1-3) unfolding chain_fit_def by (elim conjE disjE exE) (auto simp: domIff)
qed

lemma pc_step:
  assumes p: "pipe_create n q = Do c k" and ans: "answer_ok c r m u" and k: "k r (entry_mem c r l m) = (m', q')"
    and ok: "heap_ok m" and fit: "pc_fit m q" and n: "1 \<le> n"
  shows "heap_ok m' \<and> dom (pipe_heap m) \<subseteq> dom (pipe_heap m') \<and> (\<forall>a. no_data m a \<longrightarrow> no_data m' a) \<and> pc_fit m' q'"
proof (cases q)
  case PC_mutex
  let ?m = "m\<lparr>pipe_stages := n, active := 0\<rparr>"
  have "m' = m \<and> q' = PC_abort \<or> pc_next n 0 None ?m = (m', q')" using p k PC_mutex by (auto split: if_splits)
  moreover have "heap_ok ?m" "chain_fit ?m 0 None" using ok fit PC_mutex by (simp_all add: chain_fit_def)
  ultimately show ?thesis using pc_next_step [of n 0 None ?m m' q'] n ok by auto
next
  case (PC_malloc i x)
  show ?thesis
  proof (cases "r = 0")
    case True
    then show ?thesis using PC_malloc p k ok by auto
  next
    case False
    then have f: "pipe_heap m (nat r) = None" using ans p PC_malloc by auto
    let ?m = "m\<lparr>pipe_heap := (pipe_heap m)(nat r \<mapsto>
        \<lparr>data_ready = 0, data = None, stage_thread = None, next_stage = None\<rparr>)\<rparr>"
    have "m' = ?m" "q' = PC_smutex i x (nat r)" using False p k PC_malloc by auto
    moreover have "chain_fit ?m i x" by (rule chain_fit_mono [of m]) (use fit PC_malloc in auto)
    moreover have "heap_ok ?m" using heap_ok_cell [OF ok] by simp
    moreover have "x \<noteq> Some (nat r)" "pipe_head m \<noteq> Some (nat r)"
      using fit PC_malloc f by (auto simp: chain_fit_def)
    ultimately show ?thesis by (simp add: subset_insertI)
  qed
next
  case (PC_ready i x a)
  have "m' = m \<and> q' = PC_abort \<or> pc_link n i x a m = (m', q')" using p k PC_ready by (auto split: if_splits)
  then show ?thesis using pc_link_step [of n i x a m m' q'] n ok fit PC_ready by auto
next
  case (PC_create a)
  let ?m = "entry_mem c r l m"
  have e: "heap_ok ?m \<and> dom (pipe_heap m) \<subseteq> dom (pipe_heap ?m) \<and> (\<forall>a. no_data m a \<longrightarrow> no_data ?m a)"
    using p PC_create ok heap_ok_next [OF ok]
    by (auto simp: no_data_same simp del: no_data_cell intro!: heap_ok_same [OF ok] split: option.splits)
  have "m' = ?m \<and> pc_fit m' q'"
    using p k PC_create by (auto simp: pc_thread_def split: if_splits option.splits)
  then show ?thesis using e by auto
qed (use p k ok fit in \<open>auto split: if_splits\<close>)

lemma pt_step:
  assumes p: "pipe_start v q = Do c k" and k: "k r m = (m', q')"
    and ok: "heap_ok m" and fit: "pp_fit m (PP_start v q)"
  shows "heap_ok m' \<and> steady m m' \<and> pp_fit m' (PP_start v q') \<and>
    (\<forall>a. no_data m a \<longrightarrow> no_data m' a \<or> Stage_mutex a \<in> pp_holds (PP_start v q'))"
proof (cases q)
  case (PT_send a x)
  from p [unfolded PT_send pipe_start.simps] show ?thesis
  proof (cases rule: call_fun_cases)
    case (inside c0 k0)
    then obtain x' where x': "k0 r m = (m', x')" "q' = PT_send a x'" using k by (auto split: prod.splits)
    from ps_step [OF inside(1) x'(1) ok] fit PT_send x' show ?thesis
      by (auto simp: steady_def clean_def)
  qed (use k ok in \<open>auto simp: steady_def\<close>)
qed (use p k ok in \<open>auto simp: steady_def split: if_splits option.splits\<close>)

lemma pr_step:
  assumes p: "pipe_result q = Do c k" and k: "k r m = (m', q')"
    and ok: "heap_ok m" and fit: "pp_fit m (PP_result q)"
  shows "heap_ok m' \<and> steady m m' \<and> clean UNIV m m' \<and> pp_fit m' (PP_result q')"
proof -
  have S: "steady m m \<and> clean UNIV m m" by (simp add: steady_def clean_def)
  have W: "heap_ok m' \<and> steady m m' \<and> clean UNIV m m' \<and> pp_fit m' (PP_result q')"
    if k: "pr_while a m = (m', q')" and t: "pipe_tail m = Some a" for a
  proof (cases "pipe_heap m a")
    case (Some st)
    have "pipe_head m \<noteq> Some a" using ok t by (auto simp: heap_ok_def)
    then have d: "data st = None" using heap_ok_other [OF ok Some] by simp
    have "heap_ok (m\<lparr>result := None, pipe_heap := (pipe_heap m)(a \<mapsto> st\<lparr>data_ready := 0\<rparr>)\<rparr>)"
      using heap_ok_cell [OF ok, of "st\<lparr>data_ready := 0\<rparr>" a] heap_ok_next [OF ok Some] d
      by (simp add: heap_ok_def)
    then show ?thesis using k t Some ok S d
      by (auto simp: pr_while_def steady_def clean_def no_data_def split: if_splits)
  qed (use k ok S in \<open>auto simp: pr_while_def\<close>)
  show ?thesis
  proof (cases q)
    case (PR_slock a)
    then show ?thesis using p k fit W [of a] by auto
  next
    case (PR_wait a)
    then show ?thesis using p k fit W [of a] by auto
  next
    case (PR_lock a)
    then show ?thesis using p k fit ok by (auto simp: steady_def clean_def split: if_splits)
  qed (use p k fit ok S in \<open>auto split: option.splits if_splits\<close>)
qed

lemma pp_fit_line [simp]: "pp_fit m (pp_line l)"
  by (cases l) auto

lemma pp_fit_steady:
  assumes "pp_fit m p" and "steady m m'"
  shows "pp_fit m' p"
proof (cases p)
  case (PP_create q)
  then show ?thesis using assms chain_fit_mono [of m _ _ m']
    by (cases q) (auto simp: steady_def)
next
  case (PP_start v q)
  then show ?thesis using assms by (cases q) (auto simp: steady_def)
next
  case (PP_result q)
  then show ?thesis using assms by (cases q) (auto simp: steady_def)
qed (use assms in auto)

lemma sg_fit_clean:
  assumes "sg_fit m a q" and "no_data m a \<longrightarrow> no_data m' a"
  shows "sg_fit m' a q"
  using assms by (cases q) auto

lemma pp_step:
  assumes p: "pipe_main n p = Do c k" and ans: "answer_ok c r m u" and k: "k r (entry_mem c r l m) = (m', p')"
    and ok: "heap_ok m" and fit: "pp_fit m p" and n: "1 \<le> n"
  shows "heap_ok m' \<and> pp_fit m' p' \<and> (\<forall>a. no_data m a \<longrightarrow> no_data m' a \<or> Stage_mutex a \<in> pp_holds p')"
proof (cases p)
  case (PP_create q)
  from p [unfolded PP_create pipe_main.simps] show ?thesis
  proof (cases rule: call_fun_cases)
    case (inside c0 k0)
    have e: "entry_mem c r l m = entry_mem c0 r l m" "answer_ok c0 r m u" using inside ans by (auto split: call.splits)
    then obtain q' where q': "k0 r (entry_mem c0 r l m) = (m', q')" "p' = PP_create q'"
      using inside k by (auto split: prod.splits)
    from pc_step [OF inside(1) e(2) q'(1) ok _ n] fit PP_create q' show ?thesis by auto
  next
    case (ret v)
    then show ?thesis using k ok by auto
  qed
next
  case (PP_start v q)
  from p [unfolded PP_start pipe_main.simps] show ?thesis
  proof (cases rule: call_fun_cases)
    case (inside c0 k0)
    have e: "entry_mem c r l m = m" using PP_start pp_spawned [OF p, of 0] by (intro entry_mem_plain) auto
    then obtain q' where q': "k0 r m = (m', q')" "p' = PP_start v q'"
      using inside k by (auto split: prod.splits)
    from pt_step [OF inside(1) q'(1) ok] fit PP_start q' show ?thesis by auto
  next
    case (ret v)
    then show ?thesis using k ok by auto
  qed
next
  case (PP_result q)
  from p [unfolded PP_result pipe_main.simps] show ?thesis
  proof (cases rule: call_fun_cases)
    case (inside c0 k0)
    have e: "entry_mem c r l m = m" using PP_result pp_spawned [OF p, of 0] by (intro entry_mem_plain) auto
    then obtain q' where q': "k0 r m = (m', q')" "p' = PP_result q'"
      using inside k by (auto split: prod.splits)
    from pr_step [OF inside(1) q'(1) ok] fit PP_result q' show ?thesis by (auto simp: clean_def)
  next
    case (ret v)
    then show ?thesis using k ok by (auto simp: heap_ok_def no_data_def split: if_splits)
  qed
next
  case PP_read
  then show ?thesis using p k ok by (auto split: list.splits pipe_line.splits)
next
  case (PP_stage a q)
  then show ?thesis using fit by simp
qed (use p in auto)

lemma sg_not_waiting:
  assumes "b \<noteq> a"
  shows "\<not> waiting (pipe_main n) (Stage_mutex a) (PP_stage a (SG_send b v q))"
proof
  assume "waiting (pipe_main n) (Stage_mutex a) (PP_stage a (SG_send b v q))"
  then obtain d l k where c: "pipe_main n (PP_stage a (SG_send b v q)) = Do (wait_call d (Stage_mutex a) l) k"
    by (auto simp: waiting_def)
  then show False using assms by (cases q; cases l) (auto simp: wait_call_def)
qed

definition pp_inv :: "pipe \<Rightarrow> pp_pc list \<Rightarrow> bool" where
  "pp_inv m ps \<longleftrightarrow> heap_ok m \<and> ps \<noteq> [] \<and> pp_fit m (ps ! 0) \<and>
     (\<forall>u. 0 < u \<longrightarrow> u < length ps \<longrightarrow> (\<exists>a q. ps ! u = PP_stage a q \<and> sg_fit m a q))"

lemma pp_inv_main_move:
  assumes inv: "pp_inv m ps" and p: "pipe_main n (ps ! 0) = Do c k" and ans: "answer_ok c r m u"
    and k: "k r (entry_mem c r (length ps) m) = (m', p')" and al: "alone (pipe_main n) pp_holds ps 0 p'" and n: "1 \<le> n"
  shows "pp_inv m' ((ps[0 := p']) @ spawned c r)"
proof -
  have I: "heap_ok m" "pp_fit m (ps ! 0)" "ps \<noteq> []" using inv by (auto simp: pp_inv_def)
  note st = pp_step [OF p ans k I(1,2) n]
  have "\<exists>a q. ps ! u = PP_stage a q \<and> sg_fit m' a q" if u: "0 < u" "u < length ps" for u
  proof -
    obtain a q where q: "ps ! u = PP_stage a q" "sg_fit m a q" using inv u unfolding pp_inv_def by blast
    have "sg_fit m' a q"
    proof (cases "no_data m a \<longrightarrow> no_data m' a")
      case False
      then have held: "Stage_mutex a \<in> pp_holds p'" using st by blast
      show ?thesis
      proof (cases q)
        case (SG_send b v x)
        then have ba: "b \<noteq> a" using q by simp
        then have "Stage_mutex a \<in> pp_holds (ps ! u)" using q SG_send by (simp add: sg_own_def)
        with aloneD [OF al, of "Stage_mutex a" u] held u
        have "waiting (pipe_main n) (Stage_mutex a) (ps ! u)" by simp
        then show ?thesis using sg_not_waiting [OF ba] q SG_send by simp
      qed (use q in auto)
    qed (use q sg_fit_clean in blast)
    then show ?thesis using q by blast
  qed
  moreover have "spawned c r = [] \<or> (\<exists>a. spawned c r = [PP_stage a SG_start])" using pp_spawned [OF p] by blast
  ultimately show ?thesis using st I(3)
    by (auto simp: pp_inv_def nth_append nth_list_update less_Suc_eq)
qed

lemma pp_inv_stage_move:
  assumes inv: "pp_inv m ps" and t: "0 < t" "t < length ps" and p: "pipe_main n (ps ! t) = Do c k"
    and k: "k r (entry_mem c r (length ps) m) = (m', p')"
  shows "pp_inv m' ((ps[t := p']) @ spawned c r)"
proof -
  obtain a q where q: "ps ! t = PP_stage a q" "sg_fit m a q" using inv t unfolding pp_inv_def by blast
  have e: "spawned c r = []" "entry_mem c r (length ps) m = m"
    using pp_spawned [OF p] q(1) by (auto intro: entry_mem_plain)
  from p [unfolded q(1) pipe_main.simps] obtain q' c0 k0 where
    "pipe_stage a q = Do c0 k0" "k0 r m = (m', q')" "p' = PP_stage a q'"
    using k e by (auto elim!: thread_fun_cases split: prod.splits)
  with sg_step [of a q c0 k0 r m m' q'] q inv
  have st: "heap_ok m'" "steady m m'" "clean UNIV m m'" "p' = PP_stage a q'" "sg_fit m' a q'"
    by (auto simp: pp_inv_def)
  have "sg_fit m' b x" if "sg_fit m b x" for b x
    using sg_fit_clean [OF that] st(3) by (auto simp: clean_def)
  moreover have "\<exists>b x. ps ! u = PP_stage b x \<and> sg_fit m b x" if "0 < u" "u < length ps" for u
    using inv that unfolding pp_inv_def by blast
  ultimately have "\<exists>a q. (ps[t := p']) ! u = PP_stage a q \<and> sg_fit m' a q" if "0 < u" "u < length ps" for u
    using that st(4,5) t by (cases "u = t") (simp, metis nth_list_update_neq)
  moreover have "pp_fit m' (ps ! 0)" "ps \<noteq> []" using inv st(2) pp_fit_steady by (auto simp: pp_inv_def)
  ultimately show ?thesis using st(1) t e(1) by (simp add: pp_inv_def)
qed

lemma pp_reach:
  assumes "reach any_status (pipe_main n) (pipe_system ls) s" and n: "1 \<le> n"
  shows "pp_inv (mem s) (pcs s)"
proof -
  have tr: "tracked pp_holds (pipe_system ls)" by (simp add: tracked_def pipe_system_def)
  have aw: "list_all (awake any_status (pipe_main n) (now (pipe_system ls))) (threads (pipe_system ls))"
    by (simp add: pipe_system_def)
  show ?thesis using assms(1) tr aw
  proof (induction rule: pp_any.tracked_invariant)
    case start
    show ?case by (simp add: pipe_system_def pp_inv_def pipe_mem_def heap_ok_def chain_fit_def)
  next
    case (tick n m ps)
    then show ?case .
  next
    case (move u m ps t c k r m' p')
    show ?case
    proof (cases "t = 0")
      case True
      then show ?thesis using pp_inv_main_move [of m ps n c k r u m' p'] move n by simp
    next
      case False
      then show ?thesis using pp_inv_stage_move [of m ps t n c k r m' p'] move by simp
    qed
  qed
qed

section \<open>The properties\<close>

text \<open>C17. Nothing that is entered comes out: whatever the input, the interleaving and the status of the
  calls, every result the program prints is an indeterminate value, never one computed from an
  input. A stage only takes its data when there is none, and sleeps when there is some.\<close>
theorem pipe_results_indeterminate:
  assumes "reach any_status (pipe_main n) (pipe_system ls) s" and "1 \<le> n"
  shows "set (results (mem s)) \<subseteq> {None}"
  using pp_reach [OF assms] by (simp add: pp_inv_def heap_ok_def)

definition pipe_run :: "event list" where
  "pipe_run = map (Exec 0) [0, 1, 0, 0, 0, 2, 0, 0, 0, 3, 0, 0, 0, 0, 0, 0] @ replicate 6 (Exec 2 0) @
     replicate 16 (Exec 0 0)"

theorem pipe_results_indeterminate_witness:
  "case run any_status (pipe_main 2) pipe_run (pipe_system [Value 5, Equals]) of
     Some s \<Rightarrow> results (mem s) = [None] \<and> set (results (mem s)) \<subseteq> {None}
   | None \<Rightarrow> False" (is "case ?r of Some s \<Rightarrow> ?P s | None \<Rightarrow> False")
proof -
  have "map_option (\<lambda>s. results (mem s)) ?r = Some [None]" by code_simp
  then obtain s where s: "?r = Some s" "results (mem s) = [None]" by auto
  have "set (results (mem s)) \<subseteq> {None}"
    by (rule pipe_results_indeterminate [OF reach_run [OF s(1)]]) simp
  with s show ?thesis by simp
qed

text \<open>No call fails.\<close>

fun pp_quiet :: "pp_pc policy" where
  "pp_quiet (PP_create (PC_malloc i l)) r \<longleftrightarrow> 0 < r"
| "pp_quiet p r \<longleftrightarrow> r = 0"

definition pipe_jam :: "event list" where
  "pipe_jam = map (Exec 0) (0 # concat (map (\<lambda>a. [a, 0, 0, 0]) [1..11]) @ replicate 11 0) @
     concat (map (\<lambda>t. replicate 9 (Exec t 0) @ replicate 3 (Exec (Suc t) 0)) [1, 3, 5, 7, 9]) @
     replicate 3 (Exec 0 0)"

text \<open>The pipe of the program, with ten stages, can jam without any failure before the first
  value is in: the first stage keeps its mutex while it waits for the second, which waits for
  its data not to be ready; \<^verbatim>\<open>main\<close> waits for the first mutex, and no thread can move.\<close>
theorem pipe_jams:
  "\<exists>s. reach pp_quiet (pipe_main 10) (pipe_system [Value 5]) s \<and> stuck pp_quiet (pipe_main 10) s \<and>
     pcs s ! 0 = PP_start 5 (PT_send 1 PS_lock)"
proof -
  let ?f = "\<lambda>s. (pcs s ! 0, list_all (jammed (pipe_main 10) s) (threads s))"
  have "map_option ?f (run pp_quiet (pipe_main 10) pipe_jam (pipe_system [Value 5])) =
    Some (PP_start 5 (PT_send 1 PS_lock), True)" by code_simp
  from reach_exists [OF this] obtain s where s: "reach pp_quiet (pipe_main 10) (pipe_system [Value 5]) s"
    "pcs s ! 0 = PP_start 5 (PT_send 1 PS_lock)" "list_all (jammed (pipe_main 10) s) (threads s)" by auto
  have "r \<le> 0" if "pp_quiet p r" "pipe_main 10 p = Do c k" "(\<exists>x. c = Lock x) \<or> (\<exists>u. c = Join u)" for p r c k
    using that by (cases "(p, r)" rule: pp_quiet.cases) auto
  then have "stuck pp_quiet (pipe_main 10) s" by (intro jammed_stuck [OF s(3)])
  with s(1,2) show ?thesis by (intro exI conjI)
qed

end
