(* ===== verification/Stdio.thy ===== *)
theory Stdio
  imports Prelude "HOL-Library.Sublist"
begin

text \<open>
  What the programs use of the C library's strings and streams: \<^verbatim>\<open>fgets\<close> on a stream that is the list of the characters still
  to be read, the string a character array holds, \<^verbatim>\<open>strstr\<close>, the removal of the newline.
\<close>

abbreviation newline :: char where "newline \<equiv> CHR 0x0A"

text \<open>At most \<open>n\<close> characters of the input, up to the end of the line.\<close>

fun piece :: "nat \<Rightarrow> string \<Rightarrow> string \<times> string" where
  "piece 0 s = ([], s)"
| "piece (Suc n) [] = ([], [])"
| "piece (Suc n) (c # s) =
     (if c = newline then ([c], s) else case piece n s of (l, s') \<Rightarrow> (c # l, s'))"

definition fgets :: "nat \<Rightarrow> string \<Rightarrow> string \<times> string" where
  "fgets n s = piece (n - 1) s"

definition c_string :: "string \<Rightarrow> string" where
  "c_string s = takeWhile (\<lambda>c. c \<noteq> CHR 0x00) s"

definition chomp :: "string \<Rightarrow> string" where
  "chomp s = (if s \<noteq> [] \<and> last s = newline then butlast s else s)"

fun strstr :: "string \<Rightarrow> string \<Rightarrow> bool" where
  "strstr [] w \<longleftrightarrow> w = []"
| "strstr (c # cs) w \<longleftrightarrow> take (length w) (c # cs) = w \<or> strstr cs w"

section \<open>Strings\<close>

lemma strstr_sublist: "strstr s w \<longleftrightarrow> sublist w s"
proof (induction s)
  case (Cons c s)
  have "prefix w (c # s) \<longleftrightarrow> take (length w) (c # s) = w" by (metis append_eq_conv_conj prefix_def)
  then show ?case using Cons by (simp add: sublist_Cons_right)
qed simp

lemma c_string_id: "CHR 0x00 \<notin> set s \<Longrightarrow> c_string s = s"
  by (auto simp: c_string_def takeWhile_eq_all_conv)

lemma c_string_prefix: "prefix (c_string s) s"
  unfolding c_string_def by (rule takeWhile_is_prefix)

lemma piece_line: "length l < n \<Longrightarrow> newline \<notin> set l \<Longrightarrow> piece n (l @ newline # s) = (l @ [newline], s)"
proof (induction l arbitrary: n)
  case Nil
  then show ?case by (cases n) auto
next
  case (Cons c l)
  then show ?case by (cases n) auto
qed

lemma piece_length: "length (fst (piece n s)) \<le> n"
  by (induction n s rule: piece.induct) (auto split: prod.splits)

lemma piece_append: "piece n s = (l, s') \<Longrightarrow> s = l @ s'"
proof (induction n s arbitrary: l s' rule: piece.induct)
  case (3 n c s)
  then show ?case by (cases "piece n s") (auto split: if_splits)
qed auto

lemma piece_shorter: "piece n s = (l, s') \<Longrightarrow> length s' \<le> length s \<and> (0 < n \<and> s \<noteq> [] \<longrightarrow> length s' < length s)"
proof (induction n s arbitrary: l s' rule: piece.induct)
  case (3 n c s)
  then show ?case by (cases "piece n s") (auto split: if_splits)
qed auto

lemma fgets_shorter: "1 < n \<Longrightarrow> s \<noteq> [] \<Longrightarrow> length (snd (fgets n s)) < length s"
  using piece_shorter [of "n - 1" s "fst (fgets n s)" "snd (fgets n s)"] by (simp add: fgets_def)

section \<open>A whole stream\<close>

text \<open>What \<^verbatim>\<open>fgets\<close> with a buffer of 256 characters returns, until the end of the stream.\<close>

function pieces :: "string \<Rightarrow> string list" where
  "pieces s = (if s = [] then [] else fst (fgets 256 s) # pieces (snd (fgets 256 s)))"
  by auto
termination by (relation "measure length") (auto intro: fgets_shorter)

declare pieces.simps [simp del]

lemma pieces_nil [simp]: "pieces [] = []"
  by (simp add: pieces.simps)

lemma pieces_step: "s \<noteq> [] \<Longrightarrow> fgets 256 s = (l, s') \<Longrightarrow> pieces s = l # pieces s'"
  by (subst pieces.simps) simp

lemma concat_pieces: "concat (pieces s) = s"
proof (induction s rule: pieces.induct)
  case (1 s)
  show ?case
  proof (cases "s = []")
    case False
    obtain l s' where l: "fgets 256 s = (l, s')" by fastforce
    then have "s = l @ s'" by (simp add: fgets_def piece_append)
    then show ?thesis using pieces_step [OF False l] 1 [OF False] l by simp
  qed simp
qed

text \<open>No line is broken: it fits into the buffer with its newline.\<close>

definition whole_lines :: "string \<Rightarrow> bool" where
  "whole_lines s \<longleftrightarrow> list_all (\<lambda>l. l \<noteq> [] \<and> last l = newline) (butlast (pieces s))"

lemma piece_of_sublist: "l \<in> set (pieces s) \<Longrightarrow> sublist l s"
proof -
  assume "l \<in> set (pieces s)"
  then obtain xs ys where "pieces s = xs @ l # ys" by (auto simp: in_set_conv_decomp)
  then have "s = concat xs @ l @ concat ys" using concat_pieces [of s] by simp
  then show ?thesis by (metis sublist_appendI)
qed

text \<open>A string without a newline that occurs in the concatenation of lines occurs in one of them.\<close>

lemma sublist_lines:
  assumes "sublist w (concat ls)" and "w \<noteq> []" and "newline \<notin> set w" and "list_all (\<lambda>l. l \<noteq> [] \<and> last l = newline) (butlast ls)"
  shows "\<exists>l \<in> set ls. sublist w l"
  using assms
proof (induction ls)
  case (Cons l ls)
  show ?case
  proof (cases "ls = []")
    case False
    then have l: "l \<noteq> []" "last l = newline" using Cons.prems(4) by simp_all
    have "sublist w l \<or> sublist w (concat ls)"
    proof -
      have "xs = []" if "suffix xs l" "w = xs @ ys" for xs ys
      proof (rule ccontr)
        assume xs: "xs \<noteq> []"
        then have "last xs = last l" using that(1) by (auto simp: suffix_def)
        then show False using l(2) xs that(2) Cons.prems(3) by (metis UnCI last_in_set set_append)
      qed
      then show ?thesis using Cons.prems(1) unfolding concat.simps sublist_append by (metis append_Nil prefix_imp_sublist)
    qed
    then show ?thesis using Cons False by auto
  qed (use Cons.prems in simp)
qed simp

lemma sublist_pieces:
  assumes "whole_lines s" and "w \<noteq> []" and "newline \<notin> set w" and "sublist w s"
  shows "\<exists>l \<in> set (pieces s). sublist w l"
  by (rule sublist_lines) (use assms concat_pieces [of s] in \<open>simp_all add: whole_lines_def\<close>)

end
