(* ===== verification/Crew.thy ===== *)
theory Crew
  imports Calls Stdio
begin

text \<open>
  The work crew of \<^verbatim>\<open>chap4-pattern/crew.cc\<close>: workers that search files for a string. Work items are
  a linked list of cells in a heap; a worker that finds a directory adds an item for each
  entry. The file system is what \<^verbatim>\<open>lstat\<close>, \<^verbatim>\<open>opendir\<close>, \<^verbatim>\<open>readdir_r\<close>, \<^verbatim>\<open>fopen\<close> and \<^verbatim>\<open>fgets\<close> show of
  it: a function from paths to nodes.
\<close>

section \<open>The data\<close>

datatype crew_mutex = Crew_mutex
datatype crew_cond = Done | Go

text \<open>\<open>None\<close> in \<open>Directory\<close> and \<open>Regular\<close>: it cannot be opened; a directory has its entries, a file its
  characters.\<close>

datatype node = Symlink | Directory "string list option" | Regular "string option" | Special

text \<open>A \<open>path\<close> of \<open>None\<close> is a pointer that has not been initialised.\<close>

record work =
  w_next :: "nat option"
  w_path :: "string option"
  w_string :: string

text \<open>\<open>found\<close> are the lines \<^verbatim>\<open>thread %d found "%s" in %s\<close> that have been printed.\<close>

record crew =
  crew_heap :: "nat \<Rightarrow> work option"
  crew_size :: int
  workers :: "(int \<times> tid option) list"
  work_count :: int
  crew_first :: "nat option"
  crew_last :: "nat option"
  path_max :: int
  name_max :: int
  found :: "(int \<times> string \<times> string) list"
  fs :: "string \<Rightarrow> node option"

definition CREW_SIZE :: int where "CREW_SIZE = 4"

text \<open>Appending an item to the list; the caller has the mutex. \<open>None\<close>: \<^verbatim>\<open>last\<close> points to no item.\<close>

definition crew_append :: "nat \<Rightarrow> crew \<Rightarrow> crew option" where
  "crew_append a m =
     (case crew_first m of
        None \<Rightarrow> Some (m\<lparr>crew_first := Some a, crew_last := Some a, work_count := work_count m + 1\<rparr>)
      | Some _ \<Rightarrow>
          (case crew_last m of
             None \<Rightarrow> None
           | Some l \<Rightarrow>
               (case crew_heap m l of
                  None \<Rightarrow> None
                | Some w \<Rightarrow>
                    Some (m\<lparr>crew_heap := (crew_heap m)(l \<mapsto> w\<lparr>w_next := Some a\<rparr>),
                            crew_last := Some a, work_count := work_count m + 1\<rparr>))))"

section \<open>The worker\<close>

text \<open>\<open>a\<close> is \<^verbatim>\<open>work\<close>, \<open>es\<close> are the directory entries not yet read, \<open>e\<close> is the entry, \<open>b\<close> is
  \<^verbatim>\<open>new_work\<close>, \<open>cs\<close> is what is left of the file.\<close>

datatype cw_pc =
    CW_malloc | CW_lock1 | CW_wait1 | CW_unlock1 | CW_lock2 | CW_wait2 | CW_unlock2 nat
  | CW_lstat nat | CW_opendir nat | CW_readdir nat "string list"
  | CW_new nat "string list" string | CW_path nat "string list" string nat
  | CW_add nat "string list" nat | CW_signal nat "string list" | CW_unlock3 nat "string list"
  | CW_fopen nat | CW_fgets nat string | CW_free nat | CW_lock4 | CW_broadcast | CW_unlock_done
  | CW_unlock4 | CW_return | CW_abort | CW_crash

definition cw_while1 :: "crew \<Rightarrow> crew \<times> cw_pc" where
  "cw_while1 m = (m, if work_count m = 0 then CW_wait1 else CW_unlock1)"

definition cw_while2 :: "crew \<Rightarrow> crew \<times> cw_pc" where
  "cw_while2 m =
     (case crew_first m of
        None \<Rightarrow> (m, CW_wait2)
      | Some a \<Rightarrow>
          (case crew_heap m a of
             None \<Rightarrow> (m, CW_crash)
           | Some w \<Rightarrow>
               (m\<lparr>crew_first := w_next w,
                  crew_last := (if w_next w = None then None else crew_last m)\<rparr>, CW_unlock2 a)))"

text \<open>The path of an item; the string it searches for.\<close>

definition path_of :: "nat \<Rightarrow> crew \<Rightarrow> string option" where
  "path_of a m = (case crew_heap m a of None \<Rightarrow> None | Some w \<Rightarrow> w_path w)"

text \<open>\<^verbatim>\<open>lstat\<close> gives the kind of the file, as a number; when it fails, nothing looks at its
  status and the kind is whatever is in \<^verbatim>\<open>filestat\<close>.\<close>

fun kind_of :: "node \<Rightarrow> int" where
  "kind_of Symlink = 0"
| "kind_of (Directory x) = 1"
| "kind_of (Regular x) = 2"
| "kind_of Special = 3"

definition lstat_ok :: "nat \<Rightarrow> int \<Rightarrow> crew \<Rightarrow> bool" where
  "lstat_ok a r m =
     (case path_of a m of
        None \<Rightarrow> True
      | Some p \<Rightarrow> (case fs m p of None \<Rightarrow> 0 \<le> r \<and> r \<le> 3 | Some nd \<Rightarrow> r = kind_of nd))"

definition cw_kind :: "nat \<Rightarrow> int \<Rightarrow> crew \<Rightarrow> crew \<times> cw_pc" where
  "cw_kind a r m =
     (m, if path_of a m = None then CW_crash
         else if r = 0 then CW_free a
         else if r = 1 then CW_opendir a
         else if r = 2 then CW_fopen a
         else CW_free a)"

definition cw_opendir :: "nat \<Rightarrow> crew \<Rightarrow> crew \<times> cw_pc" where
  "cw_opendir a m =
     (m, case path_of a m of
           None \<Rightarrow> CW_crash
         | Some p \<Rightarrow> (case fs m p of Some (Directory (Some es)) \<Rightarrow> CW_readdir a es | _ \<Rightarrow> CW_lock2))"

definition cw_readdir :: "nat \<Rightarrow> string list \<Rightarrow> int \<Rightarrow> crew \<Rightarrow> crew \<times> cw_pc" where
  "cw_readdir a es status m =
     (m, if status \<noteq> 0 then CW_free a
         else case es of
           [] \<Rightarrow> CW_free a
         | e # es' \<Rightarrow> if e = ''.'' \<or> e = ''..'' then CW_readdir a es' else CW_new a es' e)"

text \<open>\<^verbatim>\<open>new_work->path\<close> is read and written through before it is initialised: it may be null,
  unusable, or happen to point to enough memory.\<close>

definition cw_path :: "nat \<Rightarrow> string list \<Rightarrow> string \<Rightarrow> nat \<Rightarrow> int \<Rightarrow> crew \<Rightarrow> crew \<times> cw_pc" where
  "cw_path a es e b r m =
     (if r = 0 then (m, CW_abort)
      else if r = 1 then (m, CW_crash)
      else case crew_heap m a of
        None \<Rightarrow> (m, CW_crash)
      | Some w \<Rightarrow>
          (case w_path w of
             None \<Rightarrow> (m, CW_crash)
           | Some p \<Rightarrow>
               (m\<lparr>crew_heap := (crew_heap m)(b \<mapsto>
                    \<lparr>w_next = None, w_path = Some (p @ ''/'' @ e), w_string = w_string w\<rparr>)\<rparr>, CW_add a es b)))"

text \<open>Searching a file: \<open>cs\<close> are the characters still to be read, the buffer has 256 characters and \<^verbatim>\<open>strstr\<close> sees it up to its
  first NUL. \<open>r\<close> is not 0 when \<^verbatim>\<open>fgets\<close> fails with an error; the message about it
  passes a \<^verbatim>\<open>FILE*\<close> where \<^verbatim>\<open>%s\<close> expects a string.\<close>

definition cw_fopen :: "nat \<Rightarrow> crew \<Rightarrow> crew \<times> cw_pc" where
  "cw_fopen a m =
     (m, case path_of a m of
           None \<Rightarrow> CW_crash
         | Some p \<Rightarrow> (case fs m p of Some (Regular (Some cs)) \<Rightarrow> CW_fgets a cs | _ \<Rightarrow> CW_free a))"

definition cw_fgets :: "int \<Rightarrow> nat \<Rightarrow> string \<Rightarrow> int \<Rightarrow> crew \<Rightarrow> crew \<times> cw_pc" where
  "cw_fgets i a cs r m =
     (if r \<noteq> 0 then (m, CW_crash)
      else if cs = [] then (m, CW_free a)
      else case fgets 256 cs of
        (buffer, cs') \<Rightarrow>
          (case crew_heap m a of
             None \<Rightarrow> (m, CW_crash)
           | Some w \<Rightarrow>
               if \<not> strstr (c_string buffer) (w_string w) then (m, CW_fgets a cs')
               else (case w_path w of
                   None \<Rightarrow> (m, CW_crash)
                 | Some p \<Rightarrow> (m\<lparr>found := found m @ [(i, w_string w, p)]\<rparr>, CW_free a))))"

definition cw_done :: "crew \<Rightarrow> crew \<times> cw_pc" where
  "cw_done m =
     (m\<lparr>work_count := work_count m - 1\<rparr>, if work_count m - 1 \<le> 0 then CW_broadcast else CW_unlock4)"

text \<open>\<open>i\<close> is \<^verbatim>\<open>mine->index\<close>.\<close>

fun worker_routine :: "int \<Rightarrow> cw_pc \<Rightarrow> (crew_mutex, crew_cond, crew, cw_pc) act" where
  "worker_routine i CW_malloc =
     Do (Env (\<lambda>r _. 0 \<le> r)) (\<lambda>r m. (m, if r = 0 then CW_abort else CW_lock1))"
| "worker_routine i CW_lock1 =
     Do (Lock Crew_mutex) (\<lambda>status m. if status \<noteq> 0 then (m, CW_abort) else cw_while1 m)"
| "worker_routine i CW_wait1 =
     Do (Wait Go Crew_mutex) (\<lambda>status m. if status \<noteq> 0 then (m, CW_abort) else cw_while1 m)"
| "worker_routine i CW_unlock1 = Do (Unlock Crew_mutex) (checked CW_abort CW_lock2)"
| "worker_routine i CW_lock2 =
     Do (Lock Crew_mutex) (\<lambda>status m. if status \<noteq> 0 then (m, CW_abort) else cw_while2 m)"
| "worker_routine i CW_wait2 =
     Do (Wait Go Crew_mutex) (\<lambda>status m. if status \<noteq> 0 then (m, CW_abort) else cw_while2 m)"
| "worker_routine i (CW_unlock2 a) = Do (Unlock Crew_mutex) (checked CW_abort (CW_lstat a))"
| "worker_routine i (CW_lstat a) = Do (Env (lstat_ok a)) (cw_kind a)"
| "worker_routine i (CW_opendir a) = Do Tau (\<lambda>_. cw_opendir a)"
| "worker_routine i (CW_readdir a es) = Do (Env (\<lambda>r _. 0 \<le> r)) (cw_readdir a es)"
| "worker_routine i (CW_new a es e) =
     Do (Env (\<lambda>r m. r = 0 \<or> 0 < r \<and> crew_heap m (nat r) = None)) (\<lambda>r m.
       if r = 0 then (m, CW_crash)
       else (m\<lparr>crew_heap := (crew_heap m)(nat r \<mapsto> \<lparr>w_next = None, w_path = None, w_string = []\<rparr>)\<rparr>,
             CW_path a es e (nat r)))"
| "worker_routine i (CW_path a es e b) = Do (Env (\<lambda>r _. 0 \<le> r)) (cw_path a es e b)"
| "worker_routine i (CW_add a es b) =
     Do (Lock Crew_mutex) (\<lambda>status m.
       if status \<noteq> 0 then (m, CW_abort)
       else case crew_append b m of None \<Rightarrow> (m, CW_crash) | Some m' \<Rightarrow> (m', CW_signal a es))"
| "worker_routine i (CW_signal a es) = Do (Signal Go) (checked CW_abort (CW_unlock3 a es))"
| "worker_routine i (CW_unlock3 a es) = Do (Unlock Crew_mutex) (checked CW_abort (CW_readdir a es))"
| "worker_routine i (CW_fopen a) = Do Tau (\<lambda>_. cw_fopen a)"
| "worker_routine i (CW_fgets a cs) = Do (Env (\<lambda>r _. 0 \<le> r)) (cw_fgets i a cs)"
| "worker_routine i (CW_free a) =
     Do Tau (\<lambda>_ m. if path_of a m = None then (m, CW_crash)
       else (m\<lparr>crew_heap := (crew_heap m)(a := None)\<rparr>, CW_lock4))"
| "worker_routine i CW_lock4 =
     Do (Lock Crew_mutex) (\<lambda>status m. if status \<noteq> 0 then (m, CW_abort) else cw_done m)"
| "worker_routine i CW_broadcast = Do (Broadcast Done) (checked CW_abort CW_unlock_done)"
| "worker_routine i CW_unlock_done = Do (Unlock Crew_mutex) (checked CW_abort CW_return)"
| "worker_routine i CW_unlock4 = Do (Unlock Crew_mutex) (checked CW_abort CW_lock2)"
| "worker_routine i CW_return = Return 0"
| "worker_routine i CW_abort = Halt Aborted"
| "worker_routine i CW_crash = Halt Undefined"

section \<open>Creating the crew\<close>

datatype cc_pc = CC_start | CC_mutex | CC_done | CC_go | CC_create nat | CC_return int | CC_abort | CC_worker int

definition cc_next :: "nat \<Rightarrow> crew \<Rightarrow> crew \<times> cc_pc" where
  "cc_next i m =
     (if int i < crew_size m
      then (m\<lparr>workers := (workers m)[i := (int i, None)]\<rparr>, CC_create i) else (m, CC_return 0))"

fun crew_create :: "int \<Rightarrow> cc_pc \<Rightarrow> (crew_mutex, crew_cond, crew, cc_pc) act" where
  "crew_create n CC_start =
     Do Tau (\<lambda>_ m.
       if n > CREW_SIZE then (m, CC_return EINVAL)
       else (m\<lparr>crew_size := n, work_count := 0, crew_first := None, crew_last := None\<rparr>, CC_mutex))"
| "crew_create n CC_mutex =
     Do (MInit Crew_mutex) (\<lambda>status m. (m, if status \<noteq> 0 then CC_return status else CC_done))"
| "crew_create n CC_done =
     Do (CInit Done) (\<lambda>status m. (m, if status \<noteq> 0 then CC_return status else CC_go))"
| "crew_create n CC_go =
     Do (CInit Go) (\<lambda>status m. if status \<noteq> 0 then (m, CC_return status) else cc_next 0 m)"
| "crew_create n (CC_create i) =
     Do (Create (\<lambda>u m. m\<lparr>workers := (workers m)[i := (int i, Some u)]\<rparr>) (CC_worker (int i)))
       (\<lambda>status m. if status \<noteq> 0 then (m, CC_abort) else cc_next (Suc i) m)"
| "crew_create n (CC_return v) = Return v"
| "crew_create n CC_abort = Halt Aborted"
| "crew_create n (CC_worker i) = Halt Undefined"

section \<open>Starting a search\<close>

datatype cs_pc =
    CS_lock | CS_wait1 | CS_fail int | CS_pathconf | CS_nameconf | CS_malloc | CS_malloc_path nat
  | CS_signal | CS_wait2 | CS_relock | CS_unlock | CS_return int | CS_abort | CS_crash

definition cs_while1 :: "crew \<Rightarrow> crew \<times> cs_pc" where
  "cs_while1 m = (m, if work_count m > 0 then CS_wait1 else CS_pathconf)"

definition cs_while2 :: "crew \<Rightarrow> crew \<times> cs_pc" where
  "cs_while2 m = (m, if work_count m > 0 then CS_wait2 else CS_relock)"

text \<open>\<^verbatim>\<open>pathconf\<close> returns a limit, or \<open>-1\<close> without an error (no limit), or fails (\<open>-2\<close> here).\<close>

definition limit_of :: "int \<Rightarrow> int" where
  "limit_of r = (if r = -1 then 1024 else r)"

definition cs_request :: "nat \<Rightarrow> string \<Rightarrow> string \<Rightarrow> crew \<Rightarrow> crew \<times> cs_pc" where
  "cs_request a filepath search m =
     (if int (length filepath) \<ge> path_max m then (m, CS_crash)
      else case crew_append a (m\<lparr>crew_heap := (crew_heap m)(a \<mapsto>
          \<lparr>w_next = None, w_path = Some filepath, w_string = search\<rparr>)\<rparr>) of
        None \<Rightarrow> (m, CS_crash)
      | Some m' \<Rightarrow> (m', CS_signal))"

fun crew_start :: "string \<Rightarrow> string \<Rightarrow> cs_pc \<Rightarrow> (crew_mutex, crew_cond, crew, cs_pc) act" where
  "crew_start filepath search CS_lock =
     Do (Lock Crew_mutex) (\<lambda>status m. if status \<noteq> 0 then (m, CS_return status) else cs_while1 m)"
| "crew_start filepath search CS_wait1 =
     Do (Wait Done Crew_mutex) (\<lambda>status m. if status \<noteq> 0 then (m, CS_fail status) else cs_while1 m)"
| "crew_start filepath search (CS_fail status) = Do (Unlock Crew_mutex) (goto (CS_return status))"
| "crew_start filepath search CS_pathconf =
     Do (Env (\<lambda>r _. -2 \<le> r)) (\<lambda>r m.
       if r = -2 then (m, CS_abort) else (m\<lparr>path_max := limit_of r\<rparr>, CS_nameconf))"
| "crew_start filepath search CS_nameconf =
     Do (Env (\<lambda>r _. -2 \<le> r)) (\<lambda>r m.
       if r = -2 then (m, CS_abort)
       else (m\<lparr>name_max := limit_of r + 1, path_max := path_max m + 1\<rparr>, CS_malloc))"
| "crew_start filepath search CS_malloc =
     Do (Env (\<lambda>r m. r = 0 \<or> 0 < r \<and> crew_heap m (nat r) = None)) (\<lambda>r m.
       if r = 0 then (m, CS_abort)
       else (m\<lparr>crew_heap := (crew_heap m)(nat r \<mapsto> \<lparr>w_next = None, w_path = None, w_string = []\<rparr>)\<rparr>,
             CS_malloc_path (nat r)))"
| "crew_start filepath search (CS_malloc_path a) =
     Do (Env (\<lambda>r _. 0 \<le> r)) (\<lambda>r m. if r = 0 then (m, CS_abort) else cs_request a filepath search m)"
| "crew_start filepath search CS_signal =
     Do (Signal Go) (\<lambda>status m.
       if status \<noteq> 0
       then (m\<lparr>crew_heap := (case crew_first m of None \<Rightarrow> crew_heap m | Some a \<Rightarrow> (crew_heap m)(a := None)),
               crew_first := None, work_count := 0\<rparr>, CS_fail status)
       else cs_while2 m)"
| "crew_start filepath search CS_wait2 =
     Do (Wait Done Crew_mutex) (\<lambda>status m. if status \<noteq> 0 then (m, CS_abort) else cs_while2 m)"
| "crew_start filepath search CS_relock =
     Do (Lock Crew_mutex) (\<lambda>status m. (m, if status \<noteq> 0 then CS_return status else CS_unlock))"
| "crew_start filepath search CS_unlock =
     Do (Unlock Crew_mutex) (\<lambda>status m. (m, CS_return status))"
| "crew_start filepath search (CS_return v) = Return v"
| "crew_start filepath search CS_abort = Halt Aborted"
| "crew_start filepath search CS_crash = Halt Undefined"

section \<open>The main program\<close>

datatype cm_pc = CM_start | CM_create cc_pc | CM_search cs_pc | CM_exit int | CM_abort | CM_worker int cw_pc

fun cm_thread :: "cc_pc \<Rightarrow> cm_pc" where
  "cm_thread (CC_worker i) = CM_worker i CW_malloc"
| "cm_thread p = CM_create p"

text \<open>\<open>args\<close> are the arguments after the name of the program: the string and the path.\<close>

fun crew_main :: "string list \<Rightarrow> cm_pc \<Rightarrow> (crew_mutex, crew_cond, crew, cm_pc) act" where
  "crew_main args CM_start =
     Do Tau (\<lambda>_ m. (m, if length args < 2 then CM_exit (-1) else CM_create CC_start))"
| "crew_main args (CM_create p) =
     call_fun (\<lambda>m. m) (\<lambda>m' m. m') CM_create cm_thread
       (\<lambda>v m. (m, if v \<noteq> 0 then CM_abort else CM_search CS_lock)) (crew_create CREW_SIZE p)"
| "crew_main args (CM_search p) =
     call_here CM_search (\<lambda>v m. (m, if v \<noteq> 0 then CM_abort else CM_exit 0))
       (crew_start (args ! 1) (args ! 0) p)"
| "crew_main args (CM_exit v) = Halt (Exited v)"
| "crew_main args CM_abort = Halt Aborted"
| "crew_main args (CM_worker i p) = thread_fun (CM_worker i) (worker_routine i p)"

definition crew_mem :: "(string \<Rightarrow> node option) \<Rightarrow> crew" where
  "crew_mem d = \<lparr>crew_heap = \<lambda>_. None, crew_size = 0, workers = replicate (nat CREW_SIZE) (0, None),
     work_count = 0, crew_first = None, crew_last = None, path_max = 0, name_max = 0, found = [], fs = d\<rparr>"

definition crew_system :: "(string \<Rightarrow> node option) \<Rightarrow> (crew_mutex, crew_cond, crew, cm_pc) sys" where
  "crew_system d = (boot (crew_mem d) [CM_start])\<lparr>mtx := \<lambda>_. Raw, cnd := \<lambda>_. False\<rparr>"

text \<open>The threads the program creates are workers.\<close>

lemma crew_spawned:
  assumes "crew_main args p = Do c k"
  shows "spawned c r = [] \<or> (\<exists>i. p = CM_create (CC_create i) \<and> spawned c r = [CM_worker (int i) CW_malloc])"
proof -
  have W: "spawned c r = []" if "worker_routine i q = Do c k" for i q c k r using that by (cases q) auto
  have S: "spawned c r = []" if "crew_start x y q = Do c k" for x y q c k r using that by (cases q) auto
  have C: "spawned c r = [] \<or> (\<exists>i. q = CC_create i \<and> spawned c r = [CC_worker (int i)])"
    if "crew_create n q = Do c k" for n q c k r using that by (cases q) auto
  show ?thesis
  proof (cases p)
    case (CM_create q)
    from assms [unfolded CM_create crew_main.simps] show ?thesis
    proof (cases rule: call_fun_cases)
      case (inside c0 k0)
      then show ?thesis using C [of CREW_SIZE q c0 k0 r] CM_create by auto
    qed simp
  next
    case (CM_search q)
    from assms [unfolded CM_search crew_main.simps] S show ?thesis
      by (cases rule: call_fun_cases) simp_all
  next
    case (CM_worker i q)
    from assms [unfolded CM_worker crew_main.simps] W show ?thesis
      by (cases rule: thread_fun_cases) simp_all
  qed (use assms in auto)
qed

section \<open>The search does not return\<close>

text \<open>\<open>crew_start\<close> has the mutex from its first lock on.\<close>

fun cs_holds :: "cs_pc \<Rightarrow> crew_mutex set" where
  "cs_holds CS_lock = {}"
| "cs_holds (CS_return v) = {}"
| "cs_holds p = {Crew_mutex}"

fun crew_holds :: "cm_pc \<Rightarrow> crew_mutex set" where
  "crew_holds (CM_search p) = cs_holds p"
| "crew_holds p = {}"

lemma cs_tracks:
  "crew_start x y p = Do c k \<Longrightarrow> k r m = (m', p') \<Longrightarrow> cs_holds p' \<subseteq> held_after c r (cs_holds p)"
  by (cases p) (auto simp: cs_while1_def cs_while2_def cs_request_def split: if_splits option.splits)

interpretation crew_any: lock_tracking any_status "crew_main args" crew_holds
proof unfold_locales
  fix p c r m k and n :: int and m' m'' p'
  assume p: "crew_main args p = Do c k" and k: "k r m' = (m'', p')"
  show "crew_holds p' \<subseteq> held_after c r (crew_holds p)"
  proof (cases p)
    case (CM_search q)
    from p [unfolded CM_search crew_main.simps] show ?thesis
    proof (cases rule: call_fun_cases)
      case (inside c0 k0)
      then show ?thesis using cs_tracks [OF inside(1), of r m' m''] k CM_search by (auto split: prod.splits)
    qed (use k in \<open>auto split: if_splits\<close>)
  next
    case (CM_worker i q)
    from p [unfolded CM_worker crew_main.simps] show ?thesis
      by (cases rule: thread_fun_cases) (use k in \<open>auto split: prod.splits\<close>)
  next
    case (CM_create q)
    from p [unfolded CM_create crew_main.simps] show ?thesis
      by (cases rule: call_fun_cases) (use k in \<open>auto split: prod.splits if_splits\<close>)
  qed (use p k in \<open>auto split: if_splits\<close>)
next
  fix p q and st :: "nat \<Rightarrow> crew \<Rightarrow> crew" and k :: "int \<Rightarrow> crew \<Rightarrow> crew \<times> cm_pc"
  assume "crew_main args p = Do (Create st q) k"
  then show "crew_holds q = {}" using crew_spawned [of args p "Create st q" k 0] by auto
qed

lemma crew_tracked: "tracked crew_holds (crew_system d)"
  by (simp add: tracked_def crew_system_def)

lemma crew_awake: "list_all (awake allow code (now (crew_system d))) (threads (crew_system d))"
  by (simp add: crew_system_def)

text \<open>The points past the second lock, and the successful returns.\<close>

fun barred :: "cm_pc \<Rightarrow> bool" where
  "barred (CM_search CS_unlock) \<longleftrightarrow> True"
| "barred (CM_search (CS_fail v)) \<longleftrightarrow> v = 0"
| "barred (CM_search (CS_return v)) \<longleftrightarrow> v = 0"
| "barred (CM_exit v) \<longleftrightarrow> v = 0"
| "barred p \<longleftrightarrow> False"

lemma crew_unbarred_step:
  assumes p: "crew_main args p = Do c k" and k: "k r m = (m', p')" and b: "\<not> barred p"
    and fresh: "\<forall>z. (c = Lock z \<or> c = Trylock z) \<and> r = 0 \<longrightarrow> z \<notin> crew_holds p"
  shows "\<not> barred p'"
proof (cases p)
  case (CM_search q)
  then show ?thesis using p k b fresh
    by (cases q) (auto simp: cs_while1_def cs_while2_def cs_request_def split: if_splits option.splits)
next
  case (CM_create q)
  from p [unfolded CM_create crew_main.simps] show ?thesis
    by (cases rule: call_fun_cases) (use k in \<open>auto split: prod.splits if_splits\<close>)
next
  case (CM_worker i q)
  from p [unfolded CM_worker crew_main.simps] show ?thesis
    by (cases rule: thread_fun_cases) (use k in \<open>auto split: prod.splits\<close>)
qed (use p k in \<open>auto split: if_splits\<close>)

lemma crew_unbarred:
  assumes "reach any_status (crew_main args) (crew_system d) s"
  shows "\<forall>p \<in> set (pcs s). \<not> barred p"
  using assms crew_tracked crew_awake
proof (induction rule: crew_any.tracked_invariant)
  case start
  show ?case by (simp add: crew_system_def)
next
  case (tick n m ps)
  then show ?case .
next
  case (move n m ps t c k r m' p')
  have "\<not> barred p'"
    using crew_unbarred_step [OF move(3) move(6) _ move(8)] move(1,2) by simp
  moreover have "\<not> barred q" if "q \<in> set (spawned c r)" for q
    using crew_spawned [OF move(3), of r] that by auto
  ultimately show ?case
    using move(1) by (auto dest: set_update_subset_insert [THEN subsetD])
qed

section \<open>Searching one file\<close>

text \<open>The environment in which no call fails.\<close>

fun crew_quiet :: "cm_pc policy" where
  "crew_quiet (CM_worker i CW_malloc) r \<longleftrightarrow> 0 < r"
| "crew_quiet (CM_worker i (CW_lstat a)) r \<longleftrightarrow> True"
| "crew_quiet (CM_search CS_pathconf) r \<longleftrightarrow> r \<noteq> -2"
| "crew_quiet (CM_search CS_nameconf) r \<longleftrightarrow> r \<noteq> -2"
| "crew_quiet (CM_search CS_malloc) r \<longleftrightarrow> 0 < r"
| "crew_quiet (CM_search (CS_malloc_path a)) r \<longleftrightarrow> 0 < r"
| "crew_quiet p r \<longleftrightarrow> r = 0"

text \<open>The search of the string \<open>w\<close> in the file \<open>p\<close> with the contents \<open>cs\<close>: the request at \<open>a\<close>,
  and what is to be found.\<close>

definition request :: "string \<Rightarrow> string \<Rightarrow> work" where
  "request w p = \<lparr>w_next = None, w_path = Some p, w_string = w\<rparr>"

definition outcome :: "string \<Rightarrow> string \<Rightarrow> string \<Rightarrow> (string \<times> string) list" where
  "outcome w p cs = (if \<exists>l \<in> set (pieces cs). strstr (c_string l) w then [(w, p)] else [])"

fun fresh_worker :: "cm_pc \<Rightarrow> bool" where
  "fresh_worker (CM_worker i CW_malloc) \<longleftrightarrow> True"
| "fresh_worker (CM_worker i CW_lock1) \<longleftrightarrow> True"
| "fresh_worker (CM_worker i CW_wait1) \<longleftrightarrow> True"
| "fresh_worker p \<longleftrightarrow> False"

fun in_hand :: "cm_pc \<Rightarrow> bool" where
  "in_hand (CM_worker i (CW_unlock2 a)) \<longleftrightarrow> True"
| "in_hand (CM_worker i (CW_lstat a)) \<longleftrightarrow> True"
| "in_hand (CM_worker i (CW_fopen a)) \<longleftrightarrow> True"
| "in_hand (CM_worker i (CW_fgets a cs)) \<longleftrightarrow> True"
| "in_hand (CM_worker i (CW_free a)) \<longleftrightarrow> True"
| "in_hand (CM_worker i CW_lock4) \<longleftrightarrow> True"
| "in_hand p \<longleftrightarrow> False"

fun cw_fit :: "string \<Rightarrow> string \<Rightarrow> string \<Rightarrow> crew \<Rightarrow> cw_pc \<Rightarrow> bool" where
  "cw_fit w p cs m (CW_unlock2 a) \<longleftrightarrow> crew_heap m a = Some (request w p) \<and> found m = []"
| "cw_fit w p cs m (CW_lstat a) \<longleftrightarrow> crew_heap m a = Some (request w p) \<and> found m = []"
| "cw_fit w p cs m (CW_fopen a) \<longleftrightarrow> crew_heap m a = Some (request w p) \<and> found m = []"
| "cw_fit w p cs m (CW_fgets a xs) \<longleftrightarrow> crew_heap m a = Some (request w p) \<and> found m = [] \<and>
     outcome w p xs = outcome w p cs"
| "cw_fit w p cs m (CW_free a) \<longleftrightarrow> crew_heap m a = Some (request w p) \<and> map snd (found m) = outcome w p cs"
| "cw_fit w p cs m CW_lock4 \<longleftrightarrow> map snd (found m) = outcome w p cs"
| "cw_fit w p cs m (CW_opendir a) \<longleftrightarrow> False"
| "cw_fit w p cs m (CW_readdir a es) \<longleftrightarrow> False"
| "cw_fit w p cs m (CW_new a es e) \<longleftrightarrow> False"
| "cw_fit w p cs m (CW_path a es e b) \<longleftrightarrow> False"
| "cw_fit w p cs m (CW_add a es b) \<longleftrightarrow> False"
| "cw_fit w p cs m (CW_signal a es) \<longleftrightarrow> False"
| "cw_fit w p cs m (CW_unlock3 a es) \<longleftrightarrow> False"
| "cw_fit w p cs m CW_abort \<longleftrightarrow> False"
| "cw_fit w p cs m CW_crash \<longleftrightarrow> False"
| "cw_fit w p cs m q \<longleftrightarrow> True"

fun crew_fit :: "string \<Rightarrow> string \<Rightarrow> string \<Rightarrow> crew \<Rightarrow> cm_pc \<Rightarrow> bool" where
  "crew_fit w p cs m (CM_worker i q) \<longleftrightarrow> cw_fit w p cs m q"
| "crew_fit w p cs m q \<longleftrightarrow> False"

text \<open>Where the request is: not yet made, in the list, with a worker, done.\<close>

definition hands :: "cm_pc list \<Rightarrow> int" where
  "hands ws = tally (\<lambda>q. of_bool (in_hand q)) ws"

definition listed :: "string \<Rightarrow> string \<Rightarrow> crew \<Rightarrow> cm_pc list \<Rightarrow> bool" where
  "listed w p m ws \<longleftrightarrow> work_count m = 1 \<and> (\<exists>a. crew_first m = Some a \<and> crew_heap m a = Some (request w p)) \<and>
     found m = [] \<and> hands ws = 0"

definition taken :: "crew \<Rightarrow> cm_pc list \<Rightarrow> bool" where
  "taken m ws \<longleftrightarrow> work_count m = 1 \<and> crew_first m = None \<and> hands ws = 1"

definition finished_search :: "string \<Rightarrow> string \<Rightarrow> string \<Rightarrow> crew \<Rightarrow> cm_pc list \<Rightarrow> bool" where
  "finished_search w p cs m ws \<longleftrightarrow> work_count m = 0 \<and> crew_first m = None \<and> hands ws = 0 \<and>
     map snd (found m) = outcome w p cs"

fun sent :: "cm_pc \<Rightarrow> bool" where
  "sent (CM_search CS_signal) \<longleftrightarrow> True"
| "sent (CM_search CS_wait2) \<longleftrightarrow> True"
| "sent (CM_search CS_relock) \<longleftrightarrow> True"
| "sent (CM_search CS_unlock) \<longleftrightarrow> True"
| "sent (CM_search (CS_return v)) \<longleftrightarrow> True"
| "sent (CM_exit v) \<longleftrightarrow> True"
| "sent p \<longleftrightarrow> False"

definition waiting_for_crew :: "cm_pc \<Rightarrow> bool" where
  "waiting_for_crew p \<longleftrightarrow> p = CM_search CS_signal \<or> p = CM_search CS_wait2"

definition crew_inv :: "string \<Rightarrow> string \<Rightarrow> string \<Rightarrow> crew \<Rightarrow> cm_pc \<Rightarrow> cm_pc list \<Rightarrow> bool" where
  "crew_inv w p cs m q ws \<longleftrightarrow> fs m p = Some (Regular (Some cs)) \<and>
     (if sent q
      then list_all (crew_fit w p cs m) ws \<and>
        (listed w p m ws \<or> taken m ws \<or> finished_search w p cs m ws) \<and>
        (waiting_for_crew q \<or> work_count m = 0) \<and> (\<forall>v. q = CM_search (CS_return v) \<longrightarrow> v = 0)
      else work_count m = 0 \<and> crew_first m = None \<and> found m = [] \<and> list_all fresh_worker ws \<and>
        (\<forall>i x. q \<noteq> CM_worker i x) \<and> (\<forall>v. q \<noteq> CM_search (CS_fail v)))"

lemma outcome_nil [simp]: "outcome w p [] = []"
  by (simp add: outcome_def)

lemma outcome_step:
  "cs \<noteq> [] \<Longrightarrow> fgets 256 cs = (l, cs') \<Longrightarrow>
    outcome w p cs = (if strstr (c_string l) w then [(w, p)] else outcome w p cs')"
  by (simp add: outcome_def pieces_step)

lemma request_simps [simp]:
  "w_next (request w p) = None" "w_path (request w p) = Some p" "w_string (request w p) = w"
  by (simp_all add: request_def)

lemma fit_idle:
  assumes "crew_fit w p cs m q" and "\<not> in_hand q"
  shows "crew_fit w p cs m' q"
proof (cases q)
  case (CM_worker i x)
  with assms show ?thesis by (cases x) auto
qed (use assms in auto)

lemma crew_hands_update:
  "t < length ws \<Longrightarrow> hands (ws[t := y]) = hands ws - of_bool (in_hand (ws ! t)) + of_bool (in_hand y)"
  by (simp add: hands_def tally_update)

lemma hands_nonneg: "0 \<le> hands ws"
  unfolding hands_def by (rule tally_nonneg) simp

lemma hands_ge: "t < length ws \<Longrightarrow> of_bool (in_hand (ws ! t)) \<le> hands ws"
  unfolding hands_def by (rule tally_ge_elem) auto

lemma others_idle:
  assumes "t < length ws" and "hands ws \<le> of_bool (in_hand (ws ! t))" and "u < length ws" and "u \<noteq> t"
  shows "\<not> in_hand (ws ! u)"
proof -
  have "of_bool (in_hand (ws ! t)) + of_bool (in_hand (ws ! u)) \<le> hands ws"
    unfolding hands_def by (rule tally_ge_two) (use assms in auto)
  then show ?thesis using assms(2) by (auto split: if_splits)
qed

lemma fit_update:
  assumes "list_all (crew_fit w p cs m) ws" and t: "t < length ws" "hands ws \<le> of_bool (in_hand (ws ! t))"
    and "crew_fit w p cs m' y"
  shows "list_all (crew_fit w p cs m') (ws[t := y])"
proof (rule list_all_update_others [where Q = "crew_fit w p cs m'", OF t(1) assms(4)])
  fix u assume "u < length ws" "u \<noteq> t"
  then show "crew_fit w p cs m' (ws ! u)"
    using fit_idle others_idle [OF t] assms(1) by (auto simp: list_all_length)
qed

text \<open>A worker moves after the request was made.\<close>

lemma crew_worker_idle:
  assumes x: "\<not> in_hand (CM_worker i x)" "cw_fit w p cs m x" and c: "worker_routine i x = Do c k"
    and r: "crew_quiet (CM_worker i x) r" and k: "k r m = (m', x')"
  shows "m' = m \<and> \<not> in_hand (CM_worker i x') \<and> cw_fit w p cs m x' \<or>
    (\<exists>a. crew_first m = Some a) \<and> cw_while2 m = (m', x')"
  using assms
  by (cases x) (auto simp: cw_while1_def cw_while2_def split: if_splits option.splits)

lemma crew_worker_busy:
  assumes x: "in_hand (CM_worker i x)" "cw_fit w p cs m x" and fs: "fs m p = Some (Regular (Some cs))"
    and c: "worker_routine i x = Do c k"
    and r: "crew_quiet (CM_worker i x) r" "answer_ok c r m u" and k: "k r m = (m', x')"
  shows "in_hand (CM_worker i x') \<and> cw_fit w p cs m' x' \<and> work_count m' = work_count m \<and>
      crew_first m' = crew_first m \<and> fs m' = fs m \<or>
    x = CW_lock4 \<and> cw_done m = (m', x')"
proof (cases x)
  case (CW_lstat a)
  then have "r = 2" using r(2) c x(2) fs by (auto simp: lstat_ok_def path_of_def)
  then show ?thesis using CW_lstat x c k by (auto simp: cw_kind_def path_of_def)
next
  case (CW_fopen a)
  then show ?thesis using x c k fs by (auto simp: cw_fopen_def path_of_def)
next
  case (CW_fgets a xs)
  then have r: "r = 0" "crew_heap m a = Some (request w p)" "found m = []" "outcome w p xs = outcome w p cs"
    using r(1) x(2) by auto
  show ?thesis
  proof (cases "xs = []")
    case True
    then show ?thesis using CW_fgets c k r by (auto simp: cw_fgets_def)
  next
    case False
    obtain l ys where l: "fgets 256 xs = (l, ys)" by fastforce
    then show ?thesis using CW_fgets c k r outcome_step [OF False l] False by (auto simp: cw_fgets_def split: if_splits)
  qed
next
  case (CW_free a)
  then show ?thesis using x c k r(1) by (auto simp: path_of_def)
qed (use x c k r(1) in \<open>auto split: if_splits\<close>)

lemma crew_worker_step:
  assumes inv: "crew_inv w p cs m q ws" and sent: "sent q" and t: "t < length ws" "ws ! t = CM_worker i x"
    and c: "worker_routine i x = Do c k" and r: "crew_quiet (CM_worker i x) r" "answer_ok c r m u"
    and k: "k r m = (m', x')"
  shows "crew_inv w p cs m' q (ws[t := CM_worker i x'])"
proof -
  let ?ws = "ws[t := CM_worker i x']"
  have I: "fs m p = Some (Regular (Some cs))" "list_all (crew_fit w p cs m) ws"
    "listed w p m ws \<or> taken m ws \<or> finished_search w p cs m ws"
    "waiting_for_crew q \<or> work_count m = 0" "\<forall>v. q = CM_search (CS_return v) \<longrightarrow> v = 0"
    using inv sent by (auto simp: crew_inv_def)
  have fit: "cw_fit w p cs m x" using I(2) t by (auto simp: list_all_length)
  note hu = crew_hands_update [OF t(1), of "CM_worker i x'", unfolded t(2)]
  show ?thesis
  proof (cases "in_hand (CM_worker i x)")
    case False
    from crew_worker_idle [OF False fit c r(1) k] show ?thesis
    proof (elim disjE conjE exE)
      assume m: "m' = m" and x': "\<not> in_hand (CM_worker i x')" "cw_fit w p cs m x'"
      have "hands ?ws = hands ws" using hu False x'(1) by simp
      moreover have "list_all (crew_fit w p cs m) ?ws" using I(2) x'(2) by (simp add: list_all_update)
      ultimately show ?thesis using I sent m
        by (simp add: crew_inv_def listed_def taken_def finished_search_def)
    next
      fix a assume a: "crew_first m = Some a" and tw: "cw_while2 m = (m', x')"
      then have L: "work_count m = 1" "crew_heap m a = Some (request w p)" "found m = []" "hands ws = 0"
        using I(3) by (auto simp: listed_def taken_def finished_search_def)
      have m': "m' = m\<lparr>crew_first := None, crew_last := None\<rparr>" "x' = CW_unlock2 a"
        using tw a L(2) by (auto simp: cw_while2_def)
      have "list_all (crew_fit w p cs m') ?ws"
        by (rule fit_update [OF I(2) t(1)]) (use L m' t False in simp_all)
      moreover have "taken m' ?ws" using hu L m' False by (simp add: taken_def)
      ultimately show ?thesis using I L sent m' by (simp add: crew_inv_def)
    qed
  next
    case True
    then have T: "work_count m = 1" "crew_first m = None" "hands ws = 1"
      using I(3) hands_ge [OF t(1)] t(2) by (auto simp: listed_def taken_def finished_search_def)
    have upd: "list_all (crew_fit w p cs m') ?ws" if "cw_fit w p cs m' x'"
      by (rule fit_update [OF I(2) t(1)]) (use T True t that in simp_all)
    from crew_worker_busy [OF True fit I(1) c r k] show ?thesis
    proof (elim disjE conjE)
      assume "in_hand (CM_worker i x')" "cw_fit w p cs m' x'" "work_count m' = work_count m"
        "crew_first m' = crew_first m" "fs m' = fs m"
      then show ?thesis using upd T I hu True sent by (auto simp: crew_inv_def taken_def)
    next
      assume x: "x = CW_lock4" "cw_done m = (m', x')"
      then have m': "m' = m\<lparr>work_count := 0\<rparr>" "x' = CW_broadcast" using T by (auto simp: cw_done_def)
      have "map snd (found m) = outcome w p cs" using fit x by simp
      then have "finished_search w p cs m' ?ws" using T hu True m' by (simp add: finished_search_def)
      then show ?thesis using upd I sent m' by (simp add: crew_inv_def)
    qed
  qed
qed

text \<open>Before the request was made.\<close>

lemma crew_fresh_step:
  assumes inv: "crew_inv w p cs m q ws" and sent: "\<not> sent q" and t: "t < length ws" "ws ! t = CM_worker i x"
    and c: "worker_routine i x = Do c k" and r: "crew_quiet (CM_worker i x) r" and k: "k r m = (m', x')"
  shows "crew_inv w p cs m' q (ws[t := CM_worker i x'])"
proof -
  have "fresh_worker (CM_worker i x)" "work_count m = 0"
    using inv sent t by (auto simp: crew_inv_def list_all_length)
  then have "m' = m" "fresh_worker (CM_worker i x')"
    using c r k by (cases x; auto simp: cw_while1_def split: if_splits)+
  then show ?thesis using inv sent by (auto simp: crew_inv_def intro: list_all_update)
qed

text \<open>The main thread makes the request.\<close>

lemma fresh_fit: "list_all fresh_worker ws \<Longrightarrow> list_all (crew_fit w p cs m) ws"
proof -
  have "crew_fit w p cs m x" if "fresh_worker x" for x
    using that by (cases x rule: fresh_worker.cases) auto
  then show "list_all fresh_worker ws \<Longrightarrow> ?thesis" by (auto simp: list_all_iff)
qed

lemma fresh_hands: "list_all fresh_worker ws \<Longrightarrow> hands ws = 0"
proof -
  have "\<not> in_hand x" if "fresh_worker x" for x
    using that by (cases x rule: fresh_worker.cases) auto
  then show "list_all fresh_worker ws \<Longrightarrow> ?thesis"
    unfolding hands_def by (induction ws) auto
qed

lemma cs_request_step:
  assumes inv: "crew_inv w p cs m q ws" and sent: "\<not> sent q" and k: "cs_request a p w m = (m', x')"
  shows "crew_inv w p cs m' (CM_search x') ws"
proof -
  have I: "work_count m = 0" "crew_first m = None" "found m = []" "list_all fresh_worker ws"
    "fs m p = Some (Regular (Some cs))" using inv sent by (auto simp: crew_inv_def)
  show ?thesis
  proof (cases "int (length p) \<ge> path_max m")
    case True
    then show ?thesis using k I by (auto simp: cs_request_def crew_inv_def)
  next
    case False
    then have m': "x' = CS_signal" "m' = m\<lparr>crew_heap := (crew_heap m)(a \<mapsto> request w p),
        crew_first := Some a, crew_last := Some a, work_count := 1\<rparr>"
      using k I by (auto simp: cs_request_def crew_append_def request_def)
    have "listed w p m' ws" using I fresh_hands m' by (simp add: listed_def)
    then show ?thesis using I fresh_fit m' by (simp add: crew_inv_def waiting_for_crew_def)
  qed
qed

lemma cs_step:
  assumes inv: "crew_inv w p cs m (CM_search x) ws" and c: "crew_start p w x = Do c k"
    and r: "crew_quiet (CM_search x) r" and k: "k r m = (m', x')"
  shows "crew_inv w p cs m' (CM_search x') ws"
proof (cases x)
  case (CS_malloc_path a)
  then have "cs_request a p w m = (m', x')" using c k r by auto
  then show ?thesis using cs_request_step [OF inv] CS_malloc_path by simp
next
  case CS_signal
  then have "m' = m" "x' = (if work_count m > 0 then CS_wait2 else CS_relock)"
    using c k r by (auto simp: cs_while2_def)
  then show ?thesis using inv CS_signal
    by (auto simp: crew_inv_def waiting_for_crew_def listed_def taken_def finished_search_def)
next
  case CS_wait2
  then have "m' = m" "x' = (if work_count m > 0 then CS_wait2 else CS_relock)"
    using c k r by (auto simp: cs_while2_def)
  then show ?thesis using inv CS_wait2
    by (auto simp: crew_inv_def waiting_for_crew_def listed_def taken_def finished_search_def)
qed (use inv c r k in \<open>auto simp: crew_inv_def cs_while1_def waiting_for_crew_def split: if_splits\<close>)

lemma cc_step:
  assumes inv: "crew_inv w p cs m (CM_create x) ws" and c: "crew_create CREW_SIZE x = Do c k"
    and r: "crew_quiet (CM_create x) r" and k: "k r (entry_mem c r l m) = (m', x')"
  shows "crew_inv w p cs m' (CM_create x') (ws @ map cm_thread (spawned c r))"
  by (cases x) (use inv c r k in \<open>auto simp: crew_inv_def cc_next_def split: if_splits\<close>)

lemma crew_main_step:
  assumes inv: "crew_inv w p cs m q ws" and c: "crew_main [w, p] q = Do c k"
    and r: "crew_quiet q r" and k: "k r (entry_mem c r l m) = (m', q')"
  shows "crew_inv w p cs m' q' (ws @ spawned c r)"
proof (cases q)
  case CM_start
  then show ?thesis using inv c k by (auto simp: crew_inv_def)
next
  case (CM_create x)
  from c [unfolded CM_create crew_main.simps] show ?thesis
  proof (cases rule: call_fun_cases)
    case (inside c0 k0)
    then obtain x' where x': "k0 r (entry_mem c0 r l m) = (m', x')" "q' = CM_create x'"
      using k by (auto split: prod.splits)
    then show ?thesis using cc_step [OF _ inside(1), of w p cs m ws r l m' x'] inv r CM_create inside(2) by simp
  next
    case (ret v)
    then show ?thesis using k inv CM_create by (auto simp: crew_inv_def split: if_splits)
  qed
next
  case (CM_search x)
  have e: "spawned c r = []" "entry_mem c r l m = m"
    using crew_spawned [OF c] CM_search by (auto intro: entry_mem_plain)
  from c [unfolded CM_search crew_main.simps] show ?thesis
  proof (cases rule: call_fun_cases)
    case (inside c0 k0)
    then obtain x' where x': "k0 r m = (m', x')" "q' = CM_search x'"
      using k e by (auto split: prod.splits)
    then show ?thesis using cs_step [of w p cs m x ws c0 k0 r m' x'] inv r CM_search inside(1) e by simp
  next
    case (ret v)
    then show ?thesis using k inv CM_search e
      by (cases x) (auto simp: crew_inv_def waiting_for_crew_def split: if_splits)
  qed
next
  case (CM_worker i x)
  then have "sent q = False" by simp
  then show ?thesis using inv CM_worker by (simp add: crew_inv_def)
qed (use c in auto)

lemma crew_reach:
  assumes "reach crew_quiet (crew_main [w, p]) (crew_system d) s" and "d p = Some (Regular (Some cs))"
  shows "\<exists>q ws. pcs s = q # ws \<and> crew_inv w p cs (mem s) q ws"
  using assms(1)
proof (induction rule: reach_invariant)
  case start
  show ?case using assms(2) by (simp add: crew_system_def crew_mem_def crew_inv_def)
next
  case (tick n m ps)
  then show ?case .
next
  case (move n m ps t c k r m' p')
  then obtain q ws where ps: "ps = q # ws" and inv: "crew_inv w p cs m q ws" by blast
  show ?case
  proof (cases t)
    case 0
    then have q: "crew_main [w, p] q = Do c k" "crew_quiet q r" using move ps by simp_all
    show ?thesis using crew_main_step [OF inv q move(6)] ps 0 by simp
  next
    case (Suc u)
    then have u: "u < length ws" "crew_main [w, p] (ws ! u) = Do c k" "crew_quiet (ws ! u) r"
      using move ps by simp_all
    have "\<exists>i x. ws ! u = CM_worker i x"
    proof (cases "sent q")
      case True
      then have "crew_fit w p cs m (ws ! u)" using inv u(1) by (auto simp: crew_inv_def list_all_length)
      then show ?thesis by (cases "ws ! u") auto
    next
      case False
      then have "fresh_worker (ws ! u)" using inv u(1) by (auto simp: crew_inv_def list_all_length)
      then show ?thesis by (cases "ws ! u" rule: fresh_worker.cases) auto
    qed
    then obtain i x where x: "ws ! u = CM_worker i x" by blast
    have e: "spawned c r = []" "entry_mem c r (length ps) m = m"
      using crew_spawned [OF u(2)] x by (auto intro: entry_mem_plain)
    from u(2) [unfolded x crew_main.simps] obtain c0 k0 x' where
      w: "worker_routine i x = Do c0 k0" "answer_ok c0 r m n" "k0 r m = (m', x')" "p' = CM_worker i x'"
      using move(5,6) e by (auto elim!: thread_fun_cases split: prod.splits)
    have r: "crew_quiet (CM_worker i x) r" using u(3) x by simp
    have "crew_inv w p cs m' q (ws[u := CM_worker i x'])"
      using crew_worker_step [OF inv _ u(1) x w(1) r w(2,3)] crew_fresh_step [OF inv _ u(1) x w(1) r w(3)]
      by blast
    then show ?thesis using ps Suc e w(4) by simp
  qed
qed

section \<open>The properties\<close>

lemma outcome_sound: "outcome w p cs \<noteq> [] \<Longrightarrow> sublist w cs"
proof -
  assume "outcome w p cs \<noteq> []"
  then obtain l where l: "l \<in> set (pieces cs)" "sublist w (c_string l)" by (auto simp: outcome_def strstr_sublist split: if_splits)
  then have "sublist w l" using c_string_prefix [of l] by (metis prefix_imp_sublist sublist_order.order_trans)
  then show ?thesis using piece_of_sublist [OF l(1)] by (metis sublist_order.order_trans)
qed

lemma outcome_complete:
  assumes "whole_lines cs" and "CHR 0x00 \<notin> set cs" and "w \<noteq> []" and "newline \<notin> set w" and "sublist w cs"
  shows "outcome w p cs = [(w, p)]"
proof -
  obtain l where l: "l \<in> set (pieces cs)" "sublist w l" using sublist_pieces [OF assms(1,3,4,5)] by blast
  have "set l \<subseteq> set cs" using piece_of_sublist [OF l(1)] by (rule set_mono_sublist)
  then have "c_string l = l" using assms(2) by (intro c_string_id) blast
  then have "strstr (c_string l) w" using l(2) by (simp add: strstr_sublist)
  then show ?thesis using l(1) unfolding outcome_def by auto
qed

text \<open>C18. The search of one file: when \<open>crew_start\<close> has waited for the crew, the file has been reported, once and by one worker,
  exactly if one of the pieces that \<^verbatim>\<open>fgets\<close> reads into the buffer of 256 characters has the string before its
  first NUL. So a reported file contains the string; the other way round, a file without NUL characters whose lines all fit
  into the buffer is reported if it contains the string, which is not empty and has no newline. A string that lies
  across the end of a piece is missed. Every interleaving and every contents of the file; no call fails.\<close>
theorem crew_searches_file:
  assumes "reach crew_quiet (crew_main [w, p]) (crew_system d) s" and "d p = Some (Regular (Some cs))"
    and "pcs s ! 0 = CM_search CS_relock"
  shows "map snd (found (mem s)) = (if \<exists>l \<in> set (pieces cs). strstr (c_string l) w then [(w, p)] else []) \<and>
    (found (mem s) \<noteq> [] \<longrightarrow> sublist w cs) \<and>
    (whole_lines cs \<and> CHR 0x00 \<notin> set cs \<and> w \<noteq> [] \<and> newline \<notin> set w \<and> sublist w cs \<longrightarrow> map snd (found (mem s)) = [(w, p)])"
proof -
  obtain q ws where q: "pcs s = q # ws" "crew_inv w p cs (mem s) q ws" using crew_reach [OF assms(1,2)] by auto
  then have "q = CM_search CS_relock" using assms(3) by simp
  then have f: "map snd (found (mem s)) = outcome w p cs" using q(2)
    by (auto simp: crew_inv_def waiting_for_crew_def listed_def taken_def finished_search_def)
  then have "found (mem s) \<noteq> [] \<longrightarrow> sublist w cs" using outcome_sound [of w p cs] by (metis map_is_Nil_conv)
  moreover have "whole_lines cs \<and> CHR 0x00 \<notin> set cs \<and> w \<noteq> [] \<and> newline \<notin> set w \<and> sublist w cs \<longrightarrow> map snd (found (mem s)) = [(w, p)]"
    using f outcome_complete [of cs w p] by simp
  ultimately show ?thesis using f unfolding outcome_def by blast
qed

text \<open>A match that does not lie within one piece: the first 255 characters end in the middle of it.\<close>

lemma outcome_misses: "outcome ''bc'' p (replicate 254 CHR ''a'' @ ''bc'') = []"
proof -
  have "pieces (replicate 254 CHR ''a'' @ ''bc'') = [replicate 254 CHR ''a'' @ ''b'', ''c'']" by code_simp
  moreover have "\<not> strstr (c_string (replicate 254 CHR ''a'' @ ''b'')) ''bc''" "\<not> strstr (c_string ''c'') ''bc''" by code_simp+
  ultimately show ?thesis by (simp add: outcome_def)
qed

definition crew_run :: "event list" where
  "crew_run = map (Exec 0) ([0, 0, 0, 0, 0, 0, 0, 0, 0, 0, 0, 100, 100, 1, 1, 0, 0]) @
     map (Exec 1) [1, 0, 0, 0, 0, 2, 0, 0, 0, 0, 0, 0, 0] @ [Exec 0 0]"

theorem crew_searches_file_witness:
  "case run crew_quiet (crew_main [''b'', ''/f'']) crew_run
      (crew_system [''/f'' \<mapsto> Regular (Some (''xy'' @ [newline] @ ''abc'' @ [newline]))]) of
     Some s \<Rightarrow> map snd (found (mem s)) = [(''b'', ''/f'')] \<and> sublist ''b'' (''xy'' @ [newline] @ ''abc'' @ [newline])
   | None \<Rightarrow> False"
  (is "case ?r of Some s \<Rightarrow> ?P s | None \<Rightarrow> False")
proof -
  let ?cs = "''xy'' @ [newline] @ ''abc'' @ [newline]"
  have "map_option (\<lambda>s. pcs s ! 0) ?r = Some (CM_search CS_relock)" by code_simp
  then obtain s where s: "?r = Some s" "pcs s ! 0 = CM_search CS_relock" by auto
  have p: "pieces ?cs = [''xy'' @ [newline], ''abc'' @ [newline]]" by code_simp
  then have w: "whole_lines ?cs" by (simp add: whole_lines_def)
  have b: "sublist ''b'' ?cs" unfolding strstr_sublist [symmetric] by code_simp
  have "[''/f'' \<mapsto> Regular (Some ?cs)] ''/f'' = Some (Regular (Some ?cs))" by simp
  from crew_searches_file [OF reach_run [OF s(1)] this s(2)] have "map snd (found (mem s)) = [(''b'', ''/f'')]"
    using w b by (elim conjE) (erule mp [of "_ \<and> _"], simp)
  then show ?thesis using s b by simp
qed

text \<open>The program never ends successfully: \<open>crew_start\<close>, which has the mutex already, locks it
  where it means to unlock it. Whatever the calls return and the arguments are.\<close>
theorem crew_never_succeeds:
  assumes "reach any_status (crew_main args) (crew_system d) s"
  shows "ended s \<noteq> Some (Exited 0)"
proof
  assume e: "ended s = Some (Exited 0)"
  have "ended (crew_system d) = None" by (simp add: crew_system_def)
  from ended_cases [OF assms this e] obtain p where p: "p \<in> set (pcs s)" "crew_main args p = Halt (Exited 0)"
    by auto
  have "barred p"
  proof (cases p)
    case (CM_create q)
    then show ?thesis using p(2) by (cases q) (auto split: if_splits)
  next
    case (CM_search q)
    then show ?thesis using p(2) by (cases q) auto
  next
    case (CM_worker i q)
    then show ?thesis using p(2) by (cases q) auto
  qed (use p(2) in auto)
  then show False using crew_unbarred [OF assms] p(1) by blast
qed

theorem crew_never_succeeds_witness:
  "case run any_status (crew_main [''b'', ''/f'']) crew_run
      (crew_system [''/f'' \<mapsto> Regular (Some (''xy'' @ [newline] @ ''abc'' @ [newline]))]) of
     Some s \<Rightarrow> pcs s ! 0 = CM_search CS_relock \<and> ended s \<noteq> Some (Exited 0) | None \<Rightarrow> False"
  (is "case ?r of Some s \<Rightarrow> ?P s | None \<Rightarrow> False")
proof -
  have "map_option (\<lambda>s. pcs s ! 0) ?r = Some (CM_search CS_relock)" by code_simp
  then obtain s where s: "?r = Some s" "pcs s ! 0 = CM_search CS_relock" by auto
  have "ended s \<noteq> Some (Exited 0)" by (rule crew_never_succeeds [OF reach_run [OF s(1)]])
  then show ?thesis using s by simp
qed

text \<open>A directory that cannot be opened is never finished: the worker goes on with the next
  item and does not count this one as done, and \<open>crew_start\<close> waits for ever.\<close>
theorem crew_loses_directory:
  "\<exists>s. reach crew_quiet (crew_main [''b'', ''/d'']) (crew_system [''/d'' \<mapsto> Directory None]) s \<and>
     stuck crew_quiet (crew_main [''b'', ''/d'']) s \<and> work_count (mem s) = 1 \<and> crew_first (mem s) = None"
proof -
  let ?c = "crew_main [''b'', ''/d'']" and ?d = "[''/d'' \<mapsto> Directory None]"
  let ?f = "\<lambda>s. (work_count (mem s), crew_first (mem s), list_all (stopped ?c) (threads s))"
  let ?es = "map (Exec 0) ([0, 0, 0, 0, 0, 0, 0, 0, 0, 0, 0, 100, 100, 1, 1, 0, 0]) @
     map (Exec 1) [1, 0, 0, 0, 0, 1, 0, 0, 0] @
     concat (map (\<lambda>t. map (Exec t) [1, 0, 0, 0, 0]) [2, 3, 4])"
  have "map_option ?f (run crew_quiet ?c ?es (crew_system ?d)) = Some (1, None, True)" by code_simp
  from reach_exists [OF this] obtain s where s: "reach crew_quiet ?c (crew_system ?d) s"
    "work_count (mem s) = 1" "crew_first (mem s) = None" "list_all (stopped ?c) (threads s)" by auto
  from stopped_stuck [OF s(4), of crew_quiet] s show ?thesis by (intro exI [of _ s]) simp
qed

end
