(* ===== verification/Server.thy ===== *)
theory Server
  imports Calls Queue Stdio "HOL-Library.Multiset"
begin

text \<open>
  The terminal server of \<^verbatim>\<open>chap4-pattern/server.cxx\<close>: one server thread reads and writes the
  terminal for the clients. A request is a cell in a heap with a condition variable of its own;
  a client waits for a synchronous request and frees it, the server frees the others. Four
  clients read lines and echo each one four times. \<^verbatim>\<open>stdin\<close> is the list of the characters still to be
  read; what \<^verbatim>\<open>%p\<close> prints is up to the C library (the parameter \<open>ptr\<close>).
\<close>

section \<open>The data\<close>

definition CLIENT_THREADS :: int where "CLIENT_THREADS = 4"
definition REQ_READ :: int where "REQ_READ = 1"
definition REQ_WRITE :: int where "REQ_WRITE = 2"
definition REQ_QUIT :: int where "REQ_QUIT = 3"

lemmas req_defs = REQ_READ_def REQ_WRITE_def REQ_QUIT_def

text \<open>\<open>None\<close> in \<open>done_flag\<close>, \<open>prompt\<close> and \<open>text\<close>: not initialised. A character array is the characters before
  its first NUL, or all of them if it has none (then it is as long as the array).\<close>

record request =
  rq_next :: "nat option"
  operation :: int
  synchronous :: int
  done_flag :: "int option"
  rq_prompt :: "string option"
  rq_text :: "string option"

datatype sv_mutex = Tty_mutex | Client_mutex
datatype sv_cond = Request | Clients_done | Done nat

text \<open>\<open>tty\<close> is what has been printed, line by line, with the operation that printed it
  (0 for the main program).\<close>

record tty_server =
  sv_heap :: "nat \<Rightarrow> request option"
  sv_first :: "nat option"
  sv_last :: "nat option"
  running :: int
  client_threads :: int
  sv_stdin :: string
  tty :: "(int \<times> string) list"

text \<open>A digit for \<^verbatim>\<open>%d\<close>; \<open>loops\<close> has one digit.\<close>

definition digit :: "nat \<Rightarrow> char" where
  "digit n = char_of (48 + n)"

section \<open>The server thread\<close>

text \<open>\<open>a\<close> is \<^verbatim>\<open>request\<close>, \<open>w\<close> is \<^verbatim>\<open>operation\<close>.\<close>

datatype ts_pc =
    TS_lock | TS_wait | TS_unlock nat | TS_serve nat | TS_relock nat int | TS_signal nat int
  | TS_unlock2 int | TS_return | TS_abort | TS_crash

definition ts_while :: "tty_server \<Rightarrow> tty_server \<times> ts_pc" where
  "ts_while m =
     (case sv_first m of
        None \<Rightarrow> (m, TS_wait)
      | Some a \<Rightarrow>
          (case sv_heap m a of
             None \<Rightarrow> (m, TS_crash)
           | Some rq \<Rightarrow>
               (m\<lparr>sv_first := rq_next rq,
                  sv_last := (if rq_next rq = None then None else sv_last m)\<rparr>, TS_unlock a)))"

text \<open>\<^verbatim>\<open>printf\<close> and \<^verbatim>\<open>strlen\<close> of an array that has no NUL, or was not initialised, are undefined;
  \<open>e\<close> is not 0 when \<^verbatim>\<open>fgets\<close> reports an error.\<close>

definition ts_read :: "nat \<Rightarrow> request \<Rightarrow> int \<Rightarrow> tty_server \<Rightarrow> tty_server option" where
  "ts_read a rq e m =
     (case rq_prompt rq of
        None \<Rightarrow> None
      | Some p \<Rightarrow>
          if length p \<ge> 32 then None
          else let m1 = (if p \<noteq> [] then m\<lparr>tty := tty m @ [(REQ_READ, p)]\<rparr> else m) in
            (case (if e \<noteq> 0 \<or> sv_stdin m = [] then ([], sv_stdin m) else fgets 128 (sv_stdin m)) of
               (l, s) \<Rightarrow> Some (m1\<lparr>sv_stdin := s,
                 sv_heap := (sv_heap m)(a \<mapsto> rq\<lparr>rq_text := Some (chomp (c_string l))\<rparr>)\<rparr>)))"

definition ts_write :: "request \<Rightarrow> tty_server \<Rightarrow> tty_server option" where
  "ts_write rq m =
     (case rq_text rq of
        None \<Rightarrow> None
      | Some l \<Rightarrow> if length l \<ge> 128 then None else Some (m\<lparr>tty := tty m @ [(REQ_WRITE, l)]\<rparr>))"

definition ts_serve :: "nat \<Rightarrow> int \<Rightarrow> tty_server \<Rightarrow> tty_server \<times> ts_pc" where
  "ts_serve a e m =
     (case sv_heap m a of
        None \<Rightarrow> (m, TS_crash)
      | Some rq \<Rightarrow>
          (case (if operation rq = REQ_READ then ts_read a rq e m
                 else if operation rq = REQ_WRITE then ts_write rq m
                 else Some m) of
             None \<Rightarrow> (m, TS_crash)
           | Some m1 \<Rightarrow>
               if synchronous rq \<noteq> 0 then (m1, TS_relock a (operation rq))
               else (m1\<lparr>sv_heap := (sv_heap m1)(a := None)\<rparr>,
                     if operation rq = REQ_QUIT then TS_return else TS_lock)))"

definition ts_done :: "nat \<Rightarrow> int \<Rightarrow> tty_server \<Rightarrow> tty_server \<times> ts_pc" where
  "ts_done a w m =
     (case sv_heap m a of
        None \<Rightarrow> (m, TS_crash)
      | Some rq \<Rightarrow> (m\<lparr>sv_heap := (sv_heap m)(a \<mapsto> rq\<lparr>done_flag := Some 1\<rparr>)\<rparr>, TS_signal a w))"

fun tty_server_routine :: "ts_pc \<Rightarrow> (sv_mutex, sv_cond, tty_server, ts_pc) act" where
  "tty_server_routine TS_lock =
     Do (Lock Tty_mutex) (\<lambda>status m. if status \<noteq> 0 then (m, TS_abort) else ts_while m)"
| "tty_server_routine TS_wait =
     Do (Wait Request Tty_mutex) (\<lambda>status m. if status \<noteq> 0 then (m, TS_abort) else ts_while m)"
| "tty_server_routine (TS_unlock a) = Do (Unlock Tty_mutex) (checked TS_abort (TS_serve a))"
| "tty_server_routine (TS_serve a) = Do (Env (\<lambda>r _. 0 \<le> r)) (ts_serve a)"
| "tty_server_routine (TS_relock a w) =
     Do (Lock Tty_mutex) (\<lambda>status m. if status \<noteq> 0 then (m, TS_abort) else ts_done a w m)"
| "tty_server_routine (TS_signal a w) = Do (Signal (Done a)) (checked TS_abort (TS_unlock2 w))"
| "tty_server_routine (TS_unlock2 w) =
     Do (Unlock Tty_mutex) (\<lambda>status m.
       (m, if status \<noteq> 0 then TS_abort else if w = REQ_QUIT then TS_return else TS_lock))"
| "tty_server_routine TS_return = Return 0"
| "tty_server_routine TS_abort = Halt Aborted"
| "tty_server_routine TS_crash = Halt Undefined"

section \<open>Requests\<close>

text \<open>\<open>a\<close> is \<^verbatim>\<open>request\<close>; \<open>s\<close>, from \<open>TR_destroy\<close> on, is the array \<^verbatim>\<open>string\<close> points to
  as the function leaves it. \<open>TR_server\<close> is where the server thread starts.\<close>

datatype tr_pc =
    TR_lock | TR_attr_init | TR_setdetach | TR_create | TR_attr_destroy | TR_malloc | TR_init nat
  | TR_signal nat | TR_wait nat | TR_destroy nat "string option" | TR_unlock "string option"
  | TR_return "string option" | TR_abort | TR_crash | TR_server

text \<open>The request is filled in and put into the list; the caller has the mutex.\<close>

definition tr_queue :: "int \<Rightarrow> string option \<Rightarrow> string option \<Rightarrow> nat \<Rightarrow> tty_server \<Rightarrow> tty_server \<times> tr_pc" where
  "tr_queue w prompt s a m =
     (case sv_heap m a of
        None \<Rightarrow> (m, TR_crash)
      | Some rq \<Rightarrow>
          (let h = (sv_heap m)(a \<mapsto> rq\<lparr>
                 rq_prompt := Some (case prompt of None \<Rightarrow> [] | Some p \<Rightarrow> take 32 p),
                 rq_text := Some (case s of Some l \<Rightarrow> (if w = REQ_WRITE then take 128 l else []) | None \<Rightarrow> [])\<rparr>)
           in case sv_first m of
                None \<Rightarrow> (m\<lparr>sv_heap := h, sv_first := Some a, sv_last := Some a\<rparr>, TR_signal a)
              | Some _ \<Rightarrow>
                  (case sv_last m of
                     None \<Rightarrow> (m, TR_crash)
                   | Some b \<Rightarrow>
                       (case h b of
                          None \<Rightarrow> (m, TR_crash)
                        | Some e \<Rightarrow>
                            (m\<lparr>sv_heap := h(b \<mapsto> e\<lparr>rq_next := Some a\<rparr>), sv_last := Some a\<rparr>, TR_signal a)))))"

text \<open>The loop that waits for a synchronous request, and what is done with its text. \<open>string\<close> is what
  the caller's array held before, or \<open>None\<close> if the caller passed no array.\<close>

definition tr_while :: "int \<Rightarrow> string option \<Rightarrow> nat \<Rightarrow> tty_server \<Rightarrow> tty_server \<times> tr_pc" where
  "tr_while w s a m =
     (case sv_heap m a of
        None \<Rightarrow> (m, TR_crash)
      | Some rq \<Rightarrow>
          (case done_flag rq of
             None \<Rightarrow> (m, TR_crash)
           | Some d \<Rightarrow>
               if d = 0 then (m, TR_wait a)
               else if w = REQ_READ
               then (case rq_text rq of
                   None \<Rightarrow> (m, TR_crash)
                 | Some l \<Rightarrow> (m, if length l \<ge> 128 \<or> s = None then TR_crash else TR_destroy a (Some l)))
               else (m, TR_destroy a s)))"

definition tr_malloc :: "int \<Rightarrow> int \<Rightarrow> string option \<Rightarrow> string option \<Rightarrow> nat \<Rightarrow> tty_server \<Rightarrow> tty_server \<times> tr_pc" where
  "tr_malloc w sync prompt s a m =
     (let m1 = m\<lparr>sv_heap := (sv_heap m)(a \<mapsto>
            \<lparr>rq_next = None, operation = w, synchronous = sync,
             done_flag = (if sync \<noteq> 0 then Some 0 else None), rq_prompt = None, rq_text = None\<rparr>)\<rparr>
      in if sync \<noteq> 0 then (m1, TR_init a) else tr_queue w prompt s a m1)"

fun tty_server_request :: "int \<Rightarrow> int \<Rightarrow> string option \<Rightarrow> string option \<Rightarrow> tr_pc \<Rightarrow>
    (sv_mutex, sv_cond, tty_server, tr_pc) act" where
  "tty_server_request w sync prompt s TR_lock =
     Do (Lock Tty_mutex) (\<lambda>status m.
       (m, if status \<noteq> 0 then TR_abort else if running m = 0 then TR_attr_init else TR_malloc))"
| "tty_server_request w sync prompt s TR_attr_init =
     Do (Env (\<lambda>r _. 0 \<le> r)) (checked TR_abort TR_setdetach)"
| "tty_server_request w sync prompt s TR_setdetach =
     Do (Env (\<lambda>r _. 0 \<le> r)) (\<lambda>status m.
       if status \<noteq> 0 then (m, TR_abort) else (m\<lparr>running := 1\<rparr>, TR_create))"
| "tty_server_request w sync prompt s TR_create =
     Do (Create (\<lambda>_ m. m) TR_server) (checked TR_abort TR_attr_destroy)"
| "tty_server_request w sync prompt s TR_attr_destroy = Do (Env (\<lambda>r _. 0 \<le> r)) (goto TR_malloc)"
| "tty_server_request w sync prompt s TR_malloc =
     Do (Env (\<lambda>r m. r = 0 \<or> 0 < r \<and> sv_heap m (nat r) = None)) (\<lambda>r m.
       if r = 0 then (m, TR_abort) else tr_malloc w sync prompt s (nat r) m)"
| "tty_server_request w sync prompt s (TR_init a) =
     Do (CInit (Done a)) (\<lambda>status m.
       if status \<noteq> 0 then (m, TR_abort) else tr_queue w prompt s a m)"
| "tty_server_request w sync prompt s (TR_signal a) =
     Do (Signal Request) (\<lambda>status m.
       if status \<noteq> 0 then (m, TR_abort)
       else if sync \<noteq> 0 then tr_while w s a m else (m, TR_unlock s))"
| "tty_server_request w sync prompt s (TR_wait a) =
     Do (Wait (Done a) Tty_mutex) (\<lambda>status m.
       if status \<noteq> 0 then (m, TR_abort) else tr_while w s a m)"
| "tty_server_request w sync prompt s (TR_destroy a s') =
     Do (CDestroy (Done a)) (\<lambda>status m.
       if status \<noteq> 0 then (m, TR_abort)
       else if sv_heap m a = None then (m, TR_crash)
       else (m\<lparr>sv_heap := (sv_heap m)(a := None)\<rparr>, TR_unlock s'))"
| "tty_server_request w sync prompt s (TR_unlock s') =
     Do (Unlock Tty_mutex) (checked TR_abort (TR_return s'))"
| "tty_server_request w sync prompt s (TR_return s') = Return 0"
| "tty_server_request w sync prompt s TR_abort = Halt Aborted"
| "tty_server_request w sync prompt s TR_crash = Halt Undefined"
| "tty_server_request w sync prompt s TR_server = Halt Undefined"

section \<open>Clients\<close>

text \<open>\<open>i\<close> is \<^verbatim>\<open>arg\<close>, \<open>j\<close> is \<^verbatim>\<open>loops\<close>, \<open>l\<close> is \<^verbatim>\<open>string\<close>.\<close>

definition client_prompt :: "(nat \<Rightarrow> string) \<Rightarrow> nat \<Rightarrow> string" where
  "client_prompt ptr i = ''Client '' @ ptr i @ ''>''"

definition echo :: "(nat \<Rightarrow> string) \<Rightarrow> nat \<Rightarrow> nat \<Rightarrow> string \<Rightarrow> string" where
  "echo ptr i j l = ''('' @ ptr i @ ''#'' @ [digit j] @ '') '' @ l"

datatype cl_pc =
    CL_start | CL_read tr_pc | CL_write nat string tr_pc | CL_lock | CL_signal | CL_unlock
  | CL_return | CL_abort | CL_crash

text \<open>The head of the inner loop; \<^verbatim>\<open>sprintf\<close> into 128 characters.\<close>

definition cl_loop :: "(nat \<Rightarrow> string) \<Rightarrow> nat \<Rightarrow> nat \<Rightarrow> string \<Rightarrow> cl_pc" where
  "cl_loop ptr i j l =
     (if j < 4 then (if length (echo ptr i j l) \<ge> 128 then CL_crash else CL_write j l TR_lock)
      else CL_read TR_lock)"

definition cl_string :: "(nat \<Rightarrow> string) \<Rightarrow> nat \<Rightarrow> string option \<Rightarrow> cl_pc" where
  "cl_string ptr i s =
     (case s of None \<Rightarrow> CL_crash | Some l \<Rightarrow> if l = [] then CL_lock else cl_loop ptr i 0 l)"

text \<open>After a request: \<^verbatim>\<open>string\<close> is what the request left in it.\<close>

fun cl_after :: "(nat \<Rightarrow> string) \<Rightarrow> nat \<Rightarrow> tr_pc \<Rightarrow> cl_pc" where
  "cl_after ptr i (TR_return s) = cl_string ptr i s"
| "cl_after ptr i p = CL_crash"

fun client_routine :: "(nat \<Rightarrow> string) \<Rightarrow> nat \<Rightarrow> cl_pc \<Rightarrow> (sv_mutex, sv_cond, tty_server, cl_pc) act" where
  "client_routine ptr i CL_start =
     Do Tau (\<lambda>_ m. (m, if length (client_prompt ptr i) \<ge> 32 then CL_crash else CL_read TR_lock))"
| "client_routine ptr i (CL_read p) =
     call_here CL_read (\<lambda>_ m. (m, cl_after ptr i p))
       (tty_server_request REQ_READ 1 (Some (client_prompt ptr i)) (Some []) p)"
| "client_routine ptr i (CL_write j l p) =
     call_here (CL_write j l) (\<lambda>_ m. (m, cl_loop ptr i (j + 1) l))
       (tty_server_request REQ_WRITE 0 None (Some (echo ptr i j l)) p)"
| "client_routine ptr i CL_lock =
     Do (Lock Client_mutex) (\<lambda>status m.
       if status \<noteq> 0 then (m, CL_abort)
       else (m\<lparr>client_threads := client_threads m - 1\<rparr>,
             if client_threads m - 1 \<le> 0 then CL_signal else CL_unlock))"
| "client_routine ptr i CL_signal = Do (Signal Clients_done) (checked CL_abort CL_unlock)"
| "client_routine ptr i CL_unlock = Do (Unlock Client_mutex) (checked CL_abort CL_return)"
| "client_routine ptr i CL_return = Return 0"
| "client_routine ptr i CL_abort = Halt Aborted"
| "client_routine ptr i CL_crash = Halt Undefined"

section \<open>The main program\<close>

datatype sm_pc =
    SM_start | SM_create nat | SM_lock | SM_wait | SM_relock | SM_quit tr_pc | SM_exit | SM_abort | SM_client nat

definition sm_next :: "nat \<Rightarrow> tty_server \<Rightarrow> tty_server \<times> sm_pc" where
  "sm_next i m = (m, if int i < client_threads m then SM_create i else SM_lock)"

definition sm_while :: "tty_server \<Rightarrow> tty_server \<times> sm_pc" where
  "sm_while m = (m, if client_threads m > 0 then SM_wait else SM_relock)"

fun server_main :: "sm_pc \<Rightarrow> (sv_mutex, sv_cond, tty_server, sm_pc) act" where
  "server_main SM_start = Do Tau (\<lambda>_ m. sm_next 0 (m\<lparr>client_threads := CLIENT_THREADS\<rparr>))"
| "server_main (SM_create i) =
     Do (Create (\<lambda>_ m. m) (SM_client i)) (\<lambda>status m.
       if status \<noteq> 0 then (m, SM_abort) else sm_next (i + 1) m)"
| "server_main SM_lock =
     Do (Lock Client_mutex) (\<lambda>status m. if status \<noteq> 0 then (m, SM_abort) else sm_while m)"
| "server_main SM_wait =
     Do (Wait Clients_done Client_mutex) (\<lambda>status m. if status \<noteq> 0 then (m, SM_abort) else sm_while m)"
| "server_main SM_relock =
     Do (Lock Client_mutex) (\<lambda>status m.
       if status \<noteq> 0 then (m, SM_abort)
       else (m\<lparr>tty := tty m @ [(0, ''all clients done'')]\<rparr>, SM_quit TR_lock))"
| "server_main (SM_quit p) =
     call_here SM_quit (\<lambda>_ m. (m, SM_exit)) (tty_server_request REQ_QUIT 1 None None p)"
| "server_main SM_exit = Halt (Exited 0)"
| "server_main SM_abort = Halt Aborted"
| "server_main (SM_client i) = Halt Undefined"

section \<open>The process\<close>

datatype sv_pc = SV_main sm_pc | SV_client nat cl_pc | SV_server ts_pc

text \<open>The threads the functions create.\<close>

fun sv_start :: "sm_pc \<Rightarrow> sv_pc" where
  "sv_start (SM_client i) = SV_client i CL_start"
| "sv_start (SM_quit TR_server) = SV_server TS_lock"
| "sv_start p = SV_main p"

fun sv_serve :: "nat \<Rightarrow> cl_pc \<Rightarrow> sv_pc" where
  "sv_serve i (CL_read TR_server) = SV_server TS_lock"
| "sv_serve i (CL_write j l TR_server) = SV_server TS_lock"
| "sv_serve i p = SV_client i p"

fun sv_process :: "(nat \<Rightarrow> string) \<Rightarrow> sv_pc \<Rightarrow> (sv_mutex, sv_cond, tty_server, sv_pc) act" where
  "sv_process ptr (SV_main p) =
     call_fun (\<lambda>m. m) (\<lambda>m' m. m') SV_main sv_start (\<lambda>_ m. (m, SV_main SM_exit)) (server_main p)"
| "sv_process ptr (SV_client i p) =
     (case client_routine ptr i p of
        Return v \<Rightarrow> Return v
      | A \<Rightarrow> call_fun (\<lambda>m. m) (\<lambda>m' m. m') (SV_client i) (sv_serve i) (\<lambda>_ m. (m, SV_client i CL_return)) A)"
| "sv_process ptr (SV_server p) = thread_fun SV_server (tty_server_routine p)"

definition sv_mem :: "string \<Rightarrow> tty_server" where
  "sv_mem inp = \<lparr>sv_heap = \<lambda>_. None, sv_first = None, sv_last = None, running = 0, client_threads = 0,
     sv_stdin = inp, tty = []\<rparr>"

definition sv_system :: "string \<Rightarrow> (sv_mutex, sv_cond, tty_server, sv_pc) sys" where
  "sv_system inp = (boot (sv_mem inp) [SV_main SM_start])\<lparr>cnd := \<lambda>d. case d of Done a \<Rightarrow> False | _ \<Rightarrow> True\<rparr>"

section \<open>The steps of the process\<close>

text \<open>A thread that is inside \<^verbatim>\<open>tty_server_request\<close>: the arguments of the call, and the points of
  the thread while it is there.\<close>

inductive frame :: "(nat \<Rightarrow> string) \<Rightarrow> (tr_pc \<Rightarrow> sv_pc) \<Rightarrow> int \<Rightarrow> int \<Rightarrow> string option \<Rightarrow> string option \<Rightarrow> bool"
  for ptr where
  frame_read: "frame ptr (\<lambda>q. SV_client i (CL_read q)) REQ_READ 1 (Some (client_prompt ptr i)) (Some [])"
| frame_write: "frame ptr (\<lambda>q. SV_client i (CL_write j l q)) REQ_WRITE 0 None (Some (echo ptr i j l))"
| frame_quit: "frame ptr (\<lambda>q. SV_main (SM_quit q)) REQ_QUIT 1 None None"

inductive_cases frameE: "frame ptr w v sync prompt s"

text \<open>The steps outside: those of the client and of the main program.\<close>

fun sv_own :: "sv_pc \<Rightarrow> bool" where
  "sv_own (SV_main (SM_quit (TR_return s))) \<longleftrightarrow> True"
| "sv_own (SV_main (SM_quit q)) \<longleftrightarrow> False"
| "sv_own (SV_main x) \<longleftrightarrow> True"
| "sv_own (SV_client i (CL_read (TR_return s))) \<longleftrightarrow> True"
| "sv_own (SV_client i (CL_read q)) \<longleftrightarrow> False"
| "sv_own (SV_client i (CL_write j l (TR_return s))) \<longleftrightarrow> True"
| "sv_own (SV_client i (CL_write j l q)) \<longleftrightarrow> False"
| "sv_own (SV_client i x) \<longleftrightarrow> True"
| "sv_own (SV_server q) \<longleftrightarrow> False"

lemma own_returns:
  "sv_own (SV_main (SM_quit q)) \<longleftrightarrow> (\<exists>s. q = TR_return s)"
  "sv_own (SV_client i (CL_read q)) \<longleftrightarrow> (\<exists>s. q = TR_return s)"
  "sv_own (SV_client i (CL_write j l q)) \<longleftrightarrow> (\<exists>s. q = TR_return s)"
  by (cases q; simp)+

lemma request_calls:
  assumes "tty_server_request v sync prompt s q = Do c k"
  shows "entry_mem c r n m = m \<and> (spawned c r = [] \<or> q = TR_create \<and> spawned c r = [TR_server])"
  using assms by (cases q) auto

lemma request_return: "tty_server_request v sync prompt s q = Return x \<Longrightarrow> \<exists>s'. q = TR_return s'"
  by (cases q) auto

lemma sv_process_cases:
  assumes "sv_process ptr p = Do c k"
  obtains (server) q c0 k0 where "p = SV_server q" "tty_server_routine q = Do c0 k0"
      "c = lift_call (\<lambda>m. m) (\<lambda>m' m. m') SV_server c0" "k = (\<lambda>r m. case k0 r m of (m', q') \<Rightarrow> (m', SV_server q'))"
  | (request) w v sync prompt s q c0 k0 f where "frame ptr w v sync prompt s" "p = w q"
      "tty_server_request v sync prompt s q = Do c0 k0" "c = lift_call (\<lambda>m. m) (\<lambda>m' m. m') f c0"
      "f TR_server = SV_server TS_lock" "k = (\<lambda>r m. case k0 r m of (m', q') \<Rightarrow> (m', w q'))"
  | (own) "sv_own p"
proof (cases p)
  case (SV_main x)
  show ?thesis
  proof (cases "\<exists>q. x = SM_quit q \<and> (\<forall>s'. q \<noteq> TR_return s')")
    case True
    then obtain q where q: "x = SM_quit q" "\<forall>s'. q \<noteq> TR_return s'" by auto
    then obtain c0 k0 where r: "tty_server_request REQ_QUIT 1 None None q = Do c0 k0"
      using assms SV_main by (cases q) auto
    show ?thesis
      by (rule request [OF frame_quit _ r, where f = "\<lambda>q. sv_start (SM_quit q)"])
         (use assms SV_main q r in \<open>cases c0; auto simp: fun_eq_iff split: prod.splits\<close>)+
  next
    case False
    then have "sv_own p" using assms SV_main by (cases x) (auto simp: own_returns)
    then show ?thesis by (rule own)
  qed
next
  case (SV_client i x)
  show ?thesis
  proof (cases "\<exists>q. x = CL_read q \<and> (\<forall>s'. q \<noteq> TR_return s')")
    case True
    then obtain q where q: "x = CL_read q" "\<forall>s'. q \<noteq> TR_return s'" by auto
    then obtain c0 k0 where r: "tty_server_request REQ_READ 1 (Some (client_prompt ptr i)) (Some []) q = Do c0 k0"
      using assms SV_client by (cases q) auto
    show ?thesis
      by (rule request [OF frame_read _ r, where f = "\<lambda>q. sv_serve i (CL_read q)"])
         (use assms SV_client q r in \<open>cases c0; auto simp: fun_eq_iff split: prod.splits\<close>)+
  next
    case nr: False
    show ?thesis
    proof (cases "\<exists>j l q. x = CL_write j l q \<and> (\<forall>s'. q \<noteq> TR_return s')")
      case True
      then obtain j l q where q: "x = CL_write j l q" "\<forall>s'. q \<noteq> TR_return s'" by auto
      then obtain c0 k0 where r: "tty_server_request REQ_WRITE 0 None (Some (echo ptr i j l)) q = Do c0 k0"
        using assms SV_client by (cases q) auto
      show ?thesis
        by (rule request [OF frame_write _ r, where f = "\<lambda>q. sv_serve i (CL_write j l q)"])
           (use assms SV_client q r in \<open>cases c0; auto simp: fun_eq_iff split: prod.splits\<close>)+
    next
      case False
      then have "sv_own p" using assms SV_client nr by (cases x) (auto simp: own_returns)
      then show ?thesis by (rule own)
    qed
  qed
next
  case (SV_server q)
  show ?thesis
    by (rule thread_fun_cases [OF assms [unfolded SV_server sv_process.simps]]) (rule server [OF SV_server])
qed

lemma server_calls: "tty_server_routine q = Do c k \<Longrightarrow> spawned c r = [] \<and> entry_mem c r n m = m"
  by (cases q) auto

lemma own_calls:
  assumes "sv_own p" and "sv_process ptr p = Do c k"
  shows "entry_mem c r n m = m \<and> (spawned c r = [] \<or> (\<exists>i. p = SV_main (SM_create i) \<and> spawned c r = [SV_client i CL_start]))"
  using assms by (cases p rule: sv_own.cases) auto

lemma sv_calls:
  assumes "sv_process ptr p = Do c k"
  shows "entry_mem c r n m = m" (is ?A) and "spawned c r = [] \<or> spawned c r = [SV_server TS_lock] \<or>
    (\<exists>i. p = SV_main (SM_create i) \<and> spawned c r = [SV_client i CL_start])" (is ?B)
proof -
  from assms have "?A \<and> ?B"
  proof (cases rule: sv_process_cases)
    case (server q c0 k0)
    then show ?thesis using server_calls [OF server(2)] by simp
  next
    case (request w v sync prompt s q c0 k0 f)
    then show ?thesis using request_calls [OF request(3), of r] by auto
  next
    case own
    then show ?thesis using own_calls assms by blast
  qed
  then show ?A ?B by simp_all
qed

section \<open>The mutexes\<close>

fun tr_holds :: "tr_pc \<Rightarrow> sv_mutex set" where
  "tr_holds TR_lock = {}"
| "tr_holds (TR_return s) = {}"
| "tr_holds TR_server = {}"
| "tr_holds TR_abort = {}"
| "tr_holds TR_crash = {}"
| "tr_holds q = {Tty_mutex}"

fun sv_holds :: "sv_pc \<Rightarrow> sv_mutex set" where
  "sv_holds (SV_main SM_wait) = {Client_mutex}"
| "sv_holds (SV_main SM_relock) = {Client_mutex}"
| "sv_holds (SV_main (SM_quit q)) = tr_holds q"
| "sv_holds (SV_client i (CL_read q)) = tr_holds q"
| "sv_holds (SV_client i (CL_write j l q)) = tr_holds q"
| "sv_holds (SV_client i CL_signal) = {Client_mutex}"
| "sv_holds (SV_client i CL_unlock) = {Client_mutex}"
| "sv_holds (SV_server TS_wait) = {Tty_mutex}"
| "sv_holds (SV_server (TS_unlock a)) = {Tty_mutex}"
| "sv_holds (SV_server (TS_signal a w)) = {Tty_mutex}"
| "sv_holds (SV_server (TS_unlock2 w)) = {Tty_mutex}"
| "sv_holds p = {}"

lemma request_holds:
  "tty_server_request v sync prompt s q = Do c k \<Longrightarrow> k r m = (m', q') \<Longrightarrow>
     tr_holds q' \<subseteq> held_after c r (tr_holds q) \<and> mutex_ok c (tr_holds q)"
  by (cases q) (auto simp: tr_malloc_def tr_queue_def tr_while_def Let_def split: if_splits option.splits)

lemma frame_holds: "frame ptr w v sync prompt s \<Longrightarrow> sv_holds (w q) = tr_holds q"
  by (auto elim: frameE)

lemma server_holds:
  "tty_server_routine q = Do c k \<Longrightarrow> k r m = (m', q') \<Longrightarrow>
     sv_holds (SV_server q') \<subseteq> held_after c r (sv_holds (SV_server q)) \<and> mutex_ok c (sv_holds (SV_server q))"
  by (cases q) (auto simp: ts_while_def ts_serve_def ts_done_def split: if_splits option.splits)

lemma own_holds:
  assumes "sv_own p" and "sv_process ptr p = Do c k" and "k r m = (m', p')"
  shows "sv_holds p' \<subseteq> held_after c r (sv_holds p) \<and> mutex_ok c (sv_holds p)"
  using assms
  by (cases p rule: sv_own.cases)
     (auto simp: cl_string_def cl_loop_def sm_next_def sm_while_def split: if_splits option.splits)

lemma mutex_ok_lift [simp]: "mutex_ok (lift_call get put st c) H = mutex_ok c H"
  by (cases c) auto

lemma sv_holds_step:
  assumes "sv_process ptr p = Do c k" and "k r m = (m', p')"
  shows "sv_holds p' \<subseteq> held_after c r (sv_holds p) \<and> mutex_ok c (sv_holds p)"
  using assms(1)
proof (cases rule: sv_process_cases)
  case (server q c0 k0)
  then show ?thesis using server_holds [OF server(2), of r m m'] assms(2) by (auto split: prod.splits)
next
  case (request w v sync prompt s q c0 k0 f)
  then show ?thesis using request_holds [OF request(3), of r m m'] assms(2) frame_holds [OF request(1)]
    by (auto split: prod.splits)
qed (use own_holds assms in blast)

interpretation sv_any: lock_tracking any_status "sv_process ptr" sv_holds
proof unfold_locales
  fix p c r m k and n :: int and m' m'' p'
  assume "sv_process ptr p = Do c k" "k r m' = (m'', p')"
  then show "sv_holds p' \<subseteq> held_after c r (sv_holds p)" using sv_holds_step by blast
next
  fix p q and st :: "nat \<Rightarrow> tty_server \<Rightarrow> tty_server" and k :: "int \<Rightarrow> tty_server \<Rightarrow> tty_server \<times> sv_pc"
  assume "sv_process ptr p = Do (Create st q) k"
  then show "sv_holds q = {}" using sv_calls(2) [of ptr p "Create st q" k 0] by auto
qed

lemma sv_tracked: "tracked sv_holds (sv_system inp)"
  by (simp add: tracked_def sv_system_def)

lemma sv_awake: "list_all (awake allow code n) (threads (sv_system inp))"
  by (simp add: sv_system_def)

lemma sv_start:
  "mem (sv_system inp) = sv_mem inp" "pcs (sv_system inp) = [SV_main SM_start]"
  "ended (sv_system inp) = None" "mtx (sv_system inp) x = Free"
  "cnd (sv_system inp) d \<longleftrightarrow> (\<forall>a. d \<noteq> Done a)"
  by (simp_all add: sv_system_def split: sv_cond.splits)

section \<open>The main program does not end\<close>

fun sv_barred :: "sv_pc \<Rightarrow> bool" where
  "sv_barred (SV_main (SM_quit q)) \<longleftrightarrow> True"
| "sv_barred (SV_main SM_exit) \<longleftrightarrow> True"
| "sv_barred p \<longleftrightarrow> False"

lemma sv_unbarred_step:
  assumes p: "sv_process ptr p = Do c k" and k: "k r m = (m', p')" and b: "\<not> sv_barred p"
    and fresh: "\<forall>z. (c = Lock z \<or> c = Trylock z) \<and> r = 0 \<longrightarrow> z \<notin> sv_holds p"
  shows "\<not> sv_barred p'"
  using p
proof (cases rule: sv_process_cases)
  case (request w v sync prompt s q c0 k0 f)
  then show ?thesis using k b by (auto elim!: frameE split: prod.splits)
next
  case own
  then show ?thesis using p k b fresh
    by (cases p rule: sv_own.cases)
       (auto simp: cl_string_def cl_loop_def sm_next_def sm_while_def split: if_splits option.splits)
qed (use k in \<open>auto split: prod.splits\<close>)

lemma sv_unbarred:
  assumes "reach any_status (sv_process ptr) (sv_system inp) s"
  shows "\<forall>p \<in> set (pcs s). \<not> sv_barred p"
  using assms sv_tracked sv_awake
proof (induction rule: sv_any.tracked_invariant)
  case start
  show ?case by (simp add: sv_system_def)
next
  case (tick n m ps)
  then show ?case .
next
  case (move n m ps t c k r m' p')
  have "\<not> sv_barred p'"
    using sv_unbarred_step [OF move(3) move(6) _ move(8)] move(1,2) by simp
  moreover have "\<not> sv_barred q" if "q \<in> set (spawned c r)" for q
    using sv_calls(2) [OF move(3), of r] that by auto
  ultimately show ?case
    using move(1) by (auto dest: set_update_subset_insert [THEN subsetD])
qed

end
