(* ===== verification/ServerRequests.thy ===== *)
theory ServerRequests
  imports Server
begin

text \<open>
  Who has which request of the terminal server, and the absence of undefined behaviour: the list of
  requests, the server and the waiting clients own the requests of the heap between
  them, each request has a working condition variable as long as a client waits for it, and
  nobody uses a request that has been freed. Every status the calls may return.
\<close>

section \<open>The input, line by line\<close>

text \<open>What successive requests to read make of the input.\<close>

function input_lines :: "string \<Rightarrow> string list" where
  "input_lines s = (if s = [] then [] else chomp (c_string (fst (fgets 128 s))) # input_lines (snd (fgets 128 s)))"
  by auto
termination by (relation "measure length") (auto intro: fgets_shorter)

declare input_lines.simps [simp del]

lemma input_lines_nil [simp]: "input_lines [] = []"
  by (simp add: input_lines.simps)

lemma input_lines_step:
  "s \<noteq> [] \<Longrightarrow> fgets 128 s = (l, s') \<Longrightarrow> input_lines s = chomp (c_string l) # input_lines s'"
  by (subst input_lines.simps) simp

text \<open>The text of a request to read fits into its array.\<close>

lemma chomp_length: "length (chomp s) \<le> length s"
  by (simp add: chomp_def)

lemma c_string_length: "length (c_string s) \<le> length s"
  by (simp add: c_string_def length_takeWhile_le)

lemma read_length: "fgets 128 s = (l, s') \<Longrightarrow> length (chomp (c_string l)) < 128"
  using piece_length [of 127 s] chomp_length [of "c_string l"] c_string_length [of l]
  by (simp add: fgets_def)

section \<open>The list of requests\<close>

definition sv_rep :: "tty_server \<Rightarrow> nat list \<Rightarrow> bool" where
  "sv_rep m xs \<longleftrightarrow> linked rq_next (sv_heap m) (sv_first m) xs \<and> distinct xs \<and>
     (xs \<noteq> [] \<longrightarrow> sv_last m = Some (last xs))"

lemma sv_rep_cong:
  assumes "sv_rep m xs" and "\<forall>a \<in> set xs. map_option rq_next (sv_heap m' a) = map_option rq_next (sv_heap m a)"
    and "sv_first m' = sv_first m" and "sv_last m' = sv_last m"
  shows "sv_rep m' xs"
proof -
  have "linked rq_next (sv_heap m') p xs" if "linked rq_next (sv_heap m) p xs" for p
    using that assms(2) by (induction xs arbitrary: p) (auto split: option.splits)
  then show ?thesis using assms by (simp add: sv_rep_def)
qed

text \<open>Filling in and appending: the cell \<open>a\<close> changes, and the link of the last cell.\<close>

definition filled :: "int \<Rightarrow> string option \<Rightarrow> string option \<Rightarrow> request \<Rightarrow> request" where
  "filled w prompt s rq = rq\<lparr>
     rq_prompt := Some (case prompt of None \<Rightarrow> [] | Some p \<Rightarrow> take 32 p),
     rq_text := Some (case s of Some l \<Rightarrow> (if w = REQ_WRITE then take 128 l else []) | None \<Rightarrow> [])\<rparr>"

definition relinked :: "request option \<Rightarrow> request option \<Rightarrow> bool" where
  "relinked x y \<longleftrightarrow> y = x \<or> (\<exists>rq n. x = Some rq \<and> y = Some (rq\<lparr>rq_next := n\<rparr>))"

lemma relinked_refl [simp]: "relinked x x"
  by (simp add: relinked_def)

lemma tr_queue_rep:
  assumes rep: "sv_rep m xs" and a: "a \<notin> set xs" "sv_heap m a = Some rq" "rq_next rq = None"
    and k: "tr_queue w prompt s a m = (m', q')"
  shows "q' = TR_signal a \<and> sv_rep m' (xs @ [a]) \<and> sv_heap m' a = Some (filled w prompt s rq) \<and>
    (\<forall>b. b \<noteq> a \<longrightarrow> relinked (sv_heap m b) (sv_heap m' b)) \<and> (\<forall>b. b \<noteq> a \<longrightarrow> b \<notin> set xs \<longrightarrow> sv_heap m' b = sv_heap m b) \<and>
    sv_stdin m' = sv_stdin m \<and> tty m' = tty m"
proof -
  let ?h = "(sv_heap m)(a \<mapsto> filled w prompt s rq)"
  have f: "rq_next (filled w prompt s rq) = None" using a(3) by (simp add: filled_def)
  show ?thesis
  proof (cases "xs = []")
    case True
    then have "sv_first m = None" using rep by (simp add: sv_rep_def)
    then show ?thesis using k a f True by (auto simp: tr_queue_def filled_def Let_def sv_rep_def)
  next
    case False
    then have l: "sv_last m = Some (last xs)" "sv_first m \<noteq> None" using rep by (auto simp: sv_rep_def neq_Nil_conv)
    have ne: "last xs \<noteq> a" using a(1) False by (metis last_in_set)
    have "sv_heap m (last xs) \<noteq> None"
      by (rule linked_alloc [of rq_next _ "sv_first m" xs]) (use rep False in \<open>auto simp: sv_rep_def\<close>)
    then obtain e where e: "?h (last xs) = Some e" "sv_heap m (last xs) = Some e" using ne by auto
    have m': "m' = m\<lparr>sv_heap := ?h(last xs \<mapsto> e\<lparr>rq_next := Some a\<rparr>), sv_last := Some a\<rparr>" "q' = TR_signal a"
      using k a(2) l e by (auto simp: tr_queue_def filled_def Let_def)
    have "linked rq_next ?h (sv_first m) xs"
      using rep linked_cong [of xs ?h "sv_heap m"] a(1) by (auto simp: sv_rep_def)
    then have "linked rq_next (?h(last xs \<mapsto> e\<lparr>rq_next := Some a\<rparr>)) (sv_first m) (xs @ [a])"
      by (rule linked_snoc [where c' = "\<lambda>e. e\<lparr>rq_next := Some a\<rparr>"]) (use rep False a(1) e f in \<open>auto simp: sv_rep_def\<close>)
    then have "sv_rep m' (xs @ [a])" using rep a(1) m' by (simp add: sv_rep_def)
    moreover have "last xs \<in> set xs" using False by simp
    ultimately show ?thesis using m' e ne by (auto simp: relinked_def)
  qed
qed

lemma ts_while_rep:
  assumes rep: "sv_rep m xs" and k: "ts_while m = (m', q')"
  obtains (none) "xs = []" "m' = m" "q' = TS_wait"
  | (some) a ys where "xs = a # ys" "q' = TS_unlock a" "sv_rep m' ys" "sv_heap m' = sv_heap m"
      "sv_stdin m' = sv_stdin m" "tty m' = tty m"
proof (cases xs)
  case Nil
  then show ?thesis using none rep k by (simp add: ts_while_def sv_rep_def)
next
  case (Cons a ys)
  then obtain rq where rq: "sv_first m = Some a" "sv_heap m a = Some rq" "linked rq_next (sv_heap m) (rq_next rq) ys"
    using rep by (auto simp: sv_rep_def split: option.splits)
  have "ys = [] \<longleftrightarrow> rq_next rq = None" using rq(3) by (cases ys) auto
  then show ?thesis using some [of a ys] rep k Cons rq by (auto simp: ts_while_def sv_rep_def)
qed

section \<open>Who has a request\<close>

text \<open>The client that waits for a synchronous request has it (\<open>cli\<close>), at first without its
  condition variable (\<open>ini\<close>); the server has the request it serves, until it marks it as done
  (\<open>srv\<close>).\<close>

fun tr_cli :: "tr_pc \<Rightarrow> nat option" where
  "tr_cli (TR_init a) = Some a"
| "tr_cli (TR_signal a) = Some a"
| "tr_cli (TR_wait a) = Some a"
| "tr_cli (TR_destroy a s) = Some a"
| "tr_cli q = None"

fun tr_ini :: "tr_pc \<Rightarrow> nat option" where
  "tr_ini (TR_init a) = Some a"
| "tr_ini q = None"

fun cli :: "sv_pc \<Rightarrow> nat option" where
  "cli (SV_main (SM_quit q)) = tr_cli q"
| "cli (SV_client i (CL_read q)) = tr_cli q"
| "cli p = None"

fun ini :: "sv_pc \<Rightarrow> nat option" where
  "ini (SV_main (SM_quit q)) = tr_ini q"
| "ini (SV_client i (CL_read q)) = tr_ini q"
| "ini p = None"

fun srv :: "sv_pc \<Rightarrow> nat option" where
  "srv (SV_server (TS_unlock a)) = Some a"
| "srv (SV_server (TS_serve a)) = Some a"
| "srv (SV_server (TS_relock a w)) = Some a"
| "srv p = None"

definition has :: "(sv_pc \<Rightarrow> nat option) \<Rightarrow> nat \<Rightarrow> sv_pc list \<Rightarrow> int" where
  "has f a ps = tally (\<lambda>p. of_bool (f p = Some a)) ps"

lemma has_nonneg [simp]: "0 \<le> has f a ps"
  unfolding has_def by (rule tally_nonneg) simp

lemma has_update:
  "t < length ps \<Longrightarrow> has f a (ps[t := p']) = has f a ps - of_bool (f (ps ! t) = Some a) + of_bool (f p' = Some a)"
  by (simp add: has_def tally_update)

lemma has_append [simp]: "has f a (ps @ qs) = has f a ps + has f a qs"
  by (simp add: has_def)

lemma has_single [simp]: "f p = None \<Longrightarrow> has f a [p] = 0"
  by (simp add: has_def)

lemma has_ge: "t < length ps \<Longrightarrow> f (ps ! t) = Some a \<Longrightarrow> 1 \<le> has f a ps"
  unfolding has_def using tally_ge_elem [of ps "\<lambda>p. of_bool (f p = Some a)" t] by simp

lemma has_two:
  "t < length ps \<Longrightarrow> u < length ps \<Longrightarrow> t \<noteq> u \<Longrightarrow> f (ps ! t) = Some a \<Longrightarrow> f (ps ! u) = Some a \<Longrightarrow> 2 \<le> has f a ps"
  unfolding has_def using tally_ge_two [of ps "\<lambda>p. of_bool (f p = Some a)" t u] by simp

definition line_ok :: "(nat \<Rightarrow> string) \<Rightarrow> string \<Rightarrow> bool" where
  "line_ok ptr l \<longleftrightarrow> (\<forall>i. length (ptr i) + length l \<le> 122)"

definition rq_ok :: "(nat \<Rightarrow> string) \<Rightarrow> request \<Rightarrow> bool" where
  "rq_ok ptr rq \<longleftrightarrow> (\<exists>p. rq_prompt rq = Some p \<and> length p < 32) \<and>
     (\<exists>l. rq_text rq = Some l \<and> length l < 128 \<and> (operation rq = REQ_READ \<longrightarrow> line_ok ptr l))"

text \<open>The state of one address: the request there, whether its condition variable exists (\<open>d\<close>), and how
  often it is in the list (\<open>q\<close>), with the server (\<open>s\<close>), with a client (\<open>c\<close>, \<open>i\<close>).\<close>

fun token :: "(nat \<Rightarrow> string) \<Rightarrow> request option \<Rightarrow> bool \<Rightarrow> int \<Rightarrow> int \<Rightarrow> int \<Rightarrow> int \<Rightarrow> bool" where
  "token ptr None d q s c i \<longleftrightarrow> q + s \<le> 0 \<and> c \<le> 0 \<and> i \<le> 0 \<and> \<not> d"
| "token ptr (Some rq) d q s c i \<longleftrightarrow>
     c \<le> of_bool (synchronous rq \<noteq> 0) \<and>
     q + s + i \<le> of_bool (synchronous rq = 0 \<or> done_flag rq = Some 0) \<and>
     (d \<longrightarrow> synchronous rq \<noteq> 0 \<and> i \<le> 0) \<and>
     (0 < q + s \<longrightarrow> rq_ok ptr rq \<and> (synchronous rq \<noteq> 0 \<longrightarrow> d))"

lemma token_none: "token ptr None d (of_bool b) s c i \<Longrightarrow> 0 \<le> s \<Longrightarrow> \<not> b \<and> s \<le> 0 \<and> c \<le> 0 \<and> i \<le> 0 \<and> \<not> d"
  by (cases b) auto

lemma token_done:
  "token ptr (Some rq) d (of_bool b) s c i \<Longrightarrow> synchronous rq \<noteq> 0 \<Longrightarrow> done_flag rq \<noteq> Some 0 \<Longrightarrow> 0 \<le> s \<Longrightarrow> 0 \<le> i \<Longrightarrow>
     \<not> b \<and> s \<le> 0 \<and> c \<le> 1 \<and> i \<le> 0"
  by (cases b) auto

lemma token_init:
  "token ptr (Some rq) d (of_bool b) s c i \<Longrightarrow> 1 \<le> i \<Longrightarrow> 0 \<le> s \<Longrightarrow>
     \<not> b \<and> s \<le> 0 \<and> i \<le> 1 \<and> \<not> d \<and> c \<le> of_bool (synchronous rq \<noteq> 0)"
  by (cases b; cases "synchronous rq = 0 \<or> done_flag rq = Some 0") auto

lemma token_mono: "token ptr x d q s c i \<Longrightarrow> s' \<le> s \<Longrightarrow> c' \<le> c \<Longrightarrow> i' \<le> i \<Longrightarrow> token ptr x d q s' c' i'"
  by (cases x) auto

lemma rq_ok_next [simp]: "rq_ok ptr (rq\<lparr>rq_next := n\<rparr>) = rq_ok ptr rq"
  by (simp add: rq_ok_def)

lemma token_relinked: "relinked x y \<Longrightarrow> token ptr y d q s c i = token ptr x d q s c i"
  by (auto simp: relinked_def)

section \<open>What the threads know\<close>

definition asked :: "(nat \<Rightarrow> string) \<Rightarrow> int \<Rightarrow> int \<Rightarrow> request option \<Rightarrow> bool" where
  "asked ptr w sync x \<longleftrightarrow> (\<exists>rq. x = Some rq \<and> operation rq = w \<and> synchronous rq = sync \<and>
     done_flag rq \<noteq> None \<and> rq_ok ptr rq)"

definition new_request :: "int \<Rightarrow> int \<Rightarrow> request option \<Rightarrow> bool" where
  "new_request w sync x \<longleftrightarrow> (\<exists>rq. x = Some rq \<and> operation rq = w \<and> synchronous rq = sync \<and>
     rq_next rq = None \<and> done_flag rq = Some 0)"

definition answered :: "int \<Rightarrow> int \<Rightarrow> string option \<Rightarrow> request option \<Rightarrow> bool" where
  "answered w sync s x \<longleftrightarrow> (\<exists>rq. x = Some rq \<and> operation rq = w \<and> synchronous rq = sync \<and>
     done_flag rq \<noteq> Some 0 \<and> (w = REQ_READ \<longrightarrow> rq_text rq = s))"

definition got :: "(nat \<Rightarrow> string) \<Rightarrow> int \<Rightarrow> string option \<Rightarrow> bool" where
  "got ptr w s \<longleftrightarrow> (w = REQ_READ \<longrightarrow> (\<exists>l. s = Some l \<and> line_ok ptr l))"

fun tr_fit :: "(nat \<Rightarrow> string) \<Rightarrow> (nat \<Rightarrow> request option) \<Rightarrow> (sv_cond \<Rightarrow> bool) \<Rightarrow> int \<Rightarrow> int \<Rightarrow> tr_pc \<Rightarrow> bool" where
  "tr_fit ptr h C w sync (TR_init a) \<longleftrightarrow> sync \<noteq> 0 \<and> new_request w sync (h a)"
| "tr_fit ptr h C w sync (TR_signal a) \<longleftrightarrow> (sync \<noteq> 0 \<longrightarrow> C (Done a) \<and> asked ptr w sync (h a))"
| "tr_fit ptr h C w sync (TR_wait a) \<longleftrightarrow> sync \<noteq> 0 \<and> C (Done a) \<and> asked ptr w sync (h a)"
| "tr_fit ptr h C w sync (TR_destroy a s) \<longleftrightarrow> sync \<noteq> 0 \<and> C (Done a) \<and> answered w sync s (h a) \<and> got ptr w s"
| "tr_fit ptr h C w sync (TR_unlock s) \<longleftrightarrow> got ptr w s"
| "tr_fit ptr h C w sync (TR_return s) \<longleftrightarrow> got ptr w s"
| "tr_fit ptr h C w sync TR_crash \<longleftrightarrow> False"
| "tr_fit ptr h C w sync TR_server \<longleftrightarrow> False"
| "tr_fit ptr h C w sync q \<longleftrightarrow> True"

fun sv_fit :: "(nat \<Rightarrow> string) \<Rightarrow> (nat \<Rightarrow> request option) \<Rightarrow> (sv_cond \<Rightarrow> bool) \<Rightarrow> sv_pc \<Rightarrow> bool" where
  "sv_fit ptr h C (SV_main (SM_quit q)) \<longleftrightarrow> tr_fit ptr h C REQ_QUIT 1 q"
| "sv_fit ptr h C (SV_main (SM_client i)) \<longleftrightarrow> False"
| "sv_fit ptr h C (SV_client i (CL_read q)) \<longleftrightarrow> tr_fit ptr h C REQ_READ 1 q"
| "sv_fit ptr h C (SV_client i (CL_write j l q)) \<longleftrightarrow> line_ok ptr l \<and> tr_fit ptr h C REQ_WRITE 0 q"
| "sv_fit ptr h C (SV_client i CL_crash) \<longleftrightarrow> False"
| "sv_fit ptr h C (SV_server (TS_relock a w)) \<longleftrightarrow> C (Done a)"
| "sv_fit ptr h C (SV_server (TS_signal a w)) \<longleftrightarrow> C (Done a)"
| "sv_fit ptr h C (SV_server TS_crash) \<longleftrightarrow> False"
| "sv_fit ptr h C p \<longleftrightarrow> True"

text \<open>Clients at these points do not mind that the server fills in the text and the flag.\<close>

fun loose :: "sv_pc \<Rightarrow> bool" where
  "loose (SV_main (SM_quit (TR_init a))) \<longleftrightarrow> False"
| "loose (SV_main (SM_quit (TR_destroy a s))) \<longleftrightarrow> False"
| "loose (SV_client i (CL_read (TR_init a))) \<longleftrightarrow> False"
| "loose (SV_client i (CL_read (TR_destroy a s))) \<longleftrightarrow> False"
| "loose p \<longleftrightarrow> True"

definition kept :: "(nat \<Rightarrow> string) \<Rightarrow> request option \<Rightarrow> request option \<Rightarrow> bool" where
  "kept ptr x y \<longleftrightarrow> (\<forall>rq. x = Some rq \<longrightarrow> (\<exists>rq'. y = Some rq' \<and> operation rq' = operation rq \<and>
     synchronous rq' = synchronous rq \<and> (done_flag rq \<noteq> None \<longrightarrow> done_flag rq' \<noteq> None) \<and> (rq_ok ptr rq \<longrightarrow> rq_ok ptr rq')))"

lemma kept_relinked: "relinked x y \<Longrightarrow> kept ptr x y"
  by (auto simp: relinked_def kept_def)

lemma asked_kept: "asked ptr w sync x \<Longrightarrow> kept ptr x y \<Longrightarrow> asked ptr w sync y"
  by (auto simp: asked_def kept_def)

lemma tr_fit_frame:
  assumes "tr_fit ptr h C w sync q" and "sync \<noteq> 0 \<longrightarrow> (\<forall>a. tr_cli q = Some a \<longrightarrow>
      (C (Done a) \<longrightarrow> C' (Done a)) \<and> (h' a = h a \<or> q \<in> {TR_signal a, TR_wait a} \<and> kept ptr (h a) (h' a)))"
  shows "tr_fit ptr h' C' w sync q"
proof (cases q)
  case (TR_signal a)
  with assms show ?thesis by (auto dest: asked_kept)
next
  case (TR_wait a)
  with assms show ?thesis by (auto dest: asked_kept)
qed (use assms in auto)

lemma sv_fit_frame:
  assumes "sv_fit ptr h C p"
    and "\<And>a. cli p = Some a \<Longrightarrow> (C (Done a) \<longrightarrow> C' (Done a)) \<and> (h' a = h a \<or> loose p \<and> kept ptr (h a) (h' a))"
    and "\<And>a w. p = SV_server (TS_relock a w) \<or> p = SV_server (TS_signal a w) \<Longrightarrow> C (Done a) \<Longrightarrow> C' (Done a)"
  shows "sv_fit ptr h' C' p"
proof -
  have req: "frame ptr f w sync prompt s \<Longrightarrow> p = f q \<Longrightarrow> tr_fit ptr h C w sync q \<Longrightarrow> tr_fit ptr h' C' w sync q"
    for f w sync prompt s q
    by (erule tr_fit_frame) (use assms(2) in \<open>cases q; fastforce elim!: frameE\<close>)
  note R = req [OF frame_quit] req [OF frame_read] req [OF frame_write]
  show ?thesis
  proof (cases p)
    case (SV_main x)
    then show ?thesis using assms(1) R(1) by (cases x) auto
  next
    case (SV_client i x)
    then show ?thesis using assms(1) R(2,3) by (cases x) auto
  next
    case (SV_server x)
    then show ?thesis using assms by (cases x) auto
  qed
qed

section \<open>The invariant of the requests\<close>

definition sv_tokens :: "(nat \<Rightarrow> string) \<Rightarrow> tty_server \<Rightarrow> (sv_cond \<Rightarrow> bool) \<Rightarrow> nat list \<Rightarrow> sv_pc list \<Rightarrow> bool" where
  "sv_tokens ptr m C xs ps \<longleftrightarrow> (\<forall>a. token ptr (sv_heap m a) (C (Done a)) (of_bool (a \<in> set xs))
     (has srv a ps) (has cli a ps) (has ini a ps))"

definition sv_ok :: "(nat \<Rightarrow> string) \<Rightarrow> tty_server \<Rightarrow> (sv_cond \<Rightarrow> bool) \<Rightarrow> sv_pc list \<Rightarrow> bool" where
  "sv_ok ptr m C ps \<longleftrightarrow> (\<exists>xs. sv_rep m xs \<and> sv_tokens ptr m C xs ps) \<and>
     list_all (sv_fit ptr (sv_heap m) C) ps \<and> (\<forall>l \<in> set (input_lines (sv_stdin m)). line_ok ptr l) \<and>
     C Request \<and> C Clients_done"

lemma tokensD:
  "sv_tokens ptr m C xs ps \<Longrightarrow> token ptr (sv_heap m a) (C (Done a)) (of_bool (a \<in> set xs))
     (has srv a ps) (has cli a ps) (has ini a ps)"
  by (simp add: sv_tokens_def)

text \<open>A request in the list or with the server.\<close>

lemma busy:
  assumes tok: "sv_tokens ptr m C xs ps" and b: "a \<in> set xs \<or> t < length ps \<and> srv (ps ! t) = Some a"
  obtains rq where "sv_heap m a = Some rq" "rq_ok ptr rq" "synchronous rq \<noteq> 0 \<longrightarrow> C (Done a)"
    "synchronous rq = 0 \<or> done_flag rq = Some 0" "has ini a ps = 0"
    "of_bool (a \<in> set xs) + has srv a ps = 1"
proof -
  have ge: "1 \<le> of_bool (a \<in> set xs) + has srv a ps"
    using b has_ge [of t ps srv a] has_nonneg [of srv a ps] by auto
  note T = tokensD [OF tok, of a]
  obtain rq where rq: "sv_heap m a = Some rq" using T ge by (cases "sv_heap m a") auto
  have le: "of_bool (a \<in> set xs) + has srv a ps + has ini a ps \<le> of_bool (synchronous rq = 0 \<or> done_flag rq = Some 0)"
    and ok: "rq_ok ptr rq \<and> (synchronous rq \<noteq> 0 \<longrightarrow> C (Done a))"
    using T ge rq by auto
  have d: "synchronous rq = 0 \<or> done_flag rq = Some 0"
    by (rule ccontr) (use le ge has_nonneg [of ini a ps] in simp)
  have "of_bool (a \<in> set xs) + has srv a ps + has ini a ps \<le> 1" using le d by simp
  then have "has ini a ps = 0" "of_bool (a \<in> set xs) + has srv a ps = 1"
    using ge has_nonneg [of ini a ps] by linarith+
  then show ?thesis using that rq ok d by blast
qed

lemma tr_cli_ini: "tr_ini q = Some a \<Longrightarrow> tr_cli q = Some a"
  by (cases q) auto

lemma cli_ini: "ini p = Some a \<Longrightarrow> cli p = Some a"
  by (cases p rule: ini.cases) (auto simp: tr_cli_ini)

lemma busy_loose:
  assumes tok: "sv_tokens ptr m C xs ps" and b: "a \<in> set xs \<or> t < length ps \<and> srv (ps ! t) = Some a"
    and u: "u < length ps" "sv_fit ptr (sv_heap m) C (ps ! u)" "cli (ps ! u) = Some a"
  shows "loose (ps ! u)"
proof -
  obtain rq where rq: "sv_heap m a = Some rq" "synchronous rq = 0 \<or> done_flag rq = Some 0" "has ini a ps = 0"
    by (rule busy [OF tok b])
  have "ini (ps ! u) \<noteq> Some a" using has_ge [OF u(1), of ini a] rq(3) by auto
  then show ?thesis using u(2,3) rq
    by (cases "ps ! u" rule: loose.cases) (auto simp: answered_def)
qed

text \<open>One thread moves; \<open>A\<close> are the addresses whose state changes.\<close>

lemma sv_step:
  assumes rep: "sv_tokens ptr m C xs ps" "list_all (sv_fit ptr (sv_heap m) C) ps" and t: "t < length ps"
    and roles: "\<And>a. a \<notin> A \<Longrightarrow> (srv p' = Some a \<longrightarrow> srv (ps ! t) = Some a) \<and> (cli p' = Some a \<longrightarrow> cli (ps ! t) = Some a) \<and>
      (ini p' = Some a \<longrightarrow> ini (ps ! t) = Some a)"
    and mem: "\<And>a. a \<notin> A \<Longrightarrow> (a \<in> set xs' \<longleftrightarrow> a \<in> set xs) \<and> (C' (Done a) \<longleftrightarrow> C (Done a)) \<and>
      relinked (sv_heap m a) (sv_heap m' a) \<and> (a \<notin> set xs \<longrightarrow> sv_heap m' a = sv_heap m a)"
    and tok: "\<And>a. a \<in> A \<Longrightarrow> token ptr (sv_heap m' a) (C' (Done a)) (of_bool (a \<in> set xs'))
      (has srv a (ps[t := p'])) (has cli a (ps[t := p'])) (has ini a (ps[t := p']))"
    and clients: "\<And>a u. a \<in> A \<Longrightarrow> u < length ps \<Longrightarrow> u \<noteq> t \<Longrightarrow> cli (ps ! u) = Some a \<Longrightarrow>
      (C (Done a) \<longrightarrow> C' (Done a)) \<and>
      (sv_heap m' a = sv_heap m a \<or> loose (ps ! u) \<and> kept ptr (sv_heap m a) (sv_heap m' a))"
    and servers: "\<And>a u w. a \<in> A \<Longrightarrow> u < length ps \<Longrightarrow> u \<noteq> t \<Longrightarrow>
      ps ! u = SV_server (TS_relock a w) \<or> ps ! u = SV_server (TS_signal a w) \<Longrightarrow> C (Done a) \<Longrightarrow> C' (Done a)"
    and fit: "sv_fit ptr (sv_heap m') C' p'"
  shows "sv_tokens ptr m' C' xs' (ps[t := p']) \<and> list_all (sv_fit ptr (sv_heap m') C') (ps[t := p'])"
proof
  show "sv_tokens ptr m' C' xs' (ps[t := p'])"
    unfolding sv_tokens_def
  proof
    fix a
    show "token ptr (sv_heap m' a) (C' (Done a)) (of_bool (a \<in> set xs'))
      (has srv a (ps[t := p'])) (has cli a (ps[t := p'])) (has ini a (ps[t := p']))"
    proof (cases "a \<in> A")
      case False
      have "token ptr (sv_heap m' a) (C' (Done a)) (of_bool (a \<in> set xs')) (has srv a ps) (has cli a ps) (has ini a ps)"
        using tokensD [OF rep(1), of a] mem [OF False] token_relinked by fastforce
      then show ?thesis
        by (rule token_mono) (use roles [OF False] in \<open>auto simp: has_update [OF t]\<close>)
    qed (rule tok)
  qed
  show "list_all (sv_fit ptr (sv_heap m') C') (ps[t := p'])"
  proof (rule list_all_update_others [where Q = "sv_fit ptr (sv_heap m') C'", OF t fit])
    fix u assume u: "u < length ps" "u \<noteq> t"
    have f: "sv_fit ptr (sv_heap m) C (ps ! u)" using rep(2) u(1) by (simp add: list_all_length)
    show "sv_fit ptr (sv_heap m') C' (ps ! u)"
    proof (rule sv_fit_frame [OF f])
      fix a assume c: "cli (ps ! u) = Some a"
      show "(C (Done a) \<longrightarrow> C' (Done a)) \<and>
        (sv_heap m' a = sv_heap m a \<or> loose (ps ! u) \<and> kept ptr (sv_heap m a) (sv_heap m' a))"
      proof (cases "a \<in> A")
        case False
        then show ?thesis using mem [OF False] busy_loose [OF rep(1) _ u(1) f c] kept_relinked by blast
      qed (rule clients [OF _ u c])
    next
      fix a w assume s: "ps ! u = SV_server (TS_relock a w) \<or> ps ! u = SV_server (TS_signal a w)" "C (Done a)"
      show "C' (Done a)" using mem [of a] servers [OF _ u s(1)] s(2) by (cases "a \<in> A") auto
    qed
  qed
qed

text \<open>A step that leaves the requests alone.\<close>

lemma sv_ok_idle:
  assumes ok: "sv_ok ptr m C ps" and t: "t < length ps"
    and m: "sv_heap m' = sv_heap m" "sv_first m' = sv_first m" "sv_last m' = sv_last m" "sv_stdin m' = sv_stdin m"
    and roles: "srv p' = None \<or> srv p' = srv (ps ! t)" "cli p' = None \<or> cli p' = cli (ps ! t)"
      "ini p' = None \<or> ini p' = ini (ps ! t)"
    and fit: "sv_fit ptr (sv_heap m) C p'"
  shows "sv_ok ptr m' C (ps[t := p'])"
proof -
  obtain xs where xs: "sv_rep m xs" "sv_tokens ptr m C xs ps" "list_all (sv_fit ptr (sv_heap m) C) ps"
    using ok by (auto simp: sv_ok_def)
  have "sv_tokens ptr m' C xs (ps[t := p']) \<and> list_all (sv_fit ptr (sv_heap m') C) (ps[t := p'])"
    by (rule sv_step [OF xs(2,3) t, where A = "{}"]) (use roles fit m in auto)
  moreover have "sv_rep m' xs" by (rule sv_rep_cong [OF xs(1)]) (use m in auto)
  ultimately show ?thesis using ok m by (auto simp: sv_ok_def)
qed

section \<open>The steps of a request\<close>

lemma frame_roles:
  assumes "frame ptr w v sync prompt s"
  shows "srv (w q) = None" "cli (w q) = (if sync \<noteq> 0 then tr_cli q else None)"
    "ini (w q) = (if sync \<noteq> 0 then tr_ini q else None)"
    "sv_fit ptr h C (w q) \<longleftrightarrow> sv_fit ptr h C (w TR_lock) \<and> tr_fit ptr h C v sync q"
    "sv_fit ptr h' C' (w TR_lock) \<longleftrightarrow> sv_fit ptr h C (w TR_lock)"
  using assms by (auto elim!: frameE)

lemma filled_simps [simp]:
  "operation (filled w prompt s rq) = operation rq" "synchronous (filled w prompt s rq) = synchronous rq"
  "done_flag (filled w prompt s rq) = done_flag rq" "rq_next (filled w prompt s rq) = rq_next rq"
  by (simp_all add: filled_def)

lemma filled_ok:
  assumes "frame ptr w v sync prompt s" and "sv_fit ptr h C (w TR_lock)" and "\<And>i. length (ptr i) \<le> 23"
    and "operation rq = v"
  shows "rq_ok ptr (filled v prompt s rq)"
  using assms(1)
proof (cases rule: frame.cases)
  case (frame_read i)
  have "length (ptr i) \<le> 23" "length (ptr j) \<le> 122" for j using assms(3) [of i] assms(3) [of j] by simp_all
  then show ?thesis using frame_read assms(4)
    by (auto simp: rq_ok_def filled_def req_defs client_prompt_def line_ok_def)
next
  case (frame_write i j l)
  then have "length (ptr i) + length l \<le> 122" using assms(2) by (simp add: line_ok_def)
  then show ?thesis using frame_write assms(4) by (auto simp: rq_ok_def filled_def req_defs echo_def)
next
  case frame_quit
  then show ?thesis using assms(4) by (auto simp: rq_ok_def filled_def req_defs)
qed

text \<open>\<^verbatim>\<open>malloc\<close> of a synchronous request.\<close>

lemma sv_ok_malloc:
  assumes ok: "sv_ok ptr m C ps" and t: "t < length ps" and p: "srv (ps ! t) = None" "cli (ps ! t) = None" "ini (ps ! t) = None"
    and a: "sv_heap m a = None" and rq: "synchronous rq \<noteq> 0" "done_flag rq = Some 0"
    and p': "srv p' = None" "cli p' = Some a" "ini p' = Some a"
    and fit: "sv_fit ptr ((sv_heap m)(a \<mapsto> rq)) C p'"
  shows "sv_ok ptr (m\<lparr>sv_heap := (sv_heap m)(a \<mapsto> rq)\<rparr>) C (ps[t := p'])"
proof -
  obtain xs where xs: "sv_rep m xs" "sv_tokens ptr m C xs ps" "list_all (sv_fit ptr (sv_heap m) C) ps"
    using ok by (auto simp: sv_ok_def)
  let ?m = "m\<lparr>sv_heap := (sv_heap m)(a \<mapsto> rq)\<rparr>"
  have T: "a \<notin> set xs" "has srv a ps \<le> 0" "has cli a ps \<le> 0" "has ini a ps \<le> 0" "\<not> C (Done a)"
    using token_none [OF tokensD [OF xs(2), of a, unfolded a] has_nonneg] by auto
  have nc: "cli (ps ! u) \<noteq> Some a" if "u < length ps" for u
    using has_ge [OF that, of cli a] T(3) by auto
  have "sv_tokens ptr ?m C xs (ps[t := p']) \<and> list_all (sv_fit ptr (sv_heap ?m) C) (ps[t := p'])"
    by (rule sv_step [OF xs(2,3) t, where A = "{a}"]) (use p p' T rq fit nc in \<open>auto simp: has_update [OF t]\<close>)
  moreover have "sv_rep ?m xs" by (rule sv_rep_cong [OF xs(1)]) (use T(1) in auto)
  ultimately show ?thesis using ok by (auto simp: sv_ok_def)
qed

text \<open>A request is put into the list: one whose condition variable has just been created, or one
  that has just been allocated and is not synchronous.\<close>

lemma sv_ok_queue:
  assumes ok: "sv_ok ptr m C ps" and t: "t < length ps" and p: "srv (ps ! t) = None"
    and q: "tr_queue v prompt s a (m\<lparr>sv_heap := (sv_heap m)(a \<mapsto> rq)\<rparr>) = (m', q')"
    and rq: "rq_next rq = None" "rq_ok ptr (filled v prompt s rq)"
    and old: "synchronous rq \<noteq> 0 \<and> done_flag rq = Some 0 \<and> sv_heap m a = Some rq \<and> cli (ps ! t) = Some a \<and>
        ini (ps ! t) = Some a \<and> cli p' = Some a \<and> C' = C(Done a := True) \<or>
      synchronous rq = 0 \<and> sv_heap m a = None \<and> cli (ps ! t) = None \<and> ini (ps ! t) = None \<and> cli p' = None \<and> C' = C"
    and p': "srv p' = None" "ini p' = None"
    and fit: "sv_heap m' a = Some (filled v prompt s rq) \<Longrightarrow> sv_fit ptr (sv_heap m') C' p'"
  shows "sv_ok ptr m' C' (ps[t := p']) \<and> q' = TR_signal a"
proof -
  obtain xs where xs: "sv_rep m xs" "sv_tokens ptr m C xs ps" "list_all (sv_fit ptr (sv_heap m) C) ps"
    using ok by (auto simp: sv_ok_def)
  let ?m = "m\<lparr>sv_heap := (sv_heap m)(a \<mapsto> rq)\<rparr>"
  note T = tokensD [OF xs(2), of a]
  have i: "ini (ps ! t) = Some a \<Longrightarrow> 1 \<le> has ini a ps" using has_ge [OF t] by blast
  have N: "a \<notin> set xs \<and> has srv a ps \<le> 0 \<and> \<not> C (Done a) \<and> has ini a ps \<le> of_bool (synchronous rq \<noteq> 0) \<and>
      has cli a ps \<le> of_bool (synchronous rq \<noteq> 0)"
    using old
  proof
    assume c: "synchronous rq \<noteq> 0 \<and> done_flag rq = Some 0 \<and> sv_heap m a = Some rq \<and> cli (ps ! t) = Some a \<and>
      ini (ps ! t) = Some a \<and> cli p' = Some a \<and> C' = C(Done a := True)"
    then have h: "sv_heap m a = Some rq" "ini (ps ! t) = Some a" by blast+
    show ?thesis using token_init [OF T [unfolded h(1)] i [OF h(2)] has_nonneg] c by simp
  next
    assume "synchronous rq = 0 \<and> sv_heap m a = None \<and> cli (ps ! t) = None \<and> ini (ps ! t) = None \<and> cli p' = None \<and> C' = C"
    then have h: "sv_heap m a = None" by blast
    show ?thesis using token_none [OF T [unfolded h] has_nonneg] by simp
  qed
  then have N: "a \<notin> set xs" "has srv a ps \<le> 0" "\<not> C (Done a)" "has ini a ps \<le> of_bool (synchronous rq \<noteq> 0)"
    "has cli a ps \<le> of_bool (synchronous rq \<noteq> 0)" by simp_all
  have nc: "cli (ps ! u) \<noteq> Some a" if u: "u < length ps" "u \<noteq> t" for u
    using has_two [OF t u(1) u(2) [symmetric], of cli a] has_ge [OF u(1), of cli a] N(5) old by auto
  have rep: "sv_rep ?m xs" by (rule sv_rep_cong [OF xs(1)]) (use N(1) in auto)
  have Q: "q' = TR_signal a" "sv_rep m' (xs @ [a])" "sv_heap m' a = Some (filled v prompt s rq)"
    "\<And>b. b \<noteq> a \<Longrightarrow> relinked (sv_heap m b) (sv_heap m' b)" "\<And>b. b \<noteq> a \<Longrightarrow> b \<notin> set xs \<Longrightarrow> sv_heap m' b = sv_heap m b"
    "sv_stdin m' = sv_stdin m"
    using tr_queue_rep [OF rep N(1) _ rq(1) q] by auto
  have O: "cli p' = Some b \<Longrightarrow> b = a" "b \<noteq> a \<Longrightarrow> C' (Done b) = C (Done b)" "C' (Done a) \<longleftrightarrow> synchronous rq \<noteq> 0"
      "C' Request = C Request" "C' Clients_done = C Clients_done" for b
    using old N(3) by auto
  have tok: "token ptr (sv_heap m' a) (C' (Done a)) (of_bool (a \<in> set (xs @ [a])))
      (has srv a (ps[t := p'])) (has cli a (ps[t := p'])) (has ini a (ps[t := p']))"
  proof -
    have "has srv a (ps[t := p']) \<le> 0" using N(2) p p'(1) by (simp add: has_update [OF t])
    moreover have "has cli a (ps[t := p']) \<le> of_bool (synchronous rq \<noteq> 0)"
      using N(5) old by (auto simp: has_update [OF t])
    moreover have "has ini a (ps[t := p']) \<le> 0" using N(4) old p'(2) by (auto simp: has_update [OF t])
    moreover have "synchronous rq = 0 \<or> done_flag rq = Some 0" using old by blast
    ultimately show ?thesis using Q(3) rq(2) O(3) by auto
  qed
  have "sv_tokens ptr m' C' (xs @ [a]) (ps[t := p']) \<and> list_all (sv_fit ptr (sv_heap m') C') (ps[t := p'])"
  proof (rule sv_step [OF xs(2,3) t, where A = "{a}"])
    show "sv_fit ptr (sv_heap m') C' p'" by (rule fit [OF Q(3)])
  qed (use p' N(3) Q(4,5) O(1,2) nc tok in auto)
  then show ?thesis using ok Q(1,2,6) O(4,5) by (auto simp: sv_ok_def)
qed

text \<open>The client frees its request.\<close>

lemma sv_ok_destroy:
  assumes ok: "sv_ok ptr m C ps" and t: "t < length ps" and p: "cli (ps ! t) = Some a" "srv (ps ! t) = None"
    and rq: "sv_heap m a = Some rq" "synchronous rq \<noteq> 0" "done_flag rq \<noteq> Some 0"
    and nosig: "\<And>u w. u < length ps \<Longrightarrow> u \<noteq> t \<Longrightarrow> ps ! u \<noteq> SV_server (TS_signal a w)"
    and p': "srv p' = None" "cli p' = None" "ini p' = None"
    and fit: "sv_fit ptr ((sv_heap m)(a := None)) (C(Done a := False)) p'"
  shows "sv_ok ptr (m\<lparr>sv_heap := (sv_heap m)(a := None)\<rparr>) (C(Done a := False)) (ps[t := p'])"
proof -
  obtain xs where xs: "sv_rep m xs" "sv_tokens ptr m C xs ps" "list_all (sv_fit ptr (sv_heap m) C) ps"
    using ok by (auto simp: sv_ok_def)
  let ?m = "m\<lparr>sv_heap := (sv_heap m)(a := None)\<rparr>"
  have T: "a \<notin> set xs" "has srv a ps \<le> 0" "has cli a ps \<le> 1" "has ini a ps \<le> 0"
    using token_done [OF tokensD [OF xs(2), of a, unfolded rq(1)] rq(2,3) has_nonneg has_nonneg] by auto
  have nc: "cli (ps ! u) \<noteq> Some a" if "u < length ps" "u \<noteq> t" for u
    using has_two [OF t that(1) that(2) [symmetric], of cli a] p(1) T(3) by auto
  have ns: "ps ! u \<noteq> SV_server (TS_relock a w)" if "u < length ps" for u w
    using has_ge [OF that, of srv a] T(2) by auto
  have "sv_tokens ptr ?m (C(Done a := False)) xs (ps[t := p']) \<and>
      list_all (sv_fit ptr (sv_heap ?m) (C(Done a := False))) (ps[t := p'])"
    by (rule sv_step [OF xs(2,3) t, where A = "{a}"])
       (use p p' T rq fit nc ns nosig in \<open>auto simp: has_update [OF t]\<close>)
  moreover have "sv_rep ?m xs" by (rule sv_rep_cong [OF xs(1)]) (use T(1) in auto)
  ultimately show ?thesis using ok by (auto simp: sv_ok_def)
qed

text \<open>A client looks whether its request is done.\<close>

lemma tr_while_fit:
  assumes "frame ptr w v sync prompt s" and "sync \<noteq> 0" and "C (Done a)" and "asked ptr v sync (sv_heap m a)"
    and "tr_while v s a m = (m', q')"
  shows "m' = m \<and> tr_fit ptr (sv_heap m) C v sync q' \<and> tr_cli q' = Some a \<and> tr_ini q' = None"
proof -
  obtain rq where rq: "sv_heap m a = Some rq" "operation rq = v" "synchronous rq = sync" "done_flag rq \<noteq> None"
    "rq_ok ptr rq" using assms(4) by (auto simp: asked_def)
  then obtain l where l: "rq_text rq = Some l" "length l < 128" "v = REQ_READ \<longrightarrow> line_ok ptr l"
    by (auto simp: rq_ok_def)
  have "s \<noteq> None" if "v = REQ_READ" using assms(1) that by (auto elim!: frameE simp: req_defs)
  then show ?thesis using assms(2-5) rq l
    by (auto simp: tr_while_def asked_def answered_def got_def split: if_splits)
qed

lemma frame_got: "frame ptr w v sync prompt s \<Longrightarrow> sync = 0 \<Longrightarrow> got ptr v s"
  by (erule frame.cases) (simp_all add: got_def req_defs)

lemma request_step:
  assumes ok: "sv_ok ptr m C ps" and t: "t < length ps" and f: "frame ptr w v sync prompt s" and q: "ps ! t = w q"
    and c: "tty_server_request v sync prompt s q = Do c k" and r: "answer_ok c r m n" and k: "k r m = (m', q')"
    and ptr: "\<And>i. length (ptr i) \<le> 23"
    and nosig: "\<And>a s' u w. q = TR_destroy a s' \<Longrightarrow> u < length ps \<Longrightarrow> u \<noteq> t \<Longrightarrow> ps ! u \<noteq> SV_server (TS_signal a w)"
  shows "sv_ok ptr m' (cond_after c r C) (ps[t := w q'])"
proof -
  note R = frame_roles [OF f]
  have fit: "sv_fit ptr (sv_heap m) C (w TR_lock)" "tr_fit ptr (sv_heap m) C v sync q"
  proof -
    have "sv_fit ptr (sv_heap m) C (w q)" using ok t q by (auto simp: sv_ok_def list_all_length)
    then show "sv_fit ptr (sv_heap m) C (w TR_lock)" "tr_fit ptr (sv_heap m) C v sync q"
      using R(4) [of "sv_heap m" C q] by simp_all
  qed
  have fr: "sv_fit ptr h C' (w q')" if "tr_fit ptr h C' v sync q'" for h C' q'
    using R(4) [of h C' q'] R(5) [of h C' "sv_heap m" C] fit(1) that by blast
  have idle: "sv_ok ptr m' C (ps[t := w q'])"
    if "sv_heap m' = sv_heap m" "sv_first m' = sv_first m" "sv_last m' = sv_last m" "sv_stdin m' = sv_stdin m"
      "tr_cli q' = None \<or> tr_cli q' = tr_cli q" "tr_ini q' = None \<or> tr_ini q' = tr_ini q"
      "tr_fit ptr (sv_heap m) C v sync q'"
    by (rule sv_ok_idle [OF ok t that(1-4)]) (use that(5-7) q R(1-3) fr in auto)
  note Q = filled_ok [OF f fit(1) ptr]
  show ?thesis
  proof (cases q)
    case TR_malloc
    show ?thesis
    proof (cases "r = 0")
      case True
      then show ?thesis using idle c k TR_malloc by auto
    next
      case False
      let ?rq = "\<lparr>rq_next = None, operation = v, synchronous = sync,
        done_flag = (if sync \<noteq> 0 then Some 0 else None), rq_prompt = None, rq_text = None\<rparr>"
      have a: "sv_heap m (nat r) = None" "c = Env (\<lambda>r m. r = 0 \<or> 0 < r \<and> sv_heap m (nat r) = None)"
        "tr_malloc v sync prompt s (nat r) m = (m', q')"
        using c k r TR_malloc False by auto
      have n: "srv (ps ! t) = None" "cli (ps ! t) = None" "ini (ps ! t) = None" using q R(1-3) TR_malloc by auto
      show ?thesis
      proof (cases "sync = 0")
        case True
        then have tq: "tr_queue v prompt s (nat r) (m\<lparr>sv_heap := (sv_heap m)(nat r \<mapsto> ?rq)\<rparr>) = (m', q')"
          using a(3) by (simp add: tr_malloc_def)
        have "sv_ok ptr m' C (ps[t := w (TR_signal (nat r))]) \<and> q' = TR_signal (nat r)"
          by (rule sv_ok_queue [OF ok t n(1) tq]) (use n Q True a(1) R(1-3) in \<open>auto intro!: fr\<close>)
        then show ?thesis using a(2) by auto
      next
        case False
        then have m': "m' = m\<lparr>sv_heap := (sv_heap m)(nat r \<mapsto> ?rq)\<rparr>" "q' = TR_init (nat r)"
          using a(3) by (auto simp: tr_malloc_def)
        have "sv_ok ptr m' C (ps[t := w q'])"
          unfolding m'(1)
          by (rule sv_ok_malloc [OF ok t n a(1)])
             (use False R(1-3) m'(2) in \<open>auto intro!: fr simp: new_request_def\<close>)
        then show ?thesis using a(2) by simp
      qed
    qed
  next
    case (TR_init a)
    show ?thesis
    proof (cases "r = 0")
      case True
      obtain rq where rq: "sv_heap m a = Some rq" "operation rq = v" "synchronous rq = sync" "rq_next rq = None"
        "done_flag rq = Some 0" "sync \<noteq> 0"
        using fit(2) TR_init by (auto simp: new_request_def)
      have "(sv_heap m)(a \<mapsto> rq) = sv_heap m" using rq(1) by auto
      then have tq: "tr_queue v prompt s a (m\<lparr>sv_heap := (sv_heap m)(a \<mapsto> rq)\<rparr>) = (m', q')"
        using c k TR_init True by auto
      have n: "srv (ps ! t) = None" "cli (ps ! t) = Some a" "ini (ps ! t) = Some a" using q R(1-3) TR_init rq(6) by auto
      have "asked ptr v sync (Some (filled v prompt s rq))" using rq Q [of rq] by (simp add: asked_def)
      then have "sv_ok ptr m' (C(Done a := True)) (ps[t := w (TR_signal a)]) \<and> q' = TR_signal a"
        by (intro sv_ok_queue [OF ok t n(1) tq rq(4)]) (use n Q rq R(1-3) in \<open>auto intro!: fr\<close>)
      then show ?thesis using c TR_init True by auto
    next
      case False
      then show ?thesis using idle c k TR_init by auto
    qed
  next
    case (TR_signal a)
    show ?thesis
    proof (cases "r = 0 \<and> sync \<noteq> 0")
      case True
      then have tw: "tr_while v s a m = (m', q')" using c k TR_signal by auto
      have "m' = m \<and> tr_fit ptr (sv_heap m) C v sync q' \<and> tr_cli q' = Some a \<and> tr_ini q' = None"
        by (rule tr_while_fit [OF f _ _ _ tw]) (use True fit(2) TR_signal in auto)
      then show ?thesis using idle c TR_signal by auto
    next
      case False
      have "got ptr v s" if "sync = 0" by (rule frame_got [OF f that])
      then show ?thesis using idle c k TR_signal False by (auto split: if_splits)
    qed
  next
    case (TR_wait a)
    show ?thesis
    proof (cases "r = 0")
      case True
      then have tw: "tr_while v s a m = (m', q')" using c k TR_wait by auto
      have "m' = m \<and> tr_fit ptr (sv_heap m) C v sync q' \<and> tr_cli q' = Some a \<and> tr_ini q' = None"
        by (rule tr_while_fit [OF f _ _ _ tw]) (use True fit(2) TR_wait in auto)
      then show ?thesis using idle c TR_wait by auto
    next
      case False
      then show ?thesis using idle c k TR_wait by auto
    qed
  next
    case (TR_destroy a s')
    show ?thesis
    proof (cases "r = 0")
      case True
      obtain rq where rq: "sv_heap m a = Some rq" "synchronous rq = sync" "done_flag rq \<noteq> Some 0" "sync \<noteq> 0" "got ptr v s'"
        using fit(2) TR_destroy by (auto simp: answered_def)
      have m': "m' = m\<lparr>sv_heap := (sv_heap m)(a := None)\<rparr>" "q' = TR_unlock s'" "c = CDestroy (Done a)"
        using c k TR_destroy True rq(1) by auto
      have n: "cli (ps ! t) = Some a" "srv (ps ! t) = None" using q R(1-3) TR_destroy rq(4) by auto
      have "sv_ok ptr m' (C(Done a := False)) (ps[t := w q'])"
        unfolding m'(1)
        by (rule sv_ok_destroy [OF ok t n rq(1)])
           (use rq nosig [OF TR_destroy] R(1-3) m'(2) in \<open>auto intro!: fr\<close>)
      then show ?thesis using m'(3) True by simp
    next
      case False
      then show ?thesis using idle c k TR_destroy by auto
    qed
  qed (use idle c k fit(2) in \<open>auto split: if_splits\<close>)
qed

section \<open>The steps of the server\<close>

text \<open>The server takes the first request.\<close>

lemma sv_ok_take:
  assumes ok: "sv_ok ptr m C ps" and t: "t < length ps" and p: "srv (ps ! t) = None" "cli (ps ! t) = None" "ini (ps ! t) = None"
    and k: "ts_while m = (m', q')"
  shows "sv_ok ptr m' C (ps[t := SV_server q'])"
proof -
  obtain xs where xs: "sv_rep m xs" "sv_tokens ptr m C xs ps" "list_all (sv_fit ptr (sv_heap m) C) ps"
    using ok by (auto simp: sv_ok_def)
  show ?thesis
  proof (rule ts_while_rep [OF xs(1) k])
    assume "xs = []" "m' = m" "q' = TS_wait"
    then show ?thesis using sv_ok_idle [OF ok t, of m "SV_server TS_wait"] by simp
  next
    fix a ys assume a: "xs = a # ys" "q' = TS_unlock a" "sv_rep m' ys" "sv_heap m' = sv_heap m"
      "sv_stdin m' = sv_stdin m" "tty m' = tty m"
    have d: "a \<notin> set ys" using xs(1) a(1) by (simp add: sv_rep_def)
    have tok: "token ptr (sv_heap m' b) (C (Done b)) (of_bool (b \<in> set ys)) (has srv b (ps[t := SV_server q']))
        (has cli b (ps[t := SV_server q'])) (has ini b (ps[t := SV_server q']))" if "b = a" for b
      using tokensD [OF xs(2), of a] has_nonneg [of srv a ps] that a(1,2,4) d p by (cases "sv_heap m a") (auto simp: has_update [OF t])
    have "sv_tokens ptr m' C ys (ps[t := SV_server q']) \<and> list_all (sv_fit ptr (sv_heap m') C) (ps[t := SV_server q'])"
      by (rule sv_step [OF xs(2,3) t, where A = "{a}"]) (use tok a in auto)
    then show ?thesis using ok a(3,5) by (auto simp: sv_ok_def)
  qed
qed

text \<open>The server changes the request it has.\<close>

lemma sv_ok_serve:
  assumes ok: "sv_ok ptr m C ps" and t: "t < length ps" and p: "srv (ps ! t) = Some a" "cli (ps ! t) = None"
    and rq: "sv_heap m a = Some rq"
    and m': "sv_heap m' = (sv_heap m)(a := x)" "sv_first m' = sv_first m" "sv_last m' = sv_last m"
      "\<forall>l \<in> set (input_lines (sv_stdin m')). line_ok ptr l"
    and x: "x = None \<and> synchronous rq = 0 \<and> srv p' = None \<or>
      (\<exists>rq'. x = Some rq' \<and> operation rq' = operation rq \<and> synchronous rq' = synchronous rq \<and>
         rq_next rq' = rq_next rq \<and> rq_ok ptr rq' \<and>
         (srv p' = Some a \<and> done_flag rq' = done_flag rq \<or> srv p' = None \<and> done_flag rq' = Some 1))"
    and p': "cli p' = None" "ini p' = None"
    and fit: "sv_fit ptr (sv_heap m') C p'"
  shows "sv_ok ptr m' C (ps[t := p'])"
proof -
  obtain xs where xs: "sv_rep m xs" "sv_tokens ptr m C xs ps" "list_all (sv_fit ptr (sv_heap m) C) ps"
    using ok by (auto simp: sv_ok_def)
  obtain rq0 where "sv_heap m a = Some rq0" "rq_ok ptr rq0" "synchronous rq0 \<noteq> 0 \<longrightarrow> C (Done a)"
      "synchronous rq0 = 0 \<or> done_flag rq0 = Some 0" "has ini a ps = 0"
      "of_bool (a \<in> set xs) + has srv a ps = 1"
    by (rule busy [OF xs(2) disjI2 [OF conjI [OF t p(1)]]])
  then have b: "rq_ok ptr rq" "synchronous rq \<noteq> 0 \<longrightarrow> C (Done a)" "has ini a ps = 0"
      "of_bool (a \<in> set xs) + has srv a ps = 1" "synchronous rq = 0 \<or> done_flag rq = Some 0"
    using rq by simp_all
  have ini: "ini (ps ! t) = None" using p(2) cli_ini by (cases "ini (ps ! t)") fastforce+
  have q: "a \<notin> set xs" using b(4) has_ge [where f = srv, OF t p(1)] by (auto split: if_splits)
  have s: "has srv a ps = 1" using b(4) q by simp
  have c: "has cli a ps \<le> of_bool (synchronous rq \<noteq> 0)" "C (Done a) \<longrightarrow> synchronous rq \<noteq> 0"
    using tokensD [OF xs(2), of a] rq by auto
  have nc: "synchronous rq \<noteq> 0" if "u < length ps" "cli (ps ! u) = Some a" for u
    using has_ge [OF that(1), of cli a] that(2) c(1) by auto
  have kept: "x \<noteq> None \<Longrightarrow> kept ptr (Some rq) x" using x by (auto simp: kept_def)
  have tok: "token ptr (sv_heap m' b) (C (Done b)) (of_bool (b \<in> set xs)) (has srv b (ps[t := p']))
      (has cli b (ps[t := p'])) (has ini b (ps[t := p']))" if "b = a" for b
    using x
  proof
    assume "x = None \<and> synchronous rq = 0 \<and> srv p' = None"
    then show ?thesis using that m'(1) p p' ini b(3) q s c by (auto simp: has_update [OF t])
  next
    assume "\<exists>rq'. x = Some rq' \<and> operation rq' = operation rq \<and> synchronous rq' = synchronous rq \<and>
         rq_next rq' = rq_next rq \<and> rq_ok ptr rq' \<and>
         (srv p' = Some a \<and> done_flag rq' = done_flag rq \<or> srv p' = None \<and> done_flag rq' = Some 1)"
    then show ?thesis using that m'(1) p p' ini b q s c by (auto simp: has_update [OF t])
  qed
  have "sv_tokens ptr m' C xs (ps[t := p']) \<and> list_all (sv_fit ptr (sv_heap m') C) (ps[t := p'])"
  proof (rule sv_step [OF xs(2,3) t, where A = "{a}"])
    fix b u assume u: "b \<in> {a}" "u < length ps" "u \<noteq> t" "cli (ps ! u) = Some b"
    have "sv_fit ptr (sv_heap m) C (ps ! u)" using xs(3) u(2) by (simp add: list_all_length)
    then have "loose (ps ! u)" using busy_loose [OF xs(2), of a t u] t p(1) u by simp
    moreover have "x \<noteq> None" using nc [OF u(2)] u(1,4) x by auto
    ultimately show "(C (Done b) \<longrightarrow> C (Done b)) \<and>
        (sv_heap m' b = sv_heap m b \<or> loose (ps ! u) \<and> kept ptr (sv_heap m b) (sv_heap m' b))"
      using kept u(1) rq m'(1) by auto
  qed (use tok x p' m'(1) fit p in auto)
  moreover have "sv_rep m' xs" by (rule sv_rep_cong [OF xs(1)]) (use m' q in auto)
  ultimately show ?thesis using ok m'(4) by (auto simp: sv_ok_def)
qed

lemma ts_read_ok:
  assumes "rq_ok ptr rq" and "operation rq = REQ_READ" and "\<forall>l \<in> set (input_lines (sv_stdin m)). line_ok ptr l"
    and "line_ok ptr []"
  obtains l m1 where "ts_read a rq e m = Some m1" "sv_heap m1 = (sv_heap m)(a \<mapsto> rq\<lparr>rq_text := Some l\<rparr>)"
    "rq_ok ptr (rq\<lparr>rq_text := Some l\<rparr>)" "sv_first m1 = sv_first m" "sv_last m1 = sv_last m"
    "l = [] \<and> input_lines (sv_stdin m1) = input_lines (sv_stdin m) \<or>
      input_lines (sv_stdin m) = l # input_lines (sv_stdin m1)"
    "\<exists>p. rq_prompt rq = Some p \<and> tty m1 = tty m @ (if p \<noteq> [] then [(REQ_READ, p)] else [])"
proof -
  obtain p where p: "rq_prompt rq = Some p" "length p < 32" using assms(1) by (auto simp: rq_ok_def)
  show ?thesis
  proof (cases "e \<noteq> 0 \<or> sv_stdin m = []")
    case True
    then show ?thesis using p assms(4)
      by (intro that [of "(if p \<noteq> [] then m\<lparr>tty := tty m @ [(REQ_READ, p)]\<rparr> else m)\<lparr>sv_stdin := sv_stdin m,
          sv_heap := (sv_heap m)(a \<mapsto> rq\<lparr>rq_text := Some []\<rparr>)\<rparr>" "[]"])
         (auto simp: ts_read_def Let_def c_string_def chomp_def rq_ok_def)
  next
    case False
    obtain l s where l: "fgets 128 (sv_stdin m) = (l, s)" by (cases "fgets 128 (sv_stdin m)")
    have i: "input_lines (sv_stdin m) = chomp (c_string l) # input_lines s"
      using input_lines_step [OF _ l] False by simp
    then have "line_ok ptr (chomp (c_string l))" using assms(3) by simp
    then show ?thesis using p False l i read_length [OF l]
      by (intro that [of "(if p \<noteq> [] then m\<lparr>tty := tty m @ [(REQ_READ, p)]\<rparr> else m)\<lparr>sv_stdin := s,
          sv_heap := (sv_heap m)(a \<mapsto> rq\<lparr>rq_text := Some (chomp (c_string l))\<rparr>)\<rparr>" "chomp (c_string l)"])
         (auto simp: ts_read_def Let_def rq_ok_def)
  qed
qed

text \<open>What serving a request does: the request keeps its text (or gets one, for a read), and is passed
  on or freed.\<close>

lemma ts_serve_ok:
  assumes rq: "sv_heap m a = Some rq" "rq_ok ptr rq" and k: "ts_serve a e m = (m', q')"
    and lines: "\<forall>l \<in> set (input_lines (sv_stdin m)). line_ok ptr l" "line_ok ptr []"
  obtains l where "rq_ok ptr (rq\<lparr>rq_text := l\<rparr>)"
    "sv_heap m' = (sv_heap m)(a := if synchronous rq \<noteq> 0 then Some (rq\<lparr>rq_text := l\<rparr>) else None)"
    "q' = (if synchronous rq \<noteq> 0 then TS_relock a (operation rq)
       else if operation rq = REQ_QUIT then TS_return else TS_lock)"
    "sv_first m' = sv_first m" "sv_last m' = sv_last m"
    "set (input_lines (sv_stdin m')) \<subseteq> set (input_lines (sv_stdin m))"
proof (cases "operation rq = REQ_READ")
  case True
  show ?thesis
  proof (rule ts_read_ok [OF rq(2) True lines, of a e])
    fix l m1 assume m1: "ts_read a rq e m = Some m1" "sv_heap m1 = (sv_heap m)(a \<mapsto> rq\<lparr>rq_text := Some l\<rparr>)"
      "rq_ok ptr (rq\<lparr>rq_text := Some l\<rparr>)" "sv_first m1 = sv_first m" "sv_last m1 = sv_last m"
      "l = [] \<and> input_lines (sv_stdin m1) = input_lines (sv_stdin m) \<or>
        input_lines (sv_stdin m) = l # input_lines (sv_stdin m1)"
    then show ?thesis using k rq(1) True by (intro that [of "Some l"]) (auto simp: ts_serve_def split: if_splits)
  qed
next
  case False
  obtain l where l: "rq_text rq = Some l" "length l < 128" using rq(2) by (auto simp: rq_ok_def)
  have same: "rq\<lparr>rq_text := Some l\<rparr> = rq" using l(1) by simp
  show ?thesis
    by (rule that [of "Some l", unfolded same])
       (use k rq False l in \<open>auto simp: ts_serve_def ts_write_def fun_upd_idem split: if_splits\<close>)
qed

lemma server_step:
  assumes ok: "sv_ok ptr m C ps" and t: "t < length ps" and q: "ps ! t = SV_server q"
    and c: "tty_server_routine q = Do c k" and r: "answer_ok c r m n" and k: "k r m = (m', q')"
    and ptr: "\<And>i. length (ptr i) \<le> 23"
  shows "sv_ok ptr m' (cond_after c r C) (ps[t := SV_server q'])"
proof -
  obtain xs where xs: "sv_tokens ptr m C xs ps" using ok by (auto simp: sv_ok_def)
  have fit: "sv_fit ptr (sv_heap m) C (SV_server q)" using ok t q by (auto simp: sv_ok_def list_all_length)
  have lines: "\<forall>l \<in> set (input_lines (sv_stdin m)). line_ok ptr l" using ok by (simp add: sv_ok_def)
  have nil: "line_ok ptr []" unfolding line_ok_def
  proof
    show "length (ptr i) + length [] \<le> 122" for i using ptr [of i] by simp
  qed
  have take: "srv (ps ! t) = None \<Longrightarrow> ts_while m = (m', q') \<Longrightarrow> sv_ok ptr m' C (ps[t := SV_server q'])"
    by (rule sv_ok_take [OF ok t]) (use q in simp_all)
  have idle: "sv_ok ptr m' C (ps[t := SV_server q'])"
    if "m' = m" "srv (SV_server q') = None \<or> srv (SV_server q') = srv (ps ! t)" "sv_fit ptr (sv_heap m) C (SV_server q')"
    by (rule sv_ok_idle [OF ok t]) (use that q in auto)
  show ?thesis
  proof (cases q)
    case (TS_serve a)
    have p: "srv (ps ! t) = Some a" "cli (ps ! t) = None" using q TS_serve by simp_all
    obtain rq where rq: "sv_heap m a = Some rq" "rq_ok ptr rq" "synchronous rq \<noteq> 0 \<longrightarrow> C (Done a)"
      by (rule busy [OF xs disjI2 [OF conjI [OF t p(1)]]])
    have s: "ts_serve a r m = (m', q')" using c k TS_serve by auto
    show ?thesis
    proof (rule ts_serve_ok [OF rq(1,2) s lines nil])
      fix l assume m': "rq_ok ptr (rq\<lparr>rq_text := l\<rparr>)"
        "sv_heap m' = (sv_heap m)(a := if synchronous rq \<noteq> 0 then Some (rq\<lparr>rq_text := l\<rparr>) else None)"
        "q' = (if synchronous rq \<noteq> 0 then TS_relock a (operation rq)
           else if operation rq = REQ_QUIT then TS_return else TS_lock)"
        "sv_first m' = sv_first m" "sv_last m' = sv_last m"
        "set (input_lines (sv_stdin m')) \<subseteq> set (input_lines (sv_stdin m))"
      have "sv_ok ptr m' C (ps[t := SV_server q'])"
        by (rule sv_ok_serve [OF ok t p rq(1) m'(2,4,5)]) (use m' lines rq(3) in auto)
      then show ?thesis using c TS_serve by auto
    qed
  next
    case (TS_relock a w)
    show ?thesis
    proof (cases "r = 0")
      case True
      have p: "srv (ps ! t) = Some a" "cli (ps ! t) = None" using q TS_relock by simp_all
      obtain rq where rq: "sv_heap m a = Some rq" "rq_ok ptr rq" "synchronous rq \<noteq> 0 \<longrightarrow> C (Done a)"
        by (rule busy [OF xs disjI2 [OF conjI [OF t p(1)]]])
      have m': "m' = m\<lparr>sv_heap := (sv_heap m)(a \<mapsto> rq\<lparr>done_flag := Some 1\<rparr>)\<rparr>" "q' = TS_signal a w"
        using c k TS_relock True rq(1) by (auto simp: ts_done_def)
      have "rq_ok ptr (rq\<lparr>done_flag := Some 1\<rparr>)" using rq(2) by (simp add: rq_ok_def)
      then have "sv_ok ptr m' C (ps[t := SV_server q'])"
        by (intro sv_ok_serve [OF ok t p rq(1)]) (use m' lines fit TS_relock in auto)
      then show ?thesis using c TS_relock by auto
    next
      case False
      then show ?thesis using idle c k TS_relock by auto
    qed
  qed (use c k q fit take idle in \<open>auto split: if_splits\<close>)
qed

section \<open>The steps outside\<close>

lemma own_fit:
  assumes o: "sv_own p" and c: "sv_process ptr p = Do c k" and k: "k r m = (m', p')"
    and ptr: "\<And>i. length (ptr i) \<le> 23" and fit: "sv_fit ptr h C p"
  shows "sv_heap m' = sv_heap m \<and> sv_first m' = sv_first m \<and> sv_last m' = sv_last m \<and> sv_stdin m' = sv_stdin m \<and>
      srv p' = None \<and> cli p' = None \<and> ini p' = None \<and> sv_fit ptr h C p' \<and> cond_after c r C = C"
proof -
  have e: "\<not> 128 \<le> length (echo ptr i j l)" if "line_ok ptr l" for i j l
    using that [unfolded line_ok_def, rule_format, of i] by (simp add: echo_def)
  have s: "\<not> 32 \<le> length (client_prompt ptr i)" for i using ptr [of i] by (simp add: client_prompt_def)
  show ?thesis
    using o c k fit e s
    by (cases p rule: sv_own.cases)
       (auto simp: cl_string_def cl_loop_def sm_next_def sm_while_def got_def req_defs split: if_splits)
qed

lemma own_step:
  assumes ok: "sv_ok ptr m C ps" and t: "t < length ps" and o: "sv_own (ps ! t)"
    and c: "sv_process ptr (ps ! t) = Do c k" and k: "k r m = (m', p')" and ptr: "\<And>i. length (ptr i) \<le> 23"
  shows "sv_ok ptr m' (cond_after c r C) (ps[t := p'])"
proof -
  have fit: "sv_fit ptr (sv_heap m) C (ps ! t)" using ok t by (auto simp: sv_ok_def list_all_length)
  then show ?thesis using own_fit [OF o c k ptr fit] sv_ok_idle [OF ok t, of m' p'] by simp
qed

section \<open>Every run\<close>

text \<open>What \<^verbatim>\<open>%p\<close> prints is short (18 characters are enough for 64 bits), and so are the lines of the input:
  a line with the prefix of the echo fits into 128 characters.\<close>

definition terminal_ok :: "(nat \<Rightarrow> string) \<Rightarrow> string \<Rightarrow> bool" where
  "terminal_ok ptr inp \<longleftrightarrow> (\<forall>i. length (ptr i) \<le> 23) \<and> (\<forall>l \<in> set (input_lines inp). line_ok ptr l)"

lemma cond_after_lift [simp]: "cond_after (lift_call get put st c) r C = cond_after c r C"
  by (cases c) auto

lemma cond_ok_lift [simp]: "cond_ok (lift_call get put st c) C = cond_ok c C"
  by (cases c) auto

lemma sv_ok_spawn:
  assumes "sv_ok ptr m C ps" and "p = SV_server TS_lock \<or> (\<exists>i. p = SV_client i CL_start)"
  shows "sv_ok ptr m C (ps @ [p])"
proof -
  have "has srv a (ps @ [p]) = has srv a ps \<and> has cli a (ps @ [p]) = has cli a ps \<and> has ini a (ps @ [p]) = has ini a ps" for a
    using assms(2) by auto
  then have "sv_tokens ptr m C xs (ps @ [p]) = sv_tokens ptr m C xs ps" for xs
    by (simp add: sv_tokens_def)
  then show ?thesis using assms by (auto simp: sv_ok_def)
qed

lemma sv_ok_step:
  assumes ok: "sv_ok ptr m C ps" and t: "t < length ps" and c: "sv_process ptr (ps ! t) = Do c k"
    and r: "answer_ok c r m n" and k: "k r m = (m', p')" and ptr: "\<And>i. length (ptr i) \<le> 23"
    and al: "alone (sv_process ptr) sv_holds ps t p'"
  shows "sv_ok ptr m' (cond_after c r C) (ps[t := p'])"
  using c
proof (cases rule: sv_process_cases)
  case (server q c0 k0)
  then obtain q' where q': "k0 r m = (m', q')" "p' = SV_server q'" using k by (auto split: prod.splits)
  show ?thesis
    using server_step [OF ok t server(1,2) _ q'(1) ptr, of n] r server(3) q'(2) by simp
next
  case (request w v sync prompt s q c0 k0 f)
  then obtain q' where q': "k0 r m = (m', q')" "p' = w q'" using k by (auto split: prod.splits)
  have nosig: "ps ! u \<noteq> SV_server (TS_signal a w')" if "q = TR_destroy b s'" "u < length ps" "u \<noteq> t" for a b s' u w'
  proof
    assume u: "ps ! u = SV_server (TS_signal a w')"
    have "Tty_mutex \<in> sv_holds (ps ! t)" using request(2) that(1) frame_holds [OF request(1)] by simp
    then have "waiting (sv_process ptr) Tty_mutex (ps ! u)"
      by (intro aloneD [OF al]) (use that u in auto)
    then show False using u by (auto simp: waiting_def wait_call_def split: option.splits)
  qed
  show ?thesis
    using request_step [OF ok t request(1,2,3) _ q'(1) ptr nosig, of n] r request(4) q'(2) by simp
next
  case own
  then show ?thesis by (rule own_step [OF ok t _ c k ptr])
qed

lemma sv_reach_ok:
  assumes "reach any_status (sv_process ptr) (sv_system inp) s" and "terminal_ok ptr inp"
  shows "sv_ok ptr (mem s) (cnd s) (pcs s)"
  using assms(1) sv_tracked sv_awake
proof (induction rule: sv_any.object_invariant)
  case start
  show ?case using assms(2)
    by (auto simp: sv_start sv_mem_def sv_ok_def sv_rep_def sv_tokens_def has_def terminal_ok_def intro!: exI [of _ "[]"])
next
  case (tick n m ps C)
  then show ?case .
next
  case (move n m ps C t c k r m' p')
  have ptr: "length (ptr i) \<le> 23" for i using assms(2) by (simp add: terminal_ok_def)
  have "sv_ok ptr m' (cond_after c r C) (ps[t := p'])"
    using sv_ok_step [OF move(1,2,3,5) _ ptr move(7)] move(6) sv_calls(1) [OF move(3)] by simp
  then show ?case using sv_calls(2) [OF move(3), of r] sv_ok_spawn by auto
qed

section \<open>Nothing undefined happens\<close>

lemma sv_halts: "sv_fit ptr h C p \<Longrightarrow> sv_process ptr p \<noteq> Halt Undefined"
proof (cases p)
  case (SV_main x)
  show "sv_fit ptr h C p \<Longrightarrow> ?thesis"
  proof (cases x)
    case (SM_quit q)
    then show "sv_fit ptr h C p \<Longrightarrow> ?thesis" using SV_main by (cases q) auto
  qed (use SV_main in auto)
next
  case (SV_client i x)
  show "sv_fit ptr h C p \<Longrightarrow> ?thesis"
  proof (cases x)
    case (CL_read q)
    then show "sv_fit ptr h C p \<Longrightarrow> ?thesis" using SV_client by (cases q) auto
  next
    case (CL_write j l q)
    then show "sv_fit ptr h C p \<Longrightarrow> ?thesis" using SV_client by (cases q) auto
  qed (use SV_client in auto)
next
  case (SV_server x)
  then show "sv_fit ptr h C p \<Longrightarrow> ?thesis" by (cases x) auto
qed

text \<open>The condition variables a thread uses exist; a client that destroys one is the only one that waits
  for it.\<close>

lemma sv_conds:
  assumes ok: "sv_ok ptr m C ps" and t: "t < length ps" and c: "sv_process ptr (ps ! t) = Do c k"
  shows "cond_ok c C" and "c = CDestroy d \<Longrightarrow> \<exists>a. d = Done a \<and> cli (ps ! t) = Some a"
proof -
  have fit: "sv_fit ptr (sv_heap m) C (ps ! t)" and C: "C Request" "C Clients_done"
    using ok t by (auto simp: sv_ok_def list_all_length)
  obtain xs where tok: "sv_tokens ptr m C xs ps" using ok by (auto simp: sv_ok_def)
  have "cond_ok c C \<and> (c = CDestroy d \<longrightarrow> (\<exists>a. d = Done a \<and> cli (ps ! t) = Some a))"
    using c
  proof (cases rule: sv_process_cases)
    case (server q c0 k0)
    then show ?thesis using fit C by (cases q) auto
  next
    case (request w v sync prompt s q c0 k0 f)
    note R = frame_roles [OF request(1)]
    have f: "tr_fit ptr (sv_heap m) C v sync q" using fit request(2) R(4) [of "sv_heap m" C q] by simp
    have i: "\<not> C (Done a)" if qi: "q = TR_init a" for a
    proof -
      have "ini (ps ! t) = Some a" using request(2) R(3) qi f by simp
      then have "1 \<le> has ini a ps" by (rule has_ge [OF t])
      moreover obtain rq where "sv_heap m a = Some rq" using f qi by (auto simp: new_request_def)
      ultimately show ?thesis using token_init [OF _ _ has_nonneg] tokensD [OF tok, of a] by auto
    qed
    show ?thesis using request(2,3,4) f C i R(2) by (cases q) auto
  next
    case own
    then show ?thesis using c C by (cases "ps ! t" rule: sv_own.cases) auto
  qed
  then show "cond_ok c C" "c = CDestroy d \<Longrightarrow> \<exists>a. d = Done a \<and> cli (ps ! t) = Some a" by auto
qed

lemma sv_waits:
  assumes fit: "sv_fit ptr h C p" and c: "sv_process ptr p = Do (wait_call (Done a) x l) k"
  shows "cli p = Some a"
  using c
proof (cases rule: sv_process_cases)
  case (server q c0 k0)
  then show ?thesis by (cases q) (auto simp: wait_call_def split: option.splits)
next
  case (request w v sync prompt s q c0 k0 f)
  have "tr_fit ptr h C v sync q" using fit request(2) frame_roles(4) [OF request(1), of h C q] by simp
  then show ?thesis using request(2,3,4) frame_roles(2) [OF request(1)]
    by (cases q) (auto simp: wait_call_def split: option.splits)
next
  case own
  then show ?thesis using c by (cases p rule: sv_own.cases) (auto simp: wait_call_def split: option.splits)
qed

section \<open>The properties\<close>

text \<open>C22. If the lines typed are short enough for the echo, no run of the program has undefined behaviour: no
  request is used after it was freed or freed twice, no buffer overflows, mutexes are unlocked by
  their owners, every condition variable that is used exists, and none is destroyed while
  a thread waits for it. Every interleaving, every status the calls may return.\<close>
theorem server_no_undefined:
  assumes "reach any_status (sv_process ptr) (sv_system inp) s" and "terminal_ok ptr inp"
  shows "ended s \<noteq> Some Undefined"
  using assms(1) sv_tracked sv_awake
proof (rule sv_any.no_undefined_objects)
  fix p c and k :: "int \<Rightarrow> tty_server \<Rightarrow> tty_server \<times> sv_pc"
  assume "sv_process ptr p = Do c k"
  then show "mutex_ok c (sv_holds p)" using sv_holds_step by (metis surj_pair)
next
  fix s t c and k :: "int \<Rightarrow> tty_server \<Rightarrow> tty_server \<times> sv_pc"
  assume s: "reach any_status (sv_process ptr) (sv_system inp) s" "t < length (threads s)"
    "sv_process ptr (pcs s ! t) = Do c k"
  note ok = sv_reach_ok [OF s(1) assms(2)]
  have t: "t < length (pcs s)" using s(2) by simp
  have "sv_process ptr (pcs s ! u) \<noteq> Do (wait_call d x l) k'"
    if d: "c = CDestroy d" and u: "u < length (threads s)" "u \<noteq> t" for d u x l k'
  proof
    assume w: "sv_process ptr (pcs s ! u) = Do (wait_call d x l) k'"
    obtain a where a: "d = Done a" "cli (pcs s ! t) = Some a" using sv_conds(2) [OF ok t s(3) d] by blast
    have "sv_fit ptr (sv_heap (mem s)) (cnd s) (pcs s ! u)" using ok u(1) by (simp add: sv_ok_def list_all_length)
    then have "cli (pcs s ! u) = Some a" by (rule sv_waits) (use w a(1) in simp)
    then have "2 \<le> has cli a (pcs s)" by (intro has_two [of t _ u]) (use a(2) t u in auto)
    moreover obtain xs where "sv_tokens ptr (mem s) (cnd s) xs (pcs s)" using ok by (auto simp: sv_ok_def)
    ultimately show False using tokensD [of ptr "mem s" "cnd s" xs "pcs s" a]
      by (cases "sv_heap (mem s) a") (auto simp: of_bool_def split: if_splits)
  qed
  then show "cond_ok c (cnd s) \<and> (\<forall>d u x l k. c = CDestroy d \<longrightarrow> u < length (threads s) \<longrightarrow> u \<noteq> t \<longrightarrow>
      sv_process ptr (pcs s ! u) \<noteq> Do (wait_call d x l) k)"
    using sv_conds(1) [OF ok t s(3)] by blast
next
  fix s p assume s: "reach any_status (sv_process ptr) (sv_system inp) s" "p \<in> set (pcs s)"
  then have "sv_fit ptr (sv_heap (mem s)) (cnd s) p"
    using sv_reach_ok [OF s(1) assms(2)] by (auto simp: sv_ok_def list_all_iff)
  then show "sv_process ptr p \<noteq> Halt Undefined" by (rule sv_halts)
qed (simp_all add: sv_start)

definition hex_ptr :: "nat \<Rightarrow> string" where
  "hex_ptr i = ''0x'' @ [digit i]"

text \<open>The events of one request to read of the first client, with the server in thread 2.\<close>

definition read_events :: "event list" where
  "read_events = map (Exec 1) [0, 0, 0, 0, 0, 0, 1, 0, 0, 0] @ map (Exec 2) [0, 0, 0, 0] @ [Notify 2 1, Exec 2 0, Exec 1 0]"

theorem server_no_undefined_witness:
  "case run any_status (sv_process hex_ptr) (map (Exec 0) [0, 0] @ read_events @ map (Exec 1) [0, 0, 0])
      (sv_system (''hi'' @ [newline])) of
     Some s \<Rightarrow> pcs s ! 1 = SV_client 0 (CL_write 0 ''hi'' TR_lock) \<and> ended s \<noteq> Some Undefined | None \<Rightarrow> False"
  (is "case ?r of Some s \<Rightarrow> ?P s | None \<Rightarrow> False")
proof -
  have "map_option (\<lambda>s. pcs s ! 1) ?r = Some (SV_client 0 (CL_write 0 ''hi'' TR_lock))" by code_simp
  then obtain s where s: "?r = Some s" "pcs s ! 1 = SV_client 0 (CL_write 0 ''hi'' TR_lock)" by auto
  have "input_lines (''hi'' @ [newline]) = [''hi'']" by code_simp
  then have "terminal_ok hex_ptr (''hi'' @ [newline])" by (simp add: terminal_ok_def line_ok_def hex_ptr_def)
  from server_no_undefined [OF reach_run [OF s(1)] this] show ?thesis using s by simp
qed

text \<open>A line that is too long for the echo overruns the buffer of \<^verbatim>\<open>sprintf\<close>: 123 characters are enough, although
  \<^verbatim>\<open>string\<close>, the buffer they are read into, has room for them.\<close>
theorem server_long_line:
  "\<exists>s. reach any_status (sv_process hex_ptr) (sv_system (replicate 123 CHR ''x'')) s \<and> ended s = Some Undefined"
proof -
  have "map_option ended (run any_status (sv_process hex_ptr)
      (map (Exec 0) [0, 0] @ read_events @ map (Exec 1) [0, 0, 0, 0]) (sv_system (replicate 123 CHR ''x''))) =
    Some (Some Undefined)" by code_simp
  from reach_exists [OF this] show ?thesis .
qed

text \<open>The program never ends by itself: when \<^verbatim>\<open>main\<close> has waited for its clients it locks the mutex it holds where
  it means to unlock it, so that the server is never asked to quit and \<^verbatim>\<open>main\<close> never returns. Every
  status the calls may return.\<close>
theorem server_never_quits:
  assumes "reach any_status (sv_process ptr) (sv_system inp) s"
  shows "ended s \<noteq> Some (Exited v) \<and> (\<forall>q. SV_main (SM_quit q) \<notin> set (pcs s))"
proof -
  have "\<exists>q. p = SV_main q \<and> sv_barred p" if "sv_process ptr p = Halt (Exited v)" for p
  proof (cases p)
    case (SV_main x)
    have "tty_server_request REQ_QUIT 1 None None q \<noteq> Halt (Exited v)" for q by (cases q) auto
    then show ?thesis using that SV_main by (cases x) (auto elim!: call_fun.elims)
  next
    case (SV_client i x)
    have "tty_server_request w y z u q \<noteq> Halt (Exited v)" for w y z u q by (cases q) auto
    then show ?thesis using that SV_client
      by (cases x) (auto elim!: call_fun.elims split: act.splits)
  next
    case (SV_server q)
    then show ?thesis using that by (cases q) auto
  qed
  then show ?thesis
    using ended_cases [OF assms, of "Exited v"] sv_unbarred [OF assms] by (fastforce simp: sv_start)
qed

theorem server_never_quits_witness:
  "case run any_status (sv_process hex_ptr) (map (Exec 0) [0, 0] @ read_events) (sv_system []) of
     Some s \<Rightarrow> pcs s ! 1 = SV_client 0 (CL_read (TR_destroy 1 (Some []))) \<and> ended s \<noteq> Some (Exited 0) | None \<Rightarrow> False"
  (is "case ?r of Some s \<Rightarrow> ?P s | None \<Rightarrow> False")
proof -
  have "map_option (\<lambda>s. pcs s ! 1) ?r = Some (SV_client 0 (CL_read (TR_destroy 1 (Some []))))" by code_simp
  then obtain s where s: "?r = Some s" "pcs s ! 1 = SV_client 0 (CL_read (TR_destroy 1 (Some [])))" by auto
  from server_never_quits [OF reach_run [OF s(1)], of 0] show ?thesis using s by simp
qed

text \<open>The events of a client (thread \<open>t\<close>) that reads the end of the input, once the server sleeps in thread 2.\<close>

definition last_read :: "tid \<Rightarrow> event list" where
  "last_read t = map (Exec t) [0, 0, 1, 0] @ [Notify t 2, Exec t 0] @ map (Exec 2) [0, 0, 0, 0] @
     [Notify 2 t, Exec 2 0] @ map (Exec t) [0, 0, 0, 0, 0, 0] @ map (Exec 2) [0, 0]"

text \<open>\<^verbatim>\<open>main\<close> counts its clients with the variable they count down: if some of them end while it is
  still creating others, it creates fewer than four, and waits for ever for clients that do not exist.
  All calls succeed; the input is empty.\<close>
theorem server_waits_for_nobody:
  "\<exists>s. reach any_status (sv_process hex_ptr) (sv_system []) s \<and> stuck any_status (sv_process hex_ptr) s \<and>
     client_threads (mem s) = 1 \<and>
     pcs s = [SV_main SM_wait, SV_client 0 CL_return, SV_server TS_wait, SV_client 1 CL_return, SV_client 2 CL_return]"
proof -
  let ?c = "sv_process hex_ptr"
  let ?f = "\<lambda>s. (client_threads (mem s), pcs s, list_all (stopped ?c) (threads s))"
  let ?es = "map (Exec 0) [0, 0] @ read_events @ map (Exec 1) [0, 0, 0, 0, 0] @ map (Exec 2) [0, 0] @
     [Exec 0 0] @ last_read 3 @ [Exec 0 0] @ last_read 4 @ map (Exec 0) [0, 0]"
  have "map_option ?f (run any_status ?c ?es (sv_system [])) = Some (1,
     [SV_main SM_wait, SV_client 0 CL_return, SV_server TS_wait, SV_client 1 CL_return, SV_client 2 CL_return], True)"
    by code_simp
  from reach_exists [OF this] obtain s where s: "reach any_status ?c (sv_system []) s" "client_threads (mem s) = 1"
    "pcs s = [SV_main SM_wait, SV_client 0 CL_return, SV_server TS_wait, SV_client 1 CL_return, SV_client 2 CL_return]"
    "list_all (stopped ?c) (threads s)" by auto
  from stopped_stuck [OF s(4), of any_status] s show ?thesis by (intro exI [of _ s]) simp
qed

end
