(* ===== verification/ServerEcho.thy ===== *)
theory ServerEcho
  imports ServerRequests
begin

text \<open>
  What the clients of the terminal server do with the lines they read: every line that is typed is
  echoed four times, whichever client reads it. The proof keeps an account of the lines: those still to be read, those
  in a request that has been answered, those a client has read (with the echoes it has still to
  request), the echoes in requests, and the echoes that have been printed.
\<close>

section \<open>Sums over threads and requests\<close>

definition psum :: "('p \<Rightarrow> 'a multiset) \<Rightarrow> 'p list \<Rightarrow> 'a multiset" where
  "psum f ps = sum_list (map f ps)"

lemma psum_simps [simp]:
  "psum f [] = {#}" "psum f (p # ps) = f p + psum f ps" "psum f (ps @ qs) = psum f ps + psum f qs"
  by (simp_all add: psum_def)

lemma psum_update: "t < length ps \<Longrightarrow> psum f (ps[t := p']) + f (ps ! t) = psum f ps + f p'"
proof (induction ps arbitrary: t)
  case (Cons p ps)
  then show ?case by (cases t) (auto simp: add_ac)
qed simp

lemma psum_empty: "(\<And>p. p \<in> set ps \<Longrightarrow> f p = {#}) \<Longrightarrow> psum f ps = {#}"
  by (induction ps) auto

definition hsum :: "('c \<Rightarrow> 'a multiset) \<Rightarrow> (nat \<Rightarrow> 'c option) \<Rightarrow> 'a multiset" where
  "hsum f h = (\<Sum>a\<in>dom h. f (the (h a)))"

lemma hsum_new: "finite (dom h) \<Longrightarrow> h a = None \<Longrightarrow> hsum f (h(a \<mapsto> e)) = f e + hsum f h"
proof -
  assume h: "finite (dom h)" "h a = None"
  then have "a \<notin> dom h" by auto
  then have "hsum f (h(a \<mapsto> e)) = f e + (\<Sum>b\<in>dom h. f (the ((h(a \<mapsto> e)) b)))"
    using h(1) by (simp add: hsum_def)
  moreover have "(\<Sum>b\<in>dom h. f (the ((h(a \<mapsto> e)) b))) = hsum f h"
    unfolding hsum_def by (rule sum.cong) (use \<open>a \<notin> dom h\<close> in auto)
  ultimately show ?thesis by simp
qed

lemma hsum_free: "finite (dom h) \<Longrightarrow> h a = Some e \<Longrightarrow> hsum f h = f e + hsum f (h(a := None))"
  using hsum_new [of "h(a := None)" a f e] by (simp add: fun_upd_idem)

lemma hsum_change:
  assumes "finite (dom h)" and "h a = Some e"
  shows "hsum f (h(a \<mapsto> e')) + f e = hsum f h + f e'"
  using hsum_free [OF assms, of f] hsum_new [of "h(a := None)" a f e'] assms(1) by (simp add: add_ac)

lemma relinked_dom: "\<forall>b. relinked (h b) (h' b) \<Longrightarrow> dom h' = dom h"
proof -
  assume r: "\<forall>b. relinked (h b) (h' b)"
  have "h' b = None \<longleftrightarrow> h b = None" for b using r [rule_format, of b] by (auto simp: relinked_def)
  then show ?thesis by (simp add: dom_def)
qed

lemma hsum_relinked:
  assumes r: "\<forall>b. relinked (h b) (h' b)" and f: "\<And>rq n. f (rq\<lparr>rq_next := n\<rparr>) = f rq"
  shows "hsum f h' = hsum f h"
  unfolding hsum_def relinked_dom [OF r]
proof (rule sum.cong)
  fix b assume "b \<in> dom h"
  then show "f (the (h' b)) = f (the (h b))" using r [rule_format, of b] f by (auto simp: relinked_def)
qed simp

section \<open>The account\<close>

definition written :: "tty_server \<Rightarrow> string list" where
  "written m = map snd (filter (\<lambda>x. fst x = REQ_WRITE) (tty m))"

definition unread :: "tty_server \<Rightarrow> string multiset" where
  "unread m = mset (filter (\<lambda>l. l \<noteq> []) (input_lines (sv_stdin m)))"

definition wr :: "request \<Rightarrow> string multiset" where
  "wr rq = (if operation rq = REQ_WRITE then (case rq_text rq of None \<Rightarrow> {#} | Some l \<Rightarrow> {#l#}) else {#})"

definition rd :: "request \<Rightarrow> string multiset" where
  "rd rq = (if operation rq = REQ_READ
     then (case rq_text rq of None \<Rightarrow> {#} | Some l \<Rightarrow> if l = [] then {#} else {#l#}) else {#})"

definition echoes :: "(nat \<Rightarrow> string) \<Rightarrow> nat \<Rightarrow> nat \<Rightarrow> string \<Rightarrow> string multiset" where
  "echoes ptr i j l = mset (map (\<lambda>k. echo ptr i k l) [j..<4])"

definition all_echoes :: "(nat \<Rightarrow> string) \<Rightarrow> (nat \<times> string) multiset \<Rightarrow> string multiset" where
  "all_echoes ptr A = (\<Sum>(i, l)\<in>#A. echoes ptr i 0 l)"

lemma all_echoes_simps [simp]:
  "all_echoes ptr {#} = {#}" "all_echoes ptr {#(i, l)#} = echoes ptr i 0 l"
  "all_echoes ptr (A + B) = all_echoes ptr A + all_echoes ptr B"
  by (simp_all add: all_echoes_def)

lemma echoes_next: "j < 4 \<Longrightarrow> echoes ptr i j l = {#echo ptr i j l#} + echoes ptr i (Suc j) l"
  by (simp add: echoes_def upt_conv_Cons)

lemma echoes_end [simp]: "4 \<le> j \<Longrightarrow> echoes ptr i j l = {#}"
  by (simp add: echoes_def)

text \<open>The echoes a client has still to request: of the line it has just been given, or of the line
  it is echoing, from the request it is making on (\<open>queued\<close>: that one is in the list already).\<close>

fun queued :: "tr_pc \<Rightarrow> bool" where
  "queued (TR_signal a) \<longleftrightarrow> True"
| "queued (TR_unlock s) \<longleftrightarrow> True"
| "queued (TR_return s) \<longleftrightarrow> True"
| "queued q \<longleftrightarrow> False"

fun reading :: "(nat \<Rightarrow> string) \<Rightarrow> nat \<Rightarrow> tr_pc \<Rightarrow> string multiset" where
  "reading ptr i (TR_unlock (Some l)) = (if l = [] then {#} else echoes ptr i 0 l)"
| "reading ptr i (TR_return (Some l)) = (if l = [] then {#} else echoes ptr i 0 l)"
| "reading ptr i q = {#}"

fun echo_left :: "(nat \<Rightarrow> string) \<Rightarrow> sv_pc \<Rightarrow> string multiset" where
  "echo_left ptr (SV_client i (CL_read q)) = reading ptr i q"
| "echo_left ptr (SV_client i (CL_write j l q)) = echoes ptr i (if queued q then Suc j else j) l"
| "echo_left ptr p = {#}"

fun aborted :: "sv_pc \<Rightarrow> bool" where
  "aborted (SV_main SM_abort) \<longleftrightarrow> True"
| "aborted (SV_main (SM_quit q)) \<longleftrightarrow> q = TR_abort"
| "aborted (SV_client i CL_abort) \<longleftrightarrow> True"
| "aborted (SV_client i (CL_read q)) \<longleftrightarrow> q = TR_abort"
| "aborted (SV_client i (CL_write j l q)) \<longleftrightarrow> q = TR_abort"
| "aborted (SV_server TS_abort) \<longleftrightarrow> True"
| "aborted p \<longleftrightarrow> False"

definition balance :: "(nat \<Rightarrow> string) \<Rightarrow> string \<Rightarrow> tty_server \<Rightarrow> sv_pc list \<Rightarrow> bool" where
  "balance ptr inp m ps \<longleftrightarrow> (\<exists>A.
     mset (written m) + hsum wr (sv_heap m) + psum (echo_left ptr) ps = all_echoes ptr A \<and>
     image_mset snd A + hsum rd (sv_heap m) + unread m = mset (filter (\<lambda>l. l \<noteq> []) (input_lines inp)))"

text \<open>A request to read that is being made, is in the list, or is with the server but not served,
  has no text yet.\<close>

fun unserved :: "sv_pc \<Rightarrow> nat option" where
  "unserved (SV_server (TS_unlock a)) = Some a"
| "unserved (SV_server (TS_serve a)) = Some a"
| "unserved p = ini p"

fun loops_ok :: "sv_pc \<Rightarrow> bool" where
  "loops_ok (SV_client i (CL_write j l q)) \<longleftrightarrow> j < 4"
| "loops_ok p \<longleftrightarrow> True"

definition no_answer :: "tty_server \<Rightarrow> sv_pc list \<Rightarrow> bool" where
  "no_answer m ps \<longleftrightarrow> (\<forall>a rq. sv_heap m a = Some rq \<longrightarrow>
     ((\<exists>xs. sv_rep m xs \<and> a \<in> set xs) \<or> (\<exists>p \<in> set ps. unserved p = Some a)) \<longrightarrow> rd rq = {#})"

text \<open>No request is lost: the thread that made a synchronous one has it until it frees it, the others
  are in the list or with the server.\<close>

definition unlost :: "tty_server \<Rightarrow> sv_pc list \<Rightarrow> bool" where
  "unlost m ps \<longleftrightarrow> (\<forall>a rq. sv_heap m a = Some rq \<longrightarrow>
     (if synchronous rq \<noteq> 0 then \<exists>p \<in> set ps. cli p = Some a
      else (\<exists>xs. sv_rep m xs \<and> a \<in> set xs) \<or> (\<exists>p \<in> set ps. srv p = Some a)))"

definition echo_ok :: "(nat \<Rightarrow> string) \<Rightarrow> string \<Rightarrow> tty_server \<Rightarrow> sv_pc list \<Rightarrow> bool" where
  "echo_ok ptr inp m ps \<longleftrightarrow> finite (dom (sv_heap m)) \<and>
     (\<forall>a rq. sv_heap m a = Some rq \<longrightarrow> (synchronous rq = 0 \<longleftrightarrow> operation rq = REQ_WRITE)) \<and>
     no_answer m ps \<and> list_all loops_ok ps \<and> (list_ex aborted ps \<or> balance ptr inp m ps \<and> unlost m ps)"

lemma weights_next [simp]: "wr (rq\<lparr>rq_next := n\<rparr>) = wr rq" "rd (rq\<lparr>rq_next := n\<rparr>) = rd rq"
  "wr (rq\<lparr>done_flag := d\<rparr>) = wr rq" "rd (rq\<lparr>done_flag := d\<rparr>) = rd rq"
  by (simp_all add: wr_def rd_def)

lemma relinked_Some: "relinked x (Some rq') \<Longrightarrow> \<exists>rq. x = Some rq \<and> rd rq' = rd rq"
  by (auto simp: relinked_def)

section \<open>How a step is booked\<close>

lemma echo_ok_step:
  assumes ok: "echo_ok ptr inp m ps" and t: "t < length ps" and run: "\<not> aborted (ps ! t)"
    and fin: "finite (dom (sv_heap m'))"
    and shape: "\<And>a rq. sv_heap m' a = Some rq \<Longrightarrow> synchronous rq = 0 \<longleftrightarrow> operation rq = REQ_WRITE"
    and no: "no_answer m' (ps[t := p'])" and l: "loops_ok p'"
    and own: "\<not> aborted p' \<Longrightarrow> unlost m ps \<Longrightarrow> unlost m' (ps[t := p'])"
    and bal: "\<not> aborted p' \<Longrightarrow> \<exists>D.
      mset (written m') + hsum wr (sv_heap m') + echo_left ptr p' =
        mset (written m) + hsum wr (sv_heap m) + echo_left ptr (ps ! t) + all_echoes ptr D \<and>
      image_mset snd D + hsum rd (sv_heap m') + unread m' = hsum rd (sv_heap m) + unread m"
  shows "echo_ok ptr inp m' (ps[t := p'])"
proof -
  have "list_ex aborted (ps[t := p']) \<or> balance ptr inp m' (ps[t := p']) \<and> unlost m' (ps[t := p'])"
  proof (cases "list_ex aborted ps \<or> aborted p'")
    case True
    then show ?thesis
    proof
      assume "list_ex aborted ps"
      then obtain u where u: "u < length ps" "aborted (ps ! u)" by (auto simp: list_ex_length)
      then have "u \<noteq> t" using run by auto
      then have "list_ex aborted (ps[t := p'])" using u by (auto simp: list_ex_length intro!: exI [of _ u])
      then show ?thesis ..
    next
      assume "aborted p'"
      then have "list_ex aborted (ps[t := p'])" using t by (auto simp: list_ex_length intro!: exI [of _ t])
      then show ?thesis ..
    qed
  next
    case False
    then have b: "balance ptr inp m ps" and o: "unlost m' (ps[t := p'])" using ok own by (simp_all add: echo_ok_def)
    obtain A where A: "mset (written m) + hsum wr (sv_heap m) + psum (echo_left ptr) ps = all_echoes ptr A"
      "image_mset snd A + hsum rd (sv_heap m) + unread m = mset (filter (\<lambda>l. l \<noteq> []) (input_lines inp))"
      using b by (auto simp: balance_def)
    obtain D where D: "mset (written m') + hsum wr (sv_heap m') + echo_left ptr p' =
        mset (written m) + hsum wr (sv_heap m) + echo_left ptr (ps ! t) + all_echoes ptr D"
      "image_mset snd D + hsum rd (sv_heap m') + unread m' = hsum rd (sv_heap m) + unread m"
      using bal False by auto
    have p: "psum (echo_left ptr) (ps[t := p']) + echo_left ptr (ps ! t) = psum (echo_left ptr) ps + echo_left ptr p'"
      by (rule psum_update [OF t])
    have "mset (written m') + hsum wr (sv_heap m') + psum (echo_left ptr) (ps[t := p']) + echo_left ptr (ps ! t) =
        (mset (written m') + hsum wr (sv_heap m') + echo_left ptr p') + psum (echo_left ptr) ps"
      using p by (simp add: add_ac)
    also have "\<dots> = all_echoes ptr (A + D) + echo_left ptr (ps ! t)"
      unfolding D(1) using A(1) [symmetric] by (simp add: add_ac)
    finally have "mset (written m') + hsum wr (sv_heap m') + psum (echo_left ptr) (ps[t := p']) = all_echoes ptr (A + D)"
      by simp
    moreover have "image_mset snd (A + D) + hsum rd (sv_heap m') + unread m' =
        mset (filter (\<lambda>l. l \<noteq> []) (input_lines inp))"
      using A(2) D(2) by (metis (no_types, lifting) add.assoc image_mset_union)
    ultimately show ?thesis using o unfolding balance_def by blast
  qed
  moreover have "list_all loops_ok (ps[t := p'])" using ok l by (simp add: echo_ok_def list_all_update)
  ultimately show ?thesis using fin shape no by (auto simp: echo_ok_def)
qed

definition pending :: "tty_server \<Rightarrow> sv_pc list \<Rightarrow> nat \<Rightarrow> bool" where
  "pending m ps a \<longleftrightarrow> (\<exists>xs. sv_rep m xs \<and> a \<in> set xs) \<or> (\<exists>p \<in> set ps. unserved p = Some a)"

lemma no_answer_step:
  assumes "no_answer m ps"
    and "\<And>a rq'. sv_heap m' a = Some rq' \<Longrightarrow> pending m' ps' a \<Longrightarrow>
      rd rq' = {#} \<or> (\<exists>rq. sv_heap m a = Some rq \<and> rd rq' = rd rq \<and> pending m ps a)"
  shows "no_answer m' ps'"
  using assms unfolding no_answer_def pending_def by metis

lemma no_answerD: "echo_ok ptr inp m ps \<Longrightarrow> sv_heap m a = Some rq \<Longrightarrow> pending m ps a \<Longrightarrow> rd rq = {#}"
  unfolding echo_ok_def no_answer_def pending_def by blast

lemma linked_unique: "linked nxt h p xs \<Longrightarrow> linked nxt h p ys \<Longrightarrow> xs = ys"
proof (induction xs arbitrary: p ys)
  case Nil
  then show ?case by (cases ys) auto
next
  case (Cons x xs)
  then show ?case by (cases ys) (auto split: option.splits)
qed

lemma rep_unique: "sv_rep m xs \<Longrightarrow> sv_rep m ys \<Longrightarrow> xs = ys"
  unfolding sv_rep_def using linked_unique by blast

lemma pending_update:
  assumes "pending m' (ps[t := p']) a" and "t < length ps" and "sv_rep m' xs'" and "sv_rep m xs"
    and "a \<in> set xs' \<Longrightarrow> a \<in> set xs" and "unserved p' = Some a \<Longrightarrow> a \<in> set xs \<or> unserved (ps ! t) = Some a"
  shows "pending m ps a"
proof -
  consider ys where "sv_rep m' ys" "a \<in> set ys" | p where "p \<in> set (ps[t := p'])" "unserved p = Some a"
    using assms(1) by (auto simp: pending_def)
  then show ?thesis
  proof cases
    case 1
    then have "a \<in> set xs" using rep_unique [OF assms(3)] assms(5) by blast
    then show ?thesis using assms(4) by (auto simp: pending_def)
  next
    case 2
    then have "p = p' \<or> p \<in> set ps" using set_update_subset_insert [of ps t p'] by auto
    then show ?thesis using 2(2) assms(2,4,6) nth_mem [OF assms(2)] by (auto simp: pending_def)
  qed
qed

lemma unlost_step:
  assumes o: "unlost m ps" and t: "t < length ps" and xs: "sv_rep m xs" "sv_rep m' xs'"
    and new: "\<And>a rq'. sv_heap m' a = Some rq' \<Longrightarrow>
      (if synchronous rq' \<noteq> 0
       then cli p' = Some a \<or> cli (ps ! t) \<noteq> Some a \<and> (\<exists>rq. sv_heap m a = Some rq \<and> synchronous rq \<noteq> 0)
       else a \<in> set xs' \<or> srv p' = Some a \<or>
         (\<exists>rq. sv_heap m a = Some rq \<and> synchronous rq = 0) \<and> srv (ps ! t) \<noteq> Some a \<and> a \<notin> set xs)"
  shows "unlost m' (ps[t := p'])"
  unfolding unlost_def
proof (intro allI impI)
  fix a rq' assume a: "sv_heap m' a = Some rq'"
  have at: "p' \<in> set (ps[t := p'])" using t by (simp add: set_update_memI)
  have stay: "\<exists>p \<in> set (ps[t := p']). f p = Some a" if h: "\<exists>p \<in> set ps. f p = Some a" "f (ps ! t) \<noteq> Some a"
    for f :: "sv_pc \<Rightarrow> nat option"
  proof -
    obtain p where "p \<in> set ps" "f p = Some a" using h(1) by blast
    then obtain u where u: "u < length ps" "f (ps ! u) = Some a" by (auto simp: in_set_conv_nth)
    then have "u \<noteq> t" using h(2) by auto
    then have "ps[t := p'] ! u = ps ! u" "u < length (ps[t := p'])" using u(1) by simp_all
    then show ?thesis using u(2) nth_mem by metis
  qed
  show "if synchronous rq' \<noteq> 0 then \<exists>p \<in> set (ps[t := p']). cli p = Some a
      else (\<exists>xs. sv_rep m' xs \<and> a \<in> set xs) \<or> (\<exists>p \<in> set (ps[t := p']). srv p = Some a)"
  proof (cases "synchronous rq' \<noteq> 0")
    case True
    then consider "cli p' = Some a" | rq where "cli (ps ! t) \<noteq> Some a" "sv_heap m a = Some rq" "synchronous rq \<noteq> 0"
      using new [OF a] by auto
    then show ?thesis
    proof cases
      case 2
      then have "\<exists>p \<in> set ps. cli p = Some a" using o by (auto simp: unlost_def)
      then show ?thesis using stay [of cli] 2(1) True by simp
    qed (use at True in auto)
  next
    case False
    then consider "a \<in> set xs'" | "srv p' = Some a"
      | rq where "sv_heap m a = Some rq" "synchronous rq = 0" "srv (ps ! t) \<noteq> Some a" "a \<notin> set xs"
      using new [OF a] by auto
    then show ?thesis
    proof cases
      case 3
      then have "\<exists>p \<in> set ps. srv p = Some a" using o rep_unique [OF xs(1)] unfolding unlost_def by metis
      then show ?thesis using stay [of srv] 3(3) False by simp
    qed (use at xs(2) False in auto)
  qed
qed

text \<open>A step that does not touch the requests or the input.\<close>

lemma echo_idle:
  assumes ok: "echo_ok ptr inp m ps" and sv: "sv_ok ptr m C ps" and t: "t < length ps" and run: "\<not> aborted (ps ! t)"
    and m: "sv_heap m' = sv_heap m" "sv_first m' = sv_first m" "sv_last m' = sv_last m" "sv_stdin m' = sv_stdin m"
      "written m' = written m"
    and p': "unserved p' = None \<or> unserved p' = unserved (ps ! t)" "loops_ok p'"
      "aborted p' \<or> echo_left ptr p' = echo_left ptr (ps ! t) \<and> cli p' = cli (ps ! t) \<and> srv p' = srv (ps ! t)"
  shows "echo_ok ptr inp m' (ps[t := p'])"
proof (rule echo_ok_step [OF ok t run])
  obtain xs where xs: "sv_rep m xs" using sv by (auto simp: sv_ok_def)
  have xs': "sv_rep m' xs" by (rule sv_rep_cong [OF xs]) (use m in auto)
  show "no_answer m' (ps[t := p'])"
  proof (rule no_answer_step)
    fix a rq' assume "sv_heap m' a = Some rq'" and p: "pending m' (ps[t := p']) a"
    moreover have "pending m ps a" by (rule pending_update [OF p t xs' xs]) (use p'(1) in auto)
    ultimately show "rd rq' = {#} \<or> (\<exists>rq. sv_heap m a = Some rq \<and> rd rq' = rd rq \<and> pending m ps a)"
      using m(1) by auto
  qed (use ok in \<open>simp add: echo_ok_def\<close>)
  show "unlost m' (ps[t := p'])" if "\<not> aborted p'" "unlost m ps"
    by (rule unlost_step [OF that(2) t xs xs']) (use m(1) p'(3) that(1) in auto)
  show "\<exists>D. mset (written m') + hsum wr (sv_heap m') + echo_left ptr p' =
        mset (written m) + hsum wr (sv_heap m) + echo_left ptr (ps ! t) + all_echoes ptr D \<and>
      image_mset snd D + hsum rd (sv_heap m') + unread m' = hsum rd (sv_heap m) + unread m" if "\<not> aborted p'"
    by (rule exI [of _ "{#}"]) (use m p'(3) that in \<open>auto simp: unread_def\<close>)
qed (use ok m p'(2) in \<open>auto simp: echo_ok_def\<close>)

text \<open>A request is put into the list.\<close>

lemma echo_queue:
  assumes ok: "echo_ok ptr inp m ps" and sv: "sv_ok ptr m C ps" and t: "t < length ps" and run: "\<not> aborted (ps ! t)"
    and q: "tr_queue v prompt s a (m\<lparr>sv_heap := (sv_heap m)(a \<mapsto> rq)\<rparr>) = (m', q')"
    and rq: "rq_next rq = None" "rd (filled v prompt s rq) = {#}" "synchronous rq = 0 \<longleftrightarrow> operation rq = REQ_WRITE"
    and roles: "srv (ps ! t) = None" "cli (ps ! t) = (if synchronous rq \<noteq> 0 then Some a else None)"
      "cli p' = (if synchronous rq \<noteq> 0 then Some a else None)"
    and old: "sv_heap m a = None \<and> echo_left ptr (ps ! t) = wr (filled v prompt s rq) + echo_left ptr p' \<or>
      sv_heap m a = Some rq \<and> wr rq = wr (filled v prompt s rq) \<and> rd rq = {#} \<and> ini (ps ! t) = Some a \<and>
      echo_left ptr (ps ! t) = echo_left ptr p'"
    and p': "unserved p' = None" "loops_ok p'"
  shows "echo_ok ptr inp m' (ps[t := p'])"
proof (rule echo_ok_step [OF ok t run])
  obtain xs where xs: "sv_rep m xs" "sv_tokens ptr m C xs ps" using sv by (auto simp: sv_ok_def)
  let ?h = "(sv_heap m)(a \<mapsto> filled v prompt s rq)"
  note T = tokensD [OF xs(2), of a]
  have na: "a \<notin> set xs" using old
  proof
    assume "sv_heap m a = None \<and> echo_left ptr (ps ! t) = wr (filled v prompt s rq) + echo_left ptr p'"
    then have h: "sv_heap m a = None" by blast
    show ?thesis using token_none [OF T [unfolded h] has_nonneg] by simp
  next
    assume "sv_heap m a = Some rq \<and> wr rq = wr (filled v prompt s rq) \<and> rd rq = {#} \<and> ini (ps ! t) = Some a \<and>
      echo_left ptr (ps ! t) = echo_left ptr p'"
    then have h: "sv_heap m a = Some rq" "ini (ps ! t) = Some a" by blast+
    show ?thesis using token_init [OF T [unfolded h(1)] has_ge [where f = ini, OF t h(2)] has_nonneg] by simp
  qed
  have rep: "sv_rep (m\<lparr>sv_heap := (sv_heap m)(a \<mapsto> rq)\<rparr>) xs" by (rule sv_rep_cong [OF xs(1)]) (use na in auto)
  note Q = tr_queue_rep [OF rep na _ rq(1) q]
  have rel: "\<forall>b. relinked (?h b) (sv_heap m' b)"
  proof
    fix b show "relinked (?h b) (sv_heap m' b)" using Q by (cases "b = a") auto
  qed
  have fin: "finite (dom (sv_heap m))" using ok by (simp add: echo_ok_def)
  show "finite (dom (sv_heap m'))" unfolding relinked_dom [OF rel] dom_fun_upd using fin by simp
  have io: "sv_stdin m' = sv_stdin m" "tty m' = tty m" "sv_rep m' (xs @ [a])" using Q by auto
  have wt: "hsum wr (sv_heap m') = hsum wr ?h" "hsum rd (sv_heap m') = hsum rd ?h"
    by (rule hsum_relinked [OF rel]; simp)+
  have E: "hsum wr ?h + echo_left ptr p' = hsum wr (sv_heap m) + echo_left ptr (ps ! t) \<and> hsum rd ?h = hsum rd (sv_heap m)"
    using old
  proof
    assume o: "sv_heap m a = None \<and> echo_left ptr (ps ! t) = wr (filled v prompt s rq) + echo_left ptr p'"
    then show ?thesis using hsum_new [OF fin, of a wr "filled v prompt s rq"] hsum_new [OF fin, of a rd "filled v prompt s rq"]
      rq(2) by (simp add: add_ac)
  next
    assume o: "sv_heap m a = Some rq \<and> wr rq = wr (filled v prompt s rq) \<and> rd rq = {#} \<and> ini (ps ! t) = Some a \<and>
      echo_left ptr (ps ! t) = echo_left ptr p'"
    then have "sv_heap m a = Some rq" by blast
    note C = hsum_change [OF fin this, of wr "filled v prompt s rq"] hsum_change [OF fin this, of rd "filled v prompt s rq"]
    show ?thesis using C o rq(2) by simp
  qed
  show "\<exists>D. mset (written m') + hsum wr (sv_heap m') + echo_left ptr p' =
        mset (written m) + hsum wr (sv_heap m) + echo_left ptr (ps ! t) + all_echoes ptr D \<and>
      image_mset snd D + hsum rd (sv_heap m') + unread m' = hsum rd (sv_heap m) + unread m"
    by (rule exI [of _ "{#}"]) (use E wt io in \<open>simp add: unread_def written_def add_ac\<close>)
  show "unlost m' (ps[t := p'])" if "unlost m ps"
  proof (rule unlost_step [OF that t xs(1) io(3)])
    fix b rq' assume b: "sv_heap m' b = Some rq'"
    show "if synchronous rq' \<noteq> 0
       then cli p' = Some b \<or> cli (ps ! t) \<noteq> Some b \<and> (\<exists>rq. sv_heap m b = Some rq \<and> synchronous rq \<noteq> 0)
       else b \<in> set (xs @ [a]) \<or> srv p' = Some b \<or>
         (\<exists>rq. sv_heap m b = Some rq \<and> synchronous rq = 0) \<and> srv (ps ! t) \<noteq> Some b \<and> b \<notin> set xs"
    proof (cases "b = a")
      case True
      then show ?thesis using Q b roles by auto
    next
      case False
      then have "relinked (sv_heap m b) (Some rq')" using rel [rule_format, of b] b by simp
      then show ?thesis using False roles by (auto simp: relinked_def eq_commute [of "Some rq'"])
    qed
  qed
  show "synchronous r = 0 \<longleftrightarrow> operation r = REQ_WRITE" if "sv_heap m' b = Some r" for b r
  proof (cases "b = a")
    case True
    then show ?thesis using Q that rq(3) by auto
  next
    case False
    then have "relinked (sv_heap m b) (Some r)" using rel [rule_format, of b] that by simp
    then show ?thesis using ok by (auto simp: relinked_def echo_ok_def)
  qed
  show "no_answer m' (ps[t := p'])"
  proof (rule no_answer_step)
    fix b rq' assume b: "sv_heap m' b = Some rq'" and p: "pending m' (ps[t := p']) b"
    show "rd rq' = {#} \<or> (\<exists>rq. sv_heap m b = Some rq \<and> rd rq' = rd rq \<and> pending m ps b)"
    proof (cases "b = a")
      case True
      then show ?thesis using Q b rq(2) by auto
    next
      case False
      have "pending m ps b" by (rule pending_update [OF p t io(3) xs(1)]) (use False p'(1) in auto)
      moreover have "relinked (sv_heap m b) (Some rq')" using rel [rule_format, of b] b False by simp
      ultimately show ?thesis using relinked_Some by blast
    qed
  qed (use ok in \<open>simp add: echo_ok_def\<close>)
qed (use p' in simp)

section \<open>The steps of a request\<close>

lemma frame_facts:
  assumes "frame ptr w v sync prompt s"
  shows "unserved (w q) = (if sync \<noteq> 0 then tr_ini q else None)" "loops_ok (w q) = loops_ok (w TR_lock)"
    "aborted (w q) \<longleftrightarrow> q = TR_abort" "sync = 0 \<longleftrightarrow> v = REQ_WRITE"
  using assms by (auto elim!: frameE simp: req_defs)

text \<open>The weights of a thread that makes a synchronous request, and of one that makes the request to write
  an echo.\<close>

lemma frame_sync:
  assumes "frame ptr w v sync prompt s" and "sync \<noteq> 0"
  shows "\<not> (\<exists>s'. q = TR_unlock s' \<or> q = TR_return s') \<Longrightarrow> echo_left ptr (w q) = {#}"
    "echo_left ptr (w (TR_return s')) = echo_left ptr (w (TR_unlock s'))"
    "v = REQ_READ \<Longrightarrow> \<exists>i. \<forall>l. echo_left ptr (w (TR_unlock (Some l))) = (if l = [] then {#} else echoes ptr i 0 l)"
    "v \<noteq> REQ_READ \<Longrightarrow> echo_left ptr (w (TR_unlock s')) = {#}"
proof -
  have R: "reading ptr i q = {#}" if "\<not> (\<exists>s'. q = TR_unlock s' \<or> q = TR_return s')" for i
    using that by (cases q) auto
  from assms(1) have "(\<exists>i. w = (\<lambda>q. SV_client i (CL_read q)) \<and> v = REQ_READ) \<or> w = (\<lambda>q. SV_main (SM_quit q)) \<and> v \<noteq> REQ_READ"
    by (cases rule: frame.cases) (use assms(2) in \<open>auto simp: req_defs\<close>)
  then consider i where "w = (\<lambda>q. SV_client i (CL_read q))" "v = REQ_READ"
    | "w = (\<lambda>q. SV_main (SM_quit q))" "v \<noteq> REQ_READ" by blast
  note W = this
  show "\<not> (\<exists>s'. q = TR_unlock s' \<or> q = TR_return s') \<Longrightarrow> echo_left ptr (w q) = {#}"
    by (rule W) (simp_all add: R)
  show "echo_left ptr (w (TR_return s')) = echo_left ptr (w (TR_unlock s'))"
    by (rule W) (cases s'; simp)+
  show "\<exists>i. \<forall>l. echo_left ptr (w (TR_unlock (Some l))) = (if l = [] then {#} else echoes ptr i 0 l)" if "v = REQ_READ"
    by (rule W) (use that in auto)
  show "echo_left ptr (w (TR_unlock s')) = {#}" if "v \<noteq> REQ_READ"
    by (rule W) (use that in simp_all)
qed

lemma frame_async:
  assumes "frame ptr w v sync prompt s" and "sync = 0" and "sv_fit ptr h C (w TR_lock)" and "loops_ok (w TR_lock)"
  shows "operation rq = REQ_WRITE \<Longrightarrow> \<not> queued q \<Longrightarrow> queued q' \<Longrightarrow>
      echo_left ptr (w q) = wr (filled v prompt s rq) + echo_left ptr (w q')"
    "queued q \<longleftrightarrow> queued q' \<Longrightarrow> echo_left ptr (w q) = echo_left ptr (w q')"
proof -
  obtain i j l where w: "w = (\<lambda>q. SV_client i (CL_write j l q))" "s = Some (echo ptr i j l)" "v = REQ_WRITE"
    using assms(1,2) by (auto elim!: frameE)
  then have "length (ptr i) + length l \<le> 122" "j < 4" using assms(3,4) by (simp_all add: line_ok_def)
  then have "take 128 (echo ptr i j l) = echo ptr i j l" by (simp add: echo_def)
  then show "operation rq = REQ_WRITE \<Longrightarrow> \<not> queued q \<Longrightarrow> queued q' \<Longrightarrow>
      echo_left ptr (w q) = wr (filled v prompt s rq) + echo_left ptr (w q')"
    using w \<open>j < 4\<close> by (simp add: wr_def filled_def echoes_next)
  show "queued q \<longleftrightarrow> queued q' \<Longrightarrow> echo_left ptr (w q) = echo_left ptr (w q')" using w by simp
qed

lemma echo_malloc:
  assumes ok: "echo_ok ptr inp m ps" and sv: "sv_ok ptr m C ps" and t: "t < length ps" and run: "\<not> aborted (ps ! t)"
    and a: "sv_heap m a = None" and rq: "rd rq = {#}" "wr rq = {#}" "synchronous rq \<noteq> 0" "operation rq \<noteq> REQ_WRITE"
    and p': "unserved p' = Some a" "loops_ok p'" "echo_left ptr p' = echo_left ptr (ps ! t)"
    and roles: "srv (ps ! t) = None" "cli (ps ! t) = None" "cli p' = Some a"
  shows "echo_ok ptr inp (m\<lparr>sv_heap := (sv_heap m)(a \<mapsto> rq)\<rparr>) (ps[t := p'])"
proof (rule echo_ok_step [OF ok t run])
  obtain xs where xs: "sv_rep m xs" "sv_tokens ptr m C xs ps" using sv by (auto simp: sv_ok_def)
  let ?m = "m\<lparr>sv_heap := (sv_heap m)(a \<mapsto> rq)\<rparr>"
  have fin: "finite (dom (sv_heap m))" using ok by (simp add: echo_ok_def)
  have "a \<notin> set xs" using token_none [OF tokensD [OF xs(2), of a, unfolded a] has_nonneg] by simp
  then have rep: "sv_rep ?m xs" by (intro sv_rep_cong [OF xs(1)]) auto
  show "unlost ?m (ps[t := p'])" if "unlost m ps"
    by (rule unlost_step [OF that t xs(1) rep]) (use rq(3) roles in \<open>auto split: if_splits\<close>)
  show "no_answer ?m (ps[t := p'])"
  proof (rule no_answer_step)
    fix b rq' assume b: "sv_heap ?m b = Some rq'" and p: "pending ?m (ps[t := p']) b"
    show "rd rq' = {#} \<or> (\<exists>rq. sv_heap m b = Some rq \<and> rd rq' = rd rq \<and> pending m ps b)"
    proof (cases "b = a")
      case False
      have "pending m ps b" by (rule pending_update [OF p t rep xs(1)]) (use False p'(1) in auto)
      then show ?thesis using b False by simp
    qed (use b rq in simp)
  qed (use ok in \<open>simp add: echo_ok_def\<close>)
  show "\<exists>D. mset (written ?m) + hsum wr (sv_heap ?m) + echo_left ptr p' =
        mset (written m) + hsum wr (sv_heap m) + echo_left ptr (ps ! t) + all_echoes ptr D \<and>
      image_mset snd D + hsum rd (sv_heap ?m) + unread ?m = hsum rd (sv_heap m) + unread m"
    by (rule exI [of _ "{#}"]) (use rq p'(3) hsum_new [OF fin a, of wr rq] hsum_new [OF fin a, of rd rq] in
      \<open>simp add: unread_def written_def\<close>)
qed (use ok rq p' in \<open>auto simp: echo_ok_def split: if_splits\<close>)

text \<open>The client frees its request and has the line.\<close>

lemma echo_destroy:
  assumes ok: "echo_ok ptr inp m ps" and sv: "sv_ok ptr m C ps" and t: "t < length ps" and run: "\<not> aborted (ps ! t)"
    and a: "sv_heap m a = Some rq" "wr rq = {#}" "synchronous rq \<noteq> 0" "done_flag rq \<noteq> Some 0"
    and p': "unserved p' = None" "loops_ok p'" "echo_left ptr (ps ! t) = {#}"
    and roles: "srv (ps ! t) = None" "cli (ps ! t) = Some a"
    and D: "echo_left ptr p' = all_echoes ptr D" "image_mset snd D = rd rq"
  shows "echo_ok ptr inp (m\<lparr>sv_heap := (sv_heap m)(a := None)\<rparr>) (ps[t := p'])"
proof (rule echo_ok_step [OF ok t run])
  obtain xs where xs: "sv_rep m xs" "sv_tokens ptr m C xs ps" using sv by (auto simp: sv_ok_def)
  let ?m = "m\<lparr>sv_heap := (sv_heap m)(a := None)\<rparr>"
  have fin: "finite (dom (sv_heap m))" using ok by (simp add: echo_ok_def)
  have "a \<notin> set xs"
    using token_done [OF tokensD [OF xs(2), of a, unfolded a(1)] a(3,4) has_nonneg has_nonneg] by simp
  then have rep: "sv_rep ?m xs" by (intro sv_rep_cong [OF xs(1)]) auto
  show "unlost ?m (ps[t := p'])" if "unlost m ps"
    by (rule unlost_step [OF that t xs(1) rep]) (use roles in \<open>auto split: if_splits\<close>)
  show "no_answer ?m (ps[t := p'])"
  proof (rule no_answer_step)
    fix b rq' assume b: "sv_heap ?m b = Some rq'" and p: "pending ?m (ps[t := p']) b"
    have "pending m ps b" by (rule pending_update [OF p t rep xs(1)]) (use p'(1) in auto)
    then show "rd rq' = {#} \<or> (\<exists>rq. sv_heap m b = Some rq \<and> rd rq' = rd rq \<and> pending m ps b)"
      using b by (auto split: if_splits)
  qed (use ok in \<open>simp add: echo_ok_def\<close>)
  show "\<exists>D. mset (written ?m) + hsum wr (sv_heap ?m) + echo_left ptr p' =
        mset (written m) + hsum wr (sv_heap m) + echo_left ptr (ps ! t) + all_echoes ptr D \<and>
      image_mset snd D + hsum rd (sv_heap ?m) + unread ?m = hsum rd (sv_heap m) + unread m"
    by (rule exI [of _ D]) (use D p'(3) a(2) hsum_free [OF fin a(1), of wr] hsum_free [OF fin a(1), of rd] in
      \<open>simp add: unread_def written_def\<close>)
qed (use ok p' in \<open>auto simp: echo_ok_def split: if_splits\<close>)

text \<open>The part of a request before the cell is allocated.\<close>

abbreviation starting :: "tr_pc \<Rightarrow> bool" where
  "starting q \<equiv> q \<in> {TR_lock, TR_attr_init, TR_setdetach, TR_create, TR_attr_destroy}"

lemma request_starts:
  assumes "tty_server_request v sync prompt s q = Do c k" and "k r m = (m', q')" and "starting q"
  shows "(m' = m \<or> m' = m\<lparr>running := 1\<rparr>) \<and> (starting q' \<or> q' = TR_malloc \<or> q' = TR_abort)"
  using assms by (cases q) (auto split: if_splits)

lemma echo_request_step:
  assumes ok: "echo_ok ptr inp m ps" and sv: "sv_ok ptr m C ps" and t: "t < length ps"
    and f: "frame ptr w v sync prompt s" and q: "ps ! t = w q"
    and c: "tty_server_request v sync prompt s q = Do c k" and r: "answer_ok c r m n" and k: "k r m = (m', q')"
    and ptr: "\<And>i. length (ptr i) \<le> 23"
  shows "echo_ok ptr inp m' (ps[t := w q'])"
proof -
  note F = frame_facts [OF f] and R = frame_roles [OF f]
  have "sv_fit ptr (sv_heap m) C (w q)" using sv t q by (auto simp: sv_ok_def list_all_length)
  then have fit: "sv_fit ptr (sv_heap m) C (w TR_lock)" "tr_fit ptr (sv_heap m) C v sync q"
    using R(4) [of "sv_heap m" C q] by simp_all
  have "loops_ok (w q)" using ok t q by (auto simp: echo_ok_def list_all_length)
  then have lo: "loops_ok (w x)" for x using F(2) [of q] F(2) [of x] by blast
  have run: "\<not> aborted (ps ! t)" using q F(3) [of q] c by auto
  have un: "unserved (w x) = (if sync \<noteq> 0 then tr_ini x else None)" for x by (rule F(1))
  have idle: "echo_ok ptr inp m' (ps[t := w q'])"
    if "sv_heap m' = sv_heap m" "sv_first m' = sv_first m" "sv_last m' = sv_last m" "sv_stdin m' = sv_stdin m"
      "tty m' = tty m" "tr_ini q' = None"
      "q' = TR_abort \<or> echo_left ptr (w q') = echo_left ptr (w q) \<and> (sync \<noteq> 0 \<longrightarrow> tr_cli q' = tr_cli q)"
    by (rule echo_idle [OF ok sv t run that(1-4)])
       (use that(5-7) q lo [of q'] un [of q'] F(3) [of q'] R(1) [of q] R(1) [of q'] R(2) [of q] R(2) [of q'] in \<open>auto simp: written_def\<close>)
  have weigh: "echo_left ptr (w x) = echo_left ptr (w y)"
    if "\<not> (\<exists>s'. x = TR_unlock s' \<or> x = TR_return s')" "\<not> (\<exists>s'. y = TR_unlock s' \<or> y = TR_return s')"
      "sync = 0 \<longrightarrow> queued x = queued y" for x y
  proof (cases "sync = 0")
    case True
    then show ?thesis using frame_async(2) [OF f True fit(1) lo] that(3) by blast
  next
    case False
    then show ?thesis using frame_sync(1) [OF f False that(1)] frame_sync(1) [OF f False that(2)] by simp
  qed
  have start: "echo_ok ptr inp m' (ps[t := w q'])" if "starting q"
  proof -
    note S = request_starts [OF c k that]
    have "echo_left ptr (w q') = echo_left ptr (w q)" if "q' \<noteq> TR_abort"
      by (rule weigh) (use S \<open>starting q\<close> that in auto)
    moreover have "tr_cli q = None" using that by auto
    ultimately show ?thesis using S by (intro idle) auto
  qed
  show ?thesis
  proof (cases q)
    case TR_malloc
    show ?thesis
    proof (cases "r = 0")
      case True
      then show ?thesis using idle c k TR_malloc by auto
    next
      case False
      let ?rq = "\<lparr>rq_next = None, operation = v, synchronous = sync,
        done_flag = (if sync \<noteq> 0 then Some 0 else None), rq_prompt = None, rq_text = None\<rparr>"
      have a: "sv_heap m (nat r) = None" "tr_malloc v sync prompt s (nat r) m = (m', q')"
        using c k r TR_malloc False by auto
      show ?thesis
      proof (cases "sync = 0")
        case True
        then have tq: "tr_queue v prompt s (nat r) (m\<lparr>sv_heap := (sv_heap m)(nat r \<mapsto> ?rq)\<rparr>) = (m', q')"
          using a(2) by (simp add: tr_malloc_def)
        have v: "v = REQ_WRITE" using F(4) True by blast
        obtain xs where xs: "sv_rep m xs" "sv_tokens ptr m C xs ps" using sv by (auto simp: sv_ok_def)
        have na: "nat r \<notin> set xs"
          using token_none [OF tokensD [OF xs(2), of "nat r", unfolded a(1)] has_nonneg] by simp
        have "sv_rep (m\<lparr>sv_heap := (sv_heap m)(nat r \<mapsto> ?rq)\<rparr>) xs"
          by (rule sv_rep_cong [OF xs(1)]) (use na in auto)
        from tr_queue_rep [OF this na _ _ tq] have q': "q' = TR_signal (nat r)" by simp
        have e: "echo_left ptr (ps ! t) = wr (filled v prompt s ?rq) + echo_left ptr (w q')"
          using frame_async(1) [OF f True fit(1) lo, of ?rq q q'] v q q' TR_malloc by simp
        show ?thesis
          by (rule echo_queue [OF ok sv t run tq]) (use a(1) e v q q' TR_malloc True un [of q'] lo [of q'] R(1) [of q] R(2) [of q] R(2) [of q'] in \<open>auto simp: rd_def req_defs filled_def\<close>)
      next
        case False
        then have m': "m' = m\<lparr>sv_heap := (sv_heap m)(nat r \<mapsto> ?rq)\<rparr>" "q' = TR_init (nat r)"
          using a(2) by (auto simp: tr_malloc_def)
        have "v \<noteq> REQ_WRITE" using F(4) False by blast
        moreover have "echo_left ptr (w q') = echo_left ptr (ps ! t)"
          unfolding q by (rule weigh) (use m'(2) TR_malloc in auto)
        ultimately show ?thesis unfolding m'(1)
          by (intro echo_malloc [OF ok sv t run a(1)]) (use m'(2) False un [of q'] lo [of q'] q TR_malloc R(1) [of q] R(2) [of q] R(2) [of q'] in \<open>auto simp: rd_def wr_def\<close>)
      qed
    qed
  next
    case (TR_init a)
    show ?thesis
    proof (cases "r = 0")
      case True
      obtain rq where rq: "sv_heap m a = Some rq" "operation rq = v" "synchronous rq = sync" "rq_next rq = None"
        "done_flag rq = Some 0" "sync \<noteq> 0"
        using fit(2) TR_init by (auto simp: new_request_def)
      have v: "v \<noteq> REQ_WRITE" using F(4) rq(6) by blast
      have "(sv_heap m)(a \<mapsto> rq) = sv_heap m" using rq(1) by auto
      then have tq: "tr_queue v prompt s a (m\<lparr>sv_heap := (sv_heap m)(a \<mapsto> rq)\<rparr>) = (m', q')"
        using c k TR_init True by auto
      have i: "ini (ps ! t) = Some a" using q R(3) [of q] TR_init rq(6) by simp
      obtain xs where xs: "sv_rep m xs" "sv_tokens ptr m C xs ps" using sv by (auto simp: sv_ok_def)
      have na: "a \<notin> set xs"
        using token_init [OF tokensD [OF xs(2), of a, unfolded rq(1)] has_ge [where f = ini, OF t i] has_nonneg] by simp
      have "sv_rep (m\<lparr>sv_heap := (sv_heap m)(a \<mapsto> rq)\<rparr>) xs" by (rule sv_rep_cong [OF xs(1)]) (use na in auto)
      from tr_queue_rep [OF this na _ rq(4) tq] have q': "q' = TR_signal a" by simp
      have "unserved (ps ! t) = Some a" using q un [of q] TR_init rq(6) by simp
      then have "pending m ps a" using nth_mem [OF t] by (auto simp: pending_def)
      then have "rd rq = {#}" by (rule no_answerD [OF ok rq(1)])
      moreover have "echo_left ptr (ps ! t) = echo_left ptr (w q')"
        unfolding q by (rule weigh) (use q' TR_init rq(6) in auto)
      moreover have "rd (filled v prompt s rq) = {#}" using v rq(2) by (auto simp: rd_def filled_def split: option.splits)
      moreover have "wr rq = wr (filled v prompt s rq)" using v rq(2) by (simp add: wr_def)
      ultimately show ?thesis
        by (intro echo_queue [OF ok sv t run tq rq(4)]) (use i rq v q q' TR_init un [of q'] lo [of q'] R(1) [of q] R(2) [of q] R(2) [of q'] in auto)
    next
      case False
      then show ?thesis using idle c k TR_init by auto
    qed
  next
    case (TR_signal a)
    show ?thesis
    proof (cases "r = 0 \<and> sync \<noteq> 0")
      case True
      then have tw: "tr_while v s a m = (m', q')" using c k TR_signal by auto
      have m': "m' = m \<and> tr_fit ptr (sv_heap m) C v sync q' \<and> tr_cli q' = Some a \<and> tr_ini q' = None"
        by (rule tr_while_fit [OF f _ _ _ tw]) (use True fit(2) TR_signal in auto)
      then have "echo_left ptr (w q') = echo_left ptr (w q)" by (intro weigh) (use True TR_signal in auto)
      then show ?thesis using idle m' TR_signal by simp
    next
      case False
      have "echo_left ptr (w (TR_unlock s)) = echo_left ptr (w q)" if "sync = 0"
        by (rule frame_async(2) [OF f that fit(1) lo]) (simp add: TR_signal)
      then show ?thesis using idle c k TR_signal False by (auto split: if_splits)
    qed
  next
    case (TR_wait a)
    show ?thesis
    proof (cases "r = 0")
      case True
      then have tw: "tr_while v s a m = (m', q')" using c k TR_wait by auto
      have s: "sync \<noteq> 0" using fit(2) TR_wait by simp
      have m': "m' = m \<and> tr_fit ptr (sv_heap m) C v sync q' \<and> tr_cli q' = Some a \<and> tr_ini q' = None"
        by (rule tr_while_fit [OF f s _ _ tw]) (use fit(2) TR_wait in auto)
      then have "echo_left ptr (w q') = echo_left ptr (w q)" by (intro weigh) (use s TR_wait in auto)
      then show ?thesis using idle m' TR_wait by simp
    next
      case False
      then show ?thesis using idle c k TR_wait by auto
    qed
  next
    case (TR_destroy a s')
    show ?thesis
    proof (cases "r = 0")
      case True
      obtain rq where rq: "sv_heap m a = Some rq" "operation rq = v" "synchronous rq = sync" "done_flag rq \<noteq> Some 0"
        "sync \<noteq> 0" "got ptr v s'" "v = REQ_READ \<longrightarrow> rq_text rq = s'"
        using fit(2) TR_destroy by (auto simp: answered_def)
      have m': "m' = m\<lparr>sv_heap := (sv_heap m)(a := None)\<rparr>" "q' = TR_unlock s'"
        using c k TR_destroy True rq(1) by auto
      have v: "v \<noteq> REQ_WRITE" using F(4) rq(5) by blast
      have z: "echo_left ptr (ps ! t) = {#}" unfolding q by (rule frame_sync(1) [OF f rq(5)]) (simp add: TR_destroy)
      obtain D where D: "echo_left ptr (w q') = all_echoes ptr D" "image_mset snd D = rd rq"
      proof (cases "v = REQ_READ")
        case True
        then obtain l where l: "s' = Some l" using rq(6) by (auto simp: got_def)
        obtain i where "\<forall>l. echo_left ptr (w (TR_unlock (Some l))) = (if l = [] then {#} else echoes ptr i 0 l)"
          using frame_sync(3) [OF f rq(5) True] by blast
        then show ?thesis using that [of "if l = [] then {#} else {#(i, l)#}"] m'(2) l rq(2,7) True
          by (auto simp: rd_def)
      next
        case False
        then show ?thesis using that [of "{#}"] frame_sync(4) [OF f rq(5)] m'(2) rq(2) by (simp add: rd_def)
      qed
      show ?thesis unfolding m'(1)
        by (rule echo_destroy [OF ok sv t run rq(1) _ _ rq(4) _ _ z _ _ D]) (use rq v m'(2) q TR_destroy un [of q'] lo [of q'] R(1) [of q] R(2) [of q] in \<open>auto simp: wr_def\<close>)
    next
      case False
      then show ?thesis using idle c k TR_destroy by auto
    qed
  next
    case (TR_unlock s')
    have "echo_left ptr (w (TR_return s')) = echo_left ptr (w q)"
    proof (cases "sync = 0")
      case True
      then show ?thesis using frame_async(2) [OF f True fit(1) lo] TR_unlock by simp
    next
      case False
      then show ?thesis using frame_sync(2) [OF f False] TR_unlock by simp
    qed
    then show ?thesis using idle c k TR_unlock by (auto split: if_splits)
  qed (use start c in auto)
qed

section \<open>The steps of the server\<close>

lemma hsum_upd:
  assumes "finite (dom h)" and "h a = Some e"
  shows "hsum f (h(a := x)) + f e = hsum f h + (case x of None \<Rightarrow> {#} | Some e' \<Rightarrow> f e')"
  using hsum_free [OF assms, of f] hsum_change [OF assms, of f] by (cases x) (simp_all add: add_ac)

lemma unserved_srv: "unserved p = Some a \<Longrightarrow> srv p = Some a \<or> ini p = Some a"
  by (cases p rule: unserved.cases) auto

text \<open>The server changes or frees the request it has.\<close>

lemma echo_change:
  assumes ok: "echo_ok ptr inp m ps" and sv: "sv_ok ptr m C ps" and t: "t < length ps" and run: "\<not> aborted (ps ! t)"
    and p: "srv (ps ! t) = Some a" and a: "sv_heap m a = Some rq"
    and m': "sv_heap m' = (sv_heap m)(a := x)" "sv_first m' = sv_first m" "sv_last m' = sv_last m"
    and x: "\<And>rq'. x = Some rq' \<Longrightarrow> synchronous rq \<noteq> 0 \<and> synchronous rq' = synchronous rq \<and> operation rq' = operation rq"
    and roles: "cli (ps ! t) = None"
    and p': "unserved p' = None" "loops_ok p'" "echo_left ptr p' = echo_left ptr (ps ! t)"
    and w: "mset (written m') + (case x of None \<Rightarrow> {#} | Some y \<Rightarrow> wr y) = mset (written m) + wr rq"
    and r: "(case x of None \<Rightarrow> {#} | Some y \<Rightarrow> rd y) + unread m' = rd rq + unread m"
  shows "echo_ok ptr inp m' (ps[t := p'])"
proof (rule echo_ok_step [OF ok t run])
  obtain xs where xs: "sv_rep m xs" "sv_tokens ptr m C xs ps" using sv by (auto simp: sv_ok_def)
  have fin: "finite (dom (sv_heap m))" using ok by (simp add: echo_ok_def)
  obtain rq0 where b: "sv_heap m a = Some rq0" "has ini a ps = 0" "of_bool (a \<in> set xs) + has srv a ps = 1"
    by (rule busy [OF xs(2) disjI2 [OF conjI [OF t p]]])
  have na: "a \<notin> set xs" using b(3) has_ge [where f = srv, OF t p] by (auto split: if_splits)
  have rep: "sv_rep m' xs" by (rule sv_rep_cong [OF xs(1)]) (use m' na in auto)
  have other: "unserved (ps ! u) \<noteq> Some a" if "u < length ps" "u \<noteq> t" for u
  proof
    assume "unserved (ps ! u) = Some a"
    then consider "srv (ps ! u) = Some a" | "ini (ps ! u) = Some a" using unserved_srv by blast
    then show False
    proof cases
      case 1
      then have "2 \<le> has srv a ps" using has_two [where f = srv, OF t that(1) _ p 1] that(2) by simp
      then show False using b(3) na by simp
    next
      case 2
      then show False using has_ge [where f = ini, OF that(1) 2] b(2) by simp
    qed
  qed
  have gone: "\<not> pending m' (ps[t := p']) a"
  proof
    assume "pending m' (ps[t := p']) a"
    then consider ys where "sv_rep m' ys" "a \<in> set ys"
      | u where "u < length ps" "unserved (ps[t := p'] ! u) = Some a"
      by (auto simp: pending_def in_set_conv_nth)
    then show False
    proof cases
      case 1
      then show False using rep_unique [OF rep] na by blast
    next
      case 2
      then show False using other p'(1) by (cases "u = t") auto
    qed
  qed
  show "unlost m' (ps[t := p'])" if "unlost m ps"
    by (rule unlost_step [OF that t xs(1) rep]) (use x m'(1) roles p a in \<open>auto split: if_splits\<close>)
  show "no_answer m' (ps[t := p'])"
  proof (rule no_answer_step)
    fix b rq' assume h: "sv_heap m' b = Some rq'" and q: "pending m' (ps[t := p']) b"
    have "b \<noteq> a" using gone q by blast
    moreover have "pending m ps b" by (rule pending_update [OF q t rep xs(1)]) (use p'(1) in auto)
    ultimately show "rd rq' = {#} \<or> (\<exists>rq. sv_heap m b = Some rq \<and> rd rq' = rd rq \<and> pending m ps b)"
      using h m'(1) by simp
  qed (use ok in \<open>simp add: echo_ok_def\<close>)
  show "finite (dom (sv_heap m'))" using fin m'(1) by (simp add: dom_fun_upd)
  show "synchronous r = 0 \<longleftrightarrow> operation r = REQ_WRITE" if "sv_heap m' b = Some r" for b r
    using ok a x that m'(1) by (cases "b = a") (auto simp: echo_ok_def)
  note U = hsum_upd [OF fin a, of wr x] hsum_upd [OF fin a, of rd x]
  show "\<exists>D. mset (written m') + hsum wr (sv_heap m') + echo_left ptr p' =
        mset (written m) + hsum wr (sv_heap m) + echo_left ptr (ps ! t) + all_echoes ptr D \<and>
      image_mset snd D + hsum rd (sv_heap m') + unread m' = hsum rd (sv_heap m) + unread m"
  proof (intro exI [of _ "{#}"] conjI)
    have "mset (written m') + hsum wr (sv_heap m') + wr rq =
        mset (written m') + (case x of None \<Rightarrow> {#} | Some y \<Rightarrow> wr y) + hsum wr (sv_heap m)"
      using U(1) unfolding m'(1) by (simp add: add_ac)
    then have "mset (written m') + hsum wr (sv_heap m') = mset (written m) + hsum wr (sv_heap m)"
      unfolding w by (simp add: add_ac)
    then show "mset (written m') + hsum wr (sv_heap m') + echo_left ptr p' =
        mset (written m) + hsum wr (sv_heap m) + echo_left ptr (ps ! t) + all_echoes ptr {#}"
      using p'(3) by simp
    have "hsum rd (sv_heap m') + unread m' + rd rq =
        (case x of None \<Rightarrow> {#} | Some y \<Rightarrow> rd y) + unread m' + hsum rd (sv_heap m)"
      using U(2) unfolding m'(1) by (simp add: add_ac)
    then show "image_mset snd {#} + hsum rd (sv_heap m') + unread m' = hsum rd (sv_heap m) + unread m"
      unfolding r by (simp add: add_ac)
  qed
qed (use p' in simp)

lemma echo_take:
  assumes ok: "echo_ok ptr inp m ps" and sv: "sv_ok ptr m C ps" and t: "t < length ps" and run: "\<not> aborted (ps ! t)"
    and z: "echo_left ptr (ps ! t) = {#}" "srv (ps ! t) = None" "cli (ps ! t) = None" and k: "ts_while m = (m', q')"
  shows "echo_ok ptr inp m' (ps[t := SV_server q'])"
proof -
  obtain xs where xs: "sv_rep m xs" using sv by (auto simp: sv_ok_def)
  show ?thesis
  proof (rule ts_while_rep [OF xs k])
    assume "xs = []" "m' = m" "q' = TS_wait"
    then show ?thesis using z by (intro echo_idle [OF ok sv t run]) auto
  next
    fix a ys assume a: "xs = a # ys" "q' = TS_unlock a" "sv_rep m' ys" "sv_heap m' = sv_heap m"
      "sv_stdin m' = sv_stdin m" "tty m' = tty m"
    show ?thesis
    proof (rule echo_ok_step [OF ok t run])
      show "unlost m' (ps[t := SV_server q'])" if "unlost m ps"
        by (rule unlost_step [OF that t xs a(3)]) (use a(1,2,4) z in auto)
      show "no_answer m' (ps[t := SV_server q'])"
      proof (rule no_answer_step)
        fix b rq' assume "sv_heap m' b = Some rq'" and p: "pending m' (ps[t := SV_server q']) b"
        moreover have "pending m ps b" by (rule pending_update [OF p t a(3) xs]) (use a(1,2) in auto)
        ultimately show "rd rq' = {#} \<or> (\<exists>rq. sv_heap m b = Some rq \<and> rd rq' = rd rq \<and> pending m ps b)"
          using a(4) by auto
      qed (use ok in \<open>simp add: echo_ok_def\<close>)
      show "\<exists>D. mset (written m') + hsum wr (sv_heap m') + echo_left ptr (SV_server q') =
          mset (written m) + hsum wr (sv_heap m) + echo_left ptr (ps ! t) + all_echoes ptr D \<and>
        image_mset snd D + hsum rd (sv_heap m') + unread m' = hsum rd (sv_heap m) + unread m"
        by (rule exI [of _ "{#}"]) (use z a in \<open>simp add: written_def unread_def\<close>)
    qed (use ok a in \<open>auto simp: echo_ok_def\<close>)
  qed
qed

lemma ts_serve_books:
  assumes rq: "sv_heap m a = Some rq" "rq_ok ptr rq" and k: "ts_serve a e m = (m', q')"
    and lines: "\<forall>l \<in> set (input_lines (sv_stdin m)). line_ok ptr l" "line_ok ptr []"
    and rd: "rd rq = {#}" and sh: "synchronous rq = 0 \<longleftrightarrow> operation rq = REQ_WRITE"
  obtains x where "sv_heap m' = (sv_heap m)(a := x)" "sv_first m' = sv_first m" "sv_last m' = sv_last m"
    "\<And>rq'. x = Some rq' \<Longrightarrow> synchronous rq \<noteq> 0 \<and> synchronous rq' = synchronous rq \<and> operation rq' = operation rq"
    "mset (written m') + (case x of None \<Rightarrow> {#} | Some y \<Rightarrow> wr y) = mset (written m) + wr rq"
    "(case x of None \<Rightarrow> {#} | Some y \<Rightarrow> rd y) + unread m' = rd rq + unread m"
    "unserved (SV_server q') = None"
proof -
  consider "operation rq = REQ_READ" | "operation rq = REQ_WRITE" | "operation rq \<noteq> REQ_READ" "operation rq \<noteq> REQ_WRITE"
    by blast
  then show ?thesis
  proof cases
    case 1
    show ?thesis
    proof (rule ts_read_ok [OF rq(2) 1 lines, of a e])
      fix l m1 assume m1: "ts_read a rq e m = Some m1" "sv_heap m1 = (sv_heap m)(a \<mapsto> rq\<lparr>rq_text := Some l\<rparr>)"
        "sv_first m1 = sv_first m" "sv_last m1 = sv_last m"
        "l = [] \<and> input_lines (sv_stdin m1) = input_lines (sv_stdin m) \<or>
          input_lines (sv_stdin m) = l # input_lines (sv_stdin m1)"
        "\<exists>p. rq_prompt rq = Some p \<and> tty m1 = tty m @ (if p \<noteq> [] then [(REQ_READ, p)] else [])"
      have s: "synchronous rq \<noteq> 0" using sh 1 by (simp add: req_defs)
      have m': "m' = m1" "q' = TS_relock a REQ_READ" using k rq(1) 1 m1(1) s by (simp_all add: ts_serve_def)
      have "written m1 = written m" using m1(6) by (auto simp: written_def req_defs)
      moreover have "rd (rq\<lparr>rq_text := Some l\<rparr>) + unread m1 = unread m"
        using m1(5) 1 by (auto simp: rd_def unread_def)
      ultimately show ?thesis using m1(2-4) 1 rd m'
        by (intro that [of "Some (rq\<lparr>rq_text := Some l\<rparr>)"]) (auto simp: s wr_def REQ_READ_def REQ_WRITE_def)
    qed
  next
    case 2
    obtain l where l: "rq_text rq = Some l" "length l < 128" using rq(2) by (auto simp: rq_ok_def)
    show ?thesis
      by (rule that [of None])
         (use k rq(1) 2 l sh rd in \<open>auto simp: ts_serve_def ts_write_def req_defs written_def unread_def wr_def\<close>)
  next
    case 3
    have "(sv_heap m)(a \<mapsto> rq) = sv_heap m" using rq(1) by auto
    then show ?thesis
      by (intro that [of "Some rq"]) (use k rq(1) 3 sh in \<open>auto simp: ts_serve_def\<close>)
  qed
qed

lemma echo_server_step:
  assumes ok: "echo_ok ptr inp m ps" and sv: "sv_ok ptr m C ps" and t: "t < length ps" and q: "ps ! t = SV_server q"
    and c: "tty_server_routine q = Do c k" and k: "k r m = (m', q')" and ptr: "\<And>i. length (ptr i) \<le> 23"
  shows "echo_ok ptr inp m' (ps[t := SV_server q'])"
proof -
  obtain xs where xs: "sv_tokens ptr m C xs ps" using sv by (auto simp: sv_ok_def)
  have lines: "\<forall>l \<in> set (input_lines (sv_stdin m)). line_ok ptr l" using sv by (simp add: sv_ok_def)
  have nil: "line_ok ptr []" unfolding line_ok_def
  proof
    show "length (ptr i) + length [] \<le> 122" for i using ptr [of i] by simp
  qed
  have run: "\<not> aborted (ps ! t)" using q c by (cases q) auto
  have z: "echo_left ptr (ps ! t) = {#}" using q by simp
  have idle: "echo_ok ptr inp m' (ps[t := SV_server q'])"
    if "m' = m" "unserved (SV_server q') = None \<or> unserved (SV_server q') = unserved (ps ! t)"
      "q' = TS_abort \<or> srv (SV_server q') = srv (ps ! t)"
    by (rule echo_idle [OF ok sv t run]) (use that q in auto)
  have take: "srv (ps ! t) = None \<Longrightarrow> ts_while m = (m', q') \<Longrightarrow> echo_ok ptr inp m' (ps[t := SV_server q'])"
    by (rule echo_take [OF ok sv t run z]) (use q in simp_all)
  show ?thesis
  proof (cases q)
    case (TS_serve a)
    have p: "srv (ps ! t) = Some a" "unserved (ps ! t) = Some a" using q TS_serve by simp_all
    obtain rq where rq: "sv_heap m a = Some rq" "rq_ok ptr rq"
      by (rule busy [OF xs disjI2 [OF conjI [OF t p(1)]]])
    have "pending m ps a" using p(2) nth_mem [OF t] by (auto simp: pending_def)
    then have rd: "rd rq = {#}" by (rule no_answerD [OF ok rq(1)])
    have sh: "synchronous rq = 0 \<longleftrightarrow> operation rq = REQ_WRITE" using ok rq(1) by (simp add: echo_ok_def)
    have s: "ts_serve a r m = (m', q')" using c k TS_serve by auto
    show ?thesis
      by (rule ts_serve_books [OF rq s lines nil rd sh])
         (rule echo_change [OF ok sv t run p(1) rq(1)]; (assumption | simp add: z q))
  next
    case (TS_relock a w)
    show ?thesis
    proof (cases "r = 0")
      case True
      have p: "srv (ps ! t) = Some a" using q TS_relock by simp
      obtain rq where rq: "sv_heap m a = Some rq" by (rule busy [OF xs disjI2 [OF conjI [OF t p]]])
      have "sv_fit ptr (sv_heap m) C (ps ! t)" using sv t by (auto simp: sv_ok_def list_all_length)
      then have s: "synchronous rq \<noteq> 0" using tokensD [OF xs, of a] rq q TS_relock by simp
      have m': "m' = m\<lparr>sv_heap := (sv_heap m)(a \<mapsto> rq\<lparr>done_flag := Some 1\<rparr>)\<rparr>" "q' = TS_signal a w"
        using c k TS_relock True rq by (auto simp: ts_done_def)
      show ?thesis
        by (rule echo_change [OF ok sv t run p rq]) (use m' z s q in \<open>auto simp: written_def unread_def\<close>)
    next
      case False
      then show ?thesis using idle c k TS_relock by auto
    qed
  qed (use c k q take idle in \<open>auto split: if_splits\<close>)
qed

section \<open>Every run\<close>

lemma echo_own_step:
  assumes ok: "echo_ok ptr inp m ps" and sv: "sv_ok ptr m C ps" and t: "t < length ps" and o: "sv_own (ps ! t)"
    and c: "sv_process ptr (ps ! t) = Do c k" and k: "k r m = (m', p')" and ptr: "\<And>i. length (ptr i) \<le> 23"
  shows "echo_ok ptr inp m' (ps[t := p'])"
proof -
  have fit: "sv_fit ptr (sv_heap m) C (ps ! t)" using sv t by (auto simp: sv_ok_def list_all_length)
  have lo: "loops_ok (ps ! t)" using ok t by (auto simp: echo_ok_def list_all_length)
  note O = own_fit [OF o c k ptr fit]
  have e: "\<not> 128 \<le> length (echo ptr i j l)" if "line_ok ptr l" for i j l
    using that [unfolded line_ok_def, rule_format, of i] by (simp add: echo_def)
  have s: "\<not> 32 \<le> length (client_prompt ptr i)" for i using ptr [of i] by (simp add: client_prompt_def)
  have "unserved p' = None" using O unserved_srv by (cases "unserved p'") fastforce+
  moreover have "written m' = written m \<and> loops_ok p' \<and> \<not> aborted p \<and>
      (aborted p' \<or> echo_left ptr p' = echo_left ptr p) \<and> srv p = None \<and> cli p = None" if "p = ps ! t" for p
    using o [folded that] c [folded that] k fit [folded that] lo [folded that] e s
    by (cases p rule: sv_own.cases)
       (auto simp: cl_string_def cl_loop_def sm_next_def sm_while_def got_def req_defs written_def split: if_splits)
  ultimately show ?thesis using O by (intro echo_idle [OF ok sv t]) auto
qed

lemma echo_step:
  assumes ok: "echo_ok ptr inp m ps" and sv: "sv_ok ptr m C ps" and t: "t < length ps"
    and c: "sv_process ptr (ps ! t) = Do c k" and r: "answer_ok c r m n" and k: "k r m = (m', p')"
    and ptr: "\<And>i. length (ptr i) \<le> 23"
  shows "echo_ok ptr inp m' (ps[t := p'])"
  using c
proof (cases rule: sv_process_cases)
  case (server q c0 k0)
  then obtain q' where q': "k0 r m = (m', q')" "p' = SV_server q'" using k by (auto split: prod.splits)
  show ?thesis unfolding q'(2) by (rule echo_server_step [OF ok sv t server(1,2) q'(1) ptr])
next
  case (request w v sync prompt s q c0 k0 f)
  then obtain q' where q': "k0 r m = (m', q')" "p' = w q'" using k by (auto split: prod.splits)
  show ?thesis unfolding q'(2)
    by (rule echo_request_step [OF ok sv t request(1-3) _ q'(1) ptr, of n]) (use r request(4) in simp)
next
  case own
  then show ?thesis by (rule echo_own_step [OF ok sv t _ c k ptr])
qed

lemma unlost_spawn: "unlost m ps \<Longrightarrow> unlost m (ps @ [p])"
  unfolding unlost_def
proof (intro allI impI)
  fix a rq
  assume o: "\<forall>a rq. sv_heap m a = Some rq \<longrightarrow> (if synchronous rq \<noteq> 0 then \<exists>p \<in> set ps. cli p = Some a
      else (\<exists>xs. sv_rep m xs \<and> a \<in> set xs) \<or> (\<exists>p \<in> set ps. srv p = Some a))" and a: "sv_heap m a = Some rq"
  show "if synchronous rq \<noteq> 0 then \<exists>p \<in> set (ps @ [p]). cli p = Some a
      else (\<exists>xs. sv_rep m xs \<and> a \<in> set xs) \<or> (\<exists>p \<in> set (ps @ [p]). srv p = Some a)"
    using o [THEN spec, THEN spec, THEN mp, OF a] by (cases "synchronous rq \<noteq> 0") auto
qed

lemma echo_ok_spawn:
  assumes "echo_ok ptr inp m ps" and "p = SV_server TS_lock \<or> (\<exists>i. p = SV_client i CL_start)"
  shows "echo_ok ptr inp m (ps @ [p])"
proof -
  have "no_answer m (ps @ [p])" "balance ptr inp m (ps @ [p]) = balance ptr inp m ps" "loops_ok p"
    using assms by (auto simp: echo_ok_def no_answer_def balance_def)
  then show ?thesis using assms(1) unlost_spawn [of m ps p] by (auto simp: echo_ok_def)
qed

lemma echo_reach:
  assumes "reach any_status (sv_process ptr) (sv_system inp) s" and ok: "terminal_ok ptr inp"
  shows "sv_ok ptr (mem s) (cnd s) (pcs s) \<and> echo_ok ptr inp (mem s) (pcs s)"
  using assms(1) sv_tracked sv_awake
proof (induction rule: sv_any.object_invariant)
  case start
  have "sv_ok ptr (mem (sv_system inp)) (cnd (sv_system inp)) (pcs (sv_system inp))"
    by (rule sv_reach_ok [OF reach_start ok])
  moreover have "balance ptr inp (sv_mem inp) [SV_main SM_start]"
    by (auto simp: balance_def sv_mem_def written_def hsum_def unread_def intro!: exI [of _ "{#}"])
  moreover have "mem (sv_system inp) = sv_mem inp" "pcs (sv_system inp) = [SV_main SM_start]" by (simp_all add: sv_start)
  ultimately show ?case by (simp add: echo_ok_def no_answer_def unlost_def) (simp add: sv_mem_def)
next
  case (tick n m ps C)
  then show ?case .
next
  case (move n m ps C t c k r m' p')
  have ptr: "length (ptr i) \<le> 23" for i using ok by (simp add: terminal_ok_def)
  have I: "sv_ok ptr m C ps" "echo_ok ptr inp m ps" using move(1) by simp_all
  have "sv_ok ptr m' (cond_after c r C) (ps[t := p'])"
    using sv_ok_step [OF I(1) move(2,3,5) _ ptr move(7)] move(6) sv_calls(1) [OF move(3)] by simp
  moreover have "echo_ok ptr inp m' (ps[t := p'])"
    using echo_step [OF I(2,1) move(2,3,5) _ ptr] move(6) sv_calls(1) [OF move(3)] by simp
  ultimately show ?case using sv_calls(2) [OF move(3), of r] sv_ok_spawn echo_ok_spawn by auto
qed


section \<open>The property\<close>

text \<open>The clients have returned, the server sleeps, and \<^verbatim>\<open>main\<close> has not given up.\<close>

fun at_rest :: "sv_pc \<Rightarrow> bool" where
  "at_rest (SV_main x) \<longleftrightarrow> x \<noteq> SM_abort"
| "at_rest (SV_client i x) \<longleftrightarrow> x = CL_return"
| "at_rest (SV_server x) \<longleftrightarrow> x = TS_wait"

text \<open>C21. Once the clients have ended and the server has nothing to do, every request has been freed, and every line
  that was read and is not empty has been printed exactly four times, as the echoes 0 to 3 of the client that
  read it (\<open>A\<close> says which one); the lines nobody read are still in the input, and nothing else was
  printed for the clients. Every interleaving; any call may fail, as long as no thread aborts.\<close>
theorem server_echoes:
  assumes "reach any_status (sv_process ptr) (sv_system inp) s" and "terminal_ok ptr inp"
    and "\<forall>p \<in> set (pcs s). at_rest p" and "sv_first (mem s) = None"
  shows "sv_heap (mem s) = (\<lambda>_. None) \<and>
    (\<exists>A. mset (written (mem s)) = all_echoes ptr A \<and>
       image_mset snd A + unread (mem s) = mset (filter (\<lambda>l. l \<noteq> []) (input_lines inp)))"
proof -
  have q: "SV_main (SM_quit q) \<notin> set (pcs s)" for q using sv_unbarred [OF assms(1)] by fastforce
  have rest: "\<not> aborted p \<and> srv p = None \<and> cli p = None \<and> echo_left ptr p = {#}" if "p \<in> set (pcs s)" for p
  proof -
    have "at_rest p" "\<forall>q. p \<noteq> SV_main (SM_quit q)" using that assms(3) q by blast+
    then show ?thesis by (cases p rule: aborted.cases) auto
  qed
  have ok: "echo_ok ptr inp (mem s) (pcs s)" "sv_ok ptr (mem s) (cnd s) (pcs s)"
    using echo_reach [OF assms(1,2)] by simp_all
  have "\<not> list_ex aborted (pcs s)" using rest by (auto simp: list_ex_iff)
  then have b: "balance ptr inp (mem s) (pcs s)" "unlost (mem s) (pcs s)" using ok(1) by (simp_all add: echo_ok_def)
  have nil: "xs = []" if "sv_rep (mem s) xs" for xs using that assms(4) by (cases xs) (simp_all add: sv_rep_def)
  have "sv_heap (mem s) a = None" for a
  proof (rule ccontr)
    assume "sv_heap (mem s) a \<noteq> None"
    then obtain rq where rq: "sv_heap (mem s) a = Some rq" by blast
    then show False using b(2) rest nil unfolding unlost_def by (cases "synchronous rq \<noteq> 0") fastforce+
  qed
  then have e: "sv_heap (mem s) = (\<lambda>_. None)" by auto
  have "psum (echo_left ptr) (pcs s) = {#}" using rest by (intro psum_empty) simp
  then show ?thesis using b(1) e by (simp add: balance_def hsum_def)
qed


text \<open>The events of one echo of the first client, the server asleep in thread 2 before and after.\<close>

definition echo_events :: "event list" where
  "echo_events = [Exec 1 0, Exec 1 1, Notify 1 2, Exec 1 0, Exec 1 0] @ map (Exec 2) [0, 0, 0, 0, 0]"

theorem server_echoes_witness:
  "case run any_status (sv_process hex_ptr) (map (Exec 0) [0, 0] @ read_events @ map (Exec 1) [0, 0, 0] @ map (Exec 2) [0, 0] @
        echo_events @ echo_events @ echo_events @ echo_events @ tl (last_read 1)) (sv_system (''hi'' @ [newline])) of
     Some s \<Rightarrow> written (mem s) = [''(0x0#0) hi'', ''(0x0#1) hi'', ''(0x0#2) hi'', ''(0x0#3) hi''] \<and>
       sv_heap (mem s) = (\<lambda>_. None) \<and> (\<exists>A. mset (written (mem s)) = all_echoes hex_ptr A \<and> image_mset snd A = {#''hi''#})
   | None \<Rightarrow> False"
  (is "case ?r of Some s \<Rightarrow> ?P s | None \<Rightarrow> False")
proof -
  let ?w = "[''(0x0#0) hi'', ''(0x0#1) hi'', ''(0x0#2) hi'', ''(0x0#3) hi'']"
  have "map_option (\<lambda>s. (written (mem s), sv_first (mem s), sv_stdin (mem s), list_all at_rest (pcs s))) ?r =
    Some (?w, None, [], True)" by code_simp
  then obtain s where s: "?r = Some s" "written (mem s) = ?w" "sv_first (mem s) = None" "sv_stdin (mem s) = []"
    "\<forall>p \<in> set (pcs s). at_rest p"
    by (auto simp: list_all_iff)
  have i: "input_lines (''hi'' @ [newline]) = [''hi'']" by code_simp
  then have "terminal_ok hex_ptr (''hi'' @ [newline])" by (simp add: terminal_ok_def line_ok_def hex_ptr_def)
  from server_echoes [OF reach_run [OF s(1)] this s(5,3)] show ?thesis using s i by (simp add: unread_def)
qed

end
