(* ===== verification/Ownership.thy ===== *)
theory Ownership
  imports Discipline
begin

text \<open>
  Programs that hold several mutexes at once and never wait on a condition variable. Here the
  annotation of a point names exactly the mutexes a thread has, so that an unlock goes through only if
  the annotation has the mutex, and a mutex that is taken has an owner the proof can find. \<open>ok\<close> says which
  points the threads get to. The last section bounds the number of steps of a program whose points are
  ranked.
\<close>

section \<open>Who has a mutex\<close>

locale lock_ownership = lock_tracking allow code holds
  for allow :: "'p policy"
    and code :: "'p \<Rightarrow> ('m, 'c, 's, 'p) act"
    and holds :: "'p \<Rightarrow> 'm set" +
  fixes ok :: "'p \<Rightarrow> bool"
  assumes never_waits: "code p \<noteq> Do (wait_call d x l) k"
    and never_starts_bad: "code p = Do (Create store q) k \<Longrightarrow> ok q"
    and owns: "ok p \<Longrightarrow> code p = Do c k \<Longrightarrow> allow p r \<Longrightarrow> answer_ok c r m n \<Longrightarrow> k r m' = (m'', p') \<Longrightarrow>
      (\<forall>x. c = Unlock x \<longrightarrow> x \<in> holds p) \<Longrightarrow>
      ok p' \<and> (held_after c r (holds p) \<subseteq> holds p' \<or> code p' = Halt Aborted)"
begin

definition owned :: "('m, 'c, 's, 'p) sys \<Rightarrow> bool" where
  "owned s \<longleftrightarrow> (\<forall>x u. mtx s x = Held u \<longrightarrow> u < length (threads s) \<and>
       (x \<in> holds (pcs s ! u) \<or> code (pcs s ! u) = Halt Aborted)) \<and>
     (\<forall>y \<in> set (threads s). snd y = Ready) \<and> list_all ok (pcs s)"

lemma ownedD:
  assumes "owned s"
  shows "mtx s x = Held u \<Longrightarrow> u < length (threads s) \<and> (x \<in> holds (pcs s ! u) \<or> code (pcs s ! u) = Halt Aborted)"
    and "u < length (threads s) \<Longrightarrow> snd (threads s ! u) = Ready" and "u < length (threads s) \<Longrightarrow> ok (pcs s ! u)"
  using assms unfolding owned_def by (blast, simp, simp add: list_all_length)

lemma owned_same:
  assumes "owned s" and "mtx s' = mtx s" and "threads s' = threads s"
  shows "owned s'"
  using assms(1) unfolding owned_def assms(2,3) .

lemma owned_act:
  assumes own: "owned s" and t: "t < length (threads s)" "threads s ! t = (p, Ready)" and p: "code p = Do c k"
    and al: "allow p r" and pf: "perform code c k p t r s = Some s'" and ac: "acted code c k t r s s'"
  shows "owned s'" and "\<forall>x. c = Unlock x \<longrightarrow> x \<in> holds p"
    and "\<forall>u. c = Join u \<and> r = 0 \<longrightarrow> u < length (threads s) \<and> (\<exists>v. code (pcs s ! u) = Return v)"
proof -
  have tp: "pcs s ! t = p" using t by simp
  have okp: "ok p" using ownedD(3) [OF own t(1)] tp by simp
  show un: "\<forall>x. c = Unlock x \<longrightarrow> x \<in> holds p"
  proof (intro allI impI)
    fix x assume "c = Unlock x"
    then have "mtx s x = Held t" using ac by (simp add: acted_def)
    then show "x \<in> holds p" using ownedD(1) [OF own] p tp by fastforce
  qed
  show "\<forall>u. c = Join u \<and> r = 0 \<longrightarrow> u < length (threads s) \<and> (\<exists>v. code (pcs s ! u) = Return v)"
    using pf by (auto simp: finished_def split: if_splits act.splits)
  obtain p' where k: "answer_ok c r (mem s) (now s)"
      "k r (entry_mem c r (length (threads s)) (mem s)) = (mem s', p')"
      "pcs s' = (pcs s)[t := p'] @ spawned c r"
    using ac by (auto simp: acted_def returned_def)
  note O = owns [OF okp p al k(1,2) un]
  have len: "length (threads s') = length (threads s) + length (spawned c r)" using ac by (simp add: acted_def)
  have mtx: "mtx s x = Held u \<and> c \<noteq> Unlock x \<or> u = t \<and> (c = Lock x \<or> c = Trylock x) \<and> r = 0"
    if "mtx s' x = Held u" for x u
    using pf that never_waits p ac [unfolded acted_def, THEN conjunct2]
    by (cases c) (auto simp: effect_defs Let_def wait_call_def split: if_splits mstat.splits option.splits)
  have ready: "snd (threads s' ! u) = Ready" if "u < length (threads s')" for u
  proof -
    consider "u = t" | "u < length (threads s)" "u \<noteq> t" | "length (threads s) \<le> u" by linarith
    then show ?thesis
    proof cases
      case 1
      then show ?thesis using ac by (simp add: acted_def)
    next
      case 2
      then have "threads s' ! u = threads s ! u \<or> threads s' ! u = rouse 0 (threads s ! u)"
        using ac by (simp add: acted_def)
      moreover have "snd (threads s ! u) = Ready" using own 2 by (auto simp: owned_def)
      ultimately show ?thesis by (cases "threads s ! u") auto
    next
      case 3
      show ?thesis
      proof (cases "\<exists>store q. c = Create store q \<and> r = 0")
        case True
        then show ?thesis using pf 3 that t by (auto simp: Let_def nth_append split: if_splits)
      next
        case False
        then have "spawned c r = []" by (cases c) auto
        then show ?thesis using 3 that len by simp
      qed
    qed
  qed
  have "list_all ok (spawned c r)" using p never_starts_bad by (cases c) auto
  then have "list_all ok (pcs s')" using k(3) O own by (simp add: owned_def list_all_update)
  moreover have "u < length (threads s') \<and> (x \<in> holds (pcs s' ! u) \<or> code (pcs s' ! u) = Halt Aborted)"
    if h: "mtx s' x = Held u" for x u
  proof (cases "u = t")
    case True
    then have "pcs s' ! u = p'" using k(3) t by (simp add: nth_append)
    moreover have "x \<in> held_after c r (holds p)"
    proof -
      consider "mtx s x = Held u" "c \<noteq> Unlock x" | "c = Lock x \<or> c = Trylock x" "r = 0" using mtx [OF h] by blast
      then show ?thesis
      proof cases
        case 1
        then have "x \<in> holds p" using ownedD(1) [OF own 1(1)] p tp True by auto
        then show ?thesis using 1(2) by (cases c) auto
      qed auto
    qed
    ultimately show ?thesis using O t(1) True len by auto
  next
    case False
    then have "mtx s x = Held u" using mtx [OF h] by blast
    from ownedD(1) [OF own this]
    have "u < length (threads s)" "x \<in> holds (pcs s ! u) \<or> code (pcs s ! u) = Halt Aborted" by blast+
    then show ?thesis using k(3) False len by (simp add: nth_append)
  qed
  moreover have "\<forall>y \<in> set (threads s'). snd y = Ready" using ready by (metis in_set_conv_nth)
  ultimately show "owned s'" unfolding owned_def by blast
qed

lemma owned_step:
  assumes own: "owned s" and st: "step allow code e s = Some s'"
  obtains (act) t p c k r where "e = Exec t r" "t < length (threads s)" "threads s ! t = (p, Ready)" "code p = Do c k" "allow p r"
      "perform code c k p t r s = Some s'" "acted code c k t r s s'"
  | (halt) t r where "e = Exec t r" "ended s' \<noteq> None" "mtx s' = mtx s" "threads s' = threads s"
      "mem s' = mem s" "now s' = now s"
  | (tick) "e = Tick" "s' = s\<lparr>now := now s + 1\<rparr>"
proof -
  have ready: "snd (threads s ! t) = Ready" if "t < length (threads s)" for t using own that by (auto simp: owned_def)
  show ?thesis
  proof (cases e)
    case (Exec t r)
    then have t: "t < length (threads s)" and ex: "exec_thread allow code t r s = Some s'"
      using st by (auto split: if_splits)
    obtain p where px: "threads s ! t = (p, Ready)" using ready [OF t] by (cases "threads s ! t") auto
    show ?thesis
    proof (cases "code p")
      case (Do c k)
      with ex px have pf: "perform code c k p t r s = Some s'" and al: "allow p r"
        by (auto simp: exec_thread_def split: if_splits)
      have "\<not> slept code c p t s s'" using never_waits Do by (auto simp: slept_def)
      with perform_effect [OF pf t] px consider "acted code c k t r s s'" | "s' = halt Undefined s" by auto
      then show ?thesis
      proof cases
        case 1
        show ?thesis by (rule act [OF Exec t px Do al pf 1])
      next
        case 2
        then show ?thesis by (intro halt [of t r]) (use Exec in \<open>auto simp: halt_def\<close>)
      qed
    next
      case (Halt res)
      with ex px have "s' = Machine.halt res s" by (simp add: exec_thread_def)
      then show ?thesis by (intro halt [of t r]) (use Exec in \<open>auto simp: halt_def\<close>)
    qed (use ex px in \<open>simp add: exec_thread_def\<close>)
  next
    case (Notify t u)
    then have "t < length (threads s)" "u < length (threads s)" "on_cond c (threads s ! u) \<Longrightarrow> False" for c
      using st ready by (auto simp: notify_thread_def split: if_splits prod.splits tstat.splits act.splits call.splits)
        (cases "threads s ! u"; fastforce)+
    then show ?thesis
      using st Notify by (auto simp: notify_thread_def split: if_splits prod.splits tstat.splits act.splits call.splits)
  next
    case (Spurious u)
    then show ?thesis using st ready [of u]
      by (auto simp: wake_thread_def split: if_splits prod.splits tstat.splits)
  next
    case (Timeout u)
    then show ?thesis using st ready [of u]
      by (auto simp: wake_thread_def split: if_splits prod.splits tstat.splits)
  next
    case (Cancel u)
    then show ?thesis using st ready [of u]
      by (auto simp: wake_thread_def split: if_splits prod.splits tstat.splits)
  next
    case Tick
    then show ?thesis using st tick by (simp split: if_splits)
  qed
qed

lemma owned_reach: "reach allow code s0 s \<Longrightarrow> owned s0 \<Longrightarrow> owned s"
proof (induction rule: reach.induct)
  case (reach_step s e s')
  then have own: "owned s" by simp
  from own reach_step.hyps(2) show ?case
  proof (cases rule: owned_step)
    case (act t p c k r)
    show ?thesis by (rule owned_act(1) [OF own act(2-7)])
  next
    case (halt t r)
    then show ?thesis by (intro owned_same [OF own]) auto
  next
    case tick
    then show ?thesis by (intro owned_same [OF own]) auto
  qed
qed

theorem owned_invariant [consumes 2, case_names start tick move]:
  assumes "reach allow code s0 s" and "owned s0"
    and start: "I (now s0) (mem s0) (pcs s0)"
    and tick: "\<And>n m ps. I n m ps \<Longrightarrow> I (n + 1) m ps"
    and move: "\<And>n m ps t c k r m' p'.
       I n m ps \<Longrightarrow> t < length ps \<Longrightarrow> ok (ps ! t) \<Longrightarrow> code (ps ! t) = Do c k \<Longrightarrow> allow (ps ! t) r \<Longrightarrow>
       answer_ok c r m n \<Longrightarrow> k r (entry_mem c r (length ps) m) = (m', p') \<Longrightarrow>
       (\<forall>x. c = Unlock x \<longrightarrow> x \<in> holds (ps ! t)) \<Longrightarrow>
       (\<forall>u. c = Join u \<and> r = 0 \<longrightarrow> u < length ps \<and> (\<exists>v. code (ps ! u) = Return v)) \<Longrightarrow>
       I n m' ((ps[t := p']) @ spawned c r)"
  shows "I (now s) (mem s) (pcs s)"
  using assms(1)
proof (induction rule: reach.induct)
  case (reach_step s e s')
  note own = owned_reach [OF reach_step.hyps(1) assms(2)]
  from own reach_step.hyps(2) show ?case
  proof (cases rule: owned_step)
    case (act t p c k r)
    obtain p' where k: "answer_ok c r (mem s) (now s)" "now s' = now s"
        "k r (entry_mem c r (length (threads s)) (mem s)) = (mem s', p')"
        "pcs s' = (pcs s)[t := p'] @ spawned c r"
      using act(7) by (auto simp: acted_def returned_def)
    have tp: "pcs s ! t = p" "ok (pcs s ! t)" using act(2,3) ownedD(3) [OF own act(2)] by simp_all
    note own' = owned_act(2,3) [OF own act(2-7)]
    have "I (now s) (mem s') ((pcs s)[t := p'] @ spawned c r)"
    proof (rule move [OF reach_step.IH _ tp(2)])
      show "code (pcs s ! t) = Do c k" "allow (pcs s ! t) r" "t < length (pcs s)" using act(2,4,5) tp(1) by simp_all
      show "\<forall>x. c = Unlock x \<longrightarrow> x \<in> holds (pcs s ! t)" using own'(1) tp(1) by simp
      show "\<forall>u. c = Join u \<and> r = 0 \<longrightarrow> u < length (pcs s) \<and> (\<exists>v. code (pcs s ! u) = Return v)"
        using own'(2) by (simp only: length_map)
    qed (use k(1,3) in simp_all)
    then show ?thesis using k by simp
  qed (use reach_step.IH tick in auto)
qed (rule start)

end

section \<open>Programs that always end\<close>

text \<open>Every step of a thread lowers the rank of its point by more than the ranks of the threads it starts: the
  number of steps of a run is bounded.\<close>

locale ranked_points = lock_ownership allow code holds ok
  for allow :: "'p policy"
    and code :: "'p \<Rightarrow> ('m, 'c, 's, 'p) act"
    and holds :: "'p \<Rightarrow> 'm set"
    and ok :: "'p \<Rightarrow> bool" +
  fixes rank :: "'p \<Rightarrow> nat"
  assumes ranks: "ok p \<Longrightarrow> code p = Do c k \<Longrightarrow> allow p r \<Longrightarrow> answer_ok c r m n \<Longrightarrow> k r m' = (m'', p') \<Longrightarrow>
      (\<forall>x. c = Unlock x \<longrightarrow> x \<in> holds p) \<Longrightarrow> rank p' + sum_list (map rank (spawned c r)) < rank p"
begin

lemma sum_list_rank_update:
  "t < length ps \<Longrightarrow> sum_list (map rank (ps[t := p'])) + rank (ps ! t) = sum_list (map rank ps) + rank p'"
proof (induction ps arbitrary: t)
  case (Cons p ps)
  then show ?case by (cases t) auto
qed simp

lemma ended_run: "run allow code es s = Some s' \<Longrightarrow> ended s \<noteq> None \<Longrightarrow> es = []"
proof (cases es)
  case (Cons e es')
  assume "run allow code es s = Some s'" "ended s \<noteq> None"
  then show ?thesis using Cons by (cases e) auto
qed

theorem bounded_run:
  assumes "run allow code es s = Some s'" and "owned s"
  shows "length (filter acts es) \<le> Suc (sum_list (map rank (pcs s)))"
  using assms
proof (induction es arbitrary: s)
  case (Cons e es)
  obtain s1 where s1: "step allow code e s = Some s1" "run allow code es s1 = Some s'"
    using Cons.prems(1) by (auto split: option.splits)
  have own1: "owned s1"
    by (rule owned_reach [OF reach_step [OF reach_start s1(1)] Cons.prems(2)])
  from Cons.prems(2) s1(1) show ?case
  proof (cases rule: owned_step)
    case (act t p c k r)
    obtain p' where k: "answer_ok c r (mem s) (now s)"
        "k r (entry_mem c r (length (threads s)) (mem s)) = (mem s1, p')"
        "pcs s1 = (pcs s)[t := p'] @ spawned c r"
      using act(7) by (auto simp: acted_def returned_def)
    have p: "pcs s ! t = p" "ok p" using act(2,3) ownedD(3) [OF Cons.prems(2) act(2)] by simp_all
    have "rank p' + sum_list (map rank (spawned c r)) < rank p"
      by (rule ranks [OF p(2) act(4,5) k(1,2) owned_act(2) [OF Cons.prems(2) act(2-7)]])
    moreover have "sum_list (map rank (pcs s1)) = sum_list (map rank ((pcs s)[t := p'])) + sum_list (map rank (spawned c r))"
      unfolding k(3) by simp
    moreover have "sum_list (map rank ((pcs s)[t := p'])) + rank (pcs s ! t) = sum_list (map rank (pcs s)) + rank p'"
      by (rule sum_list_rank_update) (use act(2) in simp)
    ultimately have "sum_list (map rank (pcs s1)) < sum_list (map rank (pcs s))" unfolding p(1) by linarith
    then show ?thesis using Cons.IH [OF s1(2) own1] act(1) by simp
  next
    case (halt t r)
    then show ?thesis using ended_run [OF s1(2)] by simp
  next
    case tick
    then show ?thesis using Cons.IH [OF s1(2) own1] by simp
  qed
qed simp

end

end
