(* ===== verification/Backoff.thy ===== *)
theory Backoff
  imports Ownership Calls
begin

text \<open>
  \<^verbatim>\<open>chap3-sync/backoff.cc\<close>: two threads take the same three mutexes in opposite orders, ten times. With
  \<^verbatim>\<open>backoff\<close> set they try the second and third mutex and give back what they have when one of
  them is taken. \<open>ITERATIONS\<close> and the flags are as in the source; the flags are parameters of the
  system, since the source invites to change them.
\<close>

section \<open>The data\<close>

definition ITERATIONS :: int where "ITERATIONS = 10"

datatype way = Forward | Backward

text \<open>What the threads print.\<close>

datatype report = Backing_off way int | Got way int | Got_all way int

text \<open>\<open>forward\<close> and \<open>backward\<close> are the thread identifiers, local to \<^verbatim>\<open>main\<close>.\<close>

record backoffs =
  backoff :: int
  yield_flag :: int
  forward :: "tid option"
  backward :: "tid option"
  reports :: "report list"

definition say :: "report \<Rightarrow> backoffs \<Rightarrow> backoffs" where
  "say x m = m\<lparr>reports := reports m @ [x]\<rparr>"

section \<open>Forward\<close>

text \<open>\<open>n\<close> is \<^verbatim>\<open>iterate\<close>, \<open>b\<close> is \<^verbatim>\<open>backoffs\<close>; the mutexes are numbered as in the array.\<close>

datatype lf_pc =
    LF_start | LF_first int int | LF_try int int int | LF_lock int int int | LF_back int int int
  | LF_yield int int int | LF_unlock int int | LF_sched int | LF_return | LF_abort

definition lf_for :: "int \<Rightarrow> backoffs \<Rightarrow> backoffs \<times> lf_pc" where
  "lf_for n m = (m, if n < ITERATIONS then LF_first n 0 else LF_return)"

text \<open>The end of the body of the inner loop, and its head.\<close>

definition lf_next :: "int \<Rightarrow> int \<Rightarrow> int \<Rightarrow> backoffs \<Rightarrow> backoffs \<times> lf_pc" where
  "lf_next n b i m =
     (if i + 1 < 3
      then (m, if i + 1 = 0 then LF_first n b
               else if backoff m \<noteq> 0 then LF_try n b (i + 1) else LF_lock n b (i + 1))
      else (say (Got_all Forward b) m, LF_unlock n 2))"

definition lf_yield :: "int \<Rightarrow> int \<Rightarrow> int \<Rightarrow> backoffs \<Rightarrow> backoffs \<times> lf_pc" where
  "lf_yield n b i m = (if yield_flag m \<noteq> 0 then (m, LF_yield n b i) else lf_next n b i m)"

definition lf_got :: "int \<Rightarrow> int \<Rightarrow> int \<Rightarrow> int \<Rightarrow> backoffs \<Rightarrow> backoffs \<times> lf_pc" where
  "lf_got n b i status m =
     (if status = EBUSY then (say (Backing_off Forward i) m, LF_back n (b + 1) i)
      else if status \<noteq> 0 then (m, LF_abort)
      else lf_yield n b i (say (Got Forward i) m))"

fun lock_forward :: "lf_pc \<Rightarrow> (int, unit, backoffs, lf_pc) act" where
  "lock_forward LF_start = Do Tau (\<lambda>_. lf_for 0)"
| "lock_forward (LF_first n b) =
     Do (Lock 0) (\<lambda>status m. if status \<noteq> 0 then (m, LF_abort) else lf_yield n b 0 m)"
| "lock_forward (LF_try n b i) = Do (Trylock i) (lf_got n b i)"
| "lock_forward (LF_lock n b i) = Do (Lock i) (lf_got n b i)"
| "lock_forward (LF_back n b i) =
     Do (Unlock i) (\<lambda>status m.
       if status \<noteq> 0 then (m, LF_abort)
       else if i - 1 \<ge> 0 then (m, LF_back n b (i - 1)) else lf_yield n b (i - 1) m)"
| "lock_forward (LF_yield n b i) = Do (Env (\<lambda>_ _. True)) (\<lambda>_. lf_next n b i)"
| "lock_forward (LF_unlock n i) = Do (Unlock i) (goto (if i > 0 then LF_unlock n (i - 1) else LF_sched n))"
| "lock_forward (LF_sched n) = Do (Env (\<lambda>_ _. True)) (\<lambda>_. lf_for (n + 1))"
| "lock_forward LF_return = Return 0"
| "lock_forward LF_abort = Halt Aborted"

section \<open>Backward\<close>

datatype lb_pc =
    LB_start | LB_first int int | LB_try int int int | LB_lock int int int | LB_back int int int
  | LB_yield int int int | LB_unlock int int int | LB_sched int int | LB_return | LB_abort

definition lb_for :: "int \<Rightarrow> int \<Rightarrow> backoffs \<Rightarrow> backoffs \<times> lb_pc" where
  "lb_for n b m = (m, if n < ITERATIONS then LB_first n b else LB_return)"

definition lb_next :: "int \<Rightarrow> int \<Rightarrow> int \<Rightarrow> backoffs \<Rightarrow> backoffs \<times> lb_pc" where
  "lb_next n b i m =
     (if i - 1 \<ge> 0
      then (m, if i - 1 = 2 then LB_first n b
               else if backoff m \<noteq> 0 then LB_try n b (i - 1) else LB_lock n b (i - 1))
      else (say (Got_all Backward b) m, LB_unlock n b 0))"

definition lb_yield :: "int \<Rightarrow> int \<Rightarrow> int \<Rightarrow> backoffs \<Rightarrow> backoffs \<times> lb_pc" where
  "lb_yield n b i m = (if yield_flag m \<noteq> 0 then (m, LB_yield n b i) else lb_next n b i m)"

definition lb_got :: "int \<Rightarrow> int \<Rightarrow> int \<Rightarrow> int \<Rightarrow> backoffs \<Rightarrow> backoffs \<times> lb_pc" where
  "lb_got n b i status m =
     (if status = EBUSY then (say (Backing_off Backward i) m, LB_back n (b + 1) i)
      else if status \<noteq> 0 then (m, LB_abort)
      else lb_yield n b i (say (Got Backward i) m))"

fun lock_backward :: "lb_pc \<Rightarrow> (int, unit, backoffs, lb_pc) act" where
  "lock_backward LB_start = Do Tau (\<lambda>_. lb_for 0 0)"
| "lock_backward (LB_first n b) =
     Do (Lock 2) (\<lambda>status m. if status \<noteq> 0 then (m, LB_abort) else lb_next n b 2 m)"
| "lock_backward (LB_try n b i) = Do (Trylock i) (lb_got n b i)"
| "lock_backward (LB_lock n b i) = Do (Lock i) (lb_got n b i)"
| "lock_backward (LB_back n b i) =
     Do (Unlock i) (\<lambda>status m.
       if status \<noteq> 0 then (m, LB_abort)
       else if i + 1 < 3 then (m, LB_back n b (i + 1)) else lb_yield n b (i + 1) m)"
| "lock_backward (LB_yield n b i) = Do (Env (\<lambda>_ _. True)) (\<lambda>_. lb_next n b i)"
| "lock_backward (LB_unlock n b i) = Do (Unlock i) (goto (if i < 2 then LB_unlock n b (i + 1) else LB_sched n b))"
| "lock_backward (LB_sched n b) = Do (Env (\<lambda>_ _. True)) (\<lambda>_. lb_for (n + 1) b)"
| "lock_backward LB_return = Return 0"
| "lock_backward LB_abort = Halt Aborted"

section \<open>The main program\<close>

text \<open>The results of the joins are not looked at; \<open>BO_crash\<close> is the use of an identifier that
  was not stored.\<close>

datatype bo_pc =
    BO_create1 | BO_create2 | BO_join1 tid | BO_join2 tid | BO_exit | BO_abort | BO_crash
  | BO_forward lf_pc | BO_backward lb_pc

definition bo_joins :: "backoffs \<Rightarrow> backoffs \<times> bo_pc" where
  "bo_joins m = (m, case forward m of None \<Rightarrow> BO_crash | Some u \<Rightarrow> BO_join1 u)"

fun backoff_main :: "bo_pc \<Rightarrow> (int, unit, backoffs, bo_pc) act" where
  "backoff_main BO_create1 =
     Do (Create (\<lambda>u m. m\<lparr>forward := Some u\<rparr>) (BO_forward LF_start)) (checked BO_abort BO_create2)"
| "backoff_main BO_create2 =
     Do (Create (\<lambda>u m. m\<lparr>backward := Some u\<rparr>) (BO_backward LB_start))
       (\<lambda>status m. if status \<noteq> 0 then (m, BO_abort) else bo_joins m)"
| "backoff_main (BO_join1 u) =
     Do (Join u) (\<lambda>_ m. (m, case backward m of None \<Rightarrow> BO_crash | Some u' \<Rightarrow> BO_join2 u'))"
| "backoff_main (BO_join2 u) = Do (Join u) (goto BO_exit)"
| "backoff_main BO_exit = Halt (Exited 0)"
| "backoff_main BO_abort = Halt Aborted"
| "backoff_main BO_crash = Halt Undefined"
| "backoff_main (BO_forward p) = thread_fun BO_forward (lock_forward p)"
| "backoff_main (BO_backward p) = thread_fun BO_backward (lock_backward p)"

definition bo_mem :: "int \<Rightarrow> int \<Rightarrow> backoffs" where
  "bo_mem f y = \<lparr>backoff = f, yield_flag = y, forward = None, backward = None, reports = []\<rparr>"

definition bo_system :: "int \<Rightarrow> int \<Rightarrow> (int, unit, backoffs, bo_pc) sys" where
  "bo_system f y = boot (bo_mem f y) [BO_create1]"

section \<open>The mutexes\<close>

fun lf_holds :: "lf_pc \<Rightarrow> int set" where
  "lf_holds (LF_try n b i) = {0..<i}"
| "lf_holds (LF_lock n b i) = {0..<i}"
| "lf_holds (LF_back n b i) = {0..<i}"
| "lf_holds (LF_yield n b i) = {0..i}"
| "lf_holds (LF_unlock n i) = {0..i}"
| "lf_holds p = {}"

fun lb_holds :: "lb_pc \<Rightarrow> int set" where
  "lb_holds (LB_try n b i) = {i<..2}"
| "lb_holds (LB_lock n b i) = {i<..2}"
| "lb_holds (LB_back n b i) = {i<..2}"
| "lb_holds (LB_yield n b i) = {i..2}"
| "lb_holds (LB_unlock n b i) = {i..2}"
| "lb_holds p = {}"

fun bo_holds :: "bo_pc \<Rightarrow> int set" where
  "bo_holds (BO_forward p) = lf_holds p"
| "bo_holds (BO_backward p) = lb_holds p"
| "bo_holds p = {}"

text \<open>The points the threads get to: nobody gets past the first step of backing off.\<close>

fun lf_ok :: "lf_pc \<Rightarrow> bool" where
  "lf_ok (LF_first n b) \<longleftrightarrow> 0 \<le> n \<and> n < 10 \<and> b = 0"
| "lf_ok (LF_try n b i) \<longleftrightarrow> 0 \<le> n \<and> n < 10 \<and> b = 0 \<and> 1 \<le> i \<and> i \<le> 2"
| "lf_ok (LF_lock n b i) \<longleftrightarrow> 0 \<le> n \<and> n < 10 \<and> b = 0 \<and> 1 \<le> i \<and> i \<le> 2"
| "lf_ok (LF_back n b i) \<longleftrightarrow> 1 \<le> i \<and> i \<le> 2"
| "lf_ok (LF_yield n b i) \<longleftrightarrow> 0 \<le> n \<and> n < 10 \<and> b = 0 \<and> 0 \<le> i \<and> i \<le> 2"
| "lf_ok (LF_unlock n i) \<longleftrightarrow> 0 \<le> n \<and> n < 10 \<and> 0 \<le> i \<and> i \<le> 2"
| "lf_ok (LF_sched n) \<longleftrightarrow> 0 \<le> n \<and> n < 10"
| "lf_ok p \<longleftrightarrow> True"

fun lb_ok :: "lb_pc \<Rightarrow> bool" where
  "lb_ok (LB_first n b) \<longleftrightarrow> 0 \<le> n \<and> n < 10 \<and> b = 0"
| "lb_ok (LB_try n b i) \<longleftrightarrow> 0 \<le> n \<and> n < 10 \<and> b = 0 \<and> 0 \<le> i \<and> i \<le> 1"
| "lb_ok (LB_lock n b i) \<longleftrightarrow> 0 \<le> n \<and> n < 10 \<and> b = 0 \<and> 0 \<le> i \<and> i \<le> 1"
| "lb_ok (LB_back n b i) \<longleftrightarrow> 0 \<le> i \<and> i \<le> 1"
| "lb_ok (LB_yield n b i) \<longleftrightarrow> 0 \<le> n \<and> n < 10 \<and> b = 0 \<and> 0 \<le> i \<and> i \<le> 2"
| "lb_ok (LB_unlock n b i) \<longleftrightarrow> 0 \<le> n \<and> n < 10 \<and> b = 0 \<and> 0 \<le> i \<and> i \<le> 2"
| "lb_ok (LB_sched n b) \<longleftrightarrow> 0 \<le> n \<and> n < 10 \<and> b = 0"
| "lb_ok p \<longleftrightarrow> True"

fun bo_ok :: "bo_pc \<Rightarrow> bool" where
  "bo_ok (BO_forward p) \<longleftrightarrow> lf_ok p"
| "bo_ok (BO_backward p) \<longleftrightarrow> lb_ok p"
| "bo_ok p \<longleftrightarrow> True"

lemmas lf_defs = lf_for_def lf_next_def lf_yield_def lf_got_def ITERATIONS_def
lemmas lb_defs = lb_for_def lb_next_def lb_yield_def lb_got_def ITERATIONS_def

text \<open>The number of steps a thread can still make: an iteration has at most ten.\<close>

fun lf_rank :: "lf_pc \<Rightarrow> nat" where
  "lf_rank LF_start = 101"
| "lf_rank (LF_first n b) = nat (10 * (10 - n))"
| "lf_rank (LF_yield n b i) = nat (10 * (10 - n) - 1 - 2 * i)"
| "lf_rank (LF_try n b i) = nat (10 * (10 - n) - 2 * i)"
| "lf_rank (LF_lock n b i) = nat (10 * (10 - n) - 2 * i)"
| "lf_rank (LF_back n b i) = 1"
| "lf_rank (LF_unlock n i) = nat (10 * (10 - n) - 8 + i)"
| "lf_rank (LF_sched n) = nat (10 * (10 - n) - 9)"
| "lf_rank p = 0"

fun lb_rank :: "lb_pc \<Rightarrow> nat" where
  "lb_rank LB_start = 101"
| "lb_rank (LB_first n b) = nat (10 * (10 - n))"
| "lb_rank (LB_yield n b i) = nat (10 * (10 - n) - 5 + 2 * i)"
| "lb_rank (LB_try n b i) = nat (10 * (10 - n) - 4 + 2 * i)"
| "lb_rank (LB_lock n b i) = nat (10 * (10 - n) - 4 + 2 * i)"
| "lb_rank (LB_back n b i) = 1"
| "lb_rank (LB_unlock n b i) = nat (10 * (10 - n) - 6 - i)"
| "lb_rank (LB_sched n b) = nat (10 * (10 - n) - 9)"
| "lb_rank p = 0"

fun bo_rank :: "bo_pc \<Rightarrow> nat" where
  "bo_rank (BO_forward p) = lf_rank p"
| "bo_rank (BO_backward p) = lb_rank p"
| "bo_rank BO_create1 = 206"
| "bo_rank BO_create2 = 104"
| "bo_rank (BO_join1 u) = 2"
| "bo_rank (BO_join2 u) = 1"
| "bo_rank p = 0"

lemma lf_step:
  assumes "lock_forward p = Do c k" and "k r m = (m', p')"
  shows "lf_holds p' \<subseteq> held_after c r (lf_holds p)" "spawned c r = []" "c \<noteq> wait_call d x l"
proof -
  have "lf_holds p' \<subseteq> held_after c r (lf_holds p) \<and> spawned c r = [] \<and> c \<noteq> wait_call d x l"
    using assms by (cases p) (auto simp: lf_defs wait_call_def split: if_splits option.splits)
  then show "lf_holds p' \<subseteq> held_after c r (lf_holds p)" "spawned c r = []" "c \<noteq> wait_call d x l" by blast+
qed

lemma lf_owns:
  assumes "lock_forward p = Do c k" and "k r m = (m', p')" and "lf_ok p" and "\<forall>x. c = Unlock x \<longrightarrow> x \<in> lf_holds p"
  shows "lf_ok p'" "held_after c r (lf_holds p) \<subseteq> lf_holds p' \<or> p' = LF_abort" "lf_rank p' < lf_rank p"
proof -
  have "lf_ok p' \<and> (held_after c r (lf_holds p) \<subseteq> lf_holds p' \<or> p' = LF_abort) \<and> lf_rank p' < lf_rank p"
    using assms by (cases p) (auto simp: lf_defs split: if_splits)
  then show "lf_ok p'" "held_after c r (lf_holds p) \<subseteq> lf_holds p' \<or> p' = LF_abort" "lf_rank p' < lf_rank p" by blast+
qed

lemma lb_step:
  assumes "lock_backward p = Do c k" and "k r m = (m', p')"
  shows "lb_holds p' \<subseteq> held_after c r (lb_holds p)" "spawned c r = []" "c \<noteq> wait_call d x l"
proof -
  have "lb_holds p' \<subseteq> held_after c r (lb_holds p) \<and> spawned c r = [] \<and> c \<noteq> wait_call d x l"
    using assms by (cases p) (auto simp: lb_defs wait_call_def split: if_splits option.splits)
  then show "lb_holds p' \<subseteq> held_after c r (lb_holds p)" "spawned c r = []" "c \<noteq> wait_call d x l" by blast+
qed

lemma lb_owns:
  assumes "lock_backward p = Do c k" and "k r m = (m', p')" and "lb_ok p" and "\<forall>x. c = Unlock x \<longrightarrow> x \<in> lb_holds p"
  shows "lb_ok p'" "held_after c r (lb_holds p) \<subseteq> lb_holds p' \<or> p' = LB_abort" "lb_rank p' < lb_rank p"
proof -
  have "lb_ok p' \<and> (held_after c r (lb_holds p) \<subseteq> lb_holds p' \<or> p' = LB_abort) \<and> lb_rank p' < lb_rank p"
    using assms by (cases p) (auto simp: lb_defs split: if_splits)
  then show "lb_ok p'" "held_after c r (lb_holds p) \<subseteq> lb_holds p' \<or> p' = LB_abort" "lb_rank p' < lb_rank p" by blast+
qed

lemma backoff_main_cases:
  assumes "backoff_main p = Do c k"
  obtains (fwd) q c0 k0 where "p = BO_forward q" "lock_forward q = Do c0 k0"
      "c = lift_call (\<lambda>s. s) (\<lambda>a s. a) BO_forward c0" "k = (\<lambda>r s. case k0 r s of (s', q') \<Rightarrow> (s', BO_forward q'))"
  | (bwd) q c0 k0 where "p = BO_backward q" "lock_backward q = Do c0 k0"
      "c = lift_call (\<lambda>s. s) (\<lambda>a s. a) BO_backward c0" "k = (\<lambda>r s. case k0 r s of (s', q') \<Rightarrow> (s', BO_backward q'))"
  | (own) "bo_holds p = {}" "(\<forall>q. p \<noteq> BO_forward q) \<and> (\<forall>q. p \<noteq> BO_backward q)"
proof (cases p)
  case (BO_forward q)
  show ?thesis
    by (rule thread_fun_cases [OF assms [unfolded BO_forward backoff_main.simps]]) (rule fwd [OF BO_forward])
next
  case (BO_backward q)
  show ?thesis
    by (rule thread_fun_cases [OF assms [unfolded BO_backward backoff_main.simps]]) (rule bwd [OF BO_backward])
qed (use own in simp_all)

lemma no_spawn:
  "lock_forward p = Do c k \<Longrightarrow> spawned c r = [] \<and> entry_mem c r n m = m"
  "lock_backward q = Do c' k' \<Longrightarrow> spawned c' r = [] \<and> entry_mem c' r n m = m"
  by (cases p; auto) (cases q; auto)

lemma no_destroy: "backoff_main p \<noteq> Do (MDestroy x) k"
proof (cases p)
  case (BO_forward q)
  then show ?thesis by (cases q) auto
next
  case (BO_backward q)
  then show ?thesis by (cases q) auto
qed simp_all

lemma lift_wait: "lift_call get put st c = wait_call d x l \<Longrightarrow> c = wait_call d x l"
  by (cases c) (auto simp: wait_call_def split: option.splits)

lemma lift_unlock: "lift_call get put st c = Unlock x \<longleftrightarrow> c = Unlock x"
  by (cases c) auto

lemma bo_own_step:
  assumes "backoff_main p = Do c k" and "k r m = (m', p')" and "(\<forall>q. p \<noteq> BO_forward q) \<and> (\<forall>q. p \<noteq> BO_backward q)"
  shows "bo_holds p' = {}" "bo_ok p'" "held_after c r {} = {}" "c \<noteq> wait_call d x l"
    "bo_rank p' + sum_list (map bo_rank (spawned c r)) < bo_rank p"
  using assms by (cases p; auto simp: bo_joins_def wait_call_def split: option.splits if_splits)+

lemma bo_moves:
  assumes "backoff_main p = Do c k" and "k r m = (m', p')"
  shows "bo_holds p' \<subseteq> held_after c r (bo_holds p)" "c \<noteq> wait_call d x l"
    "c = Create store q \<Longrightarrow> bo_holds q = {} \<and> bo_ok q"
proof -
  have "bo_holds p' \<subseteq> held_after c r (bo_holds p) \<and> c \<noteq> wait_call d x l \<and>
      (c = Create store q \<longrightarrow> bo_holds q = {} \<and> bo_ok q)"
    using assms(1)
  proof (cases rule: backoff_main_cases)
    case (fwd p0 c0 k0)
    then obtain q' where "k0 r m = (m', q')" "p' = BO_forward q'" using assms(2) by (auto split: prod.splits)
    moreover have "c0 \<noteq> Create st q0" for st q0 using fwd(2) by (cases p0) auto
    then have "c \<noteq> Create store q" using fwd(3) by (cases c0) auto
    ultimately show ?thesis using lf_step [OF fwd(2), of r m] fwd by (auto dest!: lift_wait)
  next
    case (bwd p0 c0 k0)
    then obtain q' where "k0 r m = (m', q')" "p' = BO_backward q'" using assms(2) by (auto split: prod.splits)
    moreover have "c0 \<noteq> Create st q0" for st q0 using bwd(2) by (cases p0) auto
    then have "c \<noteq> Create store q" using bwd(3) by (cases c0) auto
    ultimately show ?thesis using lb_step [OF bwd(2), of r m] bwd by (auto dest!: lift_wait)
  next
    case own
    have "c = Create store q \<Longrightarrow> bo_holds q = {} \<and> bo_ok q" using assms(1) own(2) by (cases p) auto
    then show ?thesis using bo_own_step [OF assms own(2)] by blast
  qed
  then show "bo_holds p' \<subseteq> held_after c r (bo_holds p)" "c \<noteq> wait_call d x l"
    "c = Create store q \<Longrightarrow> bo_holds q = {} \<and> bo_ok q" by simp_all
qed

lemma bo_owns:
  assumes "backoff_main p = Do c k" and "k r m = (m', p')" and "bo_ok p"
    and "\<forall>x. c = Unlock x \<longrightarrow> x \<in> bo_holds p"
  shows "bo_ok p' \<and> (held_after c r (bo_holds p) \<subseteq> bo_holds p' \<or> backoff_main p' = Halt Aborted) \<and>
    bo_rank p' + sum_list (map bo_rank (spawned c r)) < bo_rank p"
  using assms(1)
proof (cases rule: backoff_main_cases)
  case (fwd p0 c0 k0)
  then obtain q' where q': "k0 r m = (m', q')" "p' = BO_forward q'" using assms(2) by (auto split: prod.splits)
  have "\<forall>x. c0 = Unlock x \<longrightarrow> x \<in> lf_holds p0" using assms(4) fwd by (simp add: lift_unlock)
  then show ?thesis using lf_owns [OF fwd(2) q'(1)] lf_step(2) [OF fwd(2) q'(1)] assms(3) fwd q'(2) by fastforce
next
  case (bwd p0 c0 k0)
  then obtain q' where q': "k0 r m = (m', q')" "p' = BO_backward q'" using assms(2) by (auto split: prod.splits)
  have "\<forall>x. c0 = Unlock x \<longrightarrow> x \<in> lb_holds p0" using assms(4) bwd by (simp add: lift_unlock)
  then show ?thesis using lb_owns [OF bwd(2) q'(1)] lb_step(2) [OF bwd(2) q'(1)] assms(3) bwd q'(2) by fastforce
next
  case own
  then show ?thesis using bo_own_step [OF assms(1,2) own(2)] by simp
qed

interpretation bo: ranked_points allow backoff_main bo_holds bo_ok bo_rank
proof unfold_locales
  fix p c r m k and n :: int and m' m'' p'
  assume "backoff_main p = Do c k" "k r m' = (m'', p')"
  then show "bo_holds p' \<subseteq> held_after c r (bo_holds p)" by (rule bo_moves(1))
next
  fix p q and st :: "nat \<Rightarrow> backoffs \<Rightarrow> backoffs" and k :: "int \<Rightarrow> backoffs \<Rightarrow> backoffs \<times> bo_pc"
  assume p: "backoff_main p = Do (Create st q) k"
  obtain m' p' where "k 0 (bo_mem 0 0) = (m', p')" by (cases "k 0 (bo_mem 0 0)")
  then show "bo_holds q = {}" "bo_ok q" using bo_moves(3) [OF p] by blast+
next
  fix p d x l and k :: "int \<Rightarrow> backoffs \<Rightarrow> backoffs \<times> bo_pc"
  show "backoff_main p \<noteq> Do (wait_call d x l) k"
  proof
    assume p: "backoff_main p = Do (wait_call d x l) k"
    obtain m' p' where "k 0 (bo_mem 0 0) = (m', p')" by (cases "k 0 (bo_mem 0 0)")
    then show False using bo_moves(2) [OF p] by blast
  qed
next
  fix p c r m k and n :: int and m' m'' p'
  assume "bo_ok p" "backoff_main p = Do c k" "k r m' = (m'', p')" "\<forall>x. c = Unlock x \<longrightarrow> x \<in> bo_holds p"
  then show "bo_ok p' \<and> (held_after c r (bo_holds p) \<subseteq> bo_holds p' \<or> backoff_main p' = Halt Aborted)"
    "bo_rank p' + sum_list (map bo_rank (spawned c r)) < bo_rank p"
    using bo_owns by blast+
qed

lemma bo_start: "bo.owned (bo_system f y)"
  by (simp add: bo.owned_def bo_system_def)

lemma bo_tracked: "tracked bo_holds (bo_system f y)"
  by (simp add: tracked_def bo_system_def)

section \<open>How the threads of the program stand\<close>

definition count :: "way \<Rightarrow> backoffs \<Rightarrow> nat" where
  "count w m = length (filter (\<lambda>x. x = Got_all w 0) (reports m))"

definition sober :: "backoffs \<Rightarrow> bool" where
  "sober m \<longleftrightarrow> (\<forall>w b. Got_all w b \<in> set (reports m) \<longrightarrow> b = 0)"

lemma say_simps [simp]:
  "count w (say x m) = count w m + (if x = Got_all w 0 then 1 else 0)"
  "sober (say x m) \<longleftrightarrow> sober m \<and> (\<forall>w b. x = Got_all w b \<longrightarrow> b = 0)"
  "forward (say x m) = forward m" "backward (say x m) = backward m" "backoff (say x m) = backoff m"
  "yield_flag (say x m) = yield_flag m"
  by (auto simp: count_def sober_def say_def)

lemma field_simps_count [simp]:
  "count w (m\<lparr>forward := u\<rparr>) = count w m" "count w (m\<lparr>backward := u\<rparr>) = count w m"
  "sober (m\<lparr>forward := u\<rparr>) = sober m" "sober (m\<lparr>backward := u\<rparr>) = sober m"
  by (simp_all add: count_def sober_def)

text \<open>The iterations a thread has done when it is at a point.\<close>

fun lf_done :: "lf_pc \<Rightarrow> int option" where
  "lf_done LF_start = Some 0"
| "lf_done (LF_first n b) = Some n"
| "lf_done (LF_try n b i) = Some n"
| "lf_done (LF_lock n b i) = Some n"
| "lf_done (LF_yield n b i) = Some n"
| "lf_done (LF_unlock n i) = Some (n + 1)"
| "lf_done (LF_sched n) = Some (n + 1)"
| "lf_done LF_return = Some 10"
| "lf_done p = None"

fun lb_done :: "lb_pc \<Rightarrow> int option" where
  "lb_done LB_start = Some 0"
| "lb_done (LB_first n b) = Some n"
| "lb_done (LB_try n b i) = Some n"
| "lb_done (LB_lock n b i) = Some n"
| "lb_done (LB_yield n b i) = Some n"
| "lb_done (LB_unlock n b i) = Some (n + 1)"
| "lb_done (LB_sched n b) = Some (n + 1)"
| "lb_done LB_return = Some 10"
| "lb_done p = None"

fun counted :: "int option \<Rightarrow> nat \<Rightarrow> bool" where
  "counted (Some n) k \<longleftrightarrow> int k = n"
| "counted None k \<longleftrightarrow> True"

fun main_at :: "bo_pc list \<Rightarrow> backoffs \<Rightarrow> bool" where
  "main_at [p] m \<longleftrightarrow> p \<in> {BO_create1, BO_abort} \<and> count Forward m = 0 \<and> count Backward m = 0"
| "main_at [p, BO_forward q] m \<longleftrightarrow>
     p \<in> {BO_create2, BO_abort} \<and> forward m = Some 1 \<and> counted (lf_done q) (count Forward m) \<and> count Backward m = 0"
| "main_at [p, BO_forward q, BO_backward q'] m \<longleftrightarrow>
     p \<in> {BO_join1 1, BO_join2 2, BO_exit} \<and> (p \<noteq> BO_join1 1 \<longrightarrow> q = LF_return) \<and> (p = BO_exit \<longrightarrow> q' = LB_return) \<and>
     forward m = Some 1 \<and> backward m = Some 2 \<and>
     counted (lf_done q) (count Forward m) \<and> counted (lb_done q') (count Backward m)"
| "main_at ps m \<longleftrightarrow> False"

lemma lf_done_step:
  assumes "lock_forward p = Do c k" and "k r m = (m', p')" and "lf_ok p" and "\<forall>x. c = Unlock x \<longrightarrow> x \<in> lf_holds p"
    and "counted (lf_done p) (count Forward m)" and "sober m"
  shows "counted (lf_done p') (count Forward m')" "sober m'" "count Backward m' = count Backward m"
    "forward m' = forward m \<and> backward m' = backward m \<and> backoff m' = backoff m"
proof -
  have "counted (lf_done p') (count Forward m') \<and> sober m' \<and> count Backward m' = count Backward m \<and>
      forward m' = forward m \<and> backward m' = backward m \<and> backoff m' = backoff m"
    using assms by (cases p) (auto simp: lf_defs split: if_splits)
  then show "counted (lf_done p') (count Forward m')" "sober m'" "count Backward m' = count Backward m"
    "forward m' = forward m \<and> backward m' = backward m \<and> backoff m' = backoff m" by simp_all
qed

lemma lb_done_step:
  assumes "lock_backward p = Do c k" and "k r m = (m', p')" and "lb_ok p" and "\<forall>x. c = Unlock x \<longrightarrow> x \<in> lb_holds p"
    and "counted (lb_done p) (count Backward m)" and "sober m"
  shows "counted (lb_done p') (count Backward m')" "sober m'" "count Forward m' = count Forward m"
    "forward m' = forward m \<and> backward m' = backward m \<and> backoff m' = backoff m"
proof -
  have "counted (lb_done p') (count Backward m') \<and> sober m' \<and> count Forward m' = count Forward m \<and>
      forward m' = forward m \<and> backward m' = backward m \<and> backoff m' = backoff m"
    using assms by (cases p) (auto simp: lb_defs split: if_splits)
  then show "counted (lb_done p') (count Backward m')" "sober m'" "count Forward m' = count Forward m"
    "forward m' = forward m \<and> backward m' = backward m \<and> backoff m' = backoff m" by simp_all
qed

text \<open>The joins of the main program succeed.\<close>

fun joining :: "bo_pc \<Rightarrow> bool" where
  "joining (BO_join1 u) \<longleftrightarrow> True"
| "joining (BO_join2 u) \<longleftrightarrow> True"
| "joining p \<longleftrightarrow> False"

definition joins_ok :: "bo_pc policy" where
  "joins_ok p r \<longleftrightarrow> joining p \<longrightarrow> r = 0"

lemma main_at_cases:
  assumes "main_at ps m"
  obtains p where "ps = [p]" | p q where "ps = [p, BO_forward q]" | p q q' where "ps = [p, BO_forward q, BO_backward q']"
  using assms by (cases "(ps, m)" rule: main_at.cases) auto

lemma main_at_step:
  assumes at: "main_at ps m" and so: "sober m" and t: "t < length ps" and ok: "bo_ok (ps ! t)"
    and p: "backoff_main (ps ! t) = Do c k" and al: "joins_ok (ps ! t) r"
    and k: "k r (entry_mem c r (length ps) m) = (m', p')"
    and un: "\<forall>x. c = Unlock x \<longrightarrow> x \<in> bo_holds (ps ! t)"
    and jn: "\<forall>u. c = Join u \<and> r = 0 \<longrightarrow> u < length ps \<and> (\<exists>v. backoff_main (ps ! u) = Return v)"
  shows "main_at (ps[t := p'] @ spawned c r) m' \<and> sober m'"
  using p
proof (cases rule: backoff_main_cases)
  case (fwd q c0 k0)
  obtain q' where q': "k0 r m = (m', q')" "p' = BO_forward q'" "spawned c r = []"
    using k fwd(3,4) no_spawn(1) [OF fwd(2)] by (cases "k0 r m") auto
  have un0: "\<forall>x. c0 = Unlock x \<longrightarrow> x \<in> lf_holds q" using un fwd by (simp add: lift_unlock)
  have t1: "t = 1" using at at fwd(1) t by (cases rule: main_at_cases) (auto simp: less_Suc_eq nth_Cons')
  have "counted (lf_done q) (count Forward m)"
    using at at fwd(1) t by (cases rule: main_at_cases) (auto simp: less_Suc_eq nth_Cons')
  note D = lf_done_step [OF fwd(2) q'(1) _ un0 this so]
  have nr: "q \<noteq> LF_return" using fwd(2) by auto
  from at show ?thesis
    by (cases rule: main_at_cases) (use D nr t t1 at ok fwd(1) q' in auto)
next
  case (bwd q c0 k0)
  obtain q' where q': "k0 r m = (m', q')" "p' = BO_backward q'" "spawned c r = []"
    using k bwd(3,4) no_spawn(2) [OF bwd(2)] by (cases "k0 r m") auto
  have un0: "\<forall>x. c0 = Unlock x \<longrightarrow> x \<in> lb_holds q" using un bwd by (simp add: lift_unlock)
  have t1: "t = 2" using at at bwd(1) t by (cases rule: main_at_cases) (auto simp: less_Suc_eq nth_Cons')
  have "counted (lb_done q) (count Backward m)"
    using at at bwd(1) t by (cases rule: main_at_cases) (auto simp: less_Suc_eq nth_Cons')
  note D = lb_done_step [OF bwd(2) q'(1) _ un0 this so]
  have nr: "q \<noteq> LB_return" using bwd(2) by auto
  from at show ?thesis
    by (cases rule: main_at_cases) (use D nr t t1 at ok bwd(1) q' in auto)
next
  case own
  have "t = 0" using at at own(2) t by (cases rule: main_at_cases) (auto simp: less_Suc_eq nth_Cons')
  from at show ?thesis
  proof (cases rule: main_at_cases)
    case (1 p)
    then show ?thesis using at so p k \<open>t = 0\<close> by (auto split: if_splits)
  next
    case (2 p q)
    then show ?thesis using at so p k \<open>t = 0\<close> by (auto simp: bo_joins_def split: if_splits)
  next
    case (3 p q q')
    have "q = LF_return" if "backoff_main (BO_forward q) = Return v" for v using that by (cases q) auto
    moreover have "q' = LB_return" if "backoff_main (BO_backward q') = Return v" for v using that by (cases q') auto
    ultimately show ?thesis using 3 at so p k jn al \<open>t = 0\<close> by (auto simp: joins_ok_def)
  qed
qed

lemma main_at_reach:
  assumes "reach joins_ok backoff_main (bo_system f y) s"
  shows "main_at (pcs s) (mem s) \<and> sober (mem s)"
  using assms bo_start
proof (induction rule: bo.owned_invariant)
  case start
  show ?case by (simp add: bo_system_def bo_mem_def count_def sober_def)
next
  case (tick n m ps)
  then show ?case .
next
  case (move n m ps t c k r m' p')
  then show ?case using main_at_step by blast
qed

section \<open>The properties\<close>

text \<open>C24. Whatever the scheduler does, the program ends: no run makes more than 207 steps. Both values of
  \<open>backoff\<close>, every status the calls may return.\<close>
theorem backoff_always_ends:
  assumes "run any_status backoff_main es (bo_system f y) = Some s"
  shows "length (filter acts es) \<le> 207"
  using bo.bounded_run [OF assms bo_start] by (simp add: bo_system_def)

text \<open>The events of a run in which the backward thread stays behind while the forward thread takes two mutexes.\<close>

definition contest :: "event list" where
  "contest = map (Exec 0) [0, 0] @ map (Exec 1) [0, 0, 0] @ map (Exec 2) [0, 0, EBUSY]"

theorem backoff_always_ends_witness:
  "run any_status backoff_main contest (bo_system 1 0) \<noteq> None \<and> length (filter acts contest) \<le> 207"
proof -
  have "map_option (\<lambda>s. pcs s ! 2) (run any_status backoff_main contest (bo_system 1 0)) =
      Some (BO_backward (LB_back 0 1 1))" by code_simp
  then obtain s where "run any_status backoff_main contest (bo_system 1 0) = Some s" by auto
  then show ?thesis using backoff_always_ends by blast
qed

text \<open>Backing off is never done: a thread that finds a mutex taken unlocks that mutex first, which it does not
  have, so that its next step is undefined, and no thread that reports all its mutexes has backed off.
  Every status the calls may return.\<close>
theorem backing_off_undefined:
  assumes "reach any_status backoff_main (bo_system f y) s"
  shows "(\<forall>w b. Got_all w b \<in> set (reports (mem s)) \<longrightarrow> b = 0) \<and>
    (\<forall>t n b i r s'. t < length (threads s) \<and>
       (pcs s ! t = BO_forward (LF_back n b i) \<or> pcs s ! t = BO_backward (LB_back n b i)) \<and>
       step any_status backoff_main (Exec t r) s = Some s' \<longrightarrow> ended s' = Some Undefined)"
proof (intro conjI allI impI)
  have "sober (mem s)" using assms bo_start
  proof (induction rule: bo.owned_invariant)
    case start
    show ?case by (simp add: bo_system_def bo_mem_def sober_def)
  next
    case (tick n m ps)
    then show ?case .
  next
    case (move n m ps t c k r m' p')
    from move(4) show ?case
    proof (cases rule: backoff_main_cases)
      case (fwd q c0 k0)
      then obtain q' where "k0 r m = (m', q')" using move(7) no_spawn(1) [OF fwd(2)] by (cases "k0 r m") auto
      then show ?thesis using fwd(1,2) move(1,3)
        by (cases q) (auto simp: lf_defs split: if_splits)
    next
      case (bwd q c0 k0)
      then obtain q' where "k0 r m = (m', q')" using move(7) no_spawn(2) [OF bwd(2)] by (cases "k0 r m") auto
      then show ?thesis using bwd(1,2) move(1,3)
        by (cases q) (auto simp: lb_defs split: if_splits)
    next
      case own
      then show ?thesis using move(1,4,7) by (cases "ps ! t") (auto simp: bo_joins_def split: if_splits)
    qed
  qed
  then show "b = 0" if "Got_all w b \<in> set (reports (mem s))" for w b using that by (auto simp: sober_def)
next
  fix t n b i r s'
  assume a: "t < length (threads s) \<and>
       (pcs s ! t = BO_forward (LF_back n b i) \<or> pcs s ! t = BO_backward (LB_back n b i)) \<and>
       step any_status backoff_main (Exec t r) s = Some s'"
  have own: "bo.owned s" by (rule bo.owned_reach [OF assms bo_start])
  have th: "threads s ! t = (pcs s ! t, Ready)" using a bo.ownedD(2) [OF own, of t] by (cases "threads s ! t") auto
  obtain k where k: "backoff_main (pcs s ! t) = Do (Unlock i) k" "i \<notin> bo_holds (pcs s ! t)" using a by auto
  have "mtx s i \<noteq> Held t" using bo.ownedD(1) [OF own, of i t] k by auto
  moreover have "exec_thread any_status backoff_main t r s = Some s'" using a by (auto split: if_splits)
  ultimately show "ended s' = Some Undefined"
    using th k(1) by (auto simp: exec_thread_def halt_def split: if_splits)
qed

theorem backing_off_undefined_witness:
  "case run any_status backoff_main contest (bo_system 1 0) of
     Some s \<Rightarrow> pcs s ! 2 = BO_backward (LB_back 0 1 1) \<and>
       (\<forall>r s'. step any_status backoff_main (Exec 2 r) s = Some s' \<longrightarrow> ended s' = Some Undefined) | None \<Rightarrow> False"
  (is "case ?r of Some s \<Rightarrow> ?P s | None \<Rightarrow> False")
proof -
  have "map_option (\<lambda>s. (length (threads s), pcs s ! 2)) ?r = Some (3, BO_backward (LB_back 0 1 1))" by code_simp
  then obtain s where s: "?r = Some s" "length (threads s) = 3" "pcs s ! 2 = BO_backward (LB_back 0 1 1)" by auto
  have "ended s' = Some Undefined" if "step any_status backoff_main (Exec 2 r) s = Some s'" for r s'
    by (rule backing_off_undefined [OF reach_run [OF s(1)], THEN conjunct2, rule_format, of 2 0 1 1 r s'])
       (use s(2,3) that in \<open>simp del: step.simps\<close>)
  then show ?thesis using s by (simp del: step.simps)
qed

text \<open>C23. When the program has ended normally, both threads have gone through all their iterations: each has
  reported all three mutexes ten times, and all mutexes are free. The joins succeed, as the
  source takes for granted; any other call may fail.\<close>
theorem backoff_all_iterations:
  assumes "reach joins_ok backoff_main (bo_system f y) s" and "ended s = Some (Exited 0)"
  shows "count Forward (mem s) = 10 \<and> count Backward (mem s) = 10 \<and> (\<forall>x. mtx s x = Free)"
proof -
  have e: "ended (bo_system f y) = None" by (simp add: bo_system_def)
  from ended_cases [OF assms(1) e assms(2)] obtain p where p: "p \<in> set (pcs s)" "backoff_main p = Halt (Exited 0)"
    by auto
  have pe: "p = BO_exit"
  proof (cases p)
    case (BO_forward q)
    then show ?thesis using p(2) by (cases q) auto
  next
    case (BO_backward q)
    then show ?thesis using p(2) by (cases q) auto
  qed (use p(2) in simp_all)
  have at: "main_at (pcs s) (mem s)" using main_at_reach [OF assms(1)] by simp
  then have ps: "pcs s = [BO_exit, BO_forward LF_return, BO_backward LB_return]"
    and c: "int (count Forward (mem s)) = 10" "int (count Backward (mem s)) = 10"
    using at p(1) pe by (cases rule: main_at_cases; auto)+
  have own: "bo.owned s" by (rule bo.owned_reach [OF assms(1) bo_start])
  have "mtx s x \<noteq> Held u" for x u
  proof
    assume h: "mtx s x = Held u"
    have "length (threads s) = 3" using ps by (metis length_map length_Cons list.size(3) numeral_3_eq_3)
    then have "u = 0 \<or> u = 1 \<or> u = 2" using bo.ownedD(1) [OF own h] by auto
    then show False using bo.ownedD(1) [OF own h] unfolding ps by auto
  qed
  moreover have "mtx s x \<noteq> Raw" for x
  proof (rule never_raw [OF assms(1)])
    show "backoff_main p \<noteq> Do (MDestroy x) k" for p x k by (rule no_destroy)
  qed (simp add: bo_system_def)
  ultimately have "mtx s x = Free" for x by (cases "mtx s x") auto
  then show ?thesis using c by simp
qed


theorem backoff_all_iterations_witness:
  "case run joins_ok backoff_main (map (Exec 0) [0, 0] @ map (Exec 1) (replicate 71 0) @ map (Exec 2) (replicate 71 0) @
      map (Exec 0) [0, 0, 0]) (bo_system 1 0) of
     Some s \<Rightarrow> ended s = Some (Exited 0) \<and> count Forward (mem s) = 10 \<and> count Backward (mem s) = 10 \<and> (\<forall>x. mtx s x = Free)
   | None \<Rightarrow> False"
  (is "case ?r of Some s \<Rightarrow> ?P s | None \<Rightarrow> False")
proof -
  have "map_option ended ?r = Some (Some (Exited 0))" by code_simp
  then obtain s where s: "?r = Some s" "ended s = Some (Exited 0)" by auto
  show ?thesis using backoff_all_iterations [OF reach_run [OF s(1)] s(2)] s by simp
qed

text \<open>All calls succeed, except that \<^verbatim>\<open>trylock\<close> may find the mutex taken.\<close>

fun trying :: "bo_pc \<Rightarrow> bool" where
  "trying (BO_forward (LF_try n b i)) \<longleftrightarrow> True"
| "trying (BO_backward (LB_try n b i)) \<longleftrightarrow> True"
| "trying p \<longleftrightarrow> False"

definition obliging :: "bo_pc policy" where
  "obliging p r \<longleftrightarrow> r = 0 \<or> trying p \<and> r = EBUSY"

fun blocking :: "bo_pc \<Rightarrow> bool" where
  "blocking (BO_forward (LF_lock n b i)) \<longleftrightarrow> True"
| "blocking (BO_backward (LB_lock n b i)) \<longleftrightarrow> True"
| "blocking p \<longleftrightarrow> False"

lemma never_blocking:
  assumes "reach obliging backoff_main (bo_system f y) s" and "f \<noteq> 0"
  shows "backoff (mem s) = f \<and> (\<forall>p \<in> set (pcs s). \<not> blocking p)"
  using assms(1) bo_start
proof (induction rule: bo.owned_invariant)
  case start
  show ?case by (simp add: bo_system_def bo_mem_def)
next
  case (tick n m ps)
  then show ?case .
next
  case (move n m ps t c k r m' p')
  have "backoff m' = f \<and> \<not> blocking p' \<and> (\<forall>q \<in> set (spawned c r). \<not> blocking q)"
    using move(4)
  proof (cases rule: backoff_main_cases)
    case (fwd q c0 k0)
    then obtain q' where "k0 r m = (m', q')" "p' = BO_forward q'"
      using move(7) no_spawn(1) [OF fwd(2)] by (cases "k0 r m") auto
    then show ?thesis using fwd(2,3) move(1) assms(2) no_spawn(1) [OF fwd(2)]
      by (cases q) (auto simp: lf_defs split: if_splits)
  next
    case (bwd q c0 k0)
    then obtain q' where "k0 r m = (m', q')" "p' = BO_backward q'"
      using move(7) no_spawn(2) [OF bwd(2)] by (cases "k0 r m") auto
    then show ?thesis using bwd(2,3) move(1) assms(2) no_spawn(2) [OF bwd(2)]
      by (cases q) (auto simp: lb_defs split: if_splits)
  next
    case own
    then show ?thesis using move(1,4,7) by (cases "ps ! t") (auto simp: bo_joins_def split: if_splits option.splits)
  qed
  then show ?case using move(1) by (auto dest: set_update_subset_insert [THEN subsetD])
qed

lemma bo_responsive:
  assumes "backoff_main p = Do c k"
  shows "responsive obliging p c m n"
  using assms
proof (cases rule: backoff_main_cases)
  case (fwd q c0 k0)
  then show ?thesis by (cases q) (auto simp: obliging_def)
next
  case (bwd q c0 k0)
  then show ?thesis by (cases q) (auto simp: obliging_def)
next
  case own
  then show ?thesis using assms by (cases p) (auto simp: obliging_def)
qed

lemma bo_can_act:
  assumes own: "bo.owned s" and e: "ended s = None" and t: "t < length (threads s)"
    and ret: "\<And>v. backoff_main (pcs s ! t) \<noteq> Return v"
    and lock: "\<And>x k. backoff_main (pcs s ! t) = Do (Lock x) k \<Longrightarrow> mtx s x = Free \<or> mtx s x = Raw"
    and join: "\<And>u k. backoff_main (pcs s ! t) = Do (Join u) k \<Longrightarrow> finished backoff_main u s"
  shows "\<exists>e s'. acts e \<and> step obliging backoff_main e s = Some s'"
proof -
  have th: "threads s ! t = (pcs s ! t, Ready)" using t bo.ownedD(2) [OF own t] by (cases "threads s ! t") auto
  show ?thesis
  proof (cases "backoff_main (pcs s ! t)")
    case (Do c k)
    show ?thesis
    proof (rule ready_can_act [where code = backoff_main and p = "pcs s ! t", OF e t th Do])
      show "responsive obliging (pcs s ! t) c (mem s) (now s)" by (rule bo_responsive [OF Do])
      show "mtx s x = Free \<or> mtx s x = Raw" if "c = Lock x" for x using lock [of x k] Do that by simp
      show "finished backoff_main u s" if "c = Join u" for u using join [of u k] Do that by simp
    qed
  next
    case (Halt res)
    obtain p where p: "threads s ! t = (p, Ready)" "backoff_main p = Halt res" using th Halt by blast
    then show ?thesis using e t by (intro exI [of _ "Exec t 0"]) (simp add: exec_thread_def)
  qed (use ret in simp)
qed

text \<open>C25. With \<open>backoff\<close> set the program does not deadlock: if all calls succeed (a \<^verbatim>\<open>trylock\<close> may find its mutex
  taken), some thread can always take its next step until the process has ended.\<close>
theorem backoff_no_deadlock:
  assumes "reach obliging backoff_main (bo_system f y) s" and "f \<noteq> 0" and "ended s = None"
  shows "\<exists>e s'. acts e \<and> step obliging backoff_main e s = Some s'"
proof -
  have own: "bo.owned s" by (rule bo.owned_reach [OF assms(1) bo_start])
  have "joins_ok p r" if "obliging p r" for p r using that by (cases p) (auto simp: obliging_def joins_ok_def)
  then have "reach joins_ok backoff_main (bo_system f y) s" by (rule reach_mono [OF assms(1)])
  then have at: "main_at (pcs s) (mem s)" using main_at_reach by blast
  have nb: "\<not> blocking p" if "p \<in> set (pcs s)" for p using never_blocking [OF assms(1,2)] that by blast
  have len: "length (threads s) = length (pcs s)" by simp
  note act = bo_can_act [OF own assms(3)]
  from at show ?thesis
  proof (cases rule: main_at_cases)
    case (1 p)
    show ?thesis by (rule act [of 0]) (use 1 at len in auto)
  next
    case (2 p q)
    show ?thesis by (rule act [of 0]) (use 2 at len in auto)
  next
    case (3 p q q')
    have l3: "length (threads s) = 3" using 3 len by simp
    have main: "mtx s x \<noteq> Held 0" for x
    proof
      assume "mtx s x = Held 0"
      then show False using bo.ownedD(1) [OF own, of x 0] 3 at by auto
    qed
    have f: "mtx s x = Held 1 \<Longrightarrow> x \<in> lf_holds q \<or> q = LF_abort" for x
      using bo.ownedD(1) [OF own, of x 1] 3 by (cases q) auto
    have b: "mtx s x = Held 2 \<Longrightarrow> x \<in> lb_holds q' \<or> q' = LB_abort" for x
      using bo.ownedD(1) [OF own, of x 2] 3 by (cases q') auto
    have u: "mtx s x = Held u \<Longrightarrow> u = 0 \<or> u = 1 \<or> u = 2" for x u
      using bo.ownedD(1) [OF own, of x u] l3 by auto
    have okq: "lf_ok q" "lb_ok q'" using bo.ownedD(3) [OF own, of 1] bo.ownedD(3) [OF own, of 2] 3 l3 by simp_all
    have nbq: "\<not> blocking (BO_forward q)" "\<not> blocking (BO_backward q')" using nb 3 by auto
    consider "q = LF_return" "q' = LB_return" | n b where "q = LF_first n b"
      | n b where "q' = LB_first n b" "q = LF_return \<or> (\<exists>n b. q = LF_first n b)"
      | "q \<noteq> LF_return" "\<forall>n b. q \<noteq> LF_first n b" | "q' \<noteq> LB_return" "\<forall>n b. q' \<noteq> LB_first n b"
      by blast
    then show ?thesis
    proof cases
      case 1
      show ?thesis by (rule act [of 0]) (use 3 at 1 l3 in \<open>auto simp: finished_def\<close>)
    next
      case 2
      show ?thesis
      proof (cases "\<exists>u. mtx s 0 = Held u")
        case False
        then have "mtx s 0 = Free \<or> mtx s 0 = Raw" by (cases "mtx s 0") auto
        then show ?thesis by (intro act [of 1]) (use 3 2 l3 in auto)
      next
        case True
        then obtain v where v: "mtx s 0 = Held v" ..
        then have "v = 2" using u [OF v] main f 2 by auto
        then have "0 \<in> lb_holds q' \<or> q' = LB_abort" using b v by simp
        then show ?thesis using okq(2) nbq(2) by (intro act [of 2]; use 3 l3 in \<open>cases q'; auto\<close>)
      qed
    next
      case (3 n b')
      have "mtx s 2 \<noteq> Held v" for v
      proof
        assume v: "mtx s 2 = Held v"
        then show False using u [OF v] main f [of 2] b [of 2] 3 by auto
      qed
      then have "mtx s 2 = Free \<or> mtx s 2 = Raw" by (cases "mtx s 2") auto
      then show ?thesis by (intro act [of 2]) (use \<open>pcs s = [p, BO_forward q, BO_backward q']\<close> 3 l3 in auto)
    next
      case 4
      then show ?thesis using nbq(1) by (intro act [of 1]; use 3 l3 in \<open>cases q; auto\<close>)
    next
      case 5
      then show ?thesis using nbq(2) by (intro act [of 2]; use 3 l3 in \<open>cases q'; auto\<close>)
    qed
  qed
qed

theorem backoff_no_deadlock_witness:
  "case run obliging backoff_main contest (bo_system 1 0) of
     Some s \<Rightarrow> pcs s ! 2 = BO_backward (LB_back 0 1 1) \<and> (\<exists>e s'. acts e \<and> step obliging backoff_main e s = Some s')
   | None \<Rightarrow> False"
  (is "case ?r of Some s \<Rightarrow> ?P s | None \<Rightarrow> False")
proof -
  have "map_option (\<lambda>s. (ended s, pcs s ! 2)) ?r = Some (None, BO_backward (LB_back 0 1 1))" by code_simp
  then obtain s where s: "?r = Some s" "ended s = None" "pcs s ! 2 = BO_backward (LB_back 0 1 1)" by auto
  show ?thesis using backoff_no_deadlock [OF reach_run [OF s(1)] _ s(2)] s(1,3) by (simp del: step.simps)
qed

text \<open>Without \<open>backoff\<close> the threads can deadlock, each waiting for a mutex the other one has.\<close>
theorem deadlock_without_backoff:
  "\<exists>s. reach obliging backoff_main (bo_system 0 0) s \<and> stuck obliging backoff_main s \<and> ended s = None \<and>
     mtx s 0 = Held 1 \<and> mtx s 1 = Held 1 \<and> mtx s 2 = Held 2 \<and>
     pcs s = [BO_join1 1, BO_forward (LF_lock 0 0 2), BO_backward (LB_lock 0 0 1)]"
proof -
  let ?r = "run obliging backoff_main (map (Exec 0) [0, 0] @ map (Exec 1) [0, 0, 0] @ map (Exec 2) [0, 0]) (bo_system 0 0)"
  let ?f = "\<lambda>s. (ended s, mtx s 0, mtx s 1, mtx s 2, threads s)"
  have "map_option ?f ?r = Some (None, Held 1, Held 1, Held 2,
     [(BO_join1 1, Ready), (BO_forward (LF_lock 0 0 2), Ready), (BO_backward (LB_lock 0 0 1), Ready)])" by code_simp
  from reach_exists [OF this] obtain s where s: "reach obliging backoff_main (bo_system 0 0) s" "ended s = None"
    "mtx s 0 = Held 1" "mtx s 1 = Held 1" "mtx s 2 = Held 2"
    "threads s = [(BO_join1 1, Ready), (BO_forward (LF_lock 0 0 2), Ready), (BO_backward (LB_lock 0 0 1), Ready)]"
    by auto
  have "stuck obliging backoff_main s"
  proof (rule jammed_stuck)
    show "list_all (jammed backoff_main s) (threads s)" using s by (simp add: finished_def)
    show "r \<le> 0" if "obliging p r" "backoff_main p = Do c k" "(\<exists>x. c = Lock x) \<or> (\<exists>u. c = Join u)" for p r c k
    proof -
      have "\<not> trying p" using that(2,3) by (cases p rule: trying.cases) auto
      then show ?thesis using that(1) by (simp add: obliging_def)
    qed
  qed
  then show ?thesis using s by (intro exI [of _ s]) simp
qed

end
