(* ===== verification/Programs.thy ===== *)
theory Programs
  imports Ownership Calls
begin

text \<open>
  Two kinds of programs that occur often. \<open>tame_program\<close>: no condition variables, and every point names the
  mutexes its thread has. \<open>numbered_threads\<close>: a number of threads run the same routine; the process is a list of
  other threads followed by these in the order of their numbers, and \<open>numbered_move\<close> takes one move of such a
  process apart, for use in any of the induction rules.
\<close>

section \<open>Mutexes that are only locked and unlocked\<close>

fun tame :: "('m, 'c, 's, 'p) call \<Rightarrow> 'm set \<Rightarrow> bool" where
  "tame Tau H \<longleftrightarrow> True"
| "tame Clock H \<longleftrightarrow> True"
| "tame (Env g) H \<longleftrightarrow> True"
| "tame (Create st q) H \<longleftrightarrow> True"
| "tame (Join u) H \<longleftrightarrow> True"
| "tame (Lock x) H \<longleftrightarrow> True"
| "tame (Unlock x) H \<longleftrightarrow> x \<in> H"
| "tame c H \<longleftrightarrow> False"

lemma tame_lift [simp]: "tame (lift_call get put st c) H = tame c H"
  by (cases c) auto

lemma tameD:
  assumes "tame c H"
  shows "c \<noteq> wait_call d x l" "mutex_ok c H" "cond_ok c C" "c \<noteq> CDestroy d" "c = Unlock y \<Longrightarrow> y \<in> H"
  using assms by (cases c; auto simp: wait_call_def split: option.splits)+

locale tame_program =
  fixes allow :: "'p policy"
    and code :: "'p \<Rightarrow> ('m, 'c, 's, 'p) act"
    and holds :: "'p \<Rightarrow> 'm set"
  assumes tamed: "code p = Do c k \<Longrightarrow> k r m = (m', p') \<Longrightarrow> tame c (holds p) \<and> holds p' = held_after c r (holds p) \<and>
      (\<forall>st q. c = Create st q \<longrightarrow> holds q = {})"
begin

lemma tame_call: "code p = Do c k \<Longrightarrow> tame c (holds p) \<and> (\<forall>st q. c = Create st q \<longrightarrow> holds q = {})"
  by (cases "k 0 undefined") (use tamed in blast)

end

sublocale tame_program \<subseteq> lock_ownership allow code holds "\<lambda>_. True"
proof unfold_locales
  fix p c r m k and n :: int and m' m'' p'
  assume "code p = Do c k" "k r m' = (m'', p')"
  then have "holds p' = held_after c r (holds p)" using tamed by blast
  then show "holds p' \<subseteq> held_after c r (holds p)" "True \<and> (held_after c r (holds p) \<subseteq> holds p' \<or> code p' = Halt Aborted)"
    by simp_all
next
  show "holds q = {}" if "code p = Do (Create st q) k" for p q st k using tame_call [OF that] by blast
next
  show "code p \<noteq> Do (wait_call d x l) k" for p d x l k
  proof
    assume "code p = Do (wait_call d x l) k"
    then have "tame (wait_call d x l :: ('m, 'c, 's, 'p) call) (holds p)" using tame_call by blast
    from tameD(1) [OF this, of d x l] show False by simp
  qed
qed simp

context tame_program
begin

text \<open>A process that starts with all mutexes free.\<close>

definition fresh :: "('m, 'c, 's, 'p) sys \<Rightarrow> bool" where
  "fresh s \<longleftrightarrow> (\<forall>x. mtx s x = Free) \<and> (\<forall>y \<in> set (threads s). snd y = Ready \<and> holds (fst y) = {}) \<and> ended s = None"

lemma fresh_boot: "(\<And>p. p \<in> set ps \<Longrightarrow> holds p = {}) \<Longrightarrow> fresh (boot m ps)"
  by (auto simp: fresh_def)

lemma fresh_owned: "fresh s \<Longrightarrow> owned s"
  unfolding owned_def by (auto simp: fresh_def list_all_iff)

lemma fresh_tracked: "fresh s \<Longrightarrow> tracked holds s"
  unfolding tracked_def fresh_def by (metis empty_iff holding_le nth_mem prod.collapse subset_empty)

lemma fresh_all_awake: "fresh s \<Longrightarrow> list_all (awake allow code n) (threads s)"
  unfolding fresh_def list_all_iff by (metis awake.simps(1) prod.collapse)

text \<open>The induction rule with all that is known of a move: a mutex the thread has, before or after, no other
  thread has; a mutex that is unlocked it has; a thread that was joined has returned.\<close>

theorem tame_invariant [consumes 2, case_names start tick move]:
  assumes "reach allow code s0 s" and f: "fresh s0"
    and start: "I (now s0) (mem s0) (pcs s0)"
    and tick: "\<And>n m ps. I n m ps \<Longrightarrow> I (n + 1) m ps"
    and move: "\<And>n m ps t c k r m' p'.
       I n m ps \<Longrightarrow> t < length ps \<Longrightarrow> code (ps ! t) = Do c k \<Longrightarrow> allow (ps ! t) r \<Longrightarrow>
       answer_ok c r m n \<Longrightarrow> k r (entry_mem c r (length ps) m) = (m', p') \<Longrightarrow>
       (\<forall>x u. x \<in> holds (ps ! t) \<union> holds p' \<longrightarrow> u < length ps \<longrightarrow> u \<noteq> t \<longrightarrow> x \<notin> holds (ps ! u)) \<Longrightarrow>
       (\<forall>u. c = Join u \<and> r = 0 \<longrightarrow> u < length ps \<and> (\<exists>v. code (ps ! u) = Return v)) \<Longrightarrow>
       I n m' ((ps[t := p']) @ spawned c r)"
  shows "I (now s) (mem s) (pcs s)"
  using assms(1)
proof (induction rule: reach.induct)
  case (reach_step s e s')
  note own = owned_reach [OF reach_step.hyps(1) fresh_owned [OF f]]
  note tr = tracked_reach [OF reach_step.hyps(1) fresh_tracked [OF f]]
  have has: "mtx s x = Held u" if "u < length (threads s)" "x \<in> holds (pcs s ! u)" for x u
    using trackedD [OF tr that(1), of x] ownedD(2) [OF own that(1)] that by (cases "threads s ! u") simp
  from own reach_step.hyps(2) show ?case
  proof (cases rule: owned_step)
    case (act t p c k r)
    obtain p' where k: "answer_ok c r (mem s) (now s)" "now s' = now s"
        "k r (entry_mem c r (length (threads s)) (mem s)) = (mem s', p')"
        "pcs s' = (pcs s)[t := p'] @ spawned c r"
      using act(7) by (auto simp: acted_def returned_def)
    have l: "mtx s x = Free" if "c = Lock x \<or> c = Trylock x" "r = 0" for x using act(7) that by (auto simp: acted_def)
    have tp: "pcs s ! t = p" using act(2,3) by simp
    have "holds p' \<subseteq> held_after c r (holds p)" by (rule tracks [OF act(4,5) k(1,3)])
    moreover have "held_after c r (holds p) \<subseteq> holds p \<union> {x. mtx s x = Free}" using l by (cases c) auto
    ultimately have "x \<in> holds p \<or> mtx s x = Free" if "x \<in> holds p \<union> holds p'" for x using that by blast
    then have "\<forall>x u. x \<in> holds p \<union> holds p' \<longrightarrow> u < length (threads s) \<longrightarrow> u \<noteq> t \<longrightarrow> x \<notin> holds (pcs s ! u)"
      using has act(2) tp by (metis mstat.distinct(5) mstat.inject)
    note excl = this
    have "I (now s) (mem s') ((pcs s)[t := p'] @ spawned c r)"
    proof (rule move [OF reach_step.IH, where k = k])
      show "code (pcs s ! t) = Do c k" "allow (pcs s ! t) r" "t < length (pcs s)" using act(2,4,5) tp by simp_all
      show "\<forall>x u. x \<in> holds (pcs s ! t) \<union> holds p' \<longrightarrow> u < length (pcs s) \<longrightarrow> u \<noteq> t \<longrightarrow> x \<notin> holds (pcs s ! u)"
        using excl tp by (simp only: length_map)
      show "\<forall>u. c = Join u \<and> r = 0 \<longrightarrow> u < length (pcs s) \<and> (\<exists>v. code (pcs s ! u) = Return v)"
        using owned_act(3) [OF own act(2-7)] by (simp only: length_map)
    qed (use k(1,3) in simp_all)
    then show ?thesis using k by simp
  qed (use reach_step.IH tick in auto)
qed (rule start)

theorem tame_undefined:
  assumes "reach allow code s0 s" and f: "fresh s0"
    and halts: "\<And>s p. reach allow code s0 s \<Longrightarrow> p \<in> set (pcs s) \<Longrightarrow> code p \<noteq> Halt Undefined"
  shows "ended s \<noteq> Some Undefined"
proof (rule no_undefined_objects [OF assms(1) fresh_tracked [OF f] fresh_all_awake [OF f] _ _ _ _ halts])
  show "mtx s0 x \<noteq> Raw" for x using f by (simp add: fresh_def)
  show "ended s0 = None" using f by (simp add: fresh_def)
  show "mutex_ok c (holds p)" if "code p = Do c k" for p c k using tame_call [OF that] tameD(2) by blast
  show "cond_ok c (cnd s1) \<and> (\<forall>d u x l k. c = CDestroy d \<longrightarrow> u < length (threads s1) \<longrightarrow> u \<noteq> t \<longrightarrow>
      code (pcs s1 ! u) \<noteq> Do (wait_call d x l) k)" if p: "code (pcs s1 ! t) = Do c k" for s1 :: "('m, 'c, 's, 'p) sys" and t c k
  proof -
    have "tame c (holds (pcs s1 ! t))" using tame_call [OF p] by simp
    from tameD(3,4) [OF this] show ?thesis by blast
  qed
qed

end

section \<open>Numbered threads\<close>

definition numbered :: "(nat \<Rightarrow> 'q \<Rightarrow> 'p) \<Rightarrow> 'q list \<Rightarrow> 'p list" where
  "numbered w qs = map (\<lambda>n. w n (qs ! n)) [0..<length qs]"

lemma numbered_simps [simp]:
  "length (numbered w qs) = length qs" "n < length qs \<Longrightarrow> numbered w qs ! n = w n (qs ! n)"
  "numbered w (qs @ [q]) = numbered w qs @ [w (length qs) q]" "numbered w [] = []"
  by (simp_all add: numbered_def nth_append cong: map_cong)

lemma set_numbered: "p \<in> set (numbered w qs) \<longleftrightarrow> (\<exists>n < length qs. p = w n (qs ! n))"
  by (auto simp: numbered_def)

lemma numbered_update: "(numbered w qs)[n := w n q] = numbered w (qs[n := q])"
  by (cases "n < length qs") (auto intro!: nth_equalityI simp: nth_update_if)

locale numbered_threads =
  fixes code :: "'p \<Rightarrow> ('m, 'c, 's, 'p) act"
    and w :: "nat \<Rightarrow> 'q \<Rightarrow> 'p"
    and routine :: "nat \<Rightarrow> 'q \<Rightarrow> ('m, 'c, 's, 'q) act"
  assumes runs: "code (w n q) = thread_fun (w n) (routine n q)"
    and creates_none: "routine n q = Do c k \<Longrightarrow> spawned c r = []"
begin

lemma numbered_move:
  assumes ps: "ps = fs @ numbered w qs" and t: "t < length ps" and c: "code (ps ! t) = Do c k"
    and k: "k r (entry_mem c r (length ps) m) = (m', p')"
  obtains (front) "t < length fs" "ps ! t = fs ! t" "code (fs ! t) = Do c k" "k r (entry_mem c r (length fs + length qs) m) = (m', p')"
      "ps[t := p'] @ spawned c r = fs[t := p'] @ numbered w qs @ spawned c r"
  | (thread) i c0 k0 q where "t = length fs + i" "i < length qs" "ps ! t = w i (qs ! i)" "routine i (qs ! i) = Do c0 k0"
      "c = lift_call (\<lambda>s. s) (\<lambda>a s. a) (w i) c0" "k0 r m = (m', q)" "p' = w i q" "spawned c0 r = []" "\<forall>l. entry_mem c0 r l m = m"
      "ps[t := p'] @ spawned c r = fs @ numbered w (qs[i := q])"
proof (cases "t < length fs")
  case True
  then show ?thesis using assms by (intro front) (auto simp: nth_append list_update_append)
next
  case False
  then obtain i where i: "t = length fs + i" "i < length qs" using t ps by (auto simp: le_iff_add not_less)
  then have p: "ps ! t = w i (qs ! i)" using ps by (simp add: nth_append)
  then have "thread_fun (w i) (routine i (qs ! i)) = Do c k" using c runs by simp
  then obtain c0 k0 where c0: "routine i (qs ! i) = Do c0 k0" "c = lift_call (\<lambda>s. s) (\<lambda>a s. a) (w i) c0"
      "k = (\<lambda>r s. case k0 r s of (s', p) \<Rightarrow> (s', w i p))" by (rule thread_fun_cases)
  have none: "spawned c0 r = []" "spawned c0 0 = []" using creates_none [OF c0(1)] by simp_all
  have e: "\<forall>l. entry_mem c0 r l m = m" by (intro allI entry_mem_plain [OF none(2)])
  obtain q where q: "k0 r m = (m', q)" "p' = w i q" using k c0 e by (cases "k0 r m") auto
  have "ps[t := p'] @ spawned c r = fs @ numbered w (qs[i := q])"
    using ps i q(2) c0(2) none(1) by (simp add: list_update_append numbered_update)
  then show ?thesis by (rule thread [OF i p c0(1,2) q none(1) e])
qed

end

end
