(* ===== verification/Susp.thy ===== *)
theory Susp
  imports Programs
begin

text \<open>
  \<^verbatim>\<open>chap6-adjust/susp.cxx\<close>: suspending and continuing threads with signals. \<open>thd_suspend\<close> sends
  \<^verbatim>\<open>SIGUSR1\<close> and waits for \<open>sentinel\<close>, which the handler sets before it sleeps in \<^verbatim>\<open>sigsuspend\<close>;
  \<open>thd_continue\<close> sends \<^verbatim>\<open>SIGUSR2\<close>. The array \<open>arr\<close> holds the suspended threads. A signal that was sent is
  pending (\<open>usr1\<close>, \<open>usr2\<close>) until its thread takes it, at any point of its loop; \<^verbatim>\<open>sigsuspend\<close> returns
  with \<^verbatim>\<open>SIGUSR2\<close> only. \<open>once\<close> is the state of \<^verbatim>\<open>pthread_once\<close>: not called, running, done.
\<close>

section \<open>The data\<close>

definition THREAD_COUNT :: nat where "THREAD_COUNT = 20"
definition ITERATORS :: int where "ITERATORS = 40000"

text \<open>\<open>arr\<close> is empty when the pointer is null; the identifier 0 is \<^verbatim>\<open>null_pthread\<close>. \<open>tids\<close> is the local array
  \<^verbatim>\<open>threads\<close> of \<^verbatim>\<open>main\<close>, \<open>wrote\<close> the progress the threads write.\<close>

record susp =
  sentinel :: int
  once :: int
  arr :: "nat list"
  bottom :: nat
  inited :: int
  usr1 :: "tid \<Rightarrow> bool"
  usr2 :: "tid \<Rightarrow> bool"
  tids :: "tid list"
  wrote :: "(nat \<times> int) list"

datatype su_mutex = Mut

text \<open>A search of the first \<open>n\<close> elements: \<open>None\<close> is a read past the end, \<open>Some None\<close> not found.\<close>

fun arr_find :: "nat \<Rightarrow> nat list \<Rightarrow> nat \<Rightarrow> nat option option" where
  "arr_find u xs 0 = Some None"
| "arr_find u [] (Suc n) = None"
| "arr_find u (x # xs) (Suc n) =
     (if x = u then Some (Some 0) else map_option (map_option Suc) (arr_find u xs n))"

section \<open>Initialisation\<close>

datatype in_pc = IN_calloc | IN_action1 | IN_action2 | IN_return | IN_abort

fun suspend_init_routine :: "in_pc \<Rightarrow> (su_mutex, unit, susp, in_pc) act" where
  "suspend_init_routine IN_calloc =
     Do (Env (\<lambda>r _. 0 \<le> r)) (\<lambda>r m.
       (m\<lparr>bottom := 10, arr := (if r = 0 then [] else replicate 10 0)\<rparr>, IN_action1))"
| "suspend_init_routine IN_action1 = Do (Env (\<lambda>_ _. True)) (checked IN_abort IN_action2)"
| "suspend_init_routine IN_action2 =
     Do (Env (\<lambda>_ _. True)) (\<lambda>status m. if status \<noteq> 0 then (m, IN_abort) else (m\<lparr>inited := 1\<rparr>, IN_return))"
| "suspend_init_routine IN_return = Return 0"
| "suspend_init_routine IN_abort = Halt Aborted"

text \<open>\<^verbatim>\<open>pthread_once\<close>: a positive result is an error, \<open>-1\<close> means that this call runs the
  routine, \<open>0\<close> that it has been run; it blocks while another thread runs it.\<close>

definition once_guard :: "int \<Rightarrow> susp \<Rightarrow> bool" where
  "once_guard r m \<longleftrightarrow> 0 < r \<or> r = 0 \<and> once m = 2 \<or> r = -1 \<and> once m = 0"

section \<open>Suspending a thread\<close>

text \<open>\<open>u\<close> is \<^verbatim>\<open>target_thread\<close>.\<close>

datatype su_pc =
    SU_once | SU_init in_pc | SU_lock | SU_realloc | SU_kill nat | SU_spin nat | SU_unlock | SU_fail int
  | SU_return int | SU_crash

definition su_search :: "tid \<Rightarrow> susp \<Rightarrow> susp \<times> su_pc" where
  "su_search u m =
     (case arr_find u (arr m) (bottom m) of
        None \<Rightarrow> (m, SU_crash)
      | Some (Some i) \<Rightarrow> (m, SU_unlock)
      | Some None \<Rightarrow>
          (case arr_find 0 (arr m) (bottom m) of
             None \<Rightarrow> (m, SU_crash)
           | Some None \<Rightarrow> (m, SU_realloc)
           | Some (Some i) \<Rightarrow> (m\<lparr>sentinel := 0\<rparr>, SU_kill i)))"

text \<open>After a successful \<^verbatim>\<open>realloc\<close> the array has \<open>bottom\<close> elements: \<^verbatim>\<open>arr[bottom]\<close> is outside.\<close>

definition su_grow :: "int \<Rightarrow> susp \<Rightarrow> susp \<times> su_pc" where
  "su_grow r m =
     (let m1 = m\<lparr>bottom := bottom m + 1\<rparr> in
      if r = 0 then (m1\<lparr>arr := []\<rparr>, SU_fail ENOMEM) else (m1\<lparr>arr := arr m @ [0]\<rparr>, SU_crash))"

definition su_spin :: "tid \<Rightarrow> nat \<Rightarrow> susp \<Rightarrow> susp \<times> su_pc" where
  "su_spin u i m =
     (if sentinel m = 0 then (m, SU_spin i)
      else if i < length (arr m) then (m\<lparr>arr := (arr m)[i := u]\<rparr>, SU_unlock) else (m, SU_crash))"

fun thd_suspend :: "tid \<Rightarrow> su_pc \<Rightarrow> (su_mutex, unit, susp, su_pc) act" where
  "thd_suspend u SU_once =
     Do (Env once_guard) (\<lambda>status m.
       if status = -1 then (m\<lparr>once := 1\<rparr>, SU_init IN_calloc)
       else (m, if status \<noteq> 0 then SU_return status else SU_lock))"
| "thd_suspend u (SU_init p) =
     call_here SU_init (\<lambda>_ m. (m\<lparr>once := 2\<rparr>, SU_lock)) (suspend_init_routine p)"
| "thd_suspend u SU_lock =
     Do (Lock Mut) (\<lambda>status m. if status \<noteq> 0 then (m, SU_return status) else su_search u m)"
| "thd_suspend u SU_realloc = Do (Env (\<lambda>r _. 0 \<le> r)) su_grow"
| "thd_suspend u (SU_kill i) =
     Do (Env (\<lambda>r _. 0 \<le> r)) (\<lambda>status m.
       if status \<noteq> 0 then (m, SU_fail status) else su_spin u i (m\<lparr>usr1 := (usr1 m)(u := True)\<rparr>))"
| "thd_suspend u (SU_spin i) = Do Tau (\<lambda>_. su_spin u i)"
| "thd_suspend u SU_unlock = Do (Unlock Mut) (\<lambda>status m. (m, SU_return status))"
| "thd_suspend u (SU_fail r) = Do (Unlock Mut) (goto (SU_return r))"
| "thd_suspend u (SU_return r) = Return r"
| "thd_suspend u SU_crash = Halt Undefined"

section \<open>Continuing a thread\<close>

datatype co_pc =
    CO_once | CO_init in_pc | CO_lock | CO_kill nat | CO_unlock | CO_fail int | CO_return int | CO_crash

definition co_search :: "tid \<Rightarrow> susp \<Rightarrow> susp \<times> co_pc" where
  "co_search u m =
     (m, case arr_find u (arr m) (bottom m) of
           None \<Rightarrow> CO_crash
         | Some None \<Rightarrow> CO_fail 0
         | Some (Some i) \<Rightarrow> CO_kill i)"

fun thd_continue :: "tid \<Rightarrow> co_pc \<Rightarrow> (su_mutex, unit, susp, co_pc) act" where
  "thd_continue u CO_once =
     Do (Env once_guard) (\<lambda>status m.
       if status = -1 then (m\<lparr>once := 1\<rparr>, CO_init IN_calloc)
       else (m, if status \<noteq> 0 then CO_return status else CO_lock))"
| "thd_continue u (CO_init p) =
     call_here CO_init (\<lambda>_ m. (m\<lparr>once := 2\<rparr>, CO_lock)) (suspend_init_routine p)"
| "thd_continue u CO_lock =
     Do (Lock Mut) (\<lambda>status m. if status \<noteq> 0 then (m, CO_return status) else co_search u m)"
| "thd_continue u (CO_kill i) =
     Do (Env (\<lambda>r _. 0 \<le> r)) (\<lambda>status m.
       if status \<noteq> 0 then (m, CO_fail status)
       else if i < length (arr m)
       then (m\<lparr>usr2 := (usr2 m)(u := True), arr := (arr m)[i := 0]\<rparr>, CO_unlock) else (m, CO_crash))"
| "thd_continue u CO_unlock = Do (Unlock Mut) (\<lambda>status m. (m, CO_return status))"
| "thd_continue u (CO_fail r) = Do (Unlock Mut) (goto (CO_return r))"
| "thd_continue u (CO_return r) = Return r"
| "thd_continue u CO_crash = Halt Undefined"

section \<open>The threads\<close>

text \<open>\<open>n\<close> is \<^verbatim>\<open>number\<close>, \<open>i\<close> the loop counter. \<open>TH_mark\<close> and \<open>TH_sleep\<close> are in \<open>suspend_signal_handler\<close>:
  before \<open>sentinel\<close> is set, and in \<^verbatim>\<open>sigsuspend\<close>.\<close>

datatype th_pc = TH_loop int | TH_mark int | TH_sleep int | TH_return

definition th_for :: "int \<Rightarrow> th_pc" where
  "th_for i = (if i < ITERATORS then TH_loop i else TH_return)"

definition th_body :: "nat \<Rightarrow> int \<Rightarrow> susp \<Rightarrow> susp \<times> th_pc" where
  "th_body n i m = ((if i mod 2000 = 0 then m\<lparr>wrote := wrote m @ [(n, i)]\<rparr> else m), th_for (i + 1))"

definition takes :: "nat \<Rightarrow> int \<Rightarrow> susp \<Rightarrow> bool" where
  "takes n r m \<longleftrightarrow> r = 0 \<or> r = 1 \<and> usr1 m (tids m ! n) \<or> r = 2 \<and> usr2 m (tids m ! n)"

definition suspend_signal_handler :: "nat \<Rightarrow> int \<Rightarrow> susp \<Rightarrow> susp \<times> th_pc" where
  "suspend_signal_handler n i m = (m\<lparr>sentinel := 1\<rparr>, TH_sleep i)"

text \<open>\<open>resume_signal_handler\<close> does nothing: the signal is gone, that is all.\<close>

definition resume_signal_handler :: "nat \<Rightarrow> susp \<Rightarrow> susp" where
  "resume_signal_handler n m = m\<lparr>usr2 := (usr2 m)(tids m ! n := False)\<rparr>"

fun susp_routine :: "nat \<Rightarrow> th_pc \<Rightarrow> (su_mutex, unit, susp, th_pc) act" where
  "susp_routine n (TH_loop i) =
     Do (Env (takes n)) (\<lambda>r m.
       if r = 1 then (m\<lparr>usr1 := (usr1 m)(tids m ! n := False)\<rparr>, TH_mark i)
       else if r = 2 then (resume_signal_handler n m, TH_loop i)
       else th_body n i m)"
| "susp_routine n (TH_mark i) = Do Tau (\<lambda>_. suspend_signal_handler n i)"
| "susp_routine n (TH_sleep i) =
     Do (Env (\<lambda>r m. r = 0 \<and> usr2 m (tids m ! n))) (\<lambda>_ m. (resume_signal_handler n m, TH_loop i))"
| "susp_routine n TH_return = Return 0"

section \<open>The main program\<close>

datatype sp_pc =
    SP_attr_init | SP_setdetach | SP_create nat | SP_attr_destroy
  | SP_continue1 nat tid co_pc | SP_suspend nat tid su_pc | SP_continue2 nat tid co_pc
  | SP_return | SP_abort | SP_thread nat th_pc

text \<open>The heads of the three loops.\<close>

definition sp_continue2 :: "nat \<Rightarrow> susp \<Rightarrow> susp \<times> sp_pc" where
  "sp_continue2 i m = (m, if i < THREAD_COUNT then SP_continue2 i (tids m ! i) CO_once else SP_return)"

definition sp_suspend :: "nat \<Rightarrow> susp \<Rightarrow> susp \<times> sp_pc" where
  "sp_suspend i m =
     (if i < THREAD_COUNT then (m, SP_suspend i (tids m ! i) SU_once) else sp_continue2 (THREAD_COUNT div 2) m)"

definition sp_continue1 :: "nat \<Rightarrow> susp \<Rightarrow> susp \<times> sp_pc" where
  "sp_continue1 i m =
     (if i < THREAD_COUNT then (m, SP_continue1 i (tids m ! i) CO_once) else sp_suspend (THREAD_COUNT div 2) m)"

fun susp_main :: "sp_pc \<Rightarrow> (su_mutex, unit, susp, sp_pc) act" where
  "susp_main SP_attr_init = Do (Env (\<lambda>r _. 0 \<le> r)) (checked SP_abort SP_setdetach)"
| "susp_main SP_setdetach = Do (Env (\<lambda>r _. 0 \<le> r)) (checked SP_abort (SP_create 0))"
| "susp_main (SP_create i) =
     Do (Create (\<lambda>u m. m\<lparr>tids := tids m @ [u]\<rparr>) (SP_thread i (th_for 1))) (\<lambda>status m.
       (m, if status \<noteq> 0 then SP_abort
           else if i + 1 < THREAD_COUNT then SP_create (i + 1) else SP_attr_destroy))"
| "susp_main SP_attr_destroy =
     Do (Env (\<lambda>r _. 0 \<le> r)) (\<lambda>status m. if status \<noteq> 0 then (m, SP_abort) else sp_continue1 (THREAD_COUNT div 2) m)"
| "susp_main (SP_continue1 i u p) =
     call_here (SP_continue1 i u) (\<lambda>status m. if status \<noteq> 0 then (m, SP_abort) else sp_continue1 (i + 1) m)
       (thd_continue u p)"
| "susp_main (SP_suspend i u p) =
     call_here (SP_suspend i u) (\<lambda>status m. if status \<noteq> 0 then (m, SP_abort) else sp_suspend (i + 1) m)
       (thd_suspend u p)"
| "susp_main (SP_continue2 i u p) =
     call_here (SP_continue2 i u) (\<lambda>status m. if status \<noteq> 0 then (m, SP_abort) else sp_continue2 (i + 1) m)
       (thd_continue u p)"
| "susp_main SP_return = Return 0"
| "susp_main SP_abort = Halt Aborted"
| "susp_main (SP_thread n p) = thread_fun (SP_thread n) (susp_routine n p)"

definition susp_mem :: susp where
  "susp_mem = \<lparr>sentinel = 0, once = 0, arr = [], bottom = 0, inited = 0, usr1 = \<lambda>_. False, usr2 = \<lambda>_. False,
     tids = [], wrote = []\<rparr>"

definition susp_system :: "(su_mutex, unit, susp, sp_pc) sys" where
  "susp_system = boot susp_mem [SP_attr_init]"

section \<open>The array\<close>

definition listed :: "susp \<Rightarrow> nat set" where
  "listed m = set (arr m) - {0}"

lemma arr_find_some: "arr_find u xs n = Some (Some i) \<Longrightarrow> i < length xs \<and> i < n \<and> xs ! i = u"
proof (induction u xs n arbitrary: i rule: arr_find.induct)
  case (3 u x xs n)
  then show ?case by (auto split: if_splits option.splits)
qed auto

lemma arr_find_none: "arr_find u xs n = Some None \<Longrightarrow> n \<le> length xs \<and> u \<notin> set (take n xs)"
  by (induction u xs n rule: arr_find.induct) (auto split: if_splits)

lemma arr_find_past: "arr_find u xs n = None \<Longrightarrow> length xs < n"
  by (induction u xs n rule: arr_find.induct) (auto split: if_splits)

definition arr_ok :: "susp \<Rightarrow> bool" where
  "arr_ok m \<longleftrightarrow> (arr m = [] \<or> length (arr m) = 10) \<and> distinct (filter (\<lambda>x. x \<noteq> 0) (arr m))"

lemma distinct_filter_insert:
  assumes "distinct (filter P xs)" and "i < length xs" and "\<not> P (xs ! i)" and "u \<notin> set xs"
  shows "distinct (filter P (xs[i := u]))"
  using assms
proof (induction xs arbitrary: i)
  case (Cons x xs)
  show ?case
  proof (cases i)
    case 0
    then show ?thesis using Cons.prems by auto
  next
    case (Suc j)
    then have "distinct (filter P (xs[j := u]))" using Cons by (intro Cons.IH) (auto split: if_splits)
    moreover have "x \<notin> set (filter P (xs[j := u]))" if "P x"
      using that Cons.prems Suc set_update_subset_insert [of xs j u] by (auto split: if_splits)
    ultimately show ?thesis using Suc by simp
  qed
qed simp

lemma distinct_filter_delete:
  assumes "distinct (filter P xs)" and "i < length xs" and "\<not> P z"
  shows "distinct (filter P (xs[i := z]))" and "P (xs ! i) \<Longrightarrow> xs ! i \<notin> set (xs[i := z])"
  using assms
proof (induction xs arbitrary: i)
  case (Cons x xs)
  {
    case 1
    show ?case
    proof (cases i)
      case (Suc j)
      have "set (filter P (xs[j := z])) \<subseteq> set (filter P xs)"
        using 1 Suc set_update_subset_insert [of xs j z] by auto
      then show ?thesis using 1 Suc Cons.IH(1) [of j] by (auto split: if_splits)
    qed (use 1 in \<open>auto split: if_splits\<close>)
  next
    case 2
    show ?case
    proof (cases i)
      case 0
      then show ?thesis using 2 by auto
    next
      case (Suc j)
      have "xs ! j \<in> set xs" using 2 Suc by simp
      then have "xs ! j \<noteq> x" using 2 Suc by (auto split: if_splits)
      moreover have "xs ! j \<notin> set (xs[j := z])" using 2 Suc Cons.IH(2) [of j] by (auto split: if_splits)
      ultimately show ?thesis using Suc by simp
    qed
  }
qed auto

lemma listed_put:
  assumes "i < length (arr m)" and "arr m ! i = 0" and "u \<noteq> 0"
  shows "set ((arr m)[i := u]) - {0} = insert u (listed m)"
proof
  show "set ((arr m)[i := u]) - {0} \<subseteq> insert u (listed m)"
    using set_update_subset_insert [of "arr m" i u] by (auto simp: listed_def)
  have "y \<in> set ((arr m)[i := u])" if y: "y \<in> listed m" for y
  proof -
    obtain j where j: "j < length (arr m)" "arr m ! j = y" "y \<noteq> 0"
      using y by (auto simp: listed_def in_set_conv_nth)
    then have "(arr m)[i := u] ! j = y" using assms(2) by (auto simp: nth_update_if)
    then show ?thesis using j(1) nth_mem [of j "(arr m)[i := u]"] by simp
  qed
  then show "insert u (listed m) \<subseteq> set ((arr m)[i := u]) - {0}"
    using assms by (auto simp: listed_def set_update_memI)
qed

lemma listed_delete:
  assumes "i < length xs" and "xs ! i \<notin> set (xs[i := 0])"
  shows "set (xs[i := 0]) - {0} = set xs - {0} - {xs ! i}"
proof
  show "set (xs[i := 0]) - {0} \<subseteq> set xs - {0} - {xs ! i}"
    using set_update_subset_insert [of xs i 0] assms(2) by auto
  have "y \<in> set (xs[i := 0])" if y: "y \<in> set xs" "y \<noteq> xs ! i" for y
  proof -
    obtain j where j: "j < length xs" "xs ! j = y" using y(1) by (auto simp: in_set_conv_nth)
    then have "xs[i := 0] ! j = y" using y(2) by (auto simp: nth_update_if)
    then show ?thesis using j(1) nth_mem [of j "xs[i := 0]"] by simp
  qed
  then show "set xs - {0} - {xs ! i} \<subseteq> set (xs[i := 0]) - {0}" by auto
qed

text \<open>An array of ten with fewer than ten threads in it has a free place.\<close>

lemma free_place:
  assumes "length xs = 10" and "distinct (filter (\<lambda>x. x \<noteq> 0) xs)" and "set xs - {0} \<subseteq> S" and "finite S" and "card S < 10"
  shows "0 \<in> set xs"
proof (rule ccontr)
  assume "0 \<notin> set xs"
  then have "filter (\<lambda>x. x \<noteq> 0) xs = xs" by (auto simp: filter_id_conv)
  then have "card (set xs) = 10" using assms(1,2) by (simp add: distinct_card)
  moreover have "set xs \<subseteq> S" using assms(3) \<open>0 \<notin> set xs\<close> by auto
  then have "card (set xs) \<le> card S" using card_mono [OF assms(4)] by simp
  ultimately show False using assms(5) by simp
qed

section \<open>Where the threads are\<close>

text \<open>The main program waits for thread \<open>u\<close> to stop.\<close>

definition spinning :: "sp_pc \<Rightarrow> tid \<Rightarrow> bool" where
  "spinning p u \<longleftrightarrow> (\<exists>i j. p = SP_suspend i u (SU_spin j))"

definition th_fit :: "susp \<Rightarrow> sp_pc \<Rightarrow> tid \<Rightarrow> th_pc \<Rightarrow> bool" where
  "th_fit m p u q \<longleftrightarrow>
     (case q of
        TH_sleep i \<Rightarrow>
          (if spinning p u then u \<notin> listed m \<and> (usr1 m u \<longleftrightarrow> sentinel m = 0) \<and> (usr2 m u \<longleftrightarrow> sentinel m = 0)
           else \<not> usr1 m u \<and> (usr2 m u \<longleftrightarrow> u \<notin> listed m))
      | TH_mark i \<Rightarrow> \<not> usr1 m u \<and> \<not> usr2 m u \<and> u \<notin> listed m \<and> spinning p u \<and> sentinel m = 0
      | _ \<Rightarrow> \<not> usr2 m u \<and> u \<notin> listed m \<and> (usr1 m u \<longleftrightarrow> spinning p u) \<and> (spinning p u \<longrightarrow> sentinel m = 0))"

text \<open>The main program: \<open>U\<close> are the threads that can be in the array before the call.\<close>

fun in_fit :: "susp \<Rightarrow> in_pc \<Rightarrow> bool" where
  "in_fit m IN_calloc \<longleftrightarrow> arr m = [] \<and> once m = 1"
| "in_fit m p \<longleftrightarrow> bottom m = 10 \<and> once m = 1"

abbreviation ready :: "susp \<Rightarrow> bool" where
  "ready m \<equiv> once m = 2 \<and> bottom m = 10"

definition unset :: "susp \<Rightarrow> bool" where
  "unset m \<longleftrightarrow> once m = 0 \<and> arr m = [] \<or> ready m"

fun su_fit :: "susp \<Rightarrow> nat set \<Rightarrow> tid \<Rightarrow> su_pc \<Rightarrow> bool" where
  "su_fit m U u SU_once \<longleftrightarrow> unset m \<and> listed m = U"
| "su_fit m U u (SU_init q) \<longleftrightarrow> in_fit m q \<and> listed m = {} \<and> U = {}"
| "su_fit m U u SU_lock \<longleftrightarrow> ready m \<and> listed m = U"
| "su_fit m U u SU_realloc \<longleftrightarrow> False"
| "su_fit m U u (SU_kill i) \<longleftrightarrow> ready m \<and> listed m = U \<and> i < length (arr m) \<and> arr m ! i = 0 \<and> u \<notin> listed m \<and> sentinel m = 0"
| "su_fit m U u (SU_spin i) \<longleftrightarrow> ready m \<and> listed m = U \<and> i < length (arr m) \<and> arr m ! i = 0 \<and> u \<notin> listed m"
| "su_fit m U u SU_unlock \<longleftrightarrow> ready m \<and> listed m = insert u U"
| "su_fit m U u (SU_fail r) \<longleftrightarrow> r \<noteq> 0 \<and> ready m"
| "su_fit m U u (SU_return r) \<longleftrightarrow> r \<noteq> 0 \<or> ready m \<and> listed m = insert u U"
| "su_fit m U u SU_crash \<longleftrightarrow> arr m = [] \<and> once m = 2"

fun co_fit :: "susp \<Rightarrow> nat set \<Rightarrow> tid \<Rightarrow> co_pc \<Rightarrow> bool" where
  "co_fit m U u CO_once \<longleftrightarrow> unset m \<and> listed m = U"
| "co_fit m U u (CO_init q) \<longleftrightarrow> in_fit m q \<and> listed m = {} \<and> U = {}"
| "co_fit m U u CO_lock \<longleftrightarrow> ready m \<and> listed m = U"
| "co_fit m U u (CO_kill i) \<longleftrightarrow> ready m \<and> listed m = U \<and> i < length (arr m) \<and> arr m ! i = u"
| "co_fit m U u CO_unlock \<longleftrightarrow> ready m \<and> listed m = U - {u}"
| "co_fit m U u (CO_fail r) \<longleftrightarrow> r \<noteq> 0 \<or> ready m \<and> listed m = U - {u}"
| "co_fit m U u (CO_return r) \<longleftrightarrow> r \<noteq> 0 \<or> ready m \<and> listed m = U - {u}"
| "co_fit m U u CO_crash \<longleftrightarrow> arr m = [] \<and> once m = 2"

definition quiet :: "susp \<Rightarrow> bool" where
  "quiet m \<longleftrightarrow> once m = 0 \<and> arr m = [] \<and> (\<forall>v. \<not> usr1 m v \<and> \<not> usr2 m v)"

fun sp_fit :: "susp \<Rightarrow> nat \<Rightarrow> sp_pc \<Rightarrow> bool" where
  "sp_fit m k (SP_create i) \<longleftrightarrow> quiet m \<and> k = i \<and> i < 20"
| "sp_fit m k (SP_continue1 i u p) \<longleftrightarrow> k = 20 \<and> 10 \<le> i \<and> i < 20 \<and> u = Suc i \<and> co_fit m {} u p"
| "sp_fit m k (SP_suspend i u p) \<longleftrightarrow> k = 20 \<and> 10 \<le> i \<and> i < 20 \<and> u = Suc i \<and> su_fit m {11..i} u p"
| "sp_fit m k (SP_continue2 i u p) \<longleftrightarrow> k = 20 \<and> 10 \<le> i \<and> i < 20 \<and> u = Suc i \<and> co_fit m {Suc i..20} u p"
| "sp_fit m k SP_return \<longleftrightarrow> k = 20 \<and> ready m \<and> listed m = {}"
| "sp_fit m k SP_abort \<longleftrightarrow> True"
| "sp_fit m k (SP_thread n q) \<longleftrightarrow> False"
| "sp_fit m k SP_attr_destroy \<longleftrightarrow> quiet m \<and> k = 20"
| "sp_fit m k p \<longleftrightarrow> quiet m \<and> k = 0"

lemma th_fit_cong:
  assumes "u \<in> listed m' \<longleftrightarrow> u \<in> listed m" and "usr1 m' u = usr1 m u" and "usr2 m' u = usr2 m u"
    and "spinning p' u = spinning p u" and "spinning p u \<longrightarrow> sentinel m' = sentinel m"
  shows "th_fit m' p' u q = th_fit m p u q"
  using assms by (cases q) (auto simp: th_fit_def)

lemma listed_simps [simp]:
  "listed (m\<lparr>sentinel := x\<rparr>) = listed m" "listed (m\<lparr>once := y\<rparr>) = listed m" "listed (m\<lparr>bottom := z\<rparr>) = listed m"
  "listed (m\<lparr>inited := y\<rparr>) = listed m" "listed (m\<lparr>usr1 := f\<rparr>) = listed m" "listed (m\<lparr>usr2 := f\<rparr>) = listed m"
  "listed (m\<lparr>tids := us\<rparr>) = listed m" "listed (m\<lparr>wrote := ws\<rparr>) = listed m"
  by (simp_all add: listed_def)

lemma arr_ok_simps [simp]:
  "arr_ok (m\<lparr>sentinel := x\<rparr>) = arr_ok m" "arr_ok (m\<lparr>once := y\<rparr>) = arr_ok m" "arr_ok (m\<lparr>bottom := z\<rparr>) = arr_ok m"
  "arr_ok (m\<lparr>inited := y\<rparr>) = arr_ok m" "arr_ok (m\<lparr>usr1 := f\<rparr>) = arr_ok m" "arr_ok (m\<lparr>usr2 := f\<rparr>) = arr_ok m"
  "arr_ok (m\<lparr>tids := us\<rparr>) = arr_ok m" "arr_ok (m\<lparr>wrote := ws\<rparr>) = arr_ok m"
  by (simp_all add: arr_ok_def)

section \<open>A step of a thread\<close>

lemma th_step:
  assumes "susp_routine n q = Do c k" and "answer_ok c r m t0" and "k r m = (m', q')"
    and "tids m ! n = Suc n" and "th_fit m p (Suc n) q"
  shows "th_fit m' p (Suc n) q'" "arr m' = arr m \<and> once m' = once m \<and> bottom m' = bottom m \<and> tids m' = tids m"
    "v \<noteq> Suc n \<Longrightarrow> usr1 m' v = usr1 m v \<and> usr2 m' v = usr2 m v"
    "usr1 m' v \<longrightarrow> usr1 m v" "usr2 m' v \<longrightarrow> usr2 m v"
    "sentinel m' \<noteq> sentinel m \<Longrightarrow> spinning p (Suc n)" "spawned c r = [] \<and> entry_mem c r l m = m"
proof -
  have *: "th_fit m' p (Suc n) q' \<and> (arr m' = arr m \<and> once m' = once m \<and> bottom m' = bottom m \<and> tids m' = tids m) \<and>
    (v \<noteq> Suc n \<longrightarrow> usr1 m' v = usr1 m v \<and> usr2 m' v = usr2 m v) \<and> (usr1 m' v \<longrightarrow> usr1 m v) \<and> (usr2 m' v \<longrightarrow> usr2 m v) \<and>
    (sentinel m' \<noteq> sentinel m \<longrightarrow> spinning p (Suc n)) \<and> spawned c r = [] \<and> entry_mem c r l m = m"
    using assms
    by (cases q) (auto simp: th_fit_def takes_def resume_signal_handler_def suspend_signal_handler_def th_body_def th_for_def
        split: if_splits)
  from * show "th_fit m' p (Suc n) q'" "arr m' = arr m \<and> once m' = once m \<and> bottom m' = bottom m \<and> tids m' = tids m"
    "spawned c r = [] \<and> entry_mem c r l m = m" "usr1 m' v \<longrightarrow> usr1 m v" "usr2 m' v \<longrightarrow> usr2 m v" by simp_all
  from * show "v \<noteq> Suc n \<Longrightarrow> usr1 m' v = usr1 m v \<and> usr2 m' v = usr2 m v" "sentinel m' \<noteq> sentinel m \<Longrightarrow> spinning p (Suc n)"
    by simp_all
qed

section \<open>A step of the main program\<close>

lemma init_step:
  assumes "suspend_init_routine p = Do c k" and "answer_ok c r m t0" and "k r m = (m', p')"
    and "in_fit m p" and "arr_ok m" and "listed m = {}"
  shows "in_fit m' p' \<and> arr_ok m' \<and> listed m' = {} \<and> tids m' = tids m \<and> usr1 m' = usr1 m \<and> usr2 m' = usr2 m \<and>
    spawned c r = [] \<and> entry_mem c r l m = m"
proof (cases p)
  case IN_calloc
  then show ?thesis using assms by (auto simp: arr_ok_def listed_def split: if_splits)
qed (use assms in \<open>auto split: if_splits\<close>)

lemma init_return: "suspend_init_routine p = Return v \<Longrightarrow> p = IN_return"
  by (cases p) auto

lemma su_search_fit:
  assumes "su_search u m = (m', p')" and "ready m" and "arr_ok m" and "listed m = U" and "finite U" and "card U < 10" and "u \<noteq> 0"
  shows "su_fit m' U u p' \<and> (m' = m \<or> m' = m\<lparr>sentinel := 0\<rparr>) \<and> (\<forall>j. p' \<noteq> SU_spin j)"
proof (cases "arr m = []")
  case True
  then have "arr_find v (arr m) (bottom m) = None" for v using assms(2) by (simp add: eval_nat_numeral)
  then show ?thesis using assms(1,2) True by (auto simp: su_search_def)
next
  case False
  then have len: "length (arr m) = 10" using assms(3) by (simp add: arr_ok_def)
  have f: "arr_find v (arr m) (bottom m) \<noteq> None" for v using arr_find_past [of v "arr m" "bottom m"] assms(2) len by auto
  have "0 \<in> set (arr m)"
    by (rule free_place [OF len _ _ assms(5,6)]) (use assms(3,4) in \<open>simp_all add: arr_ok_def listed_def\<close>)
  then have z: "arr_find 0 (arr m) (bottom m) \<noteq> Some None" using arr_find_none [of 0 "arr m" "bottom m"] len assms(2) by auto
  show ?thesis
  proof (cases "arr_find u (arr m) (bottom m)")
    case (Some x)
    show ?thesis
    proof (cases x)
      case None
      obtain i where i: "arr_find 0 (arr m) (bottom m) = Some (Some i)" using f [of 0] z by (cases "arr_find 0 (arr m) (bottom m)") auto
      have "u \<notin> set (arr m)" using arr_find_none [of u "arr m" "bottom m"] Some None len assms(2) by simp
      then have "u \<notin> listed m" by (simp add: listed_def)
      moreover have "m' = m\<lparr>sentinel := 0\<rparr>" "p' = SU_kill i" using assms(1) Some None i by (simp_all add: su_search_def)
      ultimately show ?thesis using assms(2,4) arr_find_some [OF i] by simp
    next
      case (Some i)
      then have "i < length (arr m) \<and> arr m ! i = u" using \<open>arr_find u (arr m) (bottom m) = Some x\<close> arr_find_some by simp
      then have "u \<in> listed m" using assms(7) nth_mem [of i "arr m"] by (auto simp: listed_def)
      then show ?thesis using Some assms \<open>arr_find u (arr m) (bottom m) = Some x\<close> by (auto simp: su_search_def)
    qed
  qed (use f in simp)
qed

lemma th_fit_same:
  assumes "listed m' = listed m" and "usr1 m' = usr1 m" and "usr2 m' = usr2 m" and "\<not> spinning p v" and "\<not> spinning p' v"
  shows "th_fit m' p' v q = th_fit m p v q"
  using assms by (intro th_fit_cong) simp_all

lemma th_fit_killed:
  assumes "th_fit m p v q" and "\<not> spinning p v" and "spinning p' v \<longleftrightarrow> v = u" and "u \<notin> listed m" and "sentinel m = 0"
  shows "th_fit (m\<lparr>usr1 := (usr1 m)(u := True)\<rparr>) p' v q"
proof (cases "v = u")
  case True
  then show ?thesis using assms by (simp add: th_fit_def split: th_pc.splits)
next
  case False
  then have "th_fit (m\<lparr>usr1 := (usr1 m)(u := True)\<rparr>) p' v q = th_fit m p v q"
    using assms by (intro th_fit_cong) simp_all
  then show ?thesis using assms(1) by simp
qed

lemma th_fit_stopped:
  assumes "th_fit m p v q" and "spinning p v \<longleftrightarrow> v = u" and "\<not> spinning p' v" and "sentinel m \<noteq> 0"
    and "listed m' = insert u (listed m)" and "usr1 m' = usr1 m" and "usr2 m' = usr2 m"
  shows "th_fit m' p' v q"
proof (cases "v = u")
  case True
  then show ?thesis using assms by (simp add: th_fit_def split: th_pc.splits if_splits)
next
  case False
  then have "th_fit m' p' v q = th_fit m p v q"
    using assms by (intro th_fit_cong) simp_all
  then show ?thesis using assms(1) by simp
qed

lemma th_fit_resumed:
  assumes "th_fit m p v q" and "\<not> spinning p v" and "\<not> spinning p' v" and "u \<in> listed m"
    and "listed m' = listed m - {u}" and "usr1 m' = usr1 m" and "usr2 m' = (usr2 m)(u := True)"
  shows "th_fit m' p' v q"
proof (cases "v = u")
  case True
  then show ?thesis using assms by (simp add: th_fit_def split: th_pc.splits if_splits)
next
  case False
  then have "th_fit m' p' v q = th_fit m p v q"
    using assms by (intro th_fit_cong) simp_all
  then show ?thesis using assms(1) by simp
qed

lemma arr_ok_put:
  assumes "arr_ok m" and "i < length (arr m)" and "arr m ! i = 0" and "u \<notin> listed m" and "u \<noteq> 0"
  shows "arr_ok (m\<lparr>arr := (arr m)[i := u]\<rparr>)"
  using assms distinct_filter_insert [of "\<lambda>x. x \<noteq> 0" "arr m" i u] by (auto simp: arr_ok_def listed_def)

lemma arr_delete:
  assumes "arr_ok m" and "i < length (arr m)" and "arr m ! i = u" and "u \<noteq> 0"
  shows "arr_ok (m\<lparr>arr := (arr m)[i := 0]\<rparr>)" "set ((arr m)[i := 0]) - {0} = listed m - {u}"
proof -
  have d: "distinct (filter (\<lambda>x. x \<noteq> 0) (arr m))" using assms(1) by (simp add: arr_ok_def)
  show "arr_ok (m\<lparr>arr := (arr m)[i := 0]\<rparr>)"
    using assms(1) distinct_filter_delete(1) [OF d assms(2), of 0] by (auto simp: arr_ok_def)
  show "set ((arr m)[i := 0]) - {0} = listed m - {u}"
    using listed_delete [OF assms(2)] distinct_filter_delete(2) [OF d assms(2), of 0] assms(3,4) by (simp add: listed_def)
qed

text \<open>What a step of \<open>thd_suspend\<close> or \<open>thd_continue\<close> keeps.\<close>

definition kept :: "susp \<Rightarrow> susp \<Rightarrow> sp_pc \<Rightarrow> sp_pc \<Rightarrow> bool" where
  "kept m m' p p' \<longleftrightarrow> arr_ok m' \<and> tids m' = tids m \<and> (\<forall>v q. th_fit m p v q \<longrightarrow> th_fit m' p' v q) \<and>
     (\<forall>v \<le> 10. usr1 m' v = usr1 m v \<and> usr2 m' v = usr2 m v)"

lemma keptI:
  assumes "arr_ok m'" and "tids m' = tids m" and "\<And>v q. th_fit m p v q \<Longrightarrow> th_fit m' p' v q"
    and "\<And>v. v \<le> 10 \<Longrightarrow> usr1 m' v = usr1 m v \<and> usr2 m' v = usr2 m v"
  shows "kept m m' p p'"
  using assms by (simp add: kept_def)

lemma kept_unmoved:
  assumes "arr_ok m'" and "tids m' = tids m" and "listed m' = listed m" and "usr1 m' = usr1 m" and "usr2 m' = usr2 m"
    and "\<And>v. \<not> spinning p v" and "\<And>v. \<not> spinning p' v"
  shows "kept m m' p p'"
  using assms(1,2,4-7) by (auto simp: kept_def th_fit_same [OF assms(3,4,5), where p = p and p' = p'])

lemma su_step:
  assumes "thd_suspend u p = Do c k" and "answer_ok c r m t0" and "k r m = (m', p')"
    and "su_fit m U u p" and "arr_ok m" and "finite U" and "card U < 10" and "u \<noteq> 0" and "10 < u"
    and sp: "\<And>v. spinning P v \<longleftrightarrow> v = u \<and> (\<exists>j. p = SU_spin j)" "\<And>v. spinning P' v \<longleftrightarrow> v = u \<and> (\<exists>j. p' = SU_spin j)"
  shows "su_fit m' U u p' \<and> kept m m' P P'"
proof (cases p)
  case SU_once
  then show ?thesis using assms
    by (auto simp: once_guard_def unset_def listed_def intro!: kept_unmoved split: if_splits)
next
  case (SU_init q)
  then have "call_here SU_init (\<lambda>_ m. (m\<lparr>once := 2\<rparr>, SU_lock)) (suspend_init_routine q) = Do c k" using assms(1) by simp
  then show ?thesis
  proof (cases rule: call_fun_cases)
    case (inside c0 k0)
    obtain q' where q: "k0 r m = (m', q')" "p' = SU_init q'" using inside assms(3) by (cases "k0 r m") auto
    have "answer_ok c0 r m t0" using inside assms(2) by simp
    from init_step [OF inside(1) this q(1)] show ?thesis using assms SU_init q(2) by (auto intro!: kept_unmoved)
  next
    case (ret v)
    then show ?thesis using assms SU_init init_return [OF ret(1)] by (auto intro!: kept_unmoved)
  qed
next
  case SU_lock
  show ?thesis
  proof (cases "r = 0")
    case True
    then have "su_search u m = (m', p')" using assms(1,3) SU_lock by auto
    from su_search_fit [OF this _ assms(5) _ assms(6-8)] show ?thesis
      using assms SU_lock by (auto intro!: kept_unmoved)
  qed (use SU_lock assms in \<open>auto intro!: kept_unmoved\<close>)
next
  case (SU_kill i)
  show ?thesis
  proof (cases "r = 0")
    case True
    then have m': "m' = m\<lparr>usr1 := (usr1 m)(u := True)\<rparr>" "p' = SU_spin i"
      using assms(1,3,4) SU_kill by (auto simp: su_spin_def)
    then have "kept m m' P P'"
      using assms(4,5,9) SU_kill sp by (intro keptI) (auto intro!: th_fit_killed [where p = P])
    then show ?thesis using assms(4) SU_kill m' by auto
  qed (use SU_kill assms in \<open>auto intro!: kept_unmoved\<close>)
next
  case (SU_spin i)
  show ?thesis
  proof (cases "sentinel m = 0")
    case True
    then have m': "m' = m" "p' = SU_spin i" using assms(1,3) SU_spin by (auto simp: su_spin_def)
    then show ?thesis using assms(4,5) SU_spin sp by (auto simp: kept_def intro: th_fit_cong [THEN iffD2])
  next
    case False
    then have m': "m' = m\<lparr>arr := (arr m)[i := u]\<rparr>" "p' = SU_unlock"
      using assms(1,3,4) SU_spin by (auto simp: su_spin_def)
    have l: "listed m' = insert u (listed m)" using listed_put [of i m u] assms(4,8) SU_spin m' by (simp add: listed_def)
    have "arr_ok m'" using arr_ok_put [OF assms(5), of i u] assms(4,8) SU_spin m' by auto
    then have "kept m m' P P'"
      using SU_spin sp l m' False by (intro keptI) (auto intro!: th_fit_stopped [where p = P and u = u and m = m])
    then show ?thesis using assms(4) SU_spin m' l by auto
  qed
qed (use assms in \<open>auto intro!: kept_unmoved\<close>)

lemma co_step:
  assumes "thd_continue u p = Do c k" and "answer_ok c r m t0" and "k r m = (m', p')"
    and "co_fit m U u p" and "arr_ok m" and "u \<noteq> 0" and "10 < u" and sp: "\<And>v. \<not> spinning P v" "\<And>v. \<not> spinning P' v"
  shows "co_fit m' U u p' \<and> kept m m' P P'"
proof (cases p)
  case CO_once
  then show ?thesis using assms
    by (auto simp: once_guard_def unset_def listed_def intro!: kept_unmoved split: if_splits)
next
  case (CO_init q)
  then have "call_here CO_init (\<lambda>_ m. (m\<lparr>once := 2\<rparr>, CO_lock)) (suspend_init_routine q) = Do c k" using assms(1) by simp
  then show ?thesis
  proof (cases rule: call_fun_cases)
    case (inside c0 k0)
    obtain q' where q: "k0 r m = (m', q')" "p' = CO_init q'" using inside assms(3) by (cases "k0 r m") auto
    have "answer_ok c0 r m t0" using inside assms(2) by simp
    from init_step [OF inside(1) this q(1)] show ?thesis using assms CO_init q(2) by (auto intro!: kept_unmoved)
  next
    case (ret v)
    then show ?thesis using assms CO_init init_return [OF ret(1)] by (auto intro!: kept_unmoved)
  qed
next
  case CO_lock
  then have "m' = m" "r \<noteq> 0 \<and> p' = CO_return r \<or> r = 0 \<and> co_search u m = (m, p')"
    using assms(1,3) by (auto simp: co_search_def split: if_splits)
  moreover have "co_fit m U u p'" if "co_search u m = (m, p')"
    using that assms(4,5) CO_lock arr_find_some [of u "arr m" "bottom m"] arr_find_none [of u "arr m" "bottom m"]
      arr_find_past [of u "arr m" "bottom m"]
    by (auto simp: co_search_def arr_ok_def listed_def split: option.splits)
  ultimately show ?thesis using assms(4,5) CO_lock sp by (auto intro!: kept_unmoved)
next
  case (CO_kill i)
  show ?thesis
  proof (cases "r = 0")
    case True
    then have m': "m' = m\<lparr>usr2 := (usr2 m)(u := True), arr := (arr m)[i := 0]\<rparr>" "p' = CO_unlock"
      using assms(1,3,4) CO_kill by auto
    have i: "i < length (arr m)" "arr m ! i = u" using assms(4) CO_kill by auto
    note d = arr_delete [OF assms(5) i assms(6)]
    have l: "listed m' = listed m - {u}" using d(2) m' by (simp add: listed_def)
    have u: "u \<in> listed m" using i assms(6) nth_mem [of i "arr m"] by (auto simp: listed_def)
    have "arr_ok m'" using d(1) m' by (simp add: arr_ok_def)
    then have "kept m m' P P'"
      using sp l m' u assms(7) by (intro keptI) (auto intro!: th_fit_resumed [where p = P and u = u and m = m])
    then show ?thesis using assms(4) CO_kill m' l by auto
  qed (use CO_kill assms in \<open>auto intro!: kept_unmoved\<close>)
qed (use assms in \<open>auto intro!: kept_unmoved\<close>)

lemma su_no_return: "thd_suspend u p = Return v \<Longrightarrow> p = SU_return v"
  by (cases p; simp) (use init_return in \<open>auto elim: call_fun.elims\<close>)

lemma co_no_return: "thd_continue u p = Return v \<Longrightarrow> p = CO_return v"
  by (cases p; simp) (use init_return in \<open>auto elim: call_fun.elims\<close>)

lemma su_calls: "thd_suspend u p = Do c k \<Longrightarrow> spawned c r = [] \<and> entry_mem c r l m = m"
proof (cases p)
  case (SU_init q)
  assume "thd_suspend u p = Do c k"
  then have "call_here SU_init (\<lambda>_ m. (m\<lparr>once := 2\<rparr>, SU_lock)) (suspend_init_routine q) = Do c k" using SU_init by simp
  then show ?thesis by (cases rule: call_fun_cases; cases q) auto
qed auto

lemma co_calls: "thd_continue u p = Do c k \<Longrightarrow> spawned c r = [] \<and> entry_mem c r l m = m"
proof (cases p)
  case (CO_init q)
  assume "thd_continue u p = Do c k"
  then have "call_here CO_init (\<lambda>_ m. (m\<lparr>once := 2\<rparr>, CO_lock)) (suspend_init_routine q) = Do c k" using CO_init by simp
  then show ?thesis by (cases rule: call_fun_cases; cases q) auto
qed auto

lemma spinning_simps [simp]:
  "spinning (SP_suspend i u p) v \<longleftrightarrow> v = u \<and> (\<exists>j. p = SU_spin j)"
  "\<not> spinning (SP_continue1 i u q) v" "\<not> spinning (SP_continue2 i u q) v"
  "\<not> spinning SP_attr_init v" "\<not> spinning SP_setdetach v" "\<not> spinning (SP_create i) v" "\<not> spinning SP_attr_destroy v"
  "\<not> spinning SP_return v" "\<not> spinning SP_abort v" "\<not> spinning (SP_thread n x) v"
  by (auto simp: spinning_def)

lemmas sp_loops = sp_continue1_def sp_suspend_def sp_continue2_def THREAD_COUNT_def

text \<open>The three loops, at their heads.\<close>

lemma sp_continue2_fit:
  assumes "sp_continue2 i m = (m', p')" and "tids m = map Suc [0..<20]" and "10 \<le> i" and "i \<le> 20"
    and "ready m" and "listed m = {Suc i..20}"
  shows "m' = m \<and> sp_fit m 20 p' \<and> \<not> spinning p' v"
  using assms by (cases "i = 20") (auto simp: sp_loops unset_def)

lemma sp_suspend_fit:
  assumes "sp_suspend i m = (m', p')" and "tids m = map Suc [0..<20]" and "10 \<le> i" and "i \<le> 20"
    and "unset m" and "i = 20 \<longrightarrow> ready m" and "listed m = {11..i}"
  shows "m' = m \<and> sp_fit m 20 p' \<and> \<not> spinning p' v"
proof (cases "i = 20")
  case True
  then show ?thesis using assms sp_continue2_fit [of 10 m m' p' v] by (auto simp: sp_suspend_def THREAD_COUNT_def)
qed (use assms in \<open>auto simp: sp_suspend_def THREAD_COUNT_def\<close>)

lemma sp_continue1_fit:
  assumes "sp_continue1 i m = (m', p')" and "tids m = map Suc [0..<20]" and "10 \<le> i" and "i \<le> 20"
    and "unset m" and "listed m = {}"
  shows "m' = m \<and> sp_fit m 20 p' \<and> \<not> spinning p' v"
proof (cases "i = 20")
  case True
  then show ?thesis using assms sp_suspend_fit [of 10 m m' p' v] by (auto simp: sp_continue1_def THREAD_COUNT_def)
qed (use assms in \<open>auto simp: sp_continue1_def THREAD_COUNT_def\<close>)

lemma kept_head:
  assumes "m' = m \<and> sp_fit m 20 p' \<and> (\<forall>v. \<not> spinning p' v)" and "arr_ok m" and "\<And>v. \<not> spinning p v"
  shows "sp_fit m' 20 p' \<and> kept m m' p p'"
  using assms by (auto intro!: kept_unmoved)

lemma sp_step:
  assumes "susp_main p = Do c k" and "answer_ok c r m t0" and "k r (entry_mem c r l m) = (m', p')"
    and "sp_fit m n p" and "arr_ok m" and "tids m = map Suc [0..<n]" and "\<And>i. p \<noteq> SP_create i"
  shows "sp_fit m' n p' \<and> kept m m' p p' \<and> spawned c r = []"
proof (cases p)
  case SP_attr_destroy
  then have n: "n = 20" using assms(4) by simp
  show ?thesis
  proof (cases "r = 0")
    case True
    then have "sp_continue1 10 m = (m', p')" using assms(1,3) SP_attr_destroy by (auto simp: THREAD_COUNT_def)
    moreover have "unset m \<and> listed m = {}" using assms(4) SP_attr_destroy by (auto simp: quiet_def unset_def listed_def)
    ultimately have "\<And>v. m' = m \<and> sp_fit m 20 p' \<and> \<not> spinning p' v"
      using sp_continue1_fit [of 10 m m' p'] assms(6) n by simp
    then show ?thesis using kept_head [of m' m p' p] assms(1,5) SP_attr_destroy n by auto
  qed (use assms SP_attr_destroy in \<open>auto intro!: kept_unmoved\<close>)
next
  case (SP_continue1 i u q)
  have n: "n = 20" using assms(4) SP_continue1 by simp
  have "call_here (SP_continue1 i u) (\<lambda>status m. if status \<noteq> 0 then (m, SP_abort) else sp_continue1 (i + 1) m)
      (thd_continue u q) = Do c k" using assms(1) SP_continue1 by simp
  then show ?thesis
  proof (cases rule: call_fun_cases)
    case (inside c0 k0)
    have e: "spawned c0 r = [] \<and> entry_mem c0 r l m = m" for l by (rule co_calls [OF inside(1)])
    obtain q' where q: "k0 r m = (m', q')" "p' = SP_continue1 i u q'" using inside e assms(3) by (cases "k0 r m") auto
    have "answer_ok c0 r m t0" using inside assms(2) by simp
    from co_step [OF inside(1) this q(1) _ assms(5), of "{}" p p'] show ?thesis
      using assms(4) SP_continue1 q(2) inside e by auto
  next
    case (ret v)
    have q: "q = CO_return v" by (rule co_no_return [OF ret(1)])
    show ?thesis
    proof (cases "v = 0")
      case True
      then have "sp_continue1 (i + 1) m = (m', p')" using assms(3) ret by auto
      then have "\<And>v. m' = m \<and> sp_fit m 20 p' \<and> \<not> spinning p' v"
        using sp_continue1_fit [of "i + 1" m m' p'] assms(4,6) SP_continue1 n q True by (auto simp: unset_def)
      then show ?thesis using kept_head [of m' m p' p] assms(5) SP_continue1 n ret by auto
    qed (use assms SP_continue1 ret in \<open>auto intro!: kept_unmoved\<close>)
  qed
next
  case (SP_suspend i u q)
  have n: "n = 20" using assms(4) SP_suspend by simp
  have "call_here (SP_suspend i u) (\<lambda>status m. if status \<noteq> 0 then (m, SP_abort) else sp_suspend (i + 1) m)
      (thd_suspend u q) = Do c k" using assms(1) SP_suspend by simp
  then show ?thesis
  proof (cases rule: call_fun_cases)
    case (inside c0 k0)
    have e: "spawned c0 r = [] \<and> entry_mem c0 r l m = m" for l by (rule su_calls [OF inside(1)])
    obtain q' where q: "k0 r m = (m', q')" "p' = SP_suspend i u q'" using inside e assms(3) by (cases "k0 r m") auto
    have "answer_ok c0 r m t0" using inside assms(2) by simp
    from su_step [OF inside(1) this q(1) _ assms(5), of "{11..i}" p p'] show ?thesis
      using assms(4) SP_suspend q(2) inside e by auto
  next
    case (ret v)
    have q: "q = SU_return v" by (rule su_no_return [OF ret(1)])
    show ?thesis
    proof (cases "v = 0")
      case True
      then have "sp_suspend (i + 1) m = (m', p')" using assms(3) ret by auto
      then have "\<And>v. m' = m \<and> sp_fit m 20 p' \<and> \<not> spinning p' v"
        using sp_suspend_fit [of "i + 1" m m' p'] assms(4,6) SP_suspend n q True
        by (auto simp: unset_def atLeastAtMostSuc_conv)
      then show ?thesis using kept_head [of m' m p' p] assms(5) SP_suspend n ret q by auto
    qed (use assms SP_suspend ret q in \<open>auto intro!: kept_unmoved\<close>)
  qed
next
  case (SP_continue2 i u q)
  have n: "n = 20" using assms(4) SP_continue2 by simp
  have "call_here (SP_continue2 i u) (\<lambda>status m. if status \<noteq> 0 then (m, SP_abort) else sp_continue2 (i + 1) m)
      (thd_continue u q) = Do c k" using assms(1) SP_continue2 by simp
  then show ?thesis
  proof (cases rule: call_fun_cases)
    case (inside c0 k0)
    have e: "spawned c0 r = [] \<and> entry_mem c0 r l m = m" for l by (rule co_calls [OF inside(1)])
    obtain q' where q: "k0 r m = (m', q')" "p' = SP_continue2 i u q'" using inside e assms(3) by (cases "k0 r m") auto
    have "answer_ok c0 r m t0" using inside assms(2) by simp
    from co_step [OF inside(1) this q(1) _ assms(5), of "{Suc i..20}" p p'] show ?thesis
      using assms(4) SP_continue2 q(2) inside e by auto
  next
    case (ret v)
    have q: "q = CO_return v" by (rule co_no_return [OF ret(1)])
    show ?thesis
    proof (cases "v = 0")
      case True
      then have "sp_continue2 (i + 1) m = (m', p')" using assms(3) ret by auto
      moreover have "listed m = {Suc (Suc i)..20}" using assms(4) SP_continue2 q True
        by (fastforce simp: le_eq_less_or_eq)
      ultimately have "\<And>v. m' = m \<and> sp_fit m 20 p' \<and> \<not> spinning p' v"
        using sp_continue2_fit [of "i + 1" m m' p'] assms(4,6) SP_continue2 n q True by auto
      then show ?thesis using kept_head [of m' m p' p] assms(5) SP_continue2 n ret by auto
    qed (use assms SP_continue2 ret in \<open>auto intro!: kept_unmoved\<close>)
  qed
qed (use assms in \<open>auto intro!: kept_unmoved split: if_splits\<close>)

section \<open>The invariant\<close>

abbreviation at_work :: "th_pc list \<Rightarrow> sp_pc list" where
  "at_work qs \<equiv> numbered SP_thread qs"

interpretation su: numbered_threads susp_main SP_thread susp_routine
proof unfold_locales
  show "susp_routine n q = Do c k \<Longrightarrow> spawned c r = []" for n q c k r by (cases q) auto
qed simp

definition susp_at :: "susp \<Rightarrow> sp_pc \<Rightarrow> th_pc list \<Rightarrow> bool" where
  "susp_at m p qs \<longleftrightarrow> tids m = map Suc [0..<length qs] \<and> arr_ok m \<and> sp_fit m (length qs) p \<and>
     (\<forall>n < length qs. th_fit m p (Suc n) (qs ! n)) \<and> (\<forall>v \<le> 10. \<not> usr1 m v \<and> \<not> usr2 m v)"

definition susp_inv :: "susp \<Rightarrow> sp_pc list \<Rightarrow> bool" where
  "susp_inv m ps \<longleftrightarrow> (\<exists>p qs. ps = p # at_work qs \<and> susp_at m p qs)"

lemma sp_fit_thread:
  assumes "sp_fit m n p" and "arr m' = arr m \<and> once m' = once m \<and> bottom m' = bottom m"
    and "\<And>v. usr1 m' v \<longrightarrow> usr1 m v" and "\<And>v. usr2 m' v \<longrightarrow> usr2 m v"
    and "sentinel m' \<noteq> sentinel m \<Longrightarrow> spinning p w"
  shows "sp_fit m' n p"
proof -
  have l: "listed m' = listed m" using assms(2) by (simp add: listed_def)
  have q: "quiet m \<Longrightarrow> quiet m'" using assms(2-4) by (auto simp: quiet_def)
  have i: "in_fit m' x = in_fit m x" for x using assms(2) by (cases x) auto
  have u: "unset m' = unset m" using assms(2) by (simp add: unset_def)
  have c: "co_fit m' U v x = co_fit m U v x" for U v x using assms(2) l i u by (cases x) auto
  have s: "su_fit m' U v x" if "su_fit m U v x" "\<And>j. x = SU_kill j \<Longrightarrow> sentinel m' = sentinel m" for U v x
    using that assms(2) l i u by (cases x) auto
  show ?thesis using assms(1,2,5) l q c by (cases p) (auto intro: s)
qed

lemma susp_thread_move:
  assumes at: "susp_at m p qs" and i: "i < length qs" and c: "susp_routine i (qs ! i) = Do c k"
    and a: "answer_ok c r m t0" and k: "k r m = (m', q)"
  shows "susp_at m' p (qs[i := q])"
proof -
  have ti: "tids m ! i = Suc i" using at i by (simp add: susp_at_def)
  have fit: "th_fit m p (Suc i) (qs ! i)" using at i by (simp add: susp_at_def)
  note st = th_step [OF c a k ti fit]
  have l: "listed m' = listed m" "arr_ok m' = arr_ok m" using st(2) by (simp_all add: listed_def arr_ok_def)
  have "th_fit m' p (Suc n) (qs ! n)" if n: "n < length qs" "n \<noteq> i" for n
  proof -
    have "sentinel m' = sentinel m" if "spinning p (Suc n)"
      using st(6) that n(2) by (cases p) auto
    then have "th_fit m' p (Suc n) (qs ! n) = th_fit m p (Suc n) (qs ! n)"
      using st(3) [of "Suc n"] n l by (intro th_fit_cong) simp_all
    then show ?thesis using at n by (simp add: susp_at_def)
  qed
  moreover have "sp_fit m' (length qs) p"
    by (rule sp_fit_thread [where m = m and w = "Suc i"]) (use st at in \<open>auto simp: susp_at_def\<close>)
  ultimately show ?thesis using st(1,2,4,5) l at by (auto simp: susp_at_def nth_update_if)
qed

lemma susp_create_move:
  assumes at: "susp_at m (SP_create i) qs" and c: "susp_main (SP_create i) = Do c k" and a: "answer_ok c r m t0"
    and k: "k r (entry_mem c r (Suc (length qs)) m) = (m', p')"
  shows "\<exists>qs'. at_work qs' = at_work qs @ spawned c r \<and> susp_at m' p' qs'"
proof (cases "r = 0")
  case True
  have m': "m' = m\<lparr>tids := tids m @ [Suc (length qs)]\<rparr>" "p' = (if i + 1 < 20 then SP_create (i + 1) else SP_attr_destroy)"
    "spawned c r = [SP_thread i (th_for 1)]"
    using c k True by (auto simp: THREAD_COUNT_def)
  have fit: "quiet m" "length qs = i" "i < 20" using at by (simp_all add: susp_at_def)
  have "th_fit m' p' (Suc n) ((qs @ [th_for 1]) ! n)" if n: "n < Suc (length qs)" for n
  proof (cases "n = length qs")
    case True
    then show ?thesis using fit(1) m' by (simp add: th_fit_def th_for_def ITERATORS_def quiet_def listed_def)
  next
    case False
    then have "th_fit m' p' (Suc n) (qs ! n) = th_fit m (SP_create i) (Suc n) (qs ! n)"
      using m' by (intro th_fit_same) (auto simp: listed_def)
    then show ?thesis using at n False by (simp add: susp_at_def nth_append)
  qed
  then have "susp_at m' p' (qs @ [th_for 1])"
    using at m' fit by (auto simp: susp_at_def quiet_def)
  then show ?thesis using m'(3) fit by (intro exI [of _ "qs @ [th_for 1]"]) simp
next
  case False
  then have m': "m' = m" "p' = SP_abort" "spawned c r = []" using c k by auto
  have "th_fit m SP_abort v q = th_fit m (SP_create i) v q" for v q by (intro th_fit_same) simp_all
  then show ?thesis using m' at by (intro exI [of _ qs]) (simp add: susp_at_def)
qed

lemma susp_inv_move:
  assumes inv: "susp_inv m ps" and t: "t < length ps" and c: "susp_main (ps ! t) = Do c k"
    and a: "answer_ok c r m t0" and k: "k r (entry_mem c r (length ps) m) = (m', p')"
  shows "susp_inv m' (ps[t := p'] @ spawned c r)"
proof -
  obtain p qs where ps: "ps = [p] @ at_work qs" and at: "susp_at m p qs" using inv by (auto simp: susp_inv_def)
  from ps t c k show ?thesis
  proof (cases rule: su.numbered_move)
    case front
    then have c: "susp_main p = Do c k" and k: "k r (entry_mem c r (Suc (length qs)) m) = (m', p')" and ps': "ps[t := p'] @ spawned c r = p' # at_work qs @ spawned c r"
      by simp_all
    show ?thesis
    proof (cases "\<exists>i. p = SP_create i")
      case True
      then obtain i where p: "p = SP_create i" ..
      from susp_create_move [OF at [unfolded p] c [unfolded p] a k] obtain qs'
        where "at_work qs' = at_work qs @ spawned c r" "susp_at m' p' qs'" by blast
      then show ?thesis unfolding susp_inv_def ps' by (intro exI [of _ p'] exI [of _ qs']) simp
    next
      case False
      then have "sp_fit m' (length qs) p' \<and> kept m m' p p' \<and> spawned c r = []"
        using at by (intro sp_step [OF c a k]) (auto simp: susp_at_def)
      then show ?thesis using ps' at by (auto simp: susp_inv_def susp_at_def kept_def)
    qed
  next
    case (thread i c0 k0 q)
    have "answer_ok c0 r m t0" using a thread(5) by simp
    from susp_thread_move [OF at thread(2,4) this thread(6)] show ?thesis
      using thread(10) by (auto simp: susp_inv_def)
  qed
qed

lemma susp_inv_reach:
  assumes "reach allow susp_main susp_system s"
  shows "susp_inv (mem s) (pcs s)"
  using assms
proof (induction rule: reach_invariant)
  case start
  show ?case
    by (simp add: susp_system_def susp_inv_def)
      (intro exI [of _ "[]"], simp add: susp_at_def susp_mem_def arr_ok_def quiet_def)
next
  case (move n m ps t c k r m' p')
  from susp_inv_move [OF move(1-3,5,6)] show ?case .
qed

section \<open>Who has the mutex\<close>

fun su_holds :: "su_pc \<Rightarrow> su_mutex set" where
  "su_holds SU_once = {}"
| "su_holds (SU_init q) = {}"
| "su_holds SU_lock = {}"
| "su_holds (SU_return r) = {}"
| "su_holds p = {Mut}"

fun co_holds :: "co_pc \<Rightarrow> su_mutex set" where
  "co_holds CO_once = {}"
| "co_holds (CO_init q) = {}"
| "co_holds CO_lock = {}"
| "co_holds (CO_return r) = {}"
| "co_holds p = {Mut}"

fun sp_holds :: "sp_pc \<Rightarrow> su_mutex set" where
  "sp_holds (SP_continue1 i u p) = co_holds p"
| "sp_holds (SP_suspend i u p) = su_holds p"
| "sp_holds (SP_continue2 i u p) = co_holds p"
| "sp_holds p = {}"

lemma in_tame: "suspend_init_routine q = Do c k \<Longrightarrow> tame c {} \<and> held_after c r {} = {} \<and> (\<forall>st x. c \<noteq> Create st x)"
  by (cases q) auto

lemma su_tame:
  assumes "thd_suspend u p = Do c k" and "k r m = (m', p')"
  shows "tame c (su_holds p) \<and> su_holds p' = held_after c r (su_holds p) \<and> (\<forall>st x. c \<noteq> Create st x)"
proof (cases p)
  case (SU_init q)
  then have "call_here SU_init (\<lambda>_ m. (m\<lparr>once := 2\<rparr>, SU_lock)) (suspend_init_routine q) = Do c k" using assms(1) by simp
  then show ?thesis
  proof (cases rule: call_fun_cases)
    case (inside c0 k0)
    then show ?thesis using in_tame [OF inside(1), of r] SU_init assms(2) by (cases c0; auto split: prod.splits)
  qed (use SU_init assms(2) in auto)
qed (use assms in \<open>auto simp: su_search_def su_grow_def su_spin_def Let_def split: if_splits option.splits\<close>)

lemma co_tame:
  assumes "thd_continue u p = Do c k" and "k r m = (m', p')"
  shows "tame c (co_holds p) \<and> co_holds p' = held_after c r (co_holds p) \<and> (\<forall>st x. c \<noteq> Create st x)"
proof (cases p)
  case (CO_init q)
  then have "call_here CO_init (\<lambda>_ m. (m\<lparr>once := 2\<rparr>, CO_lock)) (suspend_init_routine q) = Do c k" using assms(1) by simp
  then show ?thesis
  proof (cases rule: call_fun_cases)
    case (inside c0 k0)
    then show ?thesis using in_tame [OF inside(1), of r] CO_init assms(2) by (cases c0; auto split: prod.splits)
  qed (use CO_init assms(2) in auto)
qed (use assms in \<open>auto simp: co_search_def split: if_splits option.splits\<close>)

lemma head_holds:
  "sp_continue2 i m = (m', p') \<Longrightarrow> sp_holds p' = {}" "sp_suspend i m = (m', p') \<Longrightarrow> sp_holds p' = {}"
  "sp_continue1 i m = (m', p') \<Longrightarrow> sp_holds p' = {}"
  by (auto simp: sp_loops split: if_splits)

lemma susp_tame:
  assumes "susp_main p = Do c k" and "k r m = (m', p')"
  shows "tame c (sp_holds p) \<and> sp_holds p' = held_after c r (sp_holds p) \<and> (\<forall>st q. c = Create st q \<longrightarrow> sp_holds q = {})"
proof (cases p)
  case (SP_continue1 i u x)
  have "call_here (SP_continue1 i u) (\<lambda>status m. if status \<noteq> 0 then (m, SP_abort) else sp_continue1 (i + 1) m)
      (thd_continue u x) = Do c k" using assms(1) SP_continue1 by simp
  then show ?thesis
  proof (cases rule: call_fun_cases)
    case (inside c0 k0)
    obtain x' where "k0 r m = (m', x')" "p' = SP_continue1 i u x'" using inside assms(2) by (cases "k0 r m") auto
    then show ?thesis using co_tame [OF inside(1), of r m] SP_continue1 inside(2) by (cases c0) auto
  next
    case (ret v)
    then show ?thesis using co_no_return [OF ret(1)] SP_continue1 assms(2) head_holds by (auto split: if_splits)
  qed
next
  case (SP_suspend i u x)
  have "call_here (SP_suspend i u) (\<lambda>status m. if status \<noteq> 0 then (m, SP_abort) else sp_suspend (i + 1) m)
      (thd_suspend u x) = Do c k" using assms(1) SP_suspend by simp
  then show ?thesis
  proof (cases rule: call_fun_cases)
    case (inside c0 k0)
    obtain x' where "k0 r m = (m', x')" "p' = SP_suspend i u x'" using inside assms(2) by (cases "k0 r m") auto
    then show ?thesis using su_tame [OF inside(1), of r m] SP_suspend inside(2) by (cases c0) auto
  next
    case (ret v)
    then show ?thesis using su_no_return [OF ret(1)] SP_suspend assms(2) head_holds by (auto split: if_splits)
  qed
next
  case (SP_continue2 i u x)
  have "call_here (SP_continue2 i u) (\<lambda>status m. if status \<noteq> 0 then (m, SP_abort) else sp_continue2 (i + 1) m)
      (thd_continue u x) = Do c k" using assms(1) SP_continue2 by simp
  then show ?thesis
  proof (cases rule: call_fun_cases)
    case (inside c0 k0)
    obtain x' where "k0 r m = (m', x')" "p' = SP_continue2 i u x'" using inside assms(2) by (cases "k0 r m") auto
    then show ?thesis using co_tame [OF inside(1), of r m] SP_continue2 inside(2) by (cases c0) auto
  next
    case (ret v)
    then show ?thesis using co_no_return [OF ret(1)] SP_continue2 assms(2) head_holds by (auto split: if_splits)
  qed
next
  case (SP_thread n x)
  then show ?thesis using assms by (cases x) (auto split: prod.splits)
qed (use assms head_holds in \<open>auto split: if_splits\<close>)

interpretation su: tame_program allow susp_main sp_holds for allow :: "sp_pc policy"
  by unfold_locales (rule susp_tame)

lemma su_fresh: "su.fresh susp_system"
  unfolding susp_system_def by (rule su.fresh_boot) simp

section \<open>The properties\<close>

text \<open>A thread is in its signal handler.\<close>

fun in_handler :: "th_pc \<Rightarrow> bool" where
  "in_handler (TH_mark i) \<longleftrightarrow> True"
| "in_handler (TH_sleep i) \<longleftrightarrow> True"
| "in_handler q \<longleftrightarrow> False"

lemma susp_atE:
  assumes "reach allow susp_main susp_system s"
  obtains p qs where "pcs s = p # at_work qs" "susp_at (mem s) p qs" "length (threads s) = Suc (length qs)"
proof -
  obtain p qs where "pcs s = p # at_work qs" "susp_at (mem s) p qs"
    using susp_inv_reach [OF assms] by (auto simp: susp_inv_def)
  moreover have "length (threads s) = Suc (length qs)" using calculation(1) by (metis numbered_simps(1) length_Cons length_map)
  ultimately show ?thesis by (rule that)
qed

text \<open>C28. The array says who is suspended. It lists no thread twice; a thread in it sleeps in its handler and
  has no signal to take; a thread that sleeps there and is not in the array has the resume signal to take, or \<open>thd_suspend\<close>
  is about to list it. Every status the calls may return, every order of the signals.\<close>
theorem susp_table:
  assumes "reach any_status susp_main susp_system s" and "n + 1 < length (threads s)"
  shows "distinct (filter (\<lambda>u. u \<noteq> 0) (arr (mem s))) \<and>
    (\<exists>q. pcs s ! (n + 1) = SP_thread n q \<and>
      (n + 1 \<in> set (arr (mem s)) \<longrightarrow> (\<exists>i. q = TH_sleep i) \<and> \<not> usr1 (mem s) (n + 1) \<and> \<not> usr2 (mem s) (n + 1)) \<and>
      ((\<exists>i. q = TH_sleep i) \<and> n + 1 \<notin> set (arr (mem s)) \<longrightarrow> usr2 (mem s) (n + 1) \<or> spinning (pcs s ! 0) (n + 1)))"
    (is "_ \<and> (\<exists>q. ?P q)")
proof
  obtain p qs where ps: "pcs s = p # at_work qs" and at: "susp_at (mem s) p qs" and len: "length (threads s) = Suc (length qs)"
    by (rule susp_atE [OF assms(1)])
  show "distinct (filter (\<lambda>u. u \<noteq> 0) (arr (mem s)))" using at by (simp add: susp_at_def arr_ok_def)
  have "n < length qs" using assms(2) len by simp
  then have "th_fit (mem s) p (Suc n) (qs ! n)" "pcs s ! Suc n = SP_thread n (qs ! n)"
    using at ps by (simp_all add: susp_at_def)
  moreover have "Suc n \<in> listed (mem s) \<longleftrightarrow> Suc n \<in> set (arr (mem s))" by (simp add: listed_def)
  ultimately show "\<exists>q. ?P q"
    using ps by (intro exI [of _ "qs ! n"]) (auto simp: th_fit_def split: th_pc.splits if_splits)
qed

text \<open>C26. When the main program has suspended its threads and begins to continue them, the upper ten of the twenty
  threads, and only these, are in their handler; each sleeps and has no signal to take.\<close>
theorem susp_half_suspended:
  assumes "reach any_status susp_main susp_system s" and "pcs s ! 0 = SP_continue2 10 u CO_once"
  shows "length (threads s) = 21 \<and>
    (\<forall>n < 10. \<exists>q. pcs s ! (n + 1) = SP_thread n q \<and> \<not> in_handler q) \<and>
    (\<forall>n < 10. \<exists>i. pcs s ! (n + 11) = SP_thread (n + 10) (TH_sleep i) \<and> \<not> usr2 (mem s) (n + 11))"
proof -
  obtain p qs where ps: "pcs s = p # at_work qs" and at: "susp_at (mem s) p qs" and len: "length (threads s) = Suc (length qs)"
    by (rule susp_atE [OF assms(1)])
  have p: "p = SP_continue2 10 u CO_once" using assms(2) ps by simp
  have fit: "length qs = 20" "listed (mem s) = {11..20}" using at p by (simp_all add: susp_at_def eval_nat_numeral)
  have th: "th_fit (mem s) p (Suc n) (qs ! n)" "pcs s ! Suc n = SP_thread n (qs ! n)" if "n < 20" for n
    using at ps fit(1) that by (simp_all add: susp_at_def)
  have "\<exists>q. pcs s ! (n + 1) = SP_thread n q \<and> \<not> in_handler q" if n: "n < 10" for n
  proof -
    have "\<not> usr1 (mem s) (Suc n) \<and> \<not> usr2 (mem s) (Suc n)" using at n by (simp add: susp_at_def)
    then show ?thesis
      using th [of n] n fit(2) p by (intro exI [of _ "qs ! n"]) (auto simp: th_fit_def split: th_pc.splits)
  qed
  moreover have "\<exists>i. pcs s ! (n + 11) = SP_thread (n + 10) (TH_sleep i) \<and> \<not> usr2 (mem s) (n + 11)" if n: "n < 10" for n
    using th [of "n + 10"] n fit(2) p by (cases "qs ! (n + 10)") (auto simp: th_fit_def add.commute [of n])
  ultimately show ?thesis using len fit(1) by simp
qed

text \<open>C27. When the main program has returned no thread stays suspended: a thread that is still in its handler has
  its resume signal to take, and can leave the handler with its next step.\<close>
theorem susp_all_continued:
  assumes "reach any_status susp_main susp_system s" and "pcs s ! 0 = SP_return" and "ended s = None" and "n < 20"
  shows "\<exists>q. pcs s ! (n + 1) = SP_thread n q \<and> (in_handler q \<longrightarrow>
    (\<exists>i s'. q = TH_sleep i \<and> step any_status susp_main (Exec (n + 1) 0) s = Some s' \<and> pcs s' ! (n + 1) = SP_thread n (TH_loop i)))"
proof -
  obtain p qs where ps: "pcs s = p # at_work qs" and at: "susp_at (mem s) p qs" and len: "length (threads s) = Suc (length qs)"
    by (rule susp_atE [OF assms(1)])
  have p: "p = SP_return" using assms(2) ps by simp
  have fit: "length qs = 20" "listed (mem s) = {}" "tids (mem s) ! n = Suc n"
    using at p assms(4) by (auto simp: susp_at_def)
  have th: "th_fit (mem s) p (Suc n) (qs ! n)" "pcs s ! Suc n = SP_thread n (qs ! n)"
    using at ps fit(1) assms(4) by (simp_all add: susp_at_def)
  have own: "su.owned s" by (rule su.owned_reach [OF assms(1) su.fresh_owned [OF su_fresh]])
  have "\<exists>i s'. qs ! n = TH_sleep i \<and> step any_status susp_main (Exec (n + 1) 0) s = Some s' \<and>
      pcs s' ! (n + 1) = SP_thread n (TH_loop i)" if h: "in_handler (qs ! n)"
  proof -
    obtain i where i: "qs ! n = TH_sleep i" "usr2 (mem s) (Suc n)"
      using h th(1) fit(2) p by (cases "qs ! n") (auto simp: th_fit_def)
    have "Suc n < length (threads s)" using len fit(1) assms(4) by simp
    moreover have "threads s ! Suc n = (SP_thread n (TH_sleep i), Ready)"
      using su.ownedD(2) [OF own calculation] th(2) i(1) calculation by (cases "threads s ! Suc n") auto
    ultimately show ?thesis using i assms(3) fit(3)
      by (simp add: exec_thread_def any_status_def proceed_def put_thread_def resume_signal_handler_def)
  qed
  then show ?thesis using th(2) by (intro exI [of _ "qs ! n"]) simp
qed

section \<open>Undefined behaviour\<close>

text \<open>\<^verbatim>\<open>calloc\<close> succeeds.\<close>

fun allocates :: "sp_pc \<Rightarrow> bool" where
  "allocates (SP_continue1 i u (CO_init IN_calloc)) \<longleftrightarrow> True"
| "allocates (SP_suspend i u (SU_init IN_calloc)) \<longleftrightarrow> True"
| "allocates (SP_continue2 i u (CO_init IN_calloc)) \<longleftrightarrow> True"
| "allocates p \<longleftrightarrow> False"

definition calloc_succeeds :: "sp_pc policy" where
  "calloc_succeeds p r \<longleftrightarrow> (allocates p \<longrightarrow> r \<noteq> 0)"

lemma in_alloc:
  assumes "suspend_init_routine q = Do c k" and "k r m = (m', q')" and "q = IN_calloc \<longrightarrow> r \<noteq> 0" and "arr m = [] \<longrightarrow> q = IN_calloc"
  shows "arr m' \<noteq> []"
  using assms by (cases q) (auto split: if_splits)

lemma su_search_same: "su_search u m = (m', p') \<Longrightarrow> arr m' = arr m \<and> once m' = once m \<and> (\<forall>x. p' \<noteq> SU_init x)"
  by (auto simp: su_search_def split: option.splits)

lemma su_spin_same: "su_spin u i m = (m', p') \<Longrightarrow> (arr m' = [] \<longleftrightarrow> arr m = []) \<and> once m' = once m \<and> (\<forall>x. p' \<noteq> SU_init x)"
  by (auto simp: su_spin_def split: if_splits)

lemma su_alloc:
  assumes "thd_suspend u p = Do c k" and "k r m = (m', p')" and "su_fit m U u p"
    and "p = SU_init IN_calloc \<longrightarrow> r \<noteq> 0" and "arr m = [] \<longrightarrow> once m = 0 \<or> p = SU_init IN_calloc"
  shows "arr m' = [] \<longrightarrow> once m' = 0 \<or> p' = SU_init IN_calloc"
proof (cases p)
  case (SU_init q)
  then have "call_here SU_init (\<lambda>_ m. (m\<lparr>once := 2\<rparr>, SU_lock)) (suspend_init_routine q) = Do c k" using assms(1) by simp
  then show ?thesis
  proof (cases rule: call_fun_cases)
    case (inside c0 k0)
    have "once m = 1" using assms(3) SU_init by (cases q) auto
    then show ?thesis using in_alloc [OF inside(1), of r m] inside assms(2,4,5) SU_init by (auto split: prod.splits)
  next
    case (ret v)
    then show ?thesis using init_return [OF ret(1)] assms(2,3,5) SU_init by auto
  qed
next
  case SU_lock
  then show ?thesis using assms(1,2,5) su_search_same [of u m m' p'] by (auto split: if_splits)
next
  case (SU_kill i)
  then show ?thesis using assms(1,2,5) su_spin_same [of u i "m\<lparr>usr1 := (usr1 m)(u := True)\<rparr>" m' p']
    by (auto split: if_splits)
next
  case (SU_spin i)
  then show ?thesis using assms(1,2,5) su_spin_same [of u i m m' p'] by auto
qed (use assms in \<open>auto split: if_splits\<close>)

lemma co_alloc:
  assumes "thd_continue u p = Do c k" and "k r m = (m', p')" and "co_fit m U u p"
    and "p = CO_init IN_calloc \<longrightarrow> r \<noteq> 0" and "arr m = [] \<longrightarrow> once m = 0 \<or> p = CO_init IN_calloc"
  shows "arr m' = [] \<longrightarrow> once m' = 0 \<or> p' = CO_init IN_calloc"
proof (cases p)
  case (CO_init q)
  then have "call_here CO_init (\<lambda>_ m. (m\<lparr>once := 2\<rparr>, CO_lock)) (suspend_init_routine q) = Do c k" using assms(1) by simp
  then show ?thesis
  proof (cases rule: call_fun_cases)
    case (inside c0 k0)
    have "once m = 1" using assms(3) CO_init by (cases q) auto
    then show ?thesis using in_alloc [OF inside(1), of r m] inside assms(2,4,5) CO_init by (auto split: prod.splits)
  next
    case (ret v)
    then show ?thesis using init_return [OF ret(1)] assms(2,3,5) CO_init by auto
  qed
next
  case CO_lock
  then have "m' = m" "\<forall>x. p' \<noteq> CO_init x" using assms(1,2) by (auto simp: co_search_def split: if_splits option.splits)
  then show ?thesis using assms(5) CO_lock by auto
next
  case (CO_kill i)
  then have "(arr m' = [] \<longleftrightarrow> arr m = []) \<and> once m' = once m" using assms(1,2) by (auto split: if_splits)
  then show ?thesis using assms(5) CO_kill by auto
qed (use assms(1,2,5) in \<open>auto split: if_splits\<close>)

lemma head_same:
  "sp_continue2 i m = (m', p') \<Longrightarrow> m' = m" "sp_suspend i m = (m', p') \<Longrightarrow> m' = m"
  "sp_continue1 i m = (m', p') \<Longrightarrow> m' = m"
  by (auto simp: sp_loops split: if_splits)

lemma allocates_simps [simp]:
  "allocates (SP_continue1 i u x) \<longleftrightarrow> x = CO_init IN_calloc" "allocates (SP_suspend i u y) \<longleftrightarrow> y = SU_init IN_calloc"
  "allocates (SP_continue2 i u x) \<longleftrightarrow> x = CO_init IN_calloc"
  by (auto elim: allocates.elims)

lemma sp_alloc:
  assumes "susp_main p = Do c k" and "k r (entry_mem c r l m) = (m', p')" and "sp_fit m n p"
    and "calloc_succeeds p r" and "arr m = [] \<longrightarrow> once m = 0 \<or> allocates p"
  shows "arr m' = [] \<longrightarrow> once m' = 0 \<or> allocates p'"
proof (cases p)
  case (SP_continue1 i u x)
  have "call_here (SP_continue1 i u) (\<lambda>status m. if status \<noteq> 0 then (m, SP_abort) else sp_continue1 (i + 1) m)
      (thd_continue u x) = Do c k" using assms(1) SP_continue1 by simp
  then show ?thesis
  proof (cases rule: call_fun_cases)
    case (inside c0 k0)
    obtain x' where x: "k0 r m = (m', x')" "p' = SP_continue1 i u x'"
      using inside co_calls [OF inside(1)] assms(2) by (cases "k0 r m") auto
    show ?thesis using co_alloc [OF inside(1) x(1), of "{}"] assms(3-5) SP_continue1 x(2) by (auto simp: calloc_succeeds_def)
  next
    case (ret v)
    then show ?thesis using co_no_return [OF ret(1)] SP_continue1 assms(2,5) by (auto dest!: head_same split: if_splits)
  qed
next
  case (SP_suspend i u x)
  have "call_here (SP_suspend i u) (\<lambda>status m. if status \<noteq> 0 then (m, SP_abort) else sp_suspend (i + 1) m)
      (thd_suspend u x) = Do c k" using assms(1) SP_suspend by simp
  then show ?thesis
  proof (cases rule: call_fun_cases)
    case (inside c0 k0)
    obtain x' where x: "k0 r m = (m', x')" "p' = SP_suspend i u x'"
      using inside su_calls [OF inside(1)] assms(2) by (cases "k0 r m") auto
    show ?thesis using su_alloc [OF inside(1) x(1), of "{11..i}"] assms(3-5) SP_suspend x(2) by (auto simp: calloc_succeeds_def)
  next
    case (ret v)
    then show ?thesis using su_no_return [OF ret(1)] SP_suspend assms(2,5) by (auto dest!: head_same split: if_splits)
  qed
next
  case (SP_continue2 i u x)
  have "call_here (SP_continue2 i u) (\<lambda>status m. if status \<noteq> 0 then (m, SP_abort) else sp_continue2 (i + 1) m)
      (thd_continue u x) = Do c k" using assms(1) SP_continue2 by simp
  then show ?thesis
  proof (cases rule: call_fun_cases)
    case (inside c0 k0)
    obtain x' where x: "k0 r m = (m', x')" "p' = SP_continue2 i u x'"
      using inside co_calls [OF inside(1)] assms(2) by (cases "k0 r m") auto
    show ?thesis using co_alloc [OF inside(1) x(1), of "{Suc i..20}"] assms(3-5) SP_continue2 x(2) by (auto simp: calloc_succeeds_def)
  next
    case (ret v)
    then show ?thesis using co_no_return [OF ret(1)] SP_continue2 assms(2,5) by (auto dest!: head_same split: if_splits)
  qed
next
  case SP_attr_destroy
  then show ?thesis using assms by (auto simp: quiet_def dest!: head_same split: if_splits)
qed (use assms in \<open>auto simp: quiet_def split: if_splits\<close>)

lemma susp_alloc_reach:
  assumes "reach calloc_succeeds susp_main susp_system s"
  shows "susp_inv (mem s) (pcs s) \<and> (arr (mem s) = [] \<longrightarrow> once (mem s) = 0 \<or> allocates (pcs s ! 0))"
  using assms
proof (induction rule: reach_invariant)
  case start
  have "susp_inv (mem susp_system) (pcs susp_system)" by (rule susp_inv_reach [OF reach_start])
  then show ?case by (simp add: susp_system_def susp_mem_def)
next
  case (move n m ps t c k r m' p')
  then have inv: "susp_inv m ps" and al: "arr m = [] \<longrightarrow> once m = 0 \<or> allocates (ps ! 0)" by blast+
  obtain p qs where ps: "ps = p # at_work qs" and at: "susp_at m p qs" using inv by (auto simp: susp_inv_def)
  have "[p] @ at_work qs = ps" using ps by simp
  from this [symmetric] move(2,3,6) have "arr m' = [] \<longrightarrow> once m' = 0 \<or> allocates ((ps[t := p'] @ spawned c r) ! 0)"
  proof (cases rule: su.numbered_move)
    case front
    then have c: "susp_main p = Do c k" "calloc_succeeds p r" using move(4) by simp_all
    have "sp_fit m (length qs) p" using at by (simp add: susp_at_def)
    from sp_alloc [OF c(1) move(6) this c(2)] show ?thesis using al ps front by simp
  next
    case (thread i c0 k0 q)
    then have "arr m' = arr m \<and> once m' = once m"
      by (cases "qs ! i") (auto simp: th_body_def resume_signal_handler_def suspend_signal_handler_def split: if_splits)
    then show ?thesis using al ps thread(10) by simp
  qed
  then show ?case using susp_inv_move [OF inv move(2,3,5,6)] by blast
qed simp

lemma call_halt: "call_fun g q w st ret A = Halt x \<longleftrightarrow> A = Halt x"
  by (cases A) auto

lemma in_no_crash: "suspend_init_routine q \<noteq> Halt Undefined"
  by (cases q) auto

lemma crashes: "thd_suspend u p = Halt Undefined \<Longrightarrow> p = SU_crash" "thd_continue u q = Halt Undefined \<Longrightarrow> q = CO_crash"
  by (cases p; simp add: call_halt in_no_crash) (cases q; simp add: call_halt in_no_crash)

text \<open>If \<^verbatim>\<open>calloc\<close> succeeds the program has no undefined behaviour: the array is never read or written outside (it
  is never full, so that its faulty extension is not reached) and the mutex is not misused. Every other status the calls may return.\<close>
theorem susp_no_undefined:
  assumes "reach calloc_succeeds susp_main susp_system s"
  shows "ended s \<noteq> Some Undefined"
proof (rule su.tame_undefined [OF assms su_fresh])
  show "susp_main p \<noteq> Halt Undefined" if r: "reach calloc_succeeds susp_main susp_system s1" and p: "p \<in> set (pcs s1)" for s1 p
  proof
    assume h: "susp_main p = Halt Undefined"
    obtain p0 qs where ps: "pcs s1 = p0 # at_work qs" and at: "susp_at (mem s1) p0 qs" by (rule susp_atE [OF r])
    have al: "arr (mem s1) = [] \<longrightarrow> once (mem s1) = 0 \<or> allocates p0" using susp_alloc_reach [OF r] ps by simp
    consider "p = p0" | n q where "p = SP_thread n q" using p ps by (auto simp: set_numbered)
    then show False
    proof cases
      case 1
      then show ?thesis using h al at by (cases p0) (auto simp: call_halt susp_at_def dest!: crashes)
    next
      case 2
      then show ?thesis using h by (cases q) auto
    qed
  qed
qed

section \<open>Runs\<close>

text \<open>The creation of the threads and the first loop; one thread suspended; all ten; all continued.\<close>

definition setup_run :: "event list" where
  "setup_run = map (Exec 0) (replicate 23 0 @ [-1, 1, 0, 0, 0, 0, 0, 0] @ replicate 36 0)"

definition suspend_run :: "tid \<Rightarrow> event list" where
  "suspend_run u = [Exec 0 0, Exec 0 0, Exec 0 0, Exec u 1, Exec u 0, Exec 0 0, Exec 0 0, Exec 0 0]"

definition half_run :: "event list" where
  "half_run = setup_run @ concat (map suspend_run [11..<21])"

definition whole_run :: "event list" where
  "whole_run = half_run @ map (Exec 0) (replicate 50 0)"

theorem susp_table_witness:
  "case run any_status susp_main (setup_run @ suspend_run 11) susp_system of
     Some s \<Rightarrow> 11 \<in> set (arr (mem s)) \<and> (\<exists>i. pcs s ! 11 = SP_thread 10 (TH_sleep i)) \<and> \<not> usr2 (mem s) 11
   | None \<Rightarrow> False"
  (is "case ?r of Some s \<Rightarrow> ?P s | None \<Rightarrow> False")
proof -
  have "map_option (\<lambda>s. (arr (mem s), length (threads s))) ?r = Some ([11, 0, 0, 0, 0, 0, 0, 0, 0, 0], 21)" by code_simp
  then obtain s where s: "?r = Some s" "arr (mem s) = [11, 0, 0, 0, 0, 0, 0, 0, 0, 0]" "length (threads s) = 21" by auto
  show ?thesis using susp_table [OF reach_run [OF s(1)], of 10] s by auto
qed

theorem susp_half_suspended_witness:
  "case run any_status susp_main half_run susp_system of
     Some s \<Rightarrow> pcs s ! 0 = SP_continue2 10 11 CO_once \<and> (\<exists>i. pcs s ! 11 = SP_thread 10 (TH_sleep i))
   | None \<Rightarrow> False"
  (is "case ?r of Some s \<Rightarrow> ?P s | None \<Rightarrow> False")
proof -
  have "map_option (\<lambda>s. pcs s ! 0) ?r = Some (SP_continue2 10 11 CO_once)" by code_simp
  then obtain s where s: "?r = Some s" "pcs s ! 0 = SP_continue2 10 11 CO_once" by auto
  have "\<forall>n < 10. \<exists>i. pcs s ! (n + 11) = SP_thread (n + 10) (TH_sleep i) \<and> \<not> usr2 (mem s) (n + 11)"
    using susp_half_suspended [OF reach_run [OF s(1)] s(2)] by blast
  from this [THEN spec, of 0] show ?thesis using s by auto
qed

theorem susp_all_continued_witness:
  "case run any_status susp_main whole_run susp_system of
     Some s \<Rightarrow> pcs s ! 0 = SP_return \<and> in_handler (TH_sleep 1) \<and> pcs s ! 11 = SP_thread 10 (TH_sleep 1) \<and>
       (\<exists>i s'. step any_status susp_main (Exec 11 0) s = Some s' \<and> pcs s' ! 11 = SP_thread 10 (TH_loop i))
   | None \<Rightarrow> False"
  (is "case ?r of Some s \<Rightarrow> ?P s | None \<Rightarrow> False")
proof -
  have "map_option (\<lambda>s. (pcs s ! 0, ended s, pcs s ! 11)) ?r = Some (SP_return, None, SP_thread 10 (TH_sleep 1))" by code_simp
  then obtain s where s: "?r = Some s" "pcs s ! 0 = SP_return" "ended s = None" "pcs s ! 11 = SP_thread 10 (TH_sleep 1)" by auto
  show ?thesis using susp_all_continued [OF reach_run [OF s(1)] s(2,3), of 10] s by (auto simp del: step.simps)
qed

text \<open>The result of \<^verbatim>\<open>calloc\<close> is not checked: when it fails the first search reads through the null pointer.\<close>
theorem susp_calloc_unchecked:
  "\<exists>s. reach any_status susp_main susp_system s \<and> ended s = Some Undefined"
proof -
  let ?r = "run any_status susp_main (map (Exec 0) (replicate 23 0 @ [-1, 0, 0, 0, 0, 0, 0])) susp_system"
  have "map_option ended ?r = Some (Some Undefined)" by code_simp
  from reach_exists [OF this] show ?thesis by blast
qed

end
