(* ===== verification/Semaphore.thy ===== *)
theory Semaphore
  imports Programs
begin

text \<open>
  \<^verbatim>\<open>chap6-adjust/semaphore_signal.cxx\<close>: five threads wait for a semaphore five times each, a timer posts it from a
  signal handler. The semaphore is its value (\<open>None\<close> before \<^verbatim>\<open>sem_init\<close>); what the waiters print is kept. The
  handler runs on some thread whenever the armed timer expires: here on a thread of its own,
  which acts at any time. \<^verbatim>\<open>sem_wait\<close> may be interrupted (\<open>EINTR\<close>) or fail.
\<close>

section \<open>The program\<close>

abbreviation EINTR :: int where "EINTR \<equiv> 4"

text \<open>The largest value of a semaphore: a post beyond it fails (\<^verbatim>\<open>EOVERFLOW\<close>).\<close>

abbreviation SEM_VALUE_MAX :: int where "SEM_VALUE_MAX \<equiv> 2147483647"

record sems =
  sval :: "int option"
  armed :: bool
  posts :: nat
  sem_waiters :: "tid list"
  woke :: "(nat \<times> int) list"

datatype sc_pc = SC_expire | SC_post | SC_abort | SC_crash

definition sem_posted :: "int \<Rightarrow> sems \<Rightarrow> sems \<times> sc_pc" where
  "sem_posted r m =
     (case sval m of
        None \<Rightarrow> (m, SC_crash)
      | Some v \<Rightarrow> if r \<noteq> 0 then (m, SC_abort) else (m\<lparr>sval := Some (v + 1), posts := posts m + 1\<rparr>, SC_expire))"

fun signal_catcher :: "sc_pc \<Rightarrow> (unit, unit, sems, sc_pc) act" where
  "signal_catcher SC_expire = Do (Env (\<lambda>r m. r = 0 \<and> armed m)) (goto SC_post)"
| "signal_catcher SC_post =
     Do (Env (\<lambda>r m. 0 < r \<or> r = 0 \<and> (\<forall>v \<in> set_option (sval m). v < SEM_VALUE_MAX))) sem_posted"
| "signal_catcher SC_abort = Halt Aborted"
| "signal_catcher SC_crash = Halt Undefined"

text \<open>\<open>n\<close> is \<^verbatim>\<open>number\<close>; the point carries \<^verbatim>\<open>counter\<close>.\<close>

datatype sm_pc = SM_wait int | SM_return | SM_abort | SM_crash

definition sm_for :: "int \<Rightarrow> sm_pc" where
  "sm_for i = (if i \<le> 5 then SM_wait i else SM_return)"

definition sem_guard :: "int \<Rightarrow> sems \<Rightarrow> bool" where
  "sem_guard r m \<longleftrightarrow> 0 < r \<or> r = 0 \<and> (case sval m of None \<Rightarrow> True | Some v \<Rightarrow> 0 < v)"

definition sem_taken :: "nat \<Rightarrow> int \<Rightarrow> int \<Rightarrow> sems \<Rightarrow> sems \<times> sm_pc" where
  "sem_taken n i r m =
     (case sval m of
        None \<Rightarrow> (m, SM_crash)
      | Some v \<Rightarrow>
          if r = 0 then (m\<lparr>sval := Some (v - 1), woke := woke m @ [(n, i)]\<rparr>, sm_for (i + 1))
          else (m, if r \<noteq> EINTR then SM_abort else SM_wait i))"

fun sem_waiter :: "nat \<Rightarrow> sm_pc \<Rightarrow> (unit, unit, sems, sm_pc) act" where
  "sem_waiter n (SM_wait i) = Do (Env sem_guard) (sem_taken n i)"
| "sem_waiter n SM_return = Return 0"
| "sem_waiter n SM_abort = Halt Aborted"
| "sem_waiter n SM_crash = Halt Undefined"

datatype ss_pc =
    SS_init | SS_create nat | SS_timer | SS_action | SS_settime | SS_join nat tid | SS_return | SS_abort
  | SS_signal sc_pc | SS_waiter nat sm_pc

definition ss_joins :: "nat \<Rightarrow> sems \<Rightarrow> sems \<times> ss_pc" where
  "ss_joins i m = (m, if i < 5 then SS_join i (sem_waiters m ! i) else SS_return)"

text \<open>The result of \<^verbatim>\<open>sem_init\<close> is not looked at.\<close>

fun semaphore_main :: "ss_pc \<Rightarrow> (unit, unit, sems, ss_pc) act" where
  "semaphore_main SS_init =
     Do (Env (\<lambda>r _. 0 \<le> r)) (\<lambda>r m. (if r = 0 then m\<lparr>sval := Some 0\<rparr> else m, SS_create 0))"
| "semaphore_main (SS_create i) =
     Do (Create (\<lambda>u m. m\<lparr>sem_waiters := sem_waiters m @ [u]\<rparr>) (SS_waiter i (sm_for 1))) (\<lambda>status m.
       (m, if status \<noteq> 0 then SS_abort else if i + 1 < 5 then SS_create (i + 1) else SS_timer))"
| "semaphore_main SS_timer = Do (Env (\<lambda>r _. r = 0 \<or> r = -1)) (\<lambda>r m. (m, if r = -1 then SS_abort else SS_action))"
| "semaphore_main SS_action = Do (Env (\<lambda>r _. r = 0 \<or> r = -1)) (\<lambda>r m. (m, if r = -1 then SS_abort else SS_settime))"
| "semaphore_main SS_settime =
     Do (Env (\<lambda>r _. r = 0 \<or> r = -1)) (\<lambda>r m. if r = -1 then (m, SS_abort) else ss_joins 0 (m\<lparr>armed := True\<rparr>))"
| "semaphore_main (SS_join i u) = Do (Join u) (\<lambda>status m. if status \<noteq> 0 then (m, SS_abort) else ss_joins (i + 1) m)"
| "semaphore_main SS_return = Halt (Exited 0)"
| "semaphore_main SS_abort = Halt Aborted"
| "semaphore_main (SS_signal p) = thread_fun SS_signal (signal_catcher p)"
| "semaphore_main (SS_waiter n p) = thread_fun (SS_waiter n) (sem_waiter n p)"

definition sems_mem :: sems where
  "sems_mem = \<lparr>sval = None, armed = False, posts = 0, sem_waiters = [], woke = []\<rparr>"

definition semaphore_system :: "(unit, unit, sems, ss_pc) sys" where
  "semaphore_system = boot sems_mem [SS_init, SS_signal SC_expire]"

interpretation sm: numbered_threads semaphore_main SS_waiter sem_waiter
proof unfold_locales
  show "sem_waiter n q = Do c k \<Longrightarrow> spawned c r = []" for n q c k r by (cases q) auto
qed simp

text \<open>There are no mutexes.\<close>

interpretation sm: tame_program allow semaphore_main "\<lambda>_. {}" for allow :: "ss_pc policy"
proof unfold_locales
  fix p c k r m m' p'
  assume c: "semaphore_main p = Do c k"
  have "tame c {} \<and> held_after c r {} = {}"
  proof (cases p)
    case (SS_signal q)
    then show ?thesis using c by (cases q) auto
  next
    case (SS_waiter n q)
    then show ?thesis using c by (cases q) auto
  qed (use c in auto)
  then show "tame c {} \<and> {} = held_after c r {} \<and> (\<forall>st q. c = Create st q \<longrightarrow> {} = {})" by simp
qed

lemma sm_fresh: "sm.fresh semaphore_system"
  unfolding semaphore_system_def by (rule sm.fresh_boot) simp

section \<open>Posts and wakings\<close>

definition seen :: "nat \<Rightarrow> sems \<Rightarrow> int list" where
  "seen n m = map snd (filter (\<lambda>x. fst x = n) (woke m))"

definition balanced :: "sems \<Rightarrow> bool" where
  "balanced m \<longleftrightarrow> (case sval m of
     None \<Rightarrow> posts m = 0 \<and> woke m = []
   | Some v \<Rightarrow> 0 \<le> v \<and> int (length (woke m)) + v = int (posts m))"

fun sm_fit :: "int list \<Rightarrow> sm_pc \<Rightarrow> bool" where
  "sm_fit xs (SM_wait i) \<longleftrightarrow> 1 \<le> i \<and> i \<le> 5 \<and> xs = [1..i - 1]"
| "sm_fit xs SM_return \<longleftrightarrow> xs = [1..5]"
| "sm_fit xs p \<longleftrightarrow> (\<exists>i. 0 \<le> i \<and> i \<le> 5 \<and> xs = [1..i])"

fun ss_fit :: "sm_pc list \<Rightarrow> ss_pc \<Rightarrow> bool" where
  "ss_fit qs SS_init \<longleftrightarrow> qs = []"
| "ss_fit qs (SS_create i) \<longleftrightarrow> length qs = i \<and> i < 5"
| "ss_fit qs (SS_join i u) \<longleftrightarrow> length qs = 5 \<and> i < 5 \<and> u = i + 2 \<and> (\<forall>j < i. qs ! j = SM_return)"
| "ss_fit qs SS_return \<longleftrightarrow> length qs = 5 \<and> (\<forall>j < 5. qs ! j = SM_return)"
| "ss_fit qs SS_abort \<longleftrightarrow> True"
| "ss_fit qs (SS_signal q) \<longleftrightarrow> False"
| "ss_fit qs (SS_waiter n q) \<longleftrightarrow> False"
| "ss_fit qs p \<longleftrightarrow> length qs = 5"

definition sem_at :: "sems \<Rightarrow> ss_pc \<Rightarrow> sm_pc list \<Rightarrow> bool" where
  "sem_at m p qs \<longleftrightarrow> balanced m \<and> (p = SS_init \<longrightarrow> sval m = None) \<and> ss_fit qs p \<and> sem_waiters m = map (\<lambda>i. i + 2) [0..<length qs] \<and>
     fst ` set (woke m) \<subseteq> {..<length qs} \<and> (\<forall>n < length qs. sm_fit (seen n m) (qs ! n))"

definition sem_inv :: "sems \<Rightarrow> ss_pc list \<Rightarrow> bool" where
  "sem_inv m ps \<longleftrightarrow> (\<exists>p c qs. ps = [p, SS_signal c] @ numbered SS_waiter qs \<and> sem_at m p qs)"

lemma upto_snoc: "1 \<le> i \<Longrightarrow> [1..i - 1] @ [i] = [1..i]" for i :: int
  by (simp add: upto_rec2)

lemma waiter_move:
  assumes at: "sem_at m p qs" and i: "i < length qs" and c: "sem_waiter i (qs ! i) = Do c k" and a: "answer_ok c r m t0"
    and k: "k r m = (m', q)"
  shows "sem_at m' p (qs[i := q])"
proof -
  obtain j where j: "qs ! i = SM_wait j" using c by (cases "qs ! i") auto
  have fit: "1 \<le> j" "j \<le> 5" "seen i m = [1..j - 1]" using at i j by (auto simp: sem_at_def)
  have e: "\<exists>l. 0 \<le> l \<and> l \<le> 5 \<and> [1..j - 1] = [1..l]" using fit by (intro exI [of _ "j - 1"]) auto
  have p: "ss_fit (qs[i := x]) p" for x using at i j by (cases p) (auto simp: sem_at_def nth_list_update)
  have a: "sem_guard r m" and k: "sem_taken i j r m = (m', q)" using c a k j by auto
  consider (crash) "m' = m" "q = SM_crash" | (again) "m' = m" "q = SM_wait j \<or> q = SM_abort"
    | (woken) v where "sval m = Some v" "0 < v" "m' = m\<lparr>sval := Some (v - 1), woke := woke m @ [(i, j)]\<rparr>" "q = sm_for (j + 1)"
    using a k by (cases "sval m") (auto simp: sem_guard_def sem_taken_def split: if_splits)
  then show ?thesis
  proof cases
    case (woken v)
    have "seen n m' = (if n = i then [1..j] else seen n m)" for n
      using woken(3) fit upto_snoc by (auto simp: seen_def)
    moreover have "balanced m'" using at woken by (auto simp: sem_at_def balanced_def)
    ultimately show ?thesis using at i p woken(3,4) fit by (cases "j = 5") (auto simp: sem_at_def sm_for_def nth_list_update)
  qed (use at i p j fit e in \<open>auto simp: sem_at_def nth_list_update\<close>)
qed

lemma sem_at_frame:
  assumes "sem_at m p qs" and "woke m' = woke m" and "sem_waiters m' = sem_waiters m" and "balanced m'" and "ss_fit qs p'"
    and "p' = SS_init \<longrightarrow> sval m' = None"
  shows "sem_at m' p' qs"
  using assms by (simp add: sem_at_def seen_def)

lemma balanced_frame: "sval m' = sval m \<Longrightarrow> posts m' = posts m \<Longrightarrow> woke m' = woke m \<Longrightarrow> balanced m' = balanced m"
  by (simp add: balanced_def split: option.split)

lemma sem_posted_keeps:
  "sem_posted r m = (m', x') \<Longrightarrow> balanced m \<Longrightarrow> balanced m' \<and> woke m' = woke m \<and> sem_waiters m' = sem_waiters m \<and>
    (sval m = None \<longrightarrow> sval m' = None)"
  by (cases "sval m") (auto simp: sem_posted_def balanced_def split: if_splits)

lemma catcher_move:
  assumes "signal_catcher x = Do c k" and "k r m = (m', x')" and at: "sem_at m p qs"
  shows "sem_at m' p qs \<and> spawned c r = []"
proof -
  have "balanced m' \<and> woke m' = woke m \<and> sem_waiters m' = sem_waiters m \<and> spawned c r = [] \<and> (sval m = None \<longrightarrow> sval m' = None)"
  proof (cases x)
    case SC_post
    then show ?thesis using assms(1,2) at [unfolded sem_at_def, THEN conjunct1] sem_posted_keeps [of r m m' x'] by auto
  qed (use assms(1,2) at [unfolded sem_at_def, THEN conjunct1] in auto)
  moreover have "ss_fit qs p" "p = SS_init \<longrightarrow> sval m = None" using at by (simp_all add: sem_at_def)
  ultimately show ?thesis using sem_at_frame [OF at, of m' p] by simp
qed

lemma main_move:
  assumes at: "sem_at m p qs" and c: "semaphore_main p = Do c k" and a: "answer_ok c r m t0"
    and k: "k r (entry_mem c r (2 + length qs) m) = (m', p')"
    and j: "\<forall>u. c = Join u \<and> r = 0 \<longrightarrow> u < 2 + length qs \<and> (2 \<le> u \<longrightarrow> qs ! (u - 2) = SM_return)"
  shows "\<exists>qs'. numbered SS_waiter qs @ spawned c r = numbered SS_waiter qs' \<and> sem_at m' p' qs'"
proof (cases "\<exists>i. p = SS_create i \<and> r = 0")
  case True
  then obtain i where p: "p = SS_create i" and r: "r = 0" by blast
  have m': "m' = m\<lparr>sem_waiters := sem_waiters m @ [2 + length qs]\<rparr>" "p' = (if i + 1 < 5 then SS_create (i + 1) else SS_timer)"
    "spawned c r = [SS_waiter i (sm_for 1)]" using c k p r by auto
  have f: "length qs = i" "i < 5" using at p by (simp_all add: sem_at_def)
  have new: "seen (length qs) m' = []" using at m'(1) by (auto simp: sem_at_def seen_def filter_empty_conv image_subset_iff)
  have "balanced m'" using at m'(1) balanced_frame [of m' m] by (simp add: sem_at_def)
  moreover have "seen n m' = seen n m" for n using m'(1) by (simp add: seen_def)
  ultimately have "\<forall>n < length (qs @ [sm_for 1]). sm_fit (seen n m') ((qs @ [sm_for 1]) ! n)" and "balanced m'"
    using at new by (auto simp: sem_at_def nth_append less_Suc_eq sm_for_def)
  then have "sem_at m' p' (qs @ [sm_for 1])"
    using at m'(1,2) f by (auto simp: sem_at_def lessThan_Suc)
  then show ?thesis using m'(3) f by (intro exI [of _ "qs @ [sm_for 1]"]) simp
next
  case False
  have f: "ss_fit qs p" "sem_waiters m = map (\<lambda>i. i + 2) [0..<length qs]" using at by (simp_all add: sem_at_def)
  have "woke m' = woke m \<and> sem_waiters m' = sem_waiters m \<and> spawned c r = []"
    using False c k f(1) by (cases p) (auto simp: ss_joins_def split: if_splits)
  moreover have "balanced m'"
  proof (cases "p = SS_init")
    case True
    then show ?thesis using c k at by (auto simp: sem_at_def balanced_def split: if_splits option.splits)
  next
    case other: False
    then have "sval m' = sval m \<and> posts m' = posts m \<and> woke m' = woke m"
      using False c k f(1) by (cases p) (auto simp: ss_joins_def split: if_splits)
    then show ?thesis using balanced_frame [of m' m] at by (simp add: sem_at_def)
  qed
  moreover have "ss_fit qs p'"
  proof (cases "\<exists>i u. p = SS_join i u")
    case True
    then obtain i where p: "p = SS_join i (i + 2)" "length qs = 5" "i < 5" "\<forall>j < i. qs ! j = SM_return" using f(1) by auto
    show ?thesis
    proof (cases "r = 0")
      case True
      then have "qs ! i = SM_return" using j c p(1) by auto
      then have "\<forall>j < Suc i. qs ! j = SM_return" using p(4) less_Suc_eq by auto
      moreover have "p' = (if i + 1 < 5 then SS_join (i + 1) (i + 3) else SS_return)"
        using c k p True f(2) by (auto simp: ss_joins_def split: if_splits)
      moreover have "i + 1 < 5 \<or> Suc i = 5" using p(3) by linarith
      ultimately show ?thesis using p(2) by auto
    qed (use c k p in auto)
  next
    case other: False
    then show ?thesis using False c k f by (cases p) (auto simp: ss_joins_def split: if_splits)
  qed
  moreover have "p' \<noteq> SS_init" using False c k f(1) by (cases p) (auto simp: ss_joins_def split: if_splits)
  ultimately show ?thesis using sem_at_frame [OF at, of m' p'] by auto
qed

lemma sem_inv_reach:
  assumes "reach allow semaphore_main semaphore_system s"
  shows "sem_inv (mem s) (pcs s)"
  using assms sm.fresh_owned [OF sm_fresh]
proof (induction rule: sm.owned_invariant)
  case start
  show ?case unfolding sem_inv_def
    by (intro exI [of _ SS_init] exI [of _ SC_expire] exI [of _ "[]"])
      (simp add: semaphore_system_def sems_mem_def sem_at_def balanced_def)
next
  case (tick n m ps)
  then show ?case .
next
  case (move n m ps t c k r m' p')
  then obtain p x qs where ps: "ps = [p, SS_signal x] @ numbered SS_waiter qs" and at: "sem_at m p qs" by (auto simp: sem_inv_def)
  from ps move(2,4,7) show ?case
  proof (cases rule: sm.numbered_move)
    case front
    then consider "t = 0" | "t = 1" by fastforce
    then show ?thesis
    proof cases
      case 1
      have j: "\<forall>u. c = Join u \<and> r = 0 \<longrightarrow> u < 2 + length qs \<and> (2 \<le> u \<longrightarrow> qs ! (u - 2) = SM_return)"
      proof (intro allI impI)
        fix u assume "c = Join u \<and> r = 0"
        then obtain v where u: "u < length ps" "semaphore_main (ps ! u) = Return v" using move(9) by blast
        moreover have "qs ! (u - 2) = SM_return" if "2 \<le> u"
          using u that ps by (cases "qs ! (u - 2)") (auto simp: nth_append numeral_2_eq_2)
        ultimately show "u < 2 + length qs \<and> (2 \<le> u \<longrightarrow> qs ! (u - 2) = SM_return)" using ps by simp
      qed
      have "semaphore_main p = Do c k" "k r (entry_mem c r (2 + length qs) m) = (m', p')" using front 1 by simp_all
      from main_move [OF at this(1) move(6) this(2) j] obtain qs' where
        "numbered SS_waiter qs @ spawned c r = numbered SS_waiter qs'" "sem_at m' p' qs'" by blast
      then show ?thesis using front(5) 1 by (auto simp: sem_inv_def)
    next
      case 2
      then have "thread_fun SS_signal (signal_catcher x) = Do c k" using front by simp
      then show ?thesis
      proof (cases rule: thread_fun_cases)
        case (1 c0 k0)
        have "entry_mem c0 r l m = m" for l using 1(1) by (cases x) auto
        then obtain x' where "k0 r m = (m', x')" "p' = SS_signal x'" using 1 move(7) by (cases "k0 r m") auto
        then show ?thesis using catcher_move [OF 1(1) _ at, of r m' x'] front(5) 2 1(2) by (auto simp: sem_inv_def)
      qed
    qed
  next
    case (thread i c0 k0 q)
    have "answer_ok c0 r m n" using move(6) thread(5) by simp
    from waiter_move [OF at thread(2,4) this thread(6)] show ?thesis using thread(10) by (auto simp: sem_inv_def)
  qed
qed

section \<open>The properties\<close>

lemma length_by_kind:
  "(\<And>x. x \<in> set xs \<Longrightarrow> f x < N) \<Longrightarrow> length xs = (\<Sum>n < N. length (filter (\<lambda>x. f x = n) xs))" for N :: nat
proof (induction xs)
  case (Cons x xs)
  have "(\<Sum>n < N. length (filter (\<lambda>x. f x = n) (x # xs))) =
      (\<Sum>n < N. (if n = f x then 1 else 0) + length (filter (\<lambda>x. f x = n) xs))" by (intro sum.cong) auto
  also have "\<dots> = 1 + (\<Sum>n < N. length (filter (\<lambda>x. f x = n) xs))" using Cons.prems by (simp add: sum.distrib)
  finally show ?case using Cons by simp
qed simp

text \<open>C29. Once the semaphore is initialised its value is never negative and is the number of posts less the number of wakings:
  every waking has a post of its own. Every thread counts its wakings in order, from one, and up to
  five. Every status the calls may return, the timer expiring at any time.\<close>
theorem semaphore_counts:
  assumes "reach any_status semaphore_main semaphore_system s"
  shows "(case sval (mem s) of None \<Rightarrow> woke (mem s) = []
      | Some v \<Rightarrow> 0 \<le> v \<and> int (length (woke (mem s))) + v = int (posts (mem s))) \<and>
    (\<exists>i. 0 \<le> i \<and> i \<le> 5 \<and> seen n (mem s) = [1..i])"
proof
  obtain p c qs where at: "sem_at (mem s) p qs" using sem_inv_reach [OF assms] by (auto simp: sem_inv_def)
  then show "case sval (mem s) of None \<Rightarrow> woke (mem s) = []
      | Some v \<Rightarrow> 0 \<le> v \<and> int (length (woke (mem s))) + v = int (posts (mem s))"
    by (auto simp: sem_at_def balanced_def split: option.splits)
  show "\<exists>i. 0 \<le> i \<and> i \<le> 5 \<and> seen n (mem s) = [1..i]"
  proof (cases "n < length qs")
    case True
    then have f: "sm_fit (seen n (mem s)) (qs ! n)" using at by (simp add: sem_at_def)
    show ?thesis
    proof (cases "qs ! n")
      case (SM_wait j)
      then show ?thesis using f by (intro exI [of _ "j - 1"]) auto
    next
      case SM_return
      then show ?thesis using f by (intro exI [of _ 5]) auto
    qed (use f in auto)
  next
    case False
    then have "seen n (mem s) = []" using at by (auto simp: sem_at_def seen_def filter_empty_conv)
    then show ?thesis by (intro exI [of _ 0]) simp
  qed
qed

text \<open>C30. When the program has ended normally each of the five threads has been woken five times, and the timer has posted at least
  25 times; what is left is the value of the semaphore.\<close>
theorem semaphore_all_woken:
  assumes "reach any_status semaphore_main semaphore_system s" and "ended s = Some (Exited 0)"
  shows "(\<forall>n < 5. seen n (mem s) = [1..5]) \<and> length (woke (mem s)) = 25 \<and> sval (mem s) = Some (int (posts (mem s)) - 25) \<and>
    25 \<le> posts (mem s)"
proof -
  obtain p c qs where ps: "pcs s = [p, SS_signal c] @ numbered SS_waiter qs" and at: "sem_at (mem s) p qs"
    using sem_inv_reach [OF assms(1)] by (auto simp: sem_inv_def)
  obtain p' where p': "p' \<in> set (pcs s)" "semaphore_main p' = Halt (Exited 0)"
    using ended_cases [OF assms(1) _ assms(2)] by (auto simp: semaphore_system_def)
  have "p = SS_return"
  proof -
    consider "p' = p" | "p' = SS_signal c" | n where "p' = SS_waiter n (qs ! n)" using p'(1) ps by (auto simp: set_numbered)
    then show ?thesis
    proof cases
      case 1
      have "ss_fit qs p" using at by (simp add: sem_at_def)
      then show ?thesis using p'(2) 1 by (cases p) auto
    next
      case 2
      then show ?thesis using p'(2) by (cases c) auto
    next
      case 3
      then show ?thesis using p'(2) by (cases "qs ! n") auto
    qed
  qed
  then have fin: "length qs = 5" "\<forall>j < 5. qs ! j = SM_return" using at by (simp_all add: sem_at_def)
  then have all: "\<forall>n < 5. seen n (mem s) = [1..5]" using at by (auto simp: sem_at_def)
  have "length (woke (mem s)) = (\<Sum>n < 5. length (filter (\<lambda>x. fst x = n) (woke (mem s))))"
    by (rule length_by_kind) (use at fin(1) in \<open>auto simp: sem_at_def image_subset_iff\<close>)
  also have "\<dots> = (\<Sum>n < 5::nat. 5)"
  proof (rule sum.cong)
    fix n :: nat assume "n \<in> {..<5}"
    then have "length (seen n (mem s)) = 5" using all by simp
    then show "length (filter (\<lambda>x. fst x = n) (woke (mem s))) = 5" by (simp add: seen_def)
  qed simp
  finally have len: "length (woke (mem s)) = 25" by simp
  have "balanced (mem s)" using at by (simp add: sem_at_def)
  then have "sval (mem s) = Some (int (posts (mem s)) - 25) \<and> 25 \<le> posts (mem s)"
    using len by (auto simp: balanced_def split: option.splits)
  then show ?thesis using all len by blast
qed

text \<open>A whole run: the timer expires 26 times, then each thread takes five.\<close>

definition whole_day :: "event list" where
  "whole_day = map (Exec 0) (replicate 9 0) @ map (Exec 1) (replicate 52 0) @ [Exec 2 EINTR] @
     concat (map (\<lambda>u. map (Exec u) (replicate 5 0)) [2..<7]) @ map (Exec 0) (replicate 6 0)"

theorem semaphore_all_woken_witness:
  "case run any_status semaphore_main whole_day semaphore_system of
     Some s \<Rightarrow> ended s = Some (Exited 0) \<and> posts (mem s) = 26 \<and> sval (mem s) = Some 1 | None \<Rightarrow> False"
  (is "case ?r of Some s \<Rightarrow> ?P s | None \<Rightarrow> False")
proof -
  have "map_option (\<lambda>s. (ended s, posts (mem s))) ?r = Some (Some (Exited 0), 26)" by code_simp
  then obtain s where s: "?r = Some s" "ended s = Some (Exited 0)" "posts (mem s) = 26" by auto
  show ?thesis using semaphore_all_woken [OF reach_run [OF s(1)] s(2)] s by simp
qed

theorem semaphore_counts_witness:
  "case run any_status semaphore_main (take 40 whole_day) semaphore_system of
     Some s \<Rightarrow> posts (mem s) = 15 \<and> sval (mem s) = Some 15 | None \<Rightarrow> False"
  (is "case ?r of Some s \<Rightarrow> ?P s | None \<Rightarrow> False")
proof -
  have "map_option (\<lambda>s. (posts (mem s), woke (mem s), sval (mem s) = None)) ?r = Some (15, [], False)" by code_simp
  then obtain s where s: "?r = Some s" "posts (mem s) = 15" "woke (mem s) = []" "sval (mem s) \<noteq> None" by auto
  show ?thesis using semaphore_counts [OF reach_run [OF s(1)], of 0] s by auto
qed

end
