(* ===== verification/Putchar.thy ===== *)
theory Putchar
  imports Programs "HOL-Library.Sublist"
begin

text \<open>
  \<^verbatim>\<open>chap6-adjust/putchar.cxx\<close>: three threads write the same line one character at a time, with \<^verbatim>\<open>stdout\<close> locked
  around the whole line or character by character. The lock of \<^verbatim>\<open>stdout\<close> is a mutex; what was written is
  a list of characters, each marked with the number of the thread that wrote it. \<^verbatim>\<open>putchar\<close> can fail (then nothing is written),
  which the program does not look at; \<^verbatim>\<open>flockfile\<close> returns only when it has the lock.
\<close>

section \<open>The program\<close>

datatype pu_mutex = Stdout

record putc =
  flock_flag :: "int option"
  wrote :: "(nat \<times> char) list"

definition message :: string where
  "message = ''this is thread 1'' @ [CHR 0x0A]"

definition put_char :: "nat \<Rightarrow> char \<Rightarrow> int \<Rightarrow> putc \<Rightarrow> putc" where
  "put_char n c r m = (if r = 0 then m\<lparr>wrote := wrote m @ [(n, c)]\<rparr> else m)"

text \<open>The loops stand at the rest of the line that \<^verbatim>\<open>pointer\<close> points to.\<close>

datatype lr_pc = LR_lock | LR_put string | LR_unlock | LR_return

definition lr_for :: "string \<Rightarrow> lr_pc" where
  "lr_for s = (if s \<noteq> [] then LR_put s else LR_unlock)"

fun lock_routine :: "nat \<Rightarrow> lr_pc \<Rightarrow> (pu_mutex, unit, putc, lr_pc) act" where
  "lock_routine n LR_lock = Do (Lock Stdout) (\<lambda>r m. (m, if r \<noteq> 0 then LR_lock else lr_for message))"
| "lock_routine n (LR_put s) =
     Do (Env (\<lambda>r _. r = 0 \<or> r = -1)) (\<lambda>r m. (put_char n (hd s) r m, lr_for (tl s)))"
| "lock_routine n LR_unlock = Do (Unlock Stdout) (goto LR_return)"
| "lock_routine n LR_return = Return 0"

datatype ur_pc = UR_put string | UR_return

definition ur_for :: "string \<Rightarrow> ur_pc" where
  "ur_for s = (if s \<noteq> [] then UR_put s else UR_return)"

fun unlock_routine :: "nat \<Rightarrow> ur_pc \<Rightarrow> (pu_mutex, unit, putc, ur_pc) act" where
  "unlock_routine n (UR_put s) =
     Do (Env (\<lambda>r _. r = 0 \<or> r = -1)) (\<lambda>r m. (put_char n (hd s) r m, ur_for (tl s)))"
| "unlock_routine n UR_return = Return 0"

text \<open>The routine a thread runs is what \<^verbatim>\<open>thread_func\<close> points to.\<close>

datatype pu_pc = Locked lr_pc | Unlocked ur_pc

fun thread_func :: "nat \<Rightarrow> pu_pc \<Rightarrow> (pu_mutex, unit, putc, pu_pc) act" where
  "thread_func n (Locked p) = thread_fun Locked (lock_routine n p)"
| "thread_func n (Unlocked p) = thread_fun Unlocked (unlock_routine n p)"

text \<open>\<open>flock_flag\<close> is \<open>None\<close> when no argument was given: it is then read without a value.\<close>

datatype pm_pc = PM_flag | PM_create nat bool | PM_return | PM_abort | PM_crash | PM_thread nat pu_pc

definition pm_flag :: "putc \<Rightarrow> putc \<times> pm_pc" where
  "pm_flag m = (m, case flock_flag m of None \<Rightarrow> PM_crash | Some f \<Rightarrow> PM_create 0 (f \<noteq> 0))"

definition pm_start :: "bool \<Rightarrow> pu_pc" where
  "pm_start b = (if b then Locked LR_lock else Unlocked (ur_for message))"

fun putchar_main :: "pm_pc \<Rightarrow> (pu_mutex, unit, putc, pm_pc) act" where
  "putchar_main PM_flag = Do Tau (\<lambda>_. pm_flag)"
| "putchar_main (PM_create i b) =
     Do (Create (\<lambda>_ m. m) (PM_thread i (pm_start b))) (\<lambda>status m.
       (m, if status \<noteq> 0 then PM_abort else if i < 2 then PM_create (i + 1) b else PM_return))"
| "putchar_main PM_return = Return 0"
| "putchar_main PM_abort = Halt Aborted"
| "putchar_main PM_crash = Halt Undefined"
| "putchar_main (PM_thread n p) = thread_fun (PM_thread n) (thread_func n p)"

definition putchar_system :: "int option \<Rightarrow> (pu_mutex, unit, putc, pm_pc) sys" where
  "putchar_system f = boot \<lparr>flock_flag = f, wrote = []\<rparr> [PM_flag]"

interpretation pu: numbered_threads putchar_main PM_thread thread_func
proof unfold_locales
  fix n q c k r
  assume "thread_func n q = Do c k"
  then show "spawned c r = []"
  proof (cases q)
    case (Locked p)
    then show ?thesis using \<open>thread_func n q = Do c k\<close> by (cases p) auto
  next
    case (Unlocked p)
    then show ?thesis using \<open>thread_func n q = Do c k\<close> by (cases p) auto
  qed
qed simp

fun pu_holds :: "pm_pc \<Rightarrow> pu_mutex set" where
  "pu_holds (PM_thread n (Locked (LR_put s))) = {Stdout}"
| "pu_holds (PM_thread n (Locked LR_unlock)) = {Stdout}"
| "pu_holds p = {}"

interpretation pu: tame_program allow putchar_main pu_holds for allow :: "pm_pc policy"
proof unfold_locales
  fix p c k r m m' p'
  assume c: "putchar_main p = Do c k" and k: "k r m = (m', p')"
  show "tame c (pu_holds p) \<and> pu_holds p' = held_after c r (pu_holds p) \<and> (\<forall>st q. c = Create st q \<longrightarrow> pu_holds q = {})"
  proof (cases p)
    case PM_flag
    then show ?thesis using c k by (auto simp: pm_flag_def split: option.splits)
  next
    case (PM_create i q)
    then show ?thesis using c k by (auto simp: pm_start_def split: if_splits)
  next
    case (PM_thread n q)
    show ?thesis
    proof (cases q)
      case (Locked x)
      then show ?thesis using c k PM_thread by (cases x) (auto simp: lr_for_def message_def split: if_splits)
    next
      case (Unlocked x)
      then show ?thesis using c k PM_thread by (cases x) (auto simp: ur_for_def split: if_splits)
    qed
  qed (use c in auto)
qed

lemma pu_fresh: "pu.fresh (putchar_system f)"
  unfolding putchar_system_def by (rule pu.fresh_boot) simp

section \<open>Who has written what\<close>

text \<open>Writing succeeds.\<close>

fun writes :: "pm_pc \<Rightarrow> bool" where
  "writes (PM_thread n (Locked (LR_put s))) \<longleftrightarrow> True"
| "writes (PM_thread n (Unlocked (UR_put s))) \<longleftrightarrow> True"
| "writes p \<longleftrightarrow> False"

definition writes_ok :: "pm_pc policy" where
  "writes_ok p r \<longleftrightarrow> (writes p \<longrightarrow> r = 0)"

definition of_thread :: "nat \<Rightarrow> putc \<Rightarrow> string" where
  "of_thread n m = map snd (filter (\<lambda>x. fst x = n) (wrote m))"

fun pm_fit :: "putc \<Rightarrow> nat \<Rightarrow> pm_pc \<Rightarrow> bool" where
  "pm_fit m k PM_flag \<longleftrightarrow> k = 0"
| "pm_fit m k (PM_create i b) \<longleftrightarrow> k = i \<and> i \<le> 2 \<and> (\<exists>f. flock_flag m = Some f \<and> b = (f \<noteq> 0))"
| "pm_fit m k PM_return \<longleftrightarrow> k = 3"
| "pm_fit m k PM_abort \<longleftrightarrow> k \<le> 3"
| "pm_fit m k PM_crash \<longleftrightarrow> k = 0 \<and> flock_flag m = None"
| "pm_fit m k (PM_thread n q) \<longleftrightarrow> False"

text \<open>With the lock: the lines of the threads that have written theirs, and what the one at it has written.\<close>

fun putting :: "pu_pc \<Rightarrow> bool" where
  "putting (Locked (LR_put s)) \<longleftrightarrow> True"
| "putting q \<longleftrightarrow> False"

fun whole :: "pu_pc \<Rightarrow> bool" where
  "whole (Locked LR_unlock) \<longleftrightarrow> True"
| "whole (Locked LR_return) \<longleftrightarrow> True"
| "whole q \<longleftrightarrow> False"

definition lines :: "nat \<Rightarrow> string" where
  "lines k = concat (replicate k message)"

definition locked_text :: "pu_pc list \<Rightarrow> string \<Rightarrow> bool" where
  "locked_text qs t \<longleftrightarrow>
     (\<forall>j < length qs. \<not> putting (qs ! j)) \<and> t = lines (length (filter whole qs)) \<or>
     (\<exists>i s pre. i < length qs \<and> qs ! i = Locked (LR_put s) \<and> s \<noteq> [] \<and> (\<forall>j < length qs. j \<noteq> i \<longrightarrow> \<not> putting (qs ! j)) \<and>
        message = pre @ s \<and> t = lines (length (filter whole qs)) @ pre)"

text \<open>Without it: a thread has written what is before its pointer.\<close>

fun unlocked_text :: "string \<Rightarrow> pu_pc \<Rightarrow> bool" where
  "unlocked_text t (Unlocked (UR_put s)) \<longleftrightarrow> s \<noteq> [] \<and> message = t @ s"
| "unlocked_text t (Unlocked UR_return) \<longleftrightarrow> t = message"
| "unlocked_text t (Locked x) \<longleftrightarrow> False"

lemma length_filter_update:
  "i < length xs \<Longrightarrow> length (filter P (xs[i := y])) + (if P (xs ! i) then 1 else 0) =
     length (filter P xs) + (if P y then 1 else 0)"
proof (induction xs arbitrary: i)
  case (Cons x xs)
  then show ?case by (cases i) auto
qed simp

lemma lines_Suc: "lines (Suc k) = lines k @ message"
  by (induction k) (simp_all add: lines_def)

definition pu_at :: "int option \<Rightarrow> putc \<Rightarrow> pm_pc \<Rightarrow> pu_pc list \<Rightarrow> bool" where
  "pu_at f m p qs \<longleftrightarrow> flock_flag m = f \<and> pm_fit m (length qs) p \<and>
     (case f of
        None \<Rightarrow> qs = []
      | Some v \<Rightarrow>
          if v \<noteq> 0 then (\<forall>q \<in> set qs. \<exists>x. q = Locked x) \<and> locked_text qs (map snd (wrote m))
          else (\<forall>n < length qs. unlocked_text (of_thread n m) (qs ! n)) \<and> fst ` set (wrote m) \<subseteq> {..<length qs})"

definition pu_inv :: "int option \<Rightarrow> putc \<Rightarrow> pm_pc list \<Rightarrow> bool" where
  "pu_inv f m ps \<longleftrightarrow> (\<exists>p qs. ps = [p] @ numbered PM_thread qs \<and> pu_at f m p qs)"

lemma locked_text_step:
  assumes lt: "locked_text qs (map snd (wrote m))" and i: "i < length qs" and c: "lock_routine i x = Do c k"
    and ok: "putting (qs ! i) \<Longrightarrow> r = 0" and k: "k r m = (m', y)" and x: "qs ! i = Locked x"
    and alone: "putting (Locked y) \<Longrightarrow> \<forall>j < length qs. j \<noteq> i \<longrightarrow> \<not> putting (qs ! j)"
  shows "locked_text (qs[i := Locked y]) (map snd (wrote m'))"
proof -
  have len: "length (filter whole (qs[i := Locked y])) + (if whole (Locked x) then 1 else 0) =
      length (filter whole qs) + (if whole (Locked y) then 1 else 0)"
    using length_filter_update [OF i, of whole] x by simp
  show ?thesis
  proof (cases x)
    case LR_lock
    show ?thesis
    proof (cases "r = 0")
      case True
      then have y: "y = LR_put message" "m' = m" using c k LR_lock by (auto simp: lr_for_def message_def)
      then have none: "\<forall>j < length qs. j \<noteq> i \<longrightarrow> \<not> putting (qs ! j)" using alone by simp
      then have "map snd (wrote m) = lines (length (filter whole qs))"
        using lt x LR_lock by (auto simp: locked_text_def)
      then have "map snd (wrote m') = lines (length (filter whole (qs[i := Locked y]))) @ []"
        using len LR_lock y by simp
      then show ?thesis using y i none unfolding locked_text_def
        by (intro disjI2 exI [of _ i] exI [of _ message] exI [of _ "[]"]) (auto simp: message_def nth_list_update)
    next
      case False
      then have "y = x" "m' = m" using c k LR_lock by auto
      then show ?thesis using lt x by (metis list_update_id)
    qed
  next
    case (LR_put s)
    then have r: "r = 0" using ok x by simp
    obtain pre where pre: "message = pre @ s" "s \<noteq> []" "map snd (wrote m) = lines (length (filter whole qs)) @ pre"
      and none: "\<forall>j < length qs. j \<noteq> i \<longrightarrow> \<not> putting (qs ! j)"
      using lt i x LR_put unfolding locked_text_def
      by (metis lr_pc.inject pu_pc.inject(1) putting.simps(1))
    have y: "y = lr_for (tl s)" "map snd (wrote m') = lines (length (filter whole qs)) @ pre @ [hd s]"
      using c k LR_put r pre(3) by (auto simp: put_char_def)
    have ms: "message = (pre @ [hd s]) @ tl s" using pre(1,2) by simp
    show ?thesis
    proof (cases "tl s = []")
      case True
      then have "map snd (wrote m') = lines (Suc (length (filter whole qs)))"
        using y(2) ms by (simp add: lines_Suc)
      then show ?thesis using y(1) True len LR_put none i by (auto simp: locked_text_def lr_for_def nth_list_update)
    next
      case False
      then show ?thesis using y len LR_put none i ms unfolding locked_text_def
        by (intro disjI2 exI [of _ i] exI [of _ "tl s"] exI [of _ "pre @ [hd s]"]) (auto simp: lr_for_def nth_list_update)
    qed
  next
    case LR_unlock
    then have y: "y = LR_return" "m' = m" using c k by auto
    from lt [unfolded locked_text_def] show ?thesis
    proof (elim disjE conjE exE)
      assume "\<forall>j < length qs. \<not> putting (qs ! j)" "map snd (wrote m) = lines (length (filter whole qs))"
      then show ?thesis unfolding locked_text_def using y len LR_unlock i
        by (intro disjI1) (auto simp: nth_list_update)
    next
      fix i' s pre
      assume h: "i' < length qs" "qs ! i' = Locked (LR_put s)" "s \<noteq> []" "\<forall>j < length qs. j \<noteq> i' \<longrightarrow> \<not> putting (qs ! j)"
        "message = pre @ s" "map snd (wrote m) = lines (length (filter whole qs)) @ pre"
      then have "i' \<noteq> i" using x LR_unlock by auto
      then show ?thesis unfolding locked_text_def using h y len LR_unlock i
        by (intro disjI2 exI [of _ i'] exI [of _ s] exI [of _ pre]) (auto simp: nth_list_update)
    qed
  qed (use c in simp)
qed

lemma unlocked_text_step:
  assumes c: "unlock_routine i x = Do c k" and r: "r = 0" and k: "k r m = (m', y)" and t: "unlocked_text (of_thread i m) (Unlocked x)"
  shows "unlocked_text (of_thread i m') (Unlocked y) \<and> (n \<noteq> i \<longrightarrow> of_thread n m' = of_thread n m) \<and>
    set (wrote m') \<subseteq> set (wrote m) \<union> {i} \<times> UNIV"
proof (cases x)
  case (UR_put s)
  then have s: "s \<noteq> []" "message = of_thread i m @ s" using t by auto
  have m': "m' = m\<lparr>wrote := wrote m @ [(i, hd s)]\<rparr>" "y = ur_for (tl s)" using c k r UR_put by (auto simp: put_char_def)
  have "of_thread i m' = of_thread i m @ [hd s]" using m' by (simp add: of_thread_def)
  moreover have "message = (of_thread i m @ [hd s]) @ tl s" using s by simp
  ultimately show ?thesis using m' by (auto simp: ur_for_def of_thread_def)
qed (use c in simp)

lemma pu_thread_move:
  assumes at: "pu_at f m p qs" and i: "i < length qs" and c: "thread_func i (qs ! i) = Do c k"
    and ok: "writes_ok (PM_thread i (qs ! i)) r" and k: "k r m = (m', q)"
    and alone: "\<And>x j. x \<in> pu_holds (PM_thread i q) \<Longrightarrow> j < length qs \<Longrightarrow> j \<noteq> i \<Longrightarrow> x \<notin> pu_holds (PM_thread j (qs ! j))"
  shows "pu_at f m' p (qs[i := q])"
proof -
  have frame: "flock_flag m' = flock_flag m" using c k
  proof (cases "qs ! i")
    case (Locked x)
    then show ?thesis using c k by (cases x) (auto simp: put_char_def)
  next
    case (Unlocked x)
    then show ?thesis using c k by (cases x) (auto simp: put_char_def)
  qed
  have fit: "pm_fit m' k' p = pm_fit m k' p" for k' using frame by (cases p) auto
  obtain v where f: "f = Some v" using at i by (cases f) (auto simp: pu_at_def)
  show ?thesis
  proof (cases "v = 0")
    case False
    then have lt: "locked_text qs (map snd (wrote m))" "\<forall>q \<in> set qs. \<exists>x. q = Locked x" using at f by (simp_all add: pu_at_def)
    then obtain x where x: "qs ! i = Locked x" using i nth_mem by blast
    then obtain c0 k0 y where c0: "lock_routine i x = Do c0 k0" "k0 r m = (m', y)" "q = Locked y"
      using c k by (auto elim!: thread_fun_cases split: prod.splits)
    have "locked_text (qs[i := Locked y]) (map snd (wrote m'))"
    proof (rule locked_text_step [OF lt(1) i c0(1) _ c0(2) x])
      show "r = 0" if "putting (qs ! i)" using ok that by (cases "qs ! i" rule: putting.cases) (auto simp: writes_ok_def)
      show "\<forall>j < length qs. j \<noteq> i \<longrightarrow> \<not> putting (qs ! j)" if "putting (Locked y)"
      proof (intro allI impI notI)
        fix j assume j: "j < length qs" "j \<noteq> i" "putting (qs ! j)"
        have "Stdout \<in> pu_holds (PM_thread i q)" using that c0(3) by (cases "Locked y" rule: putting.cases) auto
        from alone [OF this j(1,2)] show False using j(3) by (cases "qs ! j" rule: putting.cases) auto
      qed
    qed
    moreover have "\<forall>q' \<in> set (qs[i := q]). \<exists>x. q' = Locked x"
      using lt(2) c0(3) set_update_subset_insert [of qs i q] by auto
    ultimately show ?thesis using at f False c0(3) frame fit by (simp add: pu_at_def)
  next
    case True
    then have ut: "\<forall>n < length qs. unlocked_text (of_thread n m) (qs ! n)" "fst ` set (wrote m) \<subseteq> {..<length qs}"
      using at f by (simp_all add: pu_at_def)
    then obtain x where x: "qs ! i = Unlocked x" using i by (cases "qs ! i") force+
    then obtain c0 k0 y where c0: "unlock_routine i x = Do c0 k0" "k0 r m = (m', y)" "q = Unlocked y"
      using c k by (auto elim!: thread_fun_cases split: prod.splits)
    have "r = 0" using ok x c0(1) by (cases x) (auto simp: writes_ok_def)
    from unlocked_text_step [OF c0(1) this c0(2)] have
      "unlocked_text (of_thread i m') q" "\<And>n. n \<noteq> i \<Longrightarrow> of_thread n m' = of_thread n m" "set (wrote m') \<subseteq> set (wrote m) \<union> {i} \<times> UNIV"
      using ut(1) i x c0(3) by fastforce+
    then have "\<forall>n < length qs. unlocked_text (of_thread n m') (qs[i := q] ! n)" "fst ` set (wrote m') \<subseteq> {..<length qs}"
      using ut i by (auto simp: nth_list_update) fastforce
    then show ?thesis using at f True frame fit by (simp add: pu_at_def)
  qed
qed

lemma pu_main_move:
  assumes at: "pu_at f m p qs" and c: "putchar_main p = Do c k" and k: "k r (entry_mem c r l m) = (m', p')"
  shows "\<exists>qs'. numbered PM_thread qs @ spawned c r = numbered PM_thread qs' \<and> pu_at f m' p' qs'"
proof (cases "\<exists>i b. p = PM_create i b \<and> r = 0")
  case True
  then obtain i b where p: "p = PM_create i b" and r: "r = 0" by blast
  have m': "m' = m" "p' = (if i < 2 then PM_create (i + 1) b else PM_return)" "spawned c r = [PM_thread i (pm_start b)]"
    using c k p r by auto
  obtain v where f: "f = Some v" "flock_flag m = Some v" "b = (v \<noteq> 0)" "length qs = i" "i \<le> 2" using at p by (auto simp: pu_at_def)
  have "pu_at f m p' (qs @ [pm_start b])"
  proof (cases "v = 0")
    case True
    then have "fst ` set (wrote m) \<subseteq> {..<i}" using at f by (simp add: pu_at_def)
    then have "of_thread i m = []" by (auto simp: of_thread_def filter_empty_conv)
    then show ?thesis using at f True m'(2)
      by (auto simp: pu_at_def pm_start_def ur_for_def message_def nth_append less_Suc_eq)
  next
    case False
    have "locked_text (qs @ [Locked LR_lock]) (map snd (wrote m))"
    proof -
      have "locked_text qs (map snd (wrote m))" using at f False by (simp add: pu_at_def)
      then show ?thesis unfolding locked_text_def
      proof (elim disjE conjE exE)
        fix j s pre
        assume "j < length qs" "qs ! j = Locked (LR_put s)" "s \<noteq> []" "\<forall>j' < length qs. j' \<noteq> j \<longrightarrow> \<not> putting (qs ! j')"
          "message = pre @ s" "map snd (wrote m) = lines (length (filter whole qs)) @ pre"
        then show "(\<forall>j < length (qs @ [Locked LR_lock]). \<not> putting ((qs @ [Locked LR_lock]) ! j)) \<and>
            map snd (wrote m) = lines (length (filter whole (qs @ [Locked LR_lock]))) \<or>
          (\<exists>i s pre. i < length (qs @ [Locked LR_lock]) \<and> (qs @ [Locked LR_lock]) ! i = Locked (LR_put s) \<and> s \<noteq> [] \<and>
            (\<forall>j < length (qs @ [Locked LR_lock]). j \<noteq> i \<longrightarrow> \<not> putting ((qs @ [Locked LR_lock]) ! j)) \<and> message = pre @ s \<and>
            map snd (wrote m) = lines (length (filter whole (qs @ [Locked LR_lock]))) @ pre)"
          by (intro disjI2 exI [of _ j] exI [of _ s] exI [of _ pre]) (auto simp: nth_append less_Suc_eq)
      qed (intro disjI1, auto simp: nth_append less_Suc_eq)
    qed
    then show ?thesis using at f False m'(2) by (auto simp: pu_at_def pm_start_def)
  qed
  then show ?thesis using m' f(4) by (intro exI [of _ "qs @ [pm_start b]"]) simp
next
  case False
  then have "m' = m \<and> spawned c r = [] \<and> pm_fit m (length qs) p'"
    using at c k by (cases p) (auto simp: pu_at_def pm_flag_def split: if_splits option.splits)
  then show ?thesis using at by (intro exI [of _ qs]) (simp add: pu_at_def)
qed

lemma pu_inv_reach:
  assumes "reach writes_ok putchar_main (putchar_system f) s"
  shows "pu_inv f (mem s) (pcs s)"
  using assms pu_fresh
proof (induction rule: pu.tame_invariant)
  case start
  show ?case unfolding pu_inv_def
    by (intro exI [of _ PM_flag] exI [of _ "[]"])
      (auto simp: putchar_system_def pu_at_def locked_text_def lines_def split: option.splits)
next
  case (tick n m ps)
  then show ?case .
next
  case (move n m ps t c k r m' p')
  then obtain p qs where ps: "ps = [p] @ numbered PM_thread qs" and at: "pu_at f m p qs" by (auto simp: pu_inv_def)
  from ps move(2,3,6) show ?case
  proof (cases rule: pu.numbered_move)
    case front
    then have "putchar_main p = Do c k" "k r (entry_mem c r (1 + length qs) m) = (m', p')" by simp_all
    from pu_main_move [OF at this] show ?thesis using front(5,1) by (auto simp: pu_inv_def)
  next
    case (thread i c0 k0 q)
    have "pu_at f m' p (qs[i := q])"
    proof (rule pu_thread_move [OF at thread(2,4) _ thread(6)])
      show "writes_ok (PM_thread i (qs ! i)) r" using move(4) thread(3) by simp
      fix x j assume "x \<in> pu_holds (PM_thread i q)" "j < length qs" "j \<noteq> i"
      then show "x \<notin> pu_holds (PM_thread j (qs ! j))" using move(7) thread(1,7) ps by (auto dest!: spec [of _ "Suc j"])
    qed
    then show ?thesis using thread(10) by (auto simp: pu_inv_def)
  qed
qed

section \<open>The properties\<close>

lemma pu_inv_cases:
  assumes "reach writes_ok putchar_main (putchar_system (Some f)) s"
  obtains p qs where "pcs s = p # numbered PM_thread qs" "pu_at (Some f) (mem s) p qs" "length qs \<le> 3"
proof -
  obtain p qs where h: "pcs s = p # numbered PM_thread qs" "pu_at (Some f) (mem s) p qs"
    using pu_inv_reach [OF assms] by (auto simp: pu_inv_def)
  then have "length qs \<le> 3" by (cases p) (auto simp: pu_at_def)
  with h show ?thesis by (rule that)
qed

lemma lines_prefix: "k \<le> n \<Longrightarrow> lines n = lines k @ lines (n - k)"
  by (metis concat_append le_add_diff_inverse lines_def replicate_add)

text \<open>C31. With the lock the program writes what three calls of \<open>lock_routine\<close> one after the other would write: at any time a
  prefix of the three lines, all of them when the threads have returned. Writing succeeds; the threads run in any order.\<close>
theorem putchar_locked_sequential:
  assumes "reach writes_ok putchar_main (putchar_system (Some f)) s" and "f \<noteq> 0"
  shows "prefix (map snd (wrote (mem s))) (lines 3) \<and>
    (pcs s = PM_return # map (\<lambda>n. PM_thread n (Locked LR_return)) [0..<3] \<longrightarrow> map snd (wrote (mem s)) = lines 3)"
proof -
  obtain p qs where ps: "pcs s = p # numbered PM_thread qs" and at: "pu_at (Some f) (mem s) p qs" and len: "length qs \<le> 3"
    by (rule pu_inv_cases [OF assms(1)])
  have lt: "locked_text qs (map snd (wrote (mem s)))" using at assms(2) by (simp add: pu_at_def)
  have w: "length (filter whole qs) \<le> length qs" by simp
  have "prefix (map snd (wrote (mem s))) (lines 3)"
    using lt unfolding locked_text_def
  proof (elim disjE conjE exE)
    assume "map snd (wrote (mem s)) = lines (length (filter whole qs))"
    then show ?thesis using lines_prefix [of "length (filter whole qs)" 3] w len by (simp add: prefix_def)
  next
    fix i t pre
    assume h: "i < length qs" "qs ! i = Locked (LR_put t)" "message = pre @ t" "map snd (wrote (mem s)) = lines (length (filter whole qs)) @ pre"
    have "length (filter whole qs) < length qs"
      by (rule length_filter_less [of "qs ! i"]) (use h nth_mem [OF h(1)] in auto)
    then have k: "Suc (length (filter whole qs)) \<le> 3" using len by simp
    have "lines 3 = lines (length (filter whole qs)) @ (pre @ t) @ lines (3 - Suc (length (filter whole qs)))"
      using lines_prefix [OF k] lines_Suc [of "length (filter whole qs)"] h(3) by simp
    then show ?thesis using h(4) by (simp add: prefix_def)
  qed
  moreover have "map snd (wrote (mem s)) = lines 3" if e: "pcs s = PM_return # map (\<lambda>n. PM_thread n (Locked LR_return)) [0..<3]"
  proof -
    have n: "numbered PM_thread qs = map (\<lambda>n. PM_thread n (Locked LR_return)) [0..<3]" using ps e by simp
    then have l3: "length qs = 3" by (metis length_map length_upt numbered_simps(1) minus_nat.diff_0)
    have q: "qs ! j = Locked LR_return" if "j < 3" for j using arg_cong [OF n, of "\<lambda>xs. xs ! j"] that l3 by simp
    then have "filter whole qs = qs" using l3 by (auto simp: filter_id_conv in_set_conv_nth)
    moreover have "\<not> (\<exists>i s. i < length qs \<and> qs ! i = Locked (LR_put s))" using q l3 by auto
    ultimately show ?thesis using lt l3 unfolding locked_text_def by auto
  qed
  ultimately show ?thesis by blast
qed

text \<open>C32. Without the lock the output is an interleaving of the three lines: what one thread has written so far is a prefix of its
  line, and the whole line when it has returned; nobody else writes.\<close>
theorem putchar_unlocked_interleaves:
  assumes "reach writes_ok putchar_main (putchar_system (Some 0)) s"
  shows "(\<forall>n. prefix (of_thread n (mem s)) message) \<and> fst ` set (wrote (mem s)) \<subseteq> {..<3} \<and>
    (\<forall>n. n + 1 < length (threads s) \<and> pcs s ! (n + 1) = PM_thread n (Unlocked UR_return) \<longrightarrow> of_thread n (mem s) = message)"
proof -
  obtain p qs where ps: "pcs s = p # numbered PM_thread qs" and at: "pu_at (Some 0) (mem s) p qs" and len: "length qs \<le> 3"
    by (rule pu_inv_cases [OF assms(1)])
  have ut: "\<And>n. n < length qs \<Longrightarrow> unlocked_text (of_thread n (mem s)) (qs ! n)" and fst: "fst ` set (wrote (mem s)) \<subseteq> {..<length qs}"
    using at by (simp_all add: pu_at_def)
  have l: "length (threads s) = Suc (length qs)" using arg_cong [OF ps, of length] by simp
  have "prefix (of_thread n (mem s)) message" for n
  proof (cases "n < length qs")
    case True
    show ?thesis using ut [OF True]
      by (cases "(of_thread n (mem s), qs ! n)" rule: unlocked_text.cases) (auto simp: prefix_def)
  next
    case False
    then have "of_thread n (mem s) = []" using fst by (auto simp: of_thread_def filter_empty_conv)
    then show ?thesis by simp
  qed
  moreover have "of_thread n (mem s) = message"
    if "n + 1 < length (threads s) \<and> pcs s ! (n + 1) = PM_thread n (Unlocked UR_return)" for n
    using that ut [of n] ps l by auto
  moreover have "fst ` set (wrote (mem s)) \<subseteq> {..<3}" using fst len by auto
  ultimately show ?thesis by blast
qed

text \<open>Runs: the threads one after the other, in the order 2, 1, 3; and the three threads in turn.\<close>

definition started :: "event list" where
  "started = map (Exec 0) (replicate 4 0)"

definition locked_run :: "event list" where
  "locked_run = started @ concat (map (\<lambda>t. map (Exec t) (replicate 19 0)) [2, 1, 3])"

definition mixed_run :: "event list" where
  "mixed_run = started @ concat (replicate 17 [Exec 1 0, Exec 2 0, Exec 3 0])"

theorem putchar_locked_sequential_witness:
  "case run writes_ok putchar_main locked_run (putchar_system (Some 1)) of
     Some s \<Rightarrow> pcs s ! 1 = PM_thread 0 (Locked LR_return) \<and> map snd (wrote (mem s)) = lines 3 | None \<Rightarrow> False"
  (is "case ?r of Some s \<Rightarrow> ?P s | None \<Rightarrow> False")
proof -
  have "map_option pcs ?r = Some (PM_return # map (\<lambda>n. PM_thread n (Locked LR_return)) [0..<3])" by code_simp
  then obtain s where s: "?r = Some s" "pcs s = PM_return # map (\<lambda>n. PM_thread n (Locked LR_return)) [0..<3]" by auto
  have "map snd (wrote (mem s)) = lines 3" using putchar_locked_sequential [OF reach_run [OF s(1)]] s(2) by simp
  then show ?thesis using s by (simp add: upt_rec)
qed

theorem putchar_unlocked_interleaves_witness:
  "case run writes_ok putchar_main mixed_run (putchar_system (Some 0)) of
     Some s \<Rightarrow> take 3 (map snd (wrote (mem s))) = ''ttt'' \<and> of_thread 2 (mem s) = message | None \<Rightarrow> False"
  (is "case ?r of Some s \<Rightarrow> ?P s | None \<Rightarrow> False")
proof -
  have "map_option (\<lambda>s. (length (threads s), pcs s ! 3, take 3 (map snd (wrote (mem s))))) ?r =
      Some (4, PM_thread 2 (Unlocked UR_return), ''ttt'')" by code_simp
  then obtain s where s: "?r = Some s" "length (threads s) = 4" "pcs s ! 3 = PM_thread 2 (Unlocked UR_return)"
    "take 3 (map snd (wrote (mem s))) = ''ttt''" by auto
  show ?thesis using putchar_unlocked_interleaves [OF reach_run [OF s(1)], THEN conjunct2, THEN conjunct2, THEN spec, of 2] s by simp
qed

text \<open>Without an argument \<open>flock_flag\<close> is read although it has no value.\<close>
theorem putchar_no_argument:
  "\<exists>s. reach writes_ok putchar_main (putchar_system None) s \<and> ended s = Some Undefined"
proof -
  have "map_option ended (run writes_ok putchar_main [Exec 0 0, Exec 0 0] (putchar_system None)) = Some (Some Undefined)" by code_simp
  from reach_exists [OF this] show ?thesis by blast
qed

end
