(* ===== verification/Flock.thy ===== *)
theory Flock
  imports Programs ServerRequests
begin

text \<open>
  \<^verbatim>\<open>chap6-adjust/flock.cxx\<close>: three threads prompt for a line each, with \<^verbatim>\<open>stdin\<close> and \<^verbatim>\<open>stdout\<close> locked, and return it; \<^verbatim>\<open>main\<close> prints
  what they return. The locks of the streams are mutexes (\<^verbatim>\<open>printf\<close> takes the one of \<^verbatim>\<open>stdout\<close> too), the buffers are cells in
  a heap, \<^verbatim>\<open>fgets\<close> and the removal of the newline are those of \<open>Stdio\<close>. The session is what
  was printed and read, in this order.
\<close>

section \<open>The program\<close>

datatype fl_mutex = Stdin_lock | Stdout_lock

text \<open>The prompt of thread \<open>n\<close>, the line it read, and what \<^verbatim>\<open>main\<close> reports of it.\<close>

datatype fl_event = Asked nat | Answered nat string | Reported nat string

text \<open>A cell is \<open>None\<close> if it is not allocated, \<open>Some None\<close> before anything is written to it.\<close>

record flocks =
  fl_heap :: "nat \<Rightarrow> string option option"
  fl_stdin :: string
  fl_tids :: "tid list"
  fl_ret :: "nat \<Rightarrow> nat option"
  session :: "fl_event list"

text \<open>The points carry \<^verbatim>\<open>str\<close>.\<close>

datatype fr_pc =
    FR_malloc | FR_lock_in nat | FR_lock_out nat | FR_prompt nat | FR_read nat | FR_unlock_out nat | FR_unlock_in nat
  | FR_return nat | FR_abort

definition fr_malloc :: "int \<Rightarrow> flocks \<Rightarrow> flocks \<times> fr_pc" where
  "fr_malloc r m = (if r = 0 then (m, FR_abort) else (m\<lparr>fl_heap := (fl_heap m)(nat r \<mapsto> None)\<rparr>, FR_lock_in (nat r)))"

text \<open>\<open>e\<close> is not 0 when \<^verbatim>\<open>fgets\<close> reports an error.\<close>

definition fr_read :: "nat \<Rightarrow> nat \<Rightarrow> int \<Rightarrow> flocks \<Rightarrow> flocks" where
  "fr_read n a e m =
     (case (if e \<noteq> 0 \<or> fl_stdin m = [] then ([], fl_stdin m) else fgets 128 (fl_stdin m)) of
        (l, s) \<Rightarrow> m\<lparr>fl_stdin := s, fl_heap := (fl_heap m)(a \<mapsto> Some (chomp (c_string l))),
          session := session m @ [Answered n (chomp (c_string l))]\<rparr>)"

fun prompt_routine :: "nat \<Rightarrow> fr_pc \<Rightarrow> (fl_mutex, unit, flocks, fr_pc) act" where
  "prompt_routine n FR_malloc = Do (Env (\<lambda>r m. r = 0 \<or> 0 < r \<and> fl_heap m (nat r) = None)) fr_malloc"
| "prompt_routine n (FR_lock_in a) = Do (Lock Stdin_lock) (\<lambda>r m. (m, if r \<noteq> 0 then FR_lock_in a else FR_lock_out a))"
| "prompt_routine n (FR_lock_out a) = Do (Lock Stdout_lock) (\<lambda>r m. (m, if r \<noteq> 0 then FR_lock_out a else FR_prompt a))"
| "prompt_routine n (FR_prompt a) = Do Tau (\<lambda>_ m. (m\<lparr>session := session m @ [Asked n]\<rparr>, FR_read a))"
| "prompt_routine n (FR_read a) = Do (Env (\<lambda>r _. 0 \<le> r)) (\<lambda>e m. (fr_read n a e m, FR_unlock_out a))"
| "prompt_routine n (FR_unlock_out a) = Do (Unlock Stdout_lock) (goto (FR_unlock_in a))"
| "prompt_routine n (FR_unlock_in a) = Do (Unlock Stdin_lock) (\<lambda>_ m. (m\<lparr>fl_ret := (fl_ret m)(n \<mapsto> a)\<rparr>, FR_return a))"
| "prompt_routine n (FR_return a) = Return (int a)"
| "prompt_routine n FR_abort = Halt Aborted"

text \<open>\<open>i\<close> counts the threads from 0, \<open>a\<close> is \<^verbatim>\<open>ret\<close>.\<close>

datatype fm_pc =
    FM_create nat | FM_join nat tid | FM_print nat nat | FM_printed nat nat | FM_return | FM_abort | FM_wild | FM_crash
  | FM_thread nat fr_pc

definition fm_next :: "nat \<Rightarrow> flocks \<Rightarrow> fm_pc" where
  "fm_next i m = (if i < 3 then FM_join i (fl_tids m ! i) else FM_return)"

definition fm_print :: "nat \<Rightarrow> nat \<Rightarrow> flocks \<Rightarrow> flocks \<times> fm_pc" where
  "fm_print i a m =
     (case fl_heap m a of
        Some (Some l) \<Rightarrow> (m\<lparr>session := session m @ [Reported i l]\<rparr>, FM_printed i a)
      | _ \<Rightarrow> (m, FM_crash))"

fun flock_main :: "fm_pc \<Rightarrow> (fl_mutex, unit, flocks, fm_pc) act" where
  "flock_main (FM_create i) =
     Do (Create (\<lambda>u m. m\<lparr>fl_tids := fl_tids m @ [u]\<rparr>) (FM_thread i FR_malloc)) (\<lambda>status m.
       (m, if status \<noteq> 0 then FM_abort else if i + 1 < 3 then FM_create (i + 1) else fm_next 0 m))"
| "flock_main (FM_join i u) =
     Do (Join u) (\<lambda>status m.
       (m, if status \<noteq> 0 then FM_abort else case fl_ret m i of None \<Rightarrow> FM_wild | Some a \<Rightarrow> FM_print i a))"
| "flock_main (FM_print i a) = Do (Lock Stdout_lock) (\<lambda>r m. if r \<noteq> 0 then (m, FM_print i a) else fm_print i a m)"
| "flock_main (FM_printed i a) =
     Do (Unlock Stdout_lock) (\<lambda>_ m. (m\<lparr>fl_heap := (fl_heap m)(a := None)\<rparr>, fm_next (i + 1) m))"
| "flock_main FM_return = Halt (Exited 0)"
| "flock_main FM_abort = Halt Aborted"
| "flock_main FM_wild = Halt Undefined"
| "flock_main FM_crash = Halt Undefined"
| "flock_main (FM_thread n p) = thread_fun (FM_thread n) (prompt_routine n p)"

definition flock_system :: "string \<Rightarrow> (fl_mutex, unit, flocks, fm_pc) sys" where
  "flock_system s = boot \<lparr>fl_heap = (\<lambda>_. None), fl_stdin = s, fl_tids = [], fl_ret = (\<lambda>_. None), session = []\<rparr> [FM_create 0]"

interpretation fl: numbered_threads flock_main FM_thread prompt_routine
proof unfold_locales
  show "prompt_routine n q = Do c k \<Longrightarrow> spawned c r = []" for n q c k r by (cases q) auto
qed simp

fun fl_holds :: "fm_pc \<Rightarrow> fl_mutex set" where
  "fl_holds (FM_thread n (FR_lock_out a)) = {Stdin_lock}"
| "fl_holds (FM_thread n (FR_prompt a)) = {Stdin_lock, Stdout_lock}"
| "fl_holds (FM_thread n (FR_read a)) = {Stdin_lock, Stdout_lock}"
| "fl_holds (FM_thread n (FR_unlock_out a)) = {Stdin_lock, Stdout_lock}"
| "fl_holds (FM_thread n (FR_unlock_in a)) = {Stdin_lock}"
| "fl_holds (FM_printed i a) = {Stdout_lock}"
| "fl_holds FM_crash = {Stdout_lock}"
| "fl_holds p = {}"

interpretation fl: tame_program allow flock_main fl_holds for allow :: "fm_pc policy"
proof unfold_locales
  fix p c k r m m' p'
  assume c: "flock_main p = Do c k" and k: "k r m = (m', p')"
  show "tame c (fl_holds p) \<and> fl_holds p' = held_after c r (fl_holds p) \<and> (\<forall>st q. c = Create st q \<longrightarrow> fl_holds q = {})"
  proof (cases p)
    case (FM_thread n q)
    then show ?thesis using c k by (cases q) (auto simp: fr_malloc_def split: if_splits)
  qed (use c k in \<open>auto simp: fm_next_def fm_print_def split: if_splits option.splits\<close>)
qed

lemma fl_fresh: "fl.fresh (flock_system s)"
  unfolding flock_system_def by (rule fl.fresh_boot) simp

section \<open>What was asked, read and reported\<close>

definition answers :: "flocks \<Rightarrow> (nat \<times> string) list" where
  "answers m = [(n, l). Answered n l \<leftarrow> session m]"

definition reports :: "flocks \<Rightarrow> (nat \<times> string) list" where
  "reports m = [(n, l). Reported n l \<leftarrow> session m]"

lemma session_simps [simp]:
  "answers (m\<lparr>session := es @ [Asked n]\<rparr>) = answers (m\<lparr>session := es\<rparr>)"
  "answers (m\<lparr>session := es @ [Answered n l]\<rparr>) = answers (m\<lparr>session := es\<rparr>) @ [(n, l)]"
  "answers (m\<lparr>session := es @ [Reported n l]\<rparr>) = answers (m\<lparr>session := es\<rparr>)"
  "reports (m\<lparr>session := es @ [Asked n]\<rparr>) = reports (m\<lparr>session := es\<rparr>)"
  "reports (m\<lparr>session := es @ [Answered n l]\<rparr>) = reports (m\<lparr>session := es\<rparr>)"
  "reports (m\<lparr>session := es @ [Reported n l]\<rparr>) = reports (m\<lparr>session := es\<rparr>) @ [(n, l)]"
  "answers (m\<lparr>session := session m\<rparr>) = answers m" "reports (m\<lparr>session := session m\<rparr>) = reports m"
  "answers (m\<lparr>fl_heap := h\<rparr>) = answers m" "reports (m\<lparr>fl_heap := h\<rparr>) = reports m"
  "answers (m\<lparr>fl_stdin := x\<rparr>) = answers m" "reports (m\<lparr>fl_stdin := x\<rparr>) = reports m"
  "answers (m\<lparr>fl_ret := g\<rparr>) = answers m" "reports (m\<lparr>fl_ret := g\<rparr>) = reports m"
  "answers (m\<lparr>fl_tids := ts\<rparr>) = answers m" "reports (m\<lparr>fl_tids := ts\<rparr>) = reports m"
  by (simp_all add: answers_def reports_def)

text \<open>\<open>orderly es\<close> follows the dialogue: \<open>Some (Some n)\<close> while an answer to prompt \<open>n\<close> is due, \<open>None\<close> if anything has come between.\<close>

fun talk :: "nat option option \<Rightarrow> fl_event \<Rightarrow> nat option option" where
  "talk (Some None) (Asked n) = Some (Some n)"
| "talk (Some (Some n)) (Answered k l) = (if n = k then Some None else None)"
| "talk (Some None) (Reported n l) = Some None"
| "talk w e = None"

definition orderly :: "fl_event list \<Rightarrow> nat option option" where
  "orderly es = foldl talk (Some None) es"

lemma orderly_snoc [simp]: "orderly (es @ [e]) = talk (orderly es) e" "orderly [] = Some None"
  by (simp_all add: orderly_def)

text \<open>The buffer of a thread, and what is known of a thread \<open>main\<close> has not dealt with yet.\<close>

fun buffer :: "fr_pc \<Rightarrow> nat option" where
  "buffer FR_malloc = None"
| "buffer FR_abort = None"
| "buffer (FR_lock_in a) = Some a"
| "buffer (FR_lock_out a) = Some a"
| "buffer (FR_prompt a) = Some a"
| "buffer (FR_read a) = Some a"
| "buffer (FR_unlock_out a) = Some a"
| "buffer (FR_unlock_in a) = Some a"
| "buffer (FR_return a) = Some a"

definition has_answer :: "nat \<Rightarrow> nat \<Rightarrow> flocks \<Rightarrow> bool" where
  "has_answer n a m \<longleftrightarrow> (\<exists>l. (n, l) \<in> set (answers m) \<and> fl_heap m a = Some (Some l))"

fun fr_fit :: "nat \<Rightarrow> flocks \<Rightarrow> fr_pc \<Rightarrow> bool" where
  "fr_fit n m FR_malloc \<longleftrightarrow> n \<notin> fst ` set (answers m)"
| "fr_fit n m FR_abort \<longleftrightarrow> n \<notin> fst ` set (answers m)"
| "fr_fit n m (FR_unlock_out a) \<longleftrightarrow> has_answer n a m"
| "fr_fit n m (FR_unlock_in a) \<longleftrightarrow> has_answer n a m"
| "fr_fit n m (FR_return a) \<longleftrightarrow> has_answer n a m \<and> fl_ret m n = Some a"
| "fr_fit n m p \<longleftrightarrow> n \<notin> fst ` set (answers m) \<and> (\<exists>a. buffer p = Some a \<and> fl_heap m a = Some None)"

text \<open>\<open>k\<close> threads have been dealt with.\<close>

fun fm_fit :: "nat \<Rightarrow> fr_pc list \<Rightarrow> flocks \<Rightarrow> fm_pc \<Rightarrow> bool" where
  "fm_fit k qs m (FM_create i) \<longleftrightarrow> k = 0 \<and> length qs = i \<and> i < 3 \<and> map fst (reports m) = []"
| "fm_fit k qs m (FM_join i u) \<longleftrightarrow> k = i \<and> length qs = 3 \<and> i < 3 \<and> u = i + 1 \<and> map fst (reports m) = [0..<i]"
| "fm_fit k qs m (FM_print i a) \<longleftrightarrow> k = i \<and> length qs = 3 \<and> i < 3 \<and> qs ! i = FR_return a \<and> map fst (reports m) = [0..<i]"
| "fm_fit k qs m (FM_printed i a) \<longleftrightarrow> k = i \<and> length qs = 3 \<and> i < 3 \<and> qs ! i = FR_return a \<and> map fst (reports m) = [0..<i + 1]"
| "fm_fit k qs m FM_return \<longleftrightarrow> k = 3 \<and> length qs = 3 \<and> map fst (reports m) = [0..<3]"
| "fm_fit k qs m FM_abort \<longleftrightarrow> k \<le> length qs \<and> length qs \<le> 3"
| "fm_fit k qs m p \<longleftrightarrow> False"

definition in_turn :: "fr_pc list \<Rightarrow> flocks \<Rightarrow> bool" where
  "in_turn qs m \<longleftrightarrow> (\<exists>w. orderly (session m) = Some w \<and> (\<forall>n. (n < length qs \<and> (\<exists>a. qs ! n = FR_read a)) \<longleftrightarrow> w = Some n))"

definition cells :: "nat \<Rightarrow> fr_pc list \<Rightarrow> flocks \<Rightarrow> bool" where
  "cells k qs m \<longleftrightarrow>
     (\<forall>a. fl_heap m a \<noteq> None \<longleftrightarrow> (\<exists>n. k \<le> n \<and> n < length qs \<and> buffer (qs ! n) = Some a)) \<and>
     (\<forall>i j a. k \<le> i \<and> k \<le> j \<and> i < length qs \<and> j < length qs \<and> buffer (qs ! i) = Some a \<and> buffer (qs ! j) = Some a \<longrightarrow> i = j)"

definition read_so_far :: "string list \<Rightarrow> fr_pc list \<Rightarrow> flocks \<Rightarrow> bool" where
  "read_so_far ls qs m \<longleftrightarrow> ls = map snd (answers m) @ input_lines (fl_stdin m) \<and> distinct (map fst (answers m)) \<and>
     fst ` set (answers m) \<subseteq> {..<length qs} \<and> set (reports m) \<subseteq> set (answers m)"

definition fl_at :: "string list \<Rightarrow> flocks \<Rightarrow> fm_pc \<Rightarrow> fr_pc list \<Rightarrow> bool" where
  "fl_at ls m p qs \<longleftrightarrow> (\<exists>k. fm_fit k qs m p \<and> cells k qs m \<and>
     (\<forall>n < length qs. if n < k then \<exists>a. qs ! n = FR_return a else fr_fit n m (qs ! n))) \<and>
     length qs \<le> 3 \<and> in_turn qs m \<and> read_so_far ls qs m \<and> fl_tids m = map Suc [0..<length qs]"

definition fl_inv :: "string list \<Rightarrow> flocks \<Rightarrow> fm_pc list \<Rightarrow> bool" where
  "fl_inv ls m ps \<longleftrightarrow> (\<exists>p qs. ps = [p] @ numbered FM_thread qs \<and> fl_at ls m p qs)"

section \<open>A move of a thread\<close>

lemma fm_fit_update:
  "fm_fit k qs m p \<Longrightarrow> \<forall>a. qs ! i \<noteq> FR_return a \<Longrightarrow> reports m' = reports m \<Longrightarrow> fm_fit k (qs[i := q]) m' p"
  by (cases p) (auto simp: nth_update_if)

lemma fr_fit_frame:
  assumes "fr_fit n m q" and "\<And>a. buffer q = Some a \<Longrightarrow> fl_heap m' a = fl_heap m a" and "fl_ret m' n = fl_ret m n"
    and a: "\<And>l. (n, l) \<in> set (answers m') \<longleftrightarrow> (n, l) \<in> set (answers m)"
  shows "fr_fit n m' q"
proof -
  have "n \<in> fst ` set (answers m') \<longleftrightarrow> n \<in> fst ` set (answers m)" using a by force
  then show ?thesis using assms by (cases q) (auto simp: has_answer_def)
qed

lemma cells_owner:
  "cells k qs m \<Longrightarrow> k \<le> i \<Longrightarrow> k \<le> j \<Longrightarrow> i < length qs \<Longrightarrow> j < length qs \<Longrightarrow>
    buffer (qs ! i) = Some a \<Longrightarrow> buffer (qs ! j) = Some a \<Longrightarrow> i = j"
  unfolding cells_def by blast

lemma cells_update:
  assumes "cells k qs m" and "i < length qs" and "buffer q = buffer (qs ! i)" and "\<And>a. fl_heap m' a = None \<longleftrightarrow> fl_heap m a = None"
  shows "cells k (qs[i := q]) m'"
proof -
  have "buffer (qs[i := q] ! n) = buffer (qs ! n)" for n using assms(2,3) by (simp add: nth_update_if)
  then show ?thesis using assms(1,4) by (simp add: cells_def)
qed

lemma cells_new:
  assumes c: "cells k qs m" and i: "i < length qs" "k \<le> i" and b: "buffer (qs ! i) = None" "buffer q = Some a"
    and h: "fl_heap m a = None" "fl_heap m' = (fl_heap m)(a \<mapsto> x)"
  shows "cells k (qs[i := q]) m'"
proof -
  have n: "buffer (qs[i := q] ! n) = (if n = i then Some a else buffer (qs ! n))" for n using i b(2) by (simp add: nth_update_if)
  have none: "buffer (qs ! n) \<noteq> Some a" if "k \<le> n" "n < length qs" for n using c h(1) that unfolding cells_def by blast
  have "fl_heap m' a' \<noteq> None \<longleftrightarrow> (\<exists>n. k \<le> n \<and> n < length (qs[i := q]) \<and> buffer (qs[i := q] ! n) = Some a')" for a'
  proof (cases "a' = a")
    case True
    then show ?thesis using i h(2) n by auto
  next
    case False
    then have "fl_heap m' a' \<noteq> None \<longleftrightarrow> (\<exists>n. k \<le> n \<and> n < length qs \<and> buffer (qs ! n) = Some a')" using c h(2) by (simp add: cells_def)
    also have "\<dots> \<longleftrightarrow> (\<exists>n. k \<le> n \<and> n < length (qs[i := q]) \<and> buffer (qs[i := q] ! n) = Some a')"
      using n b(1) False by (metis length_list_update option.discI option.inject)
    finally show ?thesis .
  qed
  moreover have "\<forall>i' j a'. k \<le> i' \<and> k \<le> j \<and> i' < length (qs[i := q]) \<and> j < length (qs[i := q]) \<and>
      buffer (qs[i := q] ! i') = Some a' \<and> buffer (qs[i := q] ! j) = Some a' \<longrightarrow> i' = j"
  proof (intro allI impI)
    fix i' j a'
    assume h: "k \<le> i' \<and> k \<le> j \<and> i' < length (qs[i := q]) \<and> j < length (qs[i := q]) \<and>
      buffer (qs[i := q] ! i') = Some a' \<and> buffer (qs[i := q] ! j) = Some a'"
    then have "i' = i \<longleftrightarrow> a' = a" "j = i \<longleftrightarrow> a' = a" using n none by (auto split: if_splits)
    then show "i' = j" using h c n unfolding cells_def by (metis length_list_update)
  qed
  ultimately show ?thesis by (simp add: cells_def)
qed

lemma fl_at_thread:
  assumes at: "fl_at ls m p qs" and i: "i < length qs" and ret: "\<forall>a. qs ! i \<noteq> FR_return a"
    and cells: "\<And>k. k \<le> i \<Longrightarrow> cells k qs m \<Longrightarrow> cells k (qs[i := q]) m'"
    and fit: "fr_fit i m (qs ! i) \<Longrightarrow> fr_fit i m' q"
    and heap: "\<And>a. fl_heap m' a \<noteq> fl_heap m a \<Longrightarrow> buffer (qs ! i) = Some a \<or> fl_heap m a = None"
    and rets: "\<And>n. n \<noteq> i \<Longrightarrow> fl_ret m' n = fl_ret m n"
    and ans: "\<And>n l. n \<noteq> i \<Longrightarrow> (n, l) \<in> set (answers m') \<longleftrightarrow> (n, l) \<in> set (answers m)"
    and same: "reports m' = reports m" "fl_tids m' = fl_tids m"
    and turn: "in_turn qs m \<Longrightarrow> in_turn (qs[i := q]) m'"
    and read: "read_so_far ls qs m \<Longrightarrow> read_so_far ls (qs[i := q]) m'"
  shows "fl_at ls m' p (qs[i := q])"
proof -
  obtain k where k: "fm_fit k qs m p" "cells k qs m"
      "\<forall>n < length qs. if n < k then \<exists>a. qs ! n = FR_return a else fr_fit n m (qs ! n)"
    using at by (auto simp: fl_at_def)
  have ki: "k \<le> i" using k(3) i ret by (meson not_le)
  have "if n < k then \<exists>a. qs[i := q] ! n = FR_return a else fr_fit n m' (qs[i := q] ! n)" if n: "n < length qs" for n
  proof (cases "n < k \<or> n = i")
    case True
    then show ?thesis using k(3) n ki i fit by (auto simp: nth_update_if)
  next
    case False
    have "fr_fit n m' (qs ! n)"
    proof (rule fr_fit_frame)
      show "fr_fit n m (qs ! n)" using k(3) n False by auto
      show "fl_heap m' a = fl_heap m a" if a: "buffer (qs ! n) = Some a" for a
      proof (rule ccontr)
        assume "fl_heap m' a \<noteq> fl_heap m a"
        then have "buffer (qs ! i) = Some a \<or> fl_heap m a = None" by (rule heap)
        then show False using k(2) a n i ki False unfolding cells_def by (metis leI)
      qed
    qed (use False rets ans in auto)
    then show ?thesis using False by (simp add: nth_update_if)
  qed
  then show ?thesis using at k cells [OF ki] fm_fit_update [OF k(1) ret same(1)] turn read same unfolding fl_at_def
    by (intro conjI exI [of _ k]) auto
qed

lemma in_turn_same:
  assumes "in_turn qs m" and "session m' = session m" and "(\<exists>a. q = FR_read a) = (\<exists>a. qs ! i = FR_read a)"
  shows "in_turn (qs[i := q]) m'"
proof -
  have "(\<exists>a. qs[i := q] ! n = FR_read a) = (\<exists>a. qs ! n = FR_read a)" for n using assms(3) by (simp add: nth_update_if)
  then show ?thesis using assms(1,2) by (simp add: in_turn_def)
qed

lemma read_same:
  "read_so_far ls qs m \<Longrightarrow> answers m' = answers m \<Longrightarrow> reports m' = reports m \<Longrightarrow> fl_stdin m' = fl_stdin m \<Longrightarrow>
    read_so_far ls (qs[i := q]) m'"
  by (simp add: read_so_far_def)

lemma prompt_move:
  assumes at: "fl_at ls m p qs" and i: "i < length qs" and c: "prompt_routine i (qs ! i) = Do c k" and a: "answer_ok c r m n"
    and k: "k r m = (m', q)" and ok: "\<And>a. qs ! i = FR_read a \<Longrightarrow> r = 0" and ls: "3 \<le> length ls"
    and alone: "\<And>j. Stdout_lock \<in> fl_holds (FM_thread i q) \<Longrightarrow> j < length qs \<Longrightarrow> j \<noteq> i \<Longrightarrow> Stdout_lock \<notin> fl_holds (FM_thread j (qs ! j))"
  shows "fl_at ls m' p (qs[i := q])"
proof (cases "qs ! i")
  case FR_malloc
  show ?thesis
  proof (cases "r = 0")
    case True
    then have m': "m' = m" "q = FR_abort" using c k FR_malloc by (auto simp: fr_malloc_def)
    show ?thesis unfolding m' by (rule fl_at_thread [OF at i]) (use FR_malloc i in \<open>auto intro: cells_update in_turn_same read_same\<close>)
  next
    case False
    then have m': "m' = m\<lparr>fl_heap := (fl_heap m)(nat r \<mapsto> None)\<rparr>" "q = FR_lock_in (nat r)" "fl_heap m (nat r) = None"
      using c k a FR_malloc by (auto simp: fr_malloc_def)
    have s: "answers m' = answers m" "reports m' = reports m" using m' by simp_all
    show ?thesis
    proof (rule fl_at_thread [OF at i])
      show "cells l (qs[i := q]) m'" if "l \<le> i" "cells l qs m" for l
        by (rule cells_new [OF that(2) i that(1), of q "nat r"]) (use FR_malloc m' in auto)
    qed (use FR_malloc m' i s in \<open>auto intro: in_turn_same read_same split: if_splits\<close>)
  qed
next
  case (FR_prompt b)
  then have m': "m' = m\<lparr>session := session m @ [Asked i]\<rparr>" "q = FR_read b" using c k by auto
  have s: "answers m' = answers m" "reports m' = reports m" using m' by simp_all
  have none: "qs ! j \<noteq> FR_read x" if "j < length qs" for j x
  proof (cases "j = i")
    case False
    then have "Stdout_lock \<notin> fl_holds (FM_thread j (qs ! j))" using alone m'(2) that by simp
    then show ?thesis by auto
  qed (use FR_prompt in simp)
  have "in_turn (qs[i := q]) m'" if "in_turn qs m"
  proof -
    have "orderly (session m) = Some None" using that none unfolding in_turn_def by (metis not_None_eq)
    then show ?thesis using m' none i by (auto simp: in_turn_def nth_update_if)
  qed
  then show ?thesis
    by (intro fl_at_thread [OF at i]) (use FR_prompt m' i s in \<open>auto intro: read_same cells_update simp: nth_update_if\<close>)
next
  case (FR_read b)
  then have "r = 0" by (rule ok)
  obtain h where "if i < h then \<exists>a. qs ! i = FR_return a else fr_fit i m (qs ! i)"
    using at i unfolding fl_at_def by blast
  then have fit: "i \<notin> fst ` set (answers m)" "fl_heap m b = Some None" using FR_read by (simp_all split: if_splits)
  have rd: "read_so_far ls qs m" "length qs \<le> 3" using at by (simp_all add: fl_at_def)
  have "fst ` set (answers m) \<subseteq> {..<length qs} - {i}" using rd(1) fit(1) by (auto simp: read_so_far_def)
  from card_mono [OF _ this] have "length (answers m) < length qs"
    using rd(1) i distinct_card [of "map fst (answers m)"] by (simp add: read_so_far_def)
  then have "fl_stdin m \<noteq> []" using rd ls by (auto simp: read_so_far_def)
  then obtain l s' where l: "fgets 128 (fl_stdin m) = (l, s')" "input_lines (fl_stdin m) = chomp (c_string l) # input_lines s'"
    using input_lines_step by (metis surj_pair)
  let ?l = "chomp (c_string l)"
  have m': "m' = m\<lparr>fl_stdin := s', fl_heap := (fl_heap m)(b \<mapsto> Some ?l), session := session m @ [Answered i ?l]\<rparr>" "q = FR_unlock_out b"
    using c k FR_read \<open>r = 0\<close> \<open>fl_stdin m \<noteq> []\<close> l(1) by (auto simp: fr_read_def)
  have s: "answers m' = answers m @ [(i, ?l)]" "reports m' = reports m" unfolding m'
    by (simp_all add: answers_def reports_def)
  have "in_turn (qs[i := q]) m'" if t: "in_turn qs m"
  proof -
    obtain w where w: "orderly (session m) = Some w" "\<forall>n. (n < length qs \<and> (\<exists>a. qs ! n = FR_read a)) = (w = Some n)"
      using t by (auto simp: in_turn_def)
    then have "w = Some i" using i FR_read by blast
    then have "\<forall>n. \<not> (n < length qs \<and> (\<exists>a. qs[i := q] ! n = FR_read a))" "orderly (session m') = Some None"
      using w m' by (auto simp: nth_update_if)
    then show ?thesis by (auto simp: in_turn_def)
  qed
  moreover have "read_so_far ls (qs[i := q]) m'" if "read_so_far ls qs m"
    using that s m' l(2) fit(1) i by (auto simp: read_so_far_def)
  moreover have "cells k (qs[i := q]) m'" if "cells k qs m" for k
    by (rule cells_update [OF that i]) (use FR_read m' fit in auto)
  ultimately show ?thesis
    by (intro fl_at_thread [OF at i]) (use FR_read m' s in \<open>auto simp: has_answer_def split: if_splits\<close>)
next
  case (FR_lock_in b)
  then have m': "m' = m" "q = (if r \<noteq> 0 then FR_lock_in b else FR_lock_out b)" using c k by auto
  show ?thesis unfolding m' by (rule fl_at_thread [OF at i]) (use FR_lock_in i in \<open>auto intro: cells_update in_turn_same read_same\<close>)
next
  case (FR_lock_out b)
  then have m': "m' = m" "q = (if r \<noteq> 0 then FR_lock_out b else FR_prompt b)" using c k by auto
  show ?thesis unfolding m' by (rule fl_at_thread [OF at i]) (use FR_lock_out i in \<open>auto intro: cells_update in_turn_same read_same\<close>)
next
  case (FR_unlock_out b)
  then have m': "m' = m" "q = FR_unlock_in b" using c k by auto
  show ?thesis unfolding m' by (rule fl_at_thread [OF at i]) (use FR_unlock_out i in \<open>auto intro: cells_update in_turn_same read_same\<close>)
next
  case (FR_unlock_in b)
  then have m': "m' = m\<lparr>fl_ret := (fl_ret m)(i \<mapsto> b)\<rparr>" "q = FR_return b" using c k by auto
  have s: "answers m' = answers m" "reports m' = reports m" using m' by simp_all
  show ?thesis
    by (rule fl_at_thread [OF at i])
      (use FR_unlock_in m' i s in \<open>auto intro: cells_update in_turn_same read_same simp: has_answer_def\<close>)
qed (use c in auto)

section \<open>A move of the main program\<close>

lemma cells_append: "cells k qs m \<Longrightarrow> fl_heap m' = fl_heap m \<Longrightarrow> buffer q = None \<Longrightarrow> cells k (qs @ [q]) m'"
  unfolding cells_def
  by (auto simp: nth_append less_Suc_eq)

lemma cells_free:
  assumes c: "cells i qs m" and i: "i < length qs" "buffer (qs ! i) = Some a"
  shows "cells (Suc i) qs (m\<lparr>fl_heap := (fl_heap m)(a := None)\<rparr>)"
proof -
  have "n = i" if "i \<le> n" "n < length qs" "buffer (qs ! n) = Some a" for n using c i that unfolding cells_def by blast
  then have "(\<exists>n. i \<le> n \<and> n < length qs \<and> buffer (qs ! n) = Some x) \<and> x \<noteq> a \<longleftrightarrow>
      (\<exists>n. Suc i \<le> n \<and> n < length qs \<and> buffer (qs ! n) = Some x)" for x
    using i by (metis Suc_le_eq le_eq_less_or_eq option.inject not_less_eq_eq)
  then show ?thesis using c unfolding cells_def by (auto simp: Suc_le_eq)
qed

lemma flock_main_move:
  assumes at: "fl_at ls m p qs" and c: "flock_main p = Do c k" and k: "k r (entry_mem c r (1 + length qs) m) = (m', p')"
    and j: "\<forall>u. c = Join u \<and> r = 0 \<longrightarrow> (\<exists>a. qs ! (u - 1) = FR_return a)"
    and alone: "\<And>j. Stdout_lock \<in> fl_holds p' \<Longrightarrow> j < length qs \<Longrightarrow> Stdout_lock \<notin> fl_holds (FM_thread j (qs ! j))"
  shows "\<exists>qs'. numbered FM_thread qs @ spawned c r = numbered FM_thread qs' \<and> fl_at ls m' p' qs'"
proof -
  obtain h where h: "fm_fit h qs m p" "cells h qs m"
      "\<And>n. n < length qs \<Longrightarrow> if n < h then \<exists>a. qs ! n = FR_return a else fr_fit n m (qs ! n)"
    and rest: "length qs \<le> 3" "in_turn qs m" "read_so_far ls qs m" "fl_tids m = map Suc [0..<length qs]"
    using at unfolding fl_at_def by blast
  have stay: "fl_at ls m p' qs" if "fm_fit h qs m p'" for p'
    using h rest that unfolding fl_at_def by blast
  show ?thesis
  proof (cases p)
    case (FM_create i)
    show ?thesis
    proof (cases "r = 0")
      case True
      have m': "m' = m\<lparr>fl_tids := fl_tids m @ [1 + length qs]\<rparr>" "spawned c r = [FM_thread i FR_malloc]"
        "p' = (if i + 1 < 3 then FM_create (i + 1) else fm_next 0 m')" using c k FM_create True by auto
      have f: "h = 0" "length qs = i" "i < 3" "reports m = []" using h(1) FM_create by simp_all
      have "in_turn (qs @ [FR_malloc]) m'"
      proof -
        have "(n < length (qs @ [FR_malloc]) \<and> (\<exists>a. (qs @ [FR_malloc]) ! n = FR_read a)) = (n < length qs \<and> (\<exists>a. qs ! n = FR_read a))" for n
          by (auto simp: nth_append less_Suc_eq)
        then show ?thesis using rest(2) m'(1) by (simp add: in_turn_def)
      qed
      moreover have "cells 0 (qs @ [FR_malloc]) m'" using cells_append [OF h(2), of m'] m'(1) f by simp
      moreover have "fr_fit n m' ((qs @ [FR_malloc]) ! n)" if "n < length (qs @ [FR_malloc])" for n
      proof (cases "n < length qs")
        case True
        have "fr_fit n m' (qs ! n)" by (rule fr_fit_frame [of n m]) (use h(3) [OF True] f m'(1) in auto)
        then show ?thesis using True by (simp add: nth_append)
      next
        case False
        then show ?thesis using that rest(3) m'(1) by (auto simp: read_so_far_def nth_append)
      qed
      moreover have "fm_fit 0 (qs @ [FR_malloc]) m' p'"
      proof (cases "i + 1 < 3")
        case False
        then have "i = 2" using f by simp
        then show ?thesis using False m' f rest(4) by (simp add: fm_next_def nth_append)
      qed (use m' f in simp)
      moreover have "read_so_far ls (qs @ [FR_malloc]) m'" using rest(3) m'(1) by (auto simp: read_so_far_def)
      ultimately have "fl_at ls m' p' (qs @ [FR_malloc])" using m'(1) f rest(4) unfolding fl_at_def
        by (intro conjI exI [of _ 0]) auto
      then show ?thesis using m'(2) f by (intro exI [of _ "qs @ [FR_malloc]"]) simp
    qed (use c k FM_create h(1) stay in auto)
  next
    case (FM_join i u)
    show ?thesis
    proof (cases "r = 0")
      case True
      have f: "h = i" "length qs = 3" "i < 3" "u = i + 1" using h(1) FM_join by simp_all
      then obtain a where a: "qs ! i = FR_return a" using j c FM_join True by auto
      then have "fl_ret m i = Some a" using h(3) [of i] f by simp
      then have "m' = m" "p' = FM_print i a" "spawned c r = []" using c k FM_join True by auto
      then show ?thesis using stay [of p'] h(1) FM_join a by auto
    qed (use c k FM_join h(1) stay in auto)
  next
    case (FM_print i a)
    have f: "h = i" "length qs = 3" "i < 3" "qs ! i = FR_return a" "map fst (reports m) = [0..<i]" using h(1) FM_print by simp_all
    show ?thesis
    proof (cases "r = 0")
      case True
      obtain l where l: "(i, l) \<in> set (answers m)" "fl_heap m a = Some (Some l)" using h(3) [of i] f by (auto simp: has_answer_def)
      then have m': "m' = m\<lparr>session := session m @ [Reported i l]\<rparr>" "p' = FM_printed i a" "spawned c r = []"
        using c k FM_print True by (auto simp: fm_print_def)
      have s: "answers m' = answers m" "reports m' = reports m @ [(i, l)]" using m' by simp_all
      have none: "qs ! n \<noteq> FR_read x" if "n < length qs" for n x using alone [OF _ that] m'(2) by auto
      then have "orderly (session m) = Some None" using rest(2) unfolding in_turn_def by (metis not_None_eq)
      then have "in_turn qs m'" using none m'(1) by (auto simp: in_turn_def)
      moreover have "cells i qs m'" using h(2) f m'(1) by (simp add: cells_def)
      moreover have "fm_fit i qs m' p'" using f s m' by simp
      moreover have "if n < i then \<exists>a. qs ! n = FR_return a else fr_fit n m' (qs ! n)" if "n < length qs" for n
        using h(3) [OF that] f(1) fr_fit_frame [of n m "qs ! n" m'] s m'(1) by auto
      moreover have "read_so_far ls qs m'" using rest(3) s m'(1) l by (auto simp: read_so_far_def)
      ultimately have "fl_at ls m' p' qs" using rest(1,4) m'(1) unfolding fl_at_def by (intro conjI exI [of _ i]) auto
      then show ?thesis using m'(3) by auto
    next
      case False
      then have "m' = m" "p' = p" "spawned c r = []" using c k FM_print by auto
      then show ?thesis using stay [OF h(1)] by auto
    qed
  next
    case (FM_printed i a)
    have f: "h = i" "length qs = 3" "i < 3" "qs ! i = FR_return a" "map fst (reports m) = [0..<i + 1]" using h(1) FM_printed by simp_all
    have m': "m' = m\<lparr>fl_heap := (fl_heap m)(a := None)\<rparr>" "p' = fm_next (i + 1) m" "spawned c r = []"
      using c k FM_printed by auto
    have cl: "cells (Suc i) qs m'" using cells_free [of i qs m a] h(2) f m'(1) by simp
    have "if n < Suc i then \<exists>a. qs ! n = FR_return a else fr_fit n m' (qs ! n)" if n: "n < length qs" for n
    proof (cases "n < Suc i")
      case True
      then show ?thesis using h(3) [OF n] f by (auto simp: less_Suc_eq)
    next
      case False
      then have "fr_fit n m (qs ! n)" using h(3) [OF n] f by auto
      moreover have "buffer (qs ! n) \<noteq> Some a"
      proof
        assume "buffer (qs ! n) = Some a"
        moreover have "buffer (qs ! i) = Some a" using f by simp
        moreover have "i \<le> n" "i < length qs" "cells i qs m" using False f h(2) by simp_all
        ultimately have "n = i" using cells_owner [of i qs m n i a] n by simp
        then show False using False by simp
      qed
      ultimately have "fr_fit n m' (qs ! n)" using m'(1) by - (rule fr_fit_frame, auto)
      then show ?thesis using False by simp
    qed
    moreover have "fm_fit (Suc i) qs m' p'"
    proof (cases "i + 1 < 3")
      case False
      then have "Suc i = 3" using f by simp
      then show ?thesis using m' f by (simp add: fm_next_def)
    qed (use m' f rest(4) in \<open>simp add: fm_next_def\<close>)
    moreover have "in_turn qs m'" "read_so_far ls qs m'" using rest(2,3) m'(1) by (simp_all add: in_turn_def read_so_far_def)
    ultimately have "fl_at ls m' p' qs" using cl rest(1,4) m'(1) unfolding fl_at_def by (intro conjI exI [of _ "Suc i"]) auto
    then show ?thesis using m'(3) by auto
  qed (use c h(1) in auto)
qed

section \<open>The properties\<close>

text \<open>\<^verbatim>\<open>fgets\<close> reports no error.\<close>

fun reads :: "fm_pc \<Rightarrow> bool" where
  "reads (FM_thread n (FR_read a)) \<longleftrightarrow> True"
| "reads p \<longleftrightarrow> False"

definition reads_ok :: "fm_pc policy" where
  "reads_ok p r \<longleftrightarrow> (reads p \<longrightarrow> r = 0)"

lemma fl_inv_reach:
  assumes "reach reads_ok flock_main (flock_system s0) s" and ls: "3 \<le> length (input_lines s0)"
  shows "fl_inv (input_lines s0) (mem s) (pcs s)"
  using assms(1) fl_fresh
proof (induction rule: fl.tame_invariant)
  case start
  show ?case unfolding fl_inv_def
    by (intro exI [of _ "FM_create 0"] exI [of _ "[]"])
      (auto simp: flock_system_def fl_at_def cells_def in_turn_def read_so_far_def answers_def reports_def)
next
  case (tick n m ps)
  then show ?case .
next
  case (move n m ps t c k r m' p')
  then obtain p qs where ps: "ps = [p] @ numbered FM_thread qs" and at: "fl_at (input_lines s0) m p qs" by (auto simp: fl_inv_def)
  from ps move(2,3,6) show ?case
  proof (cases rule: fl.numbered_move)
    case front
    then have t: "t = 0" by simp
    have "\<exists>qs'. numbered FM_thread qs @ spawned c r = numbered FM_thread qs' \<and> fl_at (input_lines s0) m' p' qs'"
    proof (rule flock_main_move [OF at])
      show "flock_main p = Do c k" "k r (entry_mem c r (1 + length qs) m) = (m', p')" using front t by simp_all
      show "\<forall>u. c = Join u \<and> r = 0 \<longrightarrow> (\<exists>a. qs ! (u - 1) = FR_return a)"
      proof (intro allI impI)
        fix u assume u: "c = Join u \<and> r = 0"
        then obtain v where v: "u < length ps" "flock_main (ps ! u) = Return v" using move(8) by blast
        have "u \<noteq> 0" using v(2) move(3) t by (intro notI) simp
        then obtain i where "u = Suc i" "i < length qs" using v(1) ps by (cases u) auto
        then show "\<exists>a. qs ! (u - 1) = FR_return a" using v(2) ps by (cases "qs ! i") auto
      qed
      show "Stdout_lock \<notin> fl_holds (FM_thread j (qs ! j))" if "Stdout_lock \<in> fl_holds p'" "j < length qs" for j
      proof -
        have "Suc j < length ps" "ps ! Suc j = FM_thread j (qs ! j)" using ps that by simp_all
        then show ?thesis using move(7) that(1) t by (metis UnCI nat.distinct(1))
      qed
    qed
    then show ?thesis using front(5) t by (auto simp: fl_inv_def)
  next
    case (thread i c0 k0 q)
    have "fl_at (input_lines s0) m' p (qs[i := q])"
    proof (rule prompt_move [OF at thread(2,4) _ thread(6) _ ls])
      show "answer_ok c0 r m n" using move(5) thread(5) by simp
      show "r = 0" if "qs ! i = FR_read a" for a using move(4) thread(3) that by (simp add: reads_ok_def)
      show "Stdout_lock \<notin> fl_holds (FM_thread j (qs ! j))"
        if "Stdout_lock \<in> fl_holds (FM_thread i q)" "j < length qs" "j \<noteq> i" for j
      proof -
        have "1 + j < length ps" "ps ! (1 + j) = FM_thread j (qs ! j)" "1 + j \<noteq> t" using ps that thread(1) by simp_all
        then show ?thesis using move(7) that(1) thread(7) by (metis UnCI)
      qed
    qed
    then show ?thesis using thread(10) by (auto simp: fl_inv_def)
  qed
qed

text \<open>What is typed, line by line, and what comes back from \<^verbatim>\<open>fgets\<close>. A plain line fits into the buffer of 128 characters with its
  newline and has no NUL character.\<close>

definition typed :: "string list \<Rightarrow> string" where
  "typed ls = concat (map (\<lambda>l. l @ [newline]) ls)"

definition plain_line :: "string \<Rightarrow> bool" where
  "plain_line l \<longleftrightarrow> length l < 127 \<and> newline \<notin> set l \<and> CHR 0x00 \<notin> set l"

lemma typed_input_lines: "list_all plain_line ls \<Longrightarrow> input_lines (typed ls) = ls"
proof (induction ls)
  case (Cons l ls)
  have "fgets 128 (typed (l # ls)) = (l @ [newline], typed ls)"
    using piece_line [of l 127 "typed ls"] Cons.prems by (simp add: fgets_def typed_def plain_line_def)
  moreover have "c_string (l @ [newline]) = l @ [newline]"
    using Cons.prems by (auto simp: c_string_def plain_line_def takeWhile_eq_all_conv)
  ultimately show ?case using input_lines_step [of "typed (l # ls)"] Cons by (simp add: typed_def chomp_def)
qed (simp add: typed_def)

text \<open>C35. Plain lines, of fewer than 127 characters and without a NUL character, come back unchanged (a longer one comes back in
  pieces): if at least three are typed and \<^verbatim>\<open>fgets\<close> reports no error, then, when the program has ended normally, whichever thread got which line,
  every thread has read one of the first three, \<^verbatim>\<open>main\<close> has reported every thread once, in the order of creation, with the
  line that thread has read, the rest of the input is still there and every buffer has been freed.\<close>
theorem flock_lines_come_back:
  assumes "reach reads_ok flock_main (flock_system (typed ls)) s" and "list_all plain_line ls" and "3 \<le> length ls"
    and "ended s = Some (Exited 0)"
  shows "map snd (answers (mem s)) = take 3 ls \<and> mset (map fst (answers (mem s))) = {#0, 1, 2#} \<and>
    map fst (reports (mem s)) = [0, 1, 2] \<and> set (reports (mem s)) \<subseteq> set (answers (mem s)) \<and>
    input_lines (fl_stdin (mem s)) = drop 3 ls \<and> (\<forall>a. fl_heap (mem s) a = None)"
proof -
  have il: "input_lines (typed ls) = ls" by (rule typed_input_lines [OF assms(2)])
  obtain p qs where ps: "pcs s = [p] @ numbered FM_thread qs" and at: "fl_at ls (mem s) p qs"
    using fl_inv_reach [OF assms(1)] assms(3) il by (auto simp: fl_inv_def)
  obtain p' where p': "p' \<in> set (pcs s)" "flock_main p' = Halt (Exited 0)"
    using ended_cases [OF assms(1) _ assms(4)] by (auto simp: flock_system_def)
  have "p' = FM_return"
  proof (cases p')
    case (FM_thread n q)
    then show ?thesis using p'(2) by (cases q) auto
  qed (use p'(2) in auto)
  then have "p = FM_return" using p'(1) ps by (auto simp: set_numbered)
  then have f: "length qs = 3" "map fst (reports (mem s)) = [0..<3]" "cells 3 qs (mem s)"
      "\<And>n. n < 3 \<Longrightarrow> \<exists>a. qs ! n = FR_return a" and rd: "read_so_far ls qs (mem s)"
    using at by (auto simp: fl_at_def)
  have up: "[0..<3] = [0, 1, 2 :: nat]" by (simp add: upt_rec)
  have "set (map fst (reports (mem s))) \<subseteq> set (map fst (answers (mem s)))" using rd by (auto simp: read_so_far_def)
  then have "set (map fst (answers (mem s))) = {0..<3}" using rd f(1,2) by (auto simp: read_so_far_def atLeast0LessThan)
  then have m: "mset (map fst (answers (mem s))) = mset [0..<3]" using rd
    by (intro set_eq_iff_mset_eq_distinct [THEN iffD1]) (auto simp: read_so_far_def)
  then have "length (answers (mem s)) = 3" using mset_eq_length by fastforce
  moreover have ls: "ls = map snd (answers (mem s)) @ input_lines (fl_stdin (mem s))" using rd by (simp add: read_so_far_def)
  ultimately have "map snd (answers (mem s)) = take 3 ls" "input_lines (fl_stdin (mem s)) = drop 3 ls"
    by (metis append_eq_conv_conj length_map)+
  moreover have "fl_heap (mem s) a = None" for a
  proof -
    have "fl_heap (mem s) a \<noteq> None \<longleftrightarrow> (\<exists>n. 3 \<le> n \<and> n < length qs \<and> buffer (qs ! n) = Some a)" using f(3) unfolding cells_def by blast
    then show ?thesis using f(1) by auto
  qed
  ultimately show ?thesis using m f(2) rd up by (simp add: read_so_far_def)
qed

theorem flock_lines_come_back_witness:
  "case run reads_ok flock_main ([Exec 0 0, Exec 0 0, Exec 0 0] @
      concat (map (\<lambda>(n, a). [Exec n a, Exec n 0, Exec n 0, Exec n 0, Exec n 0, Exec n 0, Exec n 0]) [(2, 7), (1, 8), (3, 9)]) @
      replicate 10 (Exec 0 0)) (flock_system (typed [''b'', ''a'', ''c'', ''d''])) of
     Some s \<Rightarrow> ended s = Some (Exited 0) \<and> answers (mem s) = [(1, ''b''), (0, ''a''), (2, ''c'')] \<and>
       reports (mem s) = [(0, ''a''), (1, ''b''), (2, ''c'')] \<and> input_lines (fl_stdin (mem s)) = [''d'']
   | None \<Rightarrow> False"
  (is "case ?r of Some s \<Rightarrow> ?P s | None \<Rightarrow> False")
proof -
  have "map_option (\<lambda>s. (ended s, answers (mem s), reports (mem s))) ?r =
      Some (Some (Exited 0), [(1, ''b''), (0, ''a''), (2, ''c'')], [(0, ''a''), (1, ''b''), (2, ''c'')])" by code_simp
  then obtain s where s: "?r = Some s" "ended s = Some (Exited 0)" "answers (mem s) = [(1, ''b''), (0, ''a''), (2, ''c'')]"
    "reports (mem s) = [(0, ''a''), (1, ''b''), (2, ''c'')]" by auto
  have "list_all plain_line [''b'', ''a'', ''c'', ''d'']" by (simp add: plain_line_def)
  then show ?thesis using flock_lines_come_back [OF reach_run [OF s(1)] _ _ s(2)] s by simp
qed

text \<open>On the terminal a prompt is followed at once by its answer: between what a thread prints and what it reads nobody else
  prints or reads. In every state, the session is a sequence of prompts each with its answer, and reports between them.\<close>
theorem flock_dialogue:
  assumes "reach reads_ok flock_main (flock_system s0) s" and "3 \<le> length (input_lines s0)"
  shows "orderly (session (mem s)) \<noteq> None"
  using fl_inv_reach [OF assms] by (auto simp: fl_inv_def fl_at_def in_turn_def)

theorem flock_dialogue_witness:
  "case run reads_ok flock_main [Exec 0 0, Exec 1 7, Exec 1 0, Exec 1 0, Exec 1 0] (flock_system (typed [''a'', ''b'', ''c''])) of
     Some s \<Rightarrow> session (mem s) = [Asked 0] \<and> orderly (session (mem s)) \<noteq> None | None \<Rightarrow> False"
  (is "case ?r of Some s \<Rightarrow> ?P s | None \<Rightarrow> False")
proof -
  have "map_option (\<lambda>s. session (mem s)) ?r = Some [Asked 0]" by code_simp
  then obtain s where s: "?r = Some s" "session (mem s) = [Asked 0]" by auto
  have "input_lines (typed [''a'', ''b'', ''c'']) = [''a'', ''b'', ''c'']"
    by (rule typed_input_lines) (simp add: plain_line_def)
  then show ?thesis using flock_dialogue [OF reach_run [OF s(1)]] s by simp
qed

end
