(* ===== verification/TsdDestructor.thy ===== *)
theory TsdDestructor
  imports Programs "HOL-Library.Multiset"
begin

text \<open>
  \<^verbatim>\<open>chap5-advance/tsd_destructor.cxx\<close>: the main program and two threads keep a value each under a key; the destructor of the key
  frees the value when its thread ends, and deletes the key with the last one. The values of the key are a map from threads
  (0 is the main program), the cells \<^verbatim>\<open>malloc\<close> returns a heap. A use of a key that does not exist, or of a cell that is
  not allocated or not written, is undefined.
\<close>

section \<open>The program\<close>

datatype tk_mutex = Identity_key_mutex

text \<open>A cell is a \<^verbatim>\<open>private_t\<close>: \<^verbatim>\<open>thread_id\<close> and \<^verbatim>\<open>str\<close>, \<open>None\<close> before they are written.\<close>

record tsd =
  key :: bool
  deletions :: nat
  key_value :: "nat \<Rightarrow> nat option"
  key_counter :: int
  tk_heap :: "nat \<Rightarrow> (nat \<times> string) option option"
  exits :: "string list"

text \<open>The destructor, with the value \<open>a\<close>.\<close>

datatype kd_pc = KD_print nat | KD_lock | KD_load | KD_store int | KD_delete | KD_unlock | KD_return | KD_abort | KD_crash

definition kd_print :: "nat \<Rightarrow> tsd \<Rightarrow> tsd \<times> kd_pc" where
  "kd_print a m =
     (case tk_heap m a of
        Some (Some (u, s)) \<Rightarrow> (m\<lparr>exits := exits m @ [s], tk_heap := (tk_heap m)(a := None)\<rparr>, KD_lock)
      | _ \<Rightarrow> (m, KD_crash))"

text \<open>The decrement reads the counter in one step and writes it in the next one, so that two of them at a time could lose one.\<close>

definition kd_count :: "int \<Rightarrow> tsd \<Rightarrow> tsd \<times> kd_pc" where
  "kd_count old m = (m\<lparr>key_counter := old - 1\<rparr>, if old - 1 \<le> 0 then KD_delete else KD_unlock)"

definition kd_delete :: "int \<Rightarrow> tsd \<Rightarrow> tsd \<times> kd_pc" where
  "kd_delete status m =
     (if status \<noteq> 0 then (m, KD_abort)
      else if \<not> key m then (m, KD_crash) else (m\<lparr>key := False, deletions := deletions m + 1\<rparr>, KD_unlock))"

fun identity_key_destructor :: "kd_pc \<Rightarrow> (tk_mutex, unit, tsd, kd_pc) act" where
  "identity_key_destructor (KD_print a) = Do Tau (\<lambda>_. kd_print a)"
| "identity_key_destructor KD_lock = Do (Lock Identity_key_mutex) (checked KD_abort KD_load)"
| "identity_key_destructor KD_load = Do Tau (\<lambda>_ m. (m, KD_store (key_counter m)))"
| "identity_key_destructor (KD_store old) = Do Tau (\<lambda>_. kd_count old)"
| "identity_key_destructor KD_delete = Do (Env (\<lambda>r _. 0 \<le> r)) kd_delete"
| "identity_key_destructor KD_unlock = Do (Unlock Identity_key_mutex) (checked KD_abort KD_return)"
| "identity_key_destructor KD_return = Return 0"
| "identity_key_destructor KD_abort = Halt Aborted"
| "identity_key_destructor KD_crash = Halt Undefined"

text \<open>The value of the calling thread \<open>n\<close>.\<close>

datatype kg_pc = KG_get | KG_malloc | KG_set nat | KG_return nat | KG_abort | KG_crash

definition kg_get :: "nat \<Rightarrow> tsd \<Rightarrow> tsd \<times> kg_pc" where
  "kg_get n m = (m, if \<not> key m then KG_crash else case key_value m n of None \<Rightarrow> KG_malloc | Some a \<Rightarrow> KG_return a)"

definition kg_malloc :: "int \<Rightarrow> tsd \<Rightarrow> tsd \<times> kg_pc" where
  "kg_malloc r m = (if r = 0 then (m, KG_abort) else (m\<lparr>tk_heap := (tk_heap m)(nat r \<mapsto> None)\<rparr>, KG_set (nat r)))"

definition kg_set :: "nat \<Rightarrow> nat \<Rightarrow> int \<Rightarrow> tsd \<Rightarrow> tsd \<times> kg_pc" where
  "kg_set n a status m =
     (if status \<noteq> 0 then (m, KG_abort)
      else if \<not> key m then (m, KG_crash) else (m\<lparr>key_value := (key_value m)(n \<mapsto> a)\<rparr>, KG_return a))"

fun identity_key_get :: "nat \<Rightarrow> kg_pc \<Rightarrow> (tk_mutex, unit, tsd, kg_pc) act" where
  "identity_key_get n KG_get = Do Tau (\<lambda>_. kg_get n)"
| "identity_key_get n KG_malloc = Do (Env (\<lambda>r m. r = 0 \<or> 0 < r \<and> tk_heap m (nat r) = None)) kg_malloc"
| "identity_key_get n (KG_set a) = Do (Env (\<lambda>r _. 0 \<le> r)) (kg_set n a)"
| "identity_key_get n (KG_return a) = Return (int a)"
| "identity_key_get n KG_abort = Halt Aborted"
| "identity_key_get n KG_crash = Halt Undefined"

text \<open>The end of a thread: if the key has a value there, its destructor runs with it, after the value was cleared.\<close>

datatype ke_pc = KE_exit | KE_destroy kd_pc | KE_done

definition ke_exit :: "nat \<Rightarrow> tsd \<Rightarrow> tsd \<times> ke_pc" where
  "ke_exit n m =
     (case (if key m then key_value m n else None) of
        None \<Rightarrow> (m, KE_done)
      | Some a \<Rightarrow> (m\<lparr>key_value := (key_value m)(n := None)\<rparr>, KE_destroy (KD_print a)))"

fun thread_end :: "nat \<Rightarrow> ke_pc \<Rightarrow> (tk_mutex, unit, tsd, ke_pc) act" where
  "thread_end n KE_exit = Do Tau (\<lambda>_. ke_exit n)"
| "thread_end n (KE_destroy p) = call_here KE_destroy (\<lambda>_ m. (m, KE_done)) (identity_key_destructor p)"
| "thread_end n KE_done = Return 0"

text \<open>\<open>thread_name n\<close> is the argument of thread \<open>n\<close>.\<close>

definition thread_name :: "nat \<Rightarrow> string" where
  "thread_name n = (if n = 0 then ''main thread'' else if n = 1 then ''thread 1'' else ''thread 2'')"

datatype tt_pc = TT_get kg_pc | TT_end ke_pc | TT_crash

definition write_value :: "nat \<Rightarrow> int \<Rightarrow> tsd \<Rightarrow> tsd" where
  "write_value n v m = m\<lparr>tk_heap := (tk_heap m)(nat v \<mapsto> Some (n, thread_name n))\<rparr>"

fun tsd_routine :: "nat \<Rightarrow> tt_pc \<Rightarrow> (tk_mutex, unit, tsd, tt_pc) act" where
  "tsd_routine n (TT_get p) =
     call_here TT_get (\<lambda>v m. if tk_heap m (nat v) = None then (m, TT_crash) else (write_value n v m, TT_end KE_exit)) (identity_key_get n p)"
| "tsd_routine n (TT_end p) = thread_fun TT_end (thread_end n p)"
| "tsd_routine n TT_crash = Halt Undefined"

text \<open>\<open>i\<close> is the number of the thread that is created; \<^verbatim>\<open>pthread_exit\<close> ends the main program as it does a thread.\<close>

datatype tm_pc = TM_key | TM_get kg_pc | TM_create nat | TM_end ke_pc | TM_abort | TM_crash | TM_thread nat tt_pc

fun tsd_main :: "tm_pc \<Rightarrow> (tk_mutex, unit, tsd, tm_pc) act" where
  "tsd_main TM_key =
     Do (Env (\<lambda>r _. 0 \<le> r)) (\<lambda>status m. if status \<noteq> 0 then (m, TM_abort) else (m\<lparr>key := True, key_counter := 3\<rparr>, TM_get KG_get))"
| "tsd_main (TM_get p) =
     call_here TM_get (\<lambda>v m. if tk_heap m (nat v) = None then (m, TM_crash) else (write_value 0 v m, TM_create 1)) (identity_key_get 0 p)"
| "tsd_main (TM_create i) =
     Do (Create (\<lambda>_ m. m) (TM_thread i (TT_get KG_get))) (\<lambda>status m.
       (m, if status \<noteq> 0 then TM_abort else if i < 2 then TM_create (i + 1) else TM_end KE_exit))"
| "tsd_main (TM_end p) = thread_fun TM_end (thread_end 0 p)"
| "tsd_main TM_abort = Halt Aborted"
| "tsd_main TM_crash = Halt Undefined"
| "tsd_main (TM_thread n p) = thread_fun (TM_thread n) (tsd_routine n p)"

definition tsd_mem :: tsd where
  "tsd_mem = \<lparr>key = False, deletions = 0, key_value = (\<lambda>_. None), key_counter = 0, tk_heap = (\<lambda>_. None), exits = []\<rparr>"

definition tsd_system :: "(tk_mutex, unit, tsd, tm_pc) sys" where
  "tsd_system = boot tsd_mem [TM_key]"

section \<open>Mutexes\<close>

fun kd_holds :: "kd_pc \<Rightarrow> tk_mutex set" where
  "kd_holds KD_load = {Identity_key_mutex}"
| "kd_holds (KD_store old) = {Identity_key_mutex}"
| "kd_holds KD_delete = {Identity_key_mutex}"
| "kd_holds KD_unlock = {Identity_key_mutex}"
| "kd_holds p = {}"

fun ke_holds :: "ke_pc \<Rightarrow> tk_mutex set" where
  "ke_holds (KE_destroy p) = kd_holds p"
| "ke_holds p = {}"

fun tm_holds :: "tm_pc \<Rightarrow> tk_mutex set" where
  "tm_holds (TM_end p) = ke_holds p"
| "tm_holds (TM_thread n (TT_end p)) = ke_holds p"
| "tm_holds p = {}"

lemmas kd_defs = kd_print_def kd_count_def kd_delete_def
lemmas kg_defs = kg_get_def kg_malloc_def kg_set_def write_value_def

lemma destructor_holds:
  "identity_key_destructor p = Do c k \<Longrightarrow> k r m = (m', p') \<Longrightarrow> kd_holds p' \<subseteq> held_after c r (kd_holds p) \<and> tame c (kd_holds p) \<and>
    spawned c i = []"
  by (cases p) (auto simp: kd_defs split: if_splits option.splits)

lemma key_get_holds:
  "identity_key_get n p = Do c k \<Longrightarrow> held_after c r {} = {} \<and> tame c {} \<and> spawned c i = []"
  by (cases p) auto

lemma thread_end_holds:
  assumes c: "thread_end n p = Do c k" and k: "k r m = (m', p')"
  shows "ke_holds p' \<subseteq> held_after c r (ke_holds p) \<and> tame c (ke_holds p) \<and> spawned c i = []"
proof (cases p)
  case (KE_destroy q)
  then have "call_here KE_destroy (\<lambda>_ m. (m, KE_done)) (identity_key_destructor q) = Do c k" using c by simp
  then show ?thesis
  proof (cases rule: call_fun_cases)
    case (inside c0 k0)
    then obtain q' where "k0 r m = (m', q')" "p' = KE_destroy q'" using k by (cases "k0 r m") auto
    then show ?thesis using destructor_holds [OF inside(1), of r m m' q' i] inside(2) KE_destroy by simp
  qed (use k KE_destroy in auto)
qed (use c k in \<open>auto simp: ke_exit_def split: option.splits if_splits\<close>)

lemma tsd_routine_holds:
  assumes c: "tsd_routine n p = Do c k" and k: "k r m = (m', p')"
  shows "tm_holds (TM_thread n p') \<subseteq> held_after c r (tm_holds (TM_thread n p)) \<and> tame c (tm_holds (TM_thread n p)) \<and> spawned c i = []"
proof (cases p)
  case (TT_get q)
  from c [unfolded TT_get tsd_routine.simps] show ?thesis
  proof (cases rule: call_fun_cases)
    case (inside c0 k0)
    then have "\<exists>q'. p' = TT_get q'" using k by (auto split: prod.splits)
    then show ?thesis using key_get_holds [OF inside(1), of r i] inside(2) TT_get by auto
  qed (use k TT_get in \<open>auto split: if_splits\<close>)
next
  case (TT_end q)
  with c have "thread_fun TT_end (thread_end n q) = Do c k" by simp
  then show ?thesis
  proof (cases rule: thread_fun_cases)
    case (1 c0 k0)
    then obtain q' where "k0 r m = (m', q')" "p' = TT_end q'" using k by (cases "k0 r m") auto
    then show ?thesis using thread_end_holds [OF 1(1), of r m m' q' i] 1(2) TT_end by simp
  qed
qed (use c in simp)

lemma tsd_main_holds:
  assumes c: "tsd_main p = Do c k" and k: "k r m = (m', p')"
  shows "tm_holds p' \<subseteq> held_after c r (tm_holds p) \<and> tame c (tm_holds p)"
proof (cases p)
  case (TM_get q)
  from c [unfolded TM_get tsd_main.simps] show ?thesis
  proof (cases rule: call_fun_cases)
    case (inside c0 k0)
    then have "\<exists>q'. p' = TM_get q'" using k by (auto split: prod.splits)
    then show ?thesis using key_get_holds [OF inside(1), of r] inside(2) TM_get by auto
  qed (use k TM_get in \<open>auto split: if_splits\<close>)
next
  case (TM_end q)
  with c have "thread_fun TM_end (thread_end 0 q) = Do c k" by simp
  then show ?thesis
  proof (cases rule: thread_fun_cases)
    case (1 c0 k0)
    then obtain q' where "k0 r m = (m', q')" "p' = TM_end q'" using k by (cases "k0 r m") auto
    then show ?thesis using thread_end_holds [OF 1(1), of r m m' q'] 1(2) TM_end by simp
  qed
next
  case (TM_thread n q)
  with c have "thread_fun (TM_thread n) (tsd_routine n q) = Do c k" by simp
  then show ?thesis
  proof (cases rule: thread_fun_cases)
    case (1 c0 k0)
    then obtain q' where "k0 r m = (m', q')" "p' = TM_thread n q'" using k by (cases "k0 r m") auto
    then show ?thesis using tsd_routine_holds [OF 1(1), of r m m' q'] 1(2) TM_thread by simp
  qed
qed (use c k in \<open>auto split: if_splits\<close>)

interpretation tk: lock_tracking allow tsd_main tm_holds for allow :: "tm_pc policy"
proof unfold_locales
  fix p c k r m' m'' p'
  assume "tsd_main p = Do c k" "k r m' = (m'', p')"
  then show "tm_holds p' \<subseteq> held_after c r (tm_holds p)" using tsd_main_holds by blast
next
  fix p q and st :: "nat \<Rightarrow> tsd \<Rightarrow> tsd" and k :: "int \<Rightarrow> tsd \<Rightarrow> tsd \<times> tm_pc"
  assume c: "tsd_main p = Do (Create st q) k"
  show "tm_holds q = {}"
  proof (cases p)
    case (TM_thread n x)
    with c have "thread_fun (TM_thread n) (tsd_routine n x) = Do (Create st q) k" by simp
    then show ?thesis
    proof (cases rule: thread_fun_cases)
      case (1 c0 k0)
      obtain m' p' where "k0 0 undefined = (m', p')" by fastforce
      then show ?thesis using tsd_routine_holds [OF 1(1), of 0 _ m' p' 0] 1(2) by (cases c0) auto
    qed
  next
    case (TM_end x)
    with c have "thread_fun TM_end (thread_end 0 x) = Do (Create st q) k" by simp
    then show ?thesis
    proof (cases rule: thread_fun_cases)
      case (1 c0 k0)
      obtain m' p' where "k0 0 undefined = (m', p')" by fastforce
      then show ?thesis using thread_end_holds [OF 1(1), of 0 _ m' p' 0] 1(2) by (cases c0) auto
    qed
  next
    case (TM_get x)
    from c [unfolded TM_get tsd_main.simps] show ?thesis
    proof (cases rule: call_fun_cases)
      case (inside c0 k0)
      then show ?thesis using key_get_holds [OF inside(1), of 0 0] by (cases c0) auto
    qed auto
  qed (use c in auto)
qed

section \<open>The life of a value\<close>

text \<open>Where a thread is with its value, and the steps it takes there, whichever function it is in.\<close>

datatype life = New | Fresh | Alloc nat | Val nat | Alive | Dying nat | Freed | Counting int | Deleting | Gone | Lost | Bad

fun kg_life :: "kg_pc \<Rightarrow> life" where
  "kg_life KG_get = Fresh"
| "kg_life KG_malloc = Fresh"
| "kg_life (KG_set a) = Alloc a"
| "kg_life (KG_return a) = Val a"
| "kg_life KG_abort = Lost"
| "kg_life KG_crash = Bad"

fun kd_life :: "kd_pc \<Rightarrow> life" where
  "kd_life (KD_print a) = Dying a"
| "kd_life KD_lock = Freed"
| "kd_life KD_load = Freed"
| "kd_life (KD_store old) = Counting old"
| "kd_life KD_delete = Deleting"
| "kd_life KD_unlock = Gone"
| "kd_life KD_return = Gone"
| "kd_life KD_abort = Lost"
| "kd_life KD_crash = Bad"

fun ke_life :: "ke_pc \<Rightarrow> life" where
  "ke_life KE_exit = Alive"
| "ke_life (KE_destroy p) = kd_life p"
| "ke_life KE_done = Gone"

fun tt_life :: "tt_pc \<Rightarrow> life" where
  "tt_life (TT_get p) = kg_life p"
| "tt_life (TT_end p) = ke_life p"
| "tt_life TT_crash = Bad"

fun life_of :: "tm_pc \<Rightarrow> life" where
  "life_of TM_key = New"
| "life_of (TM_get p) = kg_life p"
| "life_of (TM_create i) = Alive"
| "life_of (TM_end p) = ke_life p"
| "life_of TM_abort = Lost"
| "life_of TM_crash = Bad"
| "life_of (TM_thread n p) = tt_life p"

inductive lives :: "nat \<Rightarrow> tsd \<Rightarrow> life \<Rightarrow> tsd \<Rightarrow> life \<Rightarrow> bool" for n m where
  same: "lives n m x m x"
| lose: "x \<noteq> New \<Longrightarrow> x \<noteq> Bad \<Longrightarrow> lives n m x m Lost"
| alloc: "tk_heap m a = None \<Longrightarrow> lives n m Fresh (m\<lparr>tk_heap := (tk_heap m)(a \<mapsto> None)\<rparr>) (Alloc a)"
| sets: "key m \<Longrightarrow> lives n m (Alloc a) (m\<lparr>key_value := (key_value m)(n \<mapsto> a)\<rparr>) (Val a)"
| writes: "lives n m (Val a) (m\<lparr>tk_heap := (tk_heap m)(a \<mapsto> Some (n, thread_name n))\<rparr>) Alive"
| ends: "key_value m n = Some a \<Longrightarrow> lives n m Alive (m\<lparr>key_value := (key_value m)(n := None)\<rparr>) (Dying a)"
| frees: "lives n m (Dying a) (m\<lparr>exits := exits m @ [thread_name n], tk_heap := (tk_heap m)(a := None)\<rparr>) Freed"
| reads: "lives n m Freed m (Counting (key_counter m))"
| counts: "lives n m (Counting (key_counter m)) (m\<lparr>key_counter := key_counter m - 1\<rparr>) (if key_counter m - 1 \<le> 0 then Deleting else Gone)"
| deletes: "key m \<Longrightarrow> lives n m Deleting (m\<lparr>key := False, deletions := deletions m + 1\<rparr>) Gone"

text \<open>What is known of the value of thread \<open>n\<close>.\<close>

fun life_fit :: "tsd \<Rightarrow> nat \<Rightarrow> life \<Rightarrow> bool" where
  "life_fit m n New \<longleftrightarrow> False"
| "life_fit m n Fresh \<longleftrightarrow> key m \<and> key_value m n = None"
| "life_fit m n (Alloc a) \<longleftrightarrow> key m \<and> key_value m n = None \<and> tk_heap m a = Some None"
| "life_fit m n (Val a) \<longleftrightarrow> key m \<and> key_value m n = Some a \<and> tk_heap m a = Some None"
| "life_fit m n Alive \<longleftrightarrow> key m \<and> (\<exists>a. key_value m n = Some a \<and> tk_heap m a = Some (Some (n, thread_name n)))"
| "life_fit m n (Dying a) \<longleftrightarrow> tk_heap m a = Some (Some (n, thread_name n))"
| "life_fit m n (Counting old) \<longleftrightarrow> key_counter m = old"
| "life_fit m n Deleting \<longleftrightarrow> key m"
| "life_fit m n Bad \<longleftrightarrow> False"
| "life_fit m n x \<longleftrightarrow> True"

lemma key_get_lives:
  assumes "identity_key_get n p = Do c k" and "answer_ok c r m t" and "k r m = (m', p')" and "life_fit m n (kg_life p)"
  shows "lives n m (kg_life p) m' (kg_life p')"
proof (cases p)
  case KG_malloc
  then show ?thesis using assms by (cases "r = 0") (auto simp: kg_malloc_def intro: lives.intros)
next
  case (KG_set a)
  then show ?thesis using assms by (cases "r = 0") (auto simp: kg_set_def lives.sets intro: lives.intros)
qed (use assms in \<open>auto simp: kg_get_def intro: lives.intros\<close>)

lemma destructor_lives:
  assumes "identity_key_destructor p = Do c k" and "answer_ok c r m t" and "k r m = (m', p')" and "life_fit m n (kd_life p)"
  shows "lives n m (kd_life p) m' (kd_life p')"
proof (cases p)
  case KD_lock
  then show ?thesis using assms by (cases "r = 0") (auto intro: lives.intros)
next
  case KD_load
  then show ?thesis using assms by (auto intro: lives.intros)
next
  case (KD_store old)
  then have "old = key_counter m" "m' = m\<lparr>key_counter := old - 1\<rparr>" "kd_life p' = (if old - 1 \<le> 0 then Deleting else Gone)"
    using assms by (auto simp: kd_count_def)
  then show ?thesis using KD_store lives.counts [of n m] by simp
next
  case KD_delete
  then show ?thesis using assms by (cases "r = 0") (auto simp: kd_delete_def lives.deletes [simplified] intro: lives.intros)
qed (use assms in \<open>auto simp: kd_print_def intro: lives.intros\<close>)

lemma thread_end_lives:
  assumes c: "thread_end n p = Do c k" and a: "answer_ok c r m t" and k: "k r m = (m', p')" and f: "life_fit m n (ke_life p)"
  shows "lives n m (ke_life p) m' (ke_life p')"
proof (cases p)
  case (KE_destroy q)
  from c [unfolded KE_destroy thread_end.simps] show ?thesis
  proof (cases rule: call_fun_cases)
    case (inside c0 k0)
    then obtain q' where "k0 r m = (m', q')" "p' = KE_destroy q'" using k by (cases "k0 r m") auto
    then show ?thesis using destructor_lives [OF inside(1)] a f inside(2) KE_destroy by simp
  next
    case (ret v)
    then have "q = KD_return" by (cases q) auto
    then show ?thesis using k ret KE_destroy by (auto intro: lives.intros)
  qed
qed (use c k f in \<open>auto simp: ke_exit_def lives.ends intro: lives.intros\<close>)

lemma tsd_routine_lives:
  assumes c: "tsd_routine n p = Do c k" and a: "answer_ok c r m t" and k: "k r m = (m', p')" and f: "life_fit m n (tt_life p)"
  shows "lives n m (tt_life p) m' (tt_life p')"
proof (cases p)
  case (TT_get q)
  from c [unfolded TT_get tsd_routine.simps] show ?thesis
  proof (cases rule: call_fun_cases)
    case (inside c0 k0)
    then obtain q' where "k0 r m = (m', q')" "p' = TT_get q'" using k by (cases "k0 r m") auto
    then show ?thesis using key_get_lives [OF inside(1)] a f inside(2) TT_get by simp
  next
    case (ret v)
    then obtain b where "q = KG_return b" "v = int b" by (cases q) auto
    then show ?thesis using k f ret TT_get by (auto simp: write_value_def intro: lives.intros)
  qed
next
  case (TT_end q)
  with c have "thread_fun TT_end (thread_end n q) = Do c k" by simp
  then show ?thesis
  proof (cases rule: thread_fun_cases)
    case (1 c0 k0)
    then obtain q' where "k0 r m = (m', q')" "p' = TT_end q'" using k by (cases "k0 r m") auto
    then show ?thesis using thread_end_lives [OF 1(1)] a f 1(2) TT_end by simp
  qed
qed (use c in simp)

text \<open>One move of the process: a step in the life of one value, the creation of the key, or a new thread.\<close>

definition number_ok :: "nat \<Rightarrow> tm_pc \<Rightarrow> bool" where
  "number_ok n p \<longleftrightarrow> (if n = 0 then (\<nexists>i q. p = TM_thread i q) else (\<exists>q. p = TM_thread n q))"

lemma main_lives:
  assumes c: "tsd_main p = Do c k" and a: "answer_ok c r m t" and k: "k r (entry_mem c r l m) = (m', p')"
    and f: "life_fit m n (life_of p)" and n: "number_ok n p"
  shows "lives n m (life_of p) m' (life_of p') \<and> number_ok n p' \<and> (spawned c r = [] \<or> (\<exists>i. p = TM_create i \<and> r = 0))"
proof (cases p)
  case (TM_get q)
  then have "n = 0" using n by (simp add: number_ok_def split: if_splits)
  from c [unfolded TM_get tsd_main.simps] show ?thesis
  proof (cases rule: call_fun_cases)
    case (inside c0 k0)
    have e: "entry_mem c0 r i m = m" "spawned c0 r = []" for i using inside(1) by (cases q; auto)+
    then obtain q' where "k0 r m = (m', q')" "p' = TM_get q'" using k inside(2,3) by (cases "k0 r m") auto
    then show ?thesis using key_get_lives [OF inside(1)] a f inside(2) TM_get e \<open>n = 0\<close> by (simp add: number_ok_def)
  next
    case (ret v)
    then obtain b where "q = KG_return b" "v = int b" by (cases q) auto
    then show ?thesis using k f ret TM_get \<open>n = 0\<close> by (auto simp: write_value_def number_ok_def intro: lives.intros)
  qed
next
  case (TM_end q)
  then have "n = 0" using n by (simp add: number_ok_def split: if_splits)
  from TM_end c have "thread_fun TM_end (thread_end 0 q) = Do c k" by simp
  then show ?thesis
  proof (cases rule: thread_fun_cases)
    case (1 c0 k0)
    obtain m1 p1 where "k0 0 m = (m1, p1)" by fastforce
    then have e: "spawned c0 i = []" for i using thread_end_holds [OF 1(1)] by blast
    then have "entry_mem c0 r i m = m" for i by (intro entry_mem_plain)
    then obtain q' where "k0 r m = (m', q')" "p' = TM_end q'" using k 1(2,3) by (cases "k0 r m") auto
    then show ?thesis using thread_end_lives [OF 1(1)] a f 1(2) TM_end \<open>n = 0\<close> e by (simp add: number_ok_def)
  qed
next
  case (TM_thread i q)
  then have "n = i" "i \<noteq> 0" using n by (auto simp: number_ok_def split: if_splits)
  from TM_thread c have "thread_fun (TM_thread i) (tsd_routine i q) = Do c k" by simp
  then show ?thesis
  proof (cases rule: thread_fun_cases)
    case (1 c0 k0)
    obtain m1 p1 where "k0 0 m = (m1, p1)" by fastforce
    then have e: "spawned c0 i = []" for i using tsd_routine_holds [OF 1(1)] by blast
    then have "entry_mem c0 r i m = m" for i by (intro entry_mem_plain)
    then obtain q' where "k0 r m = (m', q')" "p' = TM_thread i q'" using k 1(2,3) by (cases "k0 r m") auto
    then show ?thesis using tsd_routine_lives [OF 1(1)] a f 1(2) TM_thread \<open>n = i\<close> \<open>i \<noteq> 0\<close> e by (simp add: number_ok_def)
  qed
next
  case (TM_create i)
  then show ?thesis using c k n by (auto simp: number_ok_def intro: lives.intros split: if_splits)
qed (use c f in auto)

section \<open>The lives of all values\<close>

fun owned_cell :: "tsd \<Rightarrow> nat \<Rightarrow> life \<Rightarrow> nat option" where
  "owned_cell m n (Alloc a) = Some a"
| "owned_cell m n (Val a) = Some a"
| "owned_cell m n (Dying a) = Some a"
| "owned_cell m n Alive = key_value m n"
| "owned_cell m n x = None"

fun counted_out :: "life \<Rightarrow> bool" where
  "counted_out Deleting \<longleftrightarrow> True"
| "counted_out Gone \<longleftrightarrow> True"
| "counted_out x \<longleftrightarrow> False"

definition passed :: "life \<Rightarrow> bool" where
  "passed x \<longleftrightarrow> x = Freed \<or> (\<exists>old. x = Counting old) \<or> counted_out x"

fun off_key :: "life \<Rightarrow> bool" where
  "off_key Deleting \<longleftrightarrow> True"
| "off_key Gone \<longleftrightarrow> True"
| "off_key Lost \<longleftrightarrow> True"
| "off_key x \<longleftrightarrow> False"

lemma off_key_iff: "off_key x \<longleftrightarrow> counted_out x \<or> x = Lost"
  by (cases x) auto

abbreviation number_of :: "(life \<Rightarrow> bool) \<Rightarrow> life list \<Rightarrow> int" where
  "number_of P xs \<equiv> tally (\<lambda>x. of_bool (P x)) xs"

definition values_ok :: "tsd \<Rightarrow> life list \<Rightarrow> bool" where
  "values_ok m xs \<longleftrightarrow> (\<forall>n < length xs. life_fit m n (xs ! n)) \<and> (\<forall>n \<ge> length xs. key_value m n = None)"

definition cells_ok :: "tsd \<Rightarrow> life list \<Rightarrow> bool" where
  "cells_ok m xs \<longleftrightarrow>
     (\<forall>i j a. i < length xs \<and> j < length xs \<and> owned_cell m i (xs ! i) = Some a \<and> owned_cell m j (xs ! j) = Some a \<longrightarrow> i = j) \<and>
     (\<forall>a. tk_heap m a \<noteq> None \<longrightarrow> (\<exists>n < length xs. owned_cell m n (xs ! n) = Some a) \<or> Lost \<in> set xs)"

definition counts_ok :: "tsd \<Rightarrow> life list \<Rightarrow> bool" where
  "counts_ok m xs \<longleftrightarrow> 3 - key_counter m \<le> number_of off_key xs \<and> number_of counted_out xs \<le> 3 - key_counter m \<and>
     (if key m then deletions m = 0 \<and> (key_counter m \<le> 0 \<longrightarrow> Deleting \<in> set xs \<or> Lost \<in> set xs) \<and>
        (Deleting \<in> set xs \<longrightarrow> key_counter m = 0) \<and> number_of (\<lambda>x. x = Deleting) xs \<le> 1
      else deletions m = 1 \<and> key_counter m = 0 \<and> Deleting \<notin> set xs)"

definition exits_ok :: "tsd \<Rightarrow> life list \<Rightarrow> bool" where
  "exits_ok m xs \<longleftrightarrow> distinct (exits m) \<and> (\<forall>n < length xs. passed (xs ! n) \<longrightarrow> thread_name n \<in> set (exits m)) \<and>
     set (exits m) \<subseteq> thread_name ` {n. n < length xs \<and> (passed (xs ! n) \<or> xs ! n = Lost)}"

definition tsd_ok :: "tsd \<Rightarrow> life list \<Rightarrow> bool" where
  "tsd_ok m xs \<longleftrightarrow> length xs \<le> 3 \<and> values_ok m xs \<and> cells_ok m xs \<and> counts_ok m xs \<and> exits_ok m xs"

lemma thread_name_inj: "i < 3 \<Longrightarrow> j < 3 \<Longrightarrow> thread_name i = thread_name j \<longleftrightarrow> i = j"
  by (auto simp: thread_name_def)

lemma owned_cell_used: "life_fit m n x \<Longrightarrow> owned_cell m n x = Some a \<Longrightarrow> tk_heap m a \<noteq> None"
  by (cases x) auto

lemma kept_in_update: "y \<in> set xs \<Longrightarrow> (xs ! n = y \<Longrightarrow> x = y) \<Longrightarrow> y \<in> set (xs[n := x])"
  by (metis in_set_conv_nth length_list_update nth_list_update_eq nth_list_update_neq)

text \<open>The key is needed by a thread that is not counted out yet; it is there until all three are.\<close>

lemma key_needed:
  assumes ok: "counts_ok m xs" "length xs \<le> 3" and n: "n < length xs" "\<not> counted_out (xs ! n)" "xs ! n \<noteq> Lost"
  shows "0 < key_counter m" "key m" "Deleting \<notin> set xs"
proof -
  have "number_of off_key xs + 1 = number_of off_key (xs[n := Gone])"
    using n off_key_iff [of "xs ! n"] by (simp add: tally_update)
  also have "\<dots> \<le> int (length (xs[n := Gone]))" by (rule tally_le_length) simp
  finally have "number_of off_key xs \<le> 2" using ok(2) by simp
  then show k: "0 < key_counter m" using ok(1) by (simp add: counts_ok_def)
  show "key m" using ok(1) k by (auto simp: counts_ok_def split: if_splits)
  show "Deleting \<notin> set xs" using ok(1) k by (auto simp: counts_ok_def split: if_splits)
qed

lemma deleting_alone:
  assumes ok: "counts_ok m xs" "length xs \<le> 3" and n: "n < length xs" "xs ! n = Deleting" and j: "j < length xs" "j \<noteq> n"
  shows "xs ! j \<noteq> Deleting" "counted_out (xs ! j) \<or> xs ! j = Lost"
proof -
  have k: "key m" "key_counter m = 0" using ok(1) n nth_mem by (fastforce simp: counts_ok_def split: if_splits)+
  then have "number_of (\<lambda>x. x = Deleting) xs \<le> 1" using ok(1) by (simp add: counts_ok_def)
  then have "number_of (\<lambda>x. x = Deleting) (xs[n := Gone]) \<le> 0" using n by (simp add: tally_update)
  then have "of_bool (xs[n := Gone] ! j = Deleting) = (0 :: int)" by (intro tally_le_zero) (use j in auto)
  then show "xs ! j \<noteq> Deleting" using j by simp
  have "int (length xs) \<le> number_of off_key xs" using ok k(2) by (simp add: counts_ok_def)
  then have "of_bool (off_key (xs ! j)) = (1 :: int)" by (intro tally_full_all) (use j in auto)
  then show "counted_out (xs ! j) \<or> xs ! j = Lost" by (cases "off_key (xs ! j)") (simp_all add: off_key_iff [symmetric])
qed

lemma life_fit_frame:
  assumes "life_fit m j x" and "key m' = key m" and "key_value m' j = key_value m j"
    and "\<And>old. x = Counting old \<Longrightarrow> key_counter m' = key_counter m"
    and "\<And>a. owned_cell m j x = Some a \<Longrightarrow> tk_heap m' a = tk_heap m a"
  shows "life_fit m' j x"
  using assms by (cases x) auto

text \<open>A thread that counts itself out does so alone: it has the mutex.\<close>

definition counts_alone :: "life list \<Rightarrow> nat \<Rightarrow> bool" where
  "counts_alone xs n \<longleftrightarrow> (\<forall>old old' j. xs ! n = Counting old \<longrightarrow> j < length xs \<longrightarrow> xs ! j = Counting old' \<longrightarrow> j = n)"

lemma counter_kept:
  assumes "lives n m (xs ! n) m' x" and "counts_alone xs n" and "xs ! j = Counting old" and "j < length xs" and "j \<noteq> n"
  shows "key_counter m' = key_counter m"
  using assms(1) by cases (use assms(2-5) in \<open>auto simp: counts_alone_def\<close>)

lemma values_lives:
  assumes ok: "tsd_ok m xs" and n: "n < length xs" and st: "lives n m (xs ! n) m' x" and al: "counts_alone xs n"
  shows "values_ok m' (xs[n := x])"
proof -
  have v: "\<And>j. j < length xs \<Longrightarrow> life_fit m j (xs ! j)" "\<And>j. length xs \<le> j \<Longrightarrow> key_value m j = None"
    and c: "cells_ok m xs" "counts_ok m xs" "length xs \<le> 3" using ok by (simp_all add: tsd_ok_def values_ok_def)
  have self: "life_fit m' n x" using st v(1) [OF n] key_needed [OF c(2,3) n]
    by cases (auto simp: counts_ok_def)
  have "life_fit m' j (xs ! j)" if j: "j < length xs" "j \<noteq> n" for j
  proof (cases "xs ! n = Deleting \<and> x = Gone")
    case True
    then show ?thesis using deleting_alone [OF c(2,3) n _ j] by (cases "xs ! j") auto
  next
    case False
    show ?thesis
    proof (rule life_fit_frame [OF v(1) [OF j(1)]])
      show "key m' = key m" "key_value m' j = key_value m j" using st False j(2) by (cases; auto split: if_splits)+
      show "key_counter m' = key_counter m" if "xs ! j = Counting old" for old by (rule counter_kept [OF st al that j])
      show "tk_heap m' a = tk_heap m a" if a: "owned_cell m j (xs ! j) = Some a" for a
      proof -
        have "tk_heap m a \<noteq> None" "owned_cell m n (xs ! n) \<noteq> Some a"
          using owned_cell_used [OF v(1) [OF j(1)] a] c(1) a n j unfolding cells_ok_def by blast+
        with st show ?thesis by cases auto
      qed
    qed
  qed
  moreover have "key_value m' j = None" if "length xs \<le> j" for j using st v(2) [OF that] n that by cases auto
  ultimately show ?thesis using self n by (auto simp: values_ok_def nth_update_if)
qed

lemma cells_lives:
  assumes ok: "tsd_ok m xs" and n: "n < length xs" and st: "lives n m (xs ! n) m' x"
  shows "cells_ok m' (xs[n := x])"
proof -
  have v: "\<And>j. j < length xs \<Longrightarrow> life_fit m j (xs ! j)" and c: "cells_ok m xs" using ok by (simp_all add: tsd_ok_def values_ok_def)
  have other: "owned_cell m' j (xs[n := x] ! j) = owned_cell m j (xs ! j)" if "j \<noteq> n" for j
  proof -
    have "key_value m' j = key_value m j" using st that by cases auto
    then show ?thesis using that by (cases "xs ! j") auto
  qed
  have "owned_cell m' n x = owned_cell m n (xs ! n) \<and> (\<forall>a. tk_heap m' a \<noteq> None \<longleftrightarrow> tk_heap m a \<noteq> None) \<or>
      owned_cell m' n x = None \<and> (x = Lost \<and> m' = m \<or> (\<exists>a. owned_cell m n (xs ! n) = Some a \<and> tk_heap m' = (tk_heap m)(a := None))) \<or>
      (\<exists>a. owned_cell m' n x = Some a \<and> tk_heap m a = None \<and> tk_heap m' = (tk_heap m)(a \<mapsto> None) \<and> owned_cell m n (xs ! n) = None)"
    (is "?same \<or> ?gone \<or> ?new")
    using st v [OF n] by cases auto
  then consider (same) ?same | (gone) ?gone | (new) ?new by blast
  then show ?thesis
  proof cases
    case same
    then have "owned_cell m' j (xs[n := x] ! j) = owned_cell m j (xs ! j)" for j using other n by (cases "j = n") auto
    moreover have "xs ! n = Lost \<Longrightarrow> x = Lost" using st by cases auto
    then have "Lost \<in> set xs \<Longrightarrow> Lost \<in> set (xs[n := x])" using kept_in_update by metis
    ultimately show ?thesis using c same by (auto simp: cells_ok_def)
  next
    case gone
    have inj: "i = j" if h: "i < length xs" "j < length xs" "owned_cell m' i (xs[n := x] ! i) = Some b" "owned_cell m' j (xs[n := x] ! j) = Some b" for i j b
    proof -
      have "i \<noteq> n" "j \<noteq> n" using h n gone by auto
      then show ?thesis using h other c unfolding cells_ok_def by metis
    qed
    have "(\<exists>j < length xs. owned_cell m' j (xs[n := x] ! j) = Some b) \<or> Lost \<in> set (xs[n := x])" if b: "tk_heap m' b \<noteq> None" for b
    proof (cases "x = Lost")
      case True
      then show ?thesis using n by (meson set_update_memI)
    next
      case False
      then obtain a where a: "owned_cell m n (xs ! n) = Some a" "tk_heap m' = (tk_heap m)(a := None)" using gone by blast
      then have "b \<noteq> a" "tk_heap m b \<noteq> None" using b by (auto split: if_splits)
      then have "(\<exists>j < length xs. owned_cell m j (xs ! j) = Some b) \<or> Lost \<in> set xs" using c unfolding cells_ok_def by blast
      then show ?thesis
      proof
        assume "\<exists>j < length xs. owned_cell m j (xs ! j) = Some b"
        then obtain j where "j < length xs" "owned_cell m j (xs ! j) = Some b" by blast
        moreover from this have "j \<noteq> n" using a(1) \<open>b \<noteq> a\<close> by auto
        ultimately show ?thesis using other by metis
      next
        assume "Lost \<in> set xs"
        moreover have "xs ! n \<noteq> Lost" using a(1) by auto
        ultimately show ?thesis using kept_in_update by metis
      qed
    qed
    then show ?thesis using inj unfolding cells_ok_def by (metis length_list_update)
  next
    case new
    then obtain a where a: "owned_cell m' n x = Some a" "tk_heap m a = None" "tk_heap m' = (tk_heap m)(a \<mapsto> None)"
      "owned_cell m n (xs ! n) = None" by blast
    have fresh: "owned_cell m j (xs ! j) \<noteq> Some a" if "j < length xs" for j
      using owned_cell_used [OF v [OF that]] a(2) by blast
    have inj: "i = j" if h: "i < length xs" "j < length xs" "owned_cell m' i (xs[n := x] ! i) = Some b" "owned_cell m' j (xs[n := x] ! j) = Some b" for i j b
    proof -
      have "i = n \<longleftrightarrow> b = a" "j = n \<longleftrightarrow> b = a" using h a(1) other fresh n by (metis nth_list_update_eq option.inject)+
      then show ?thesis using h other c unfolding cells_ok_def by metis
    qed
    have "(\<exists>j < length xs. owned_cell m' j (xs[n := x] ! j) = Some b) \<or> Lost \<in> set (xs[n := x])" if b: "tk_heap m' b \<noteq> None" for b
    proof (cases "b = a")
      case True
      then show ?thesis using a(1) n by auto
    next
      case False
      then have "(\<exists>j < length xs. owned_cell m j (xs ! j) = Some b) \<or> Lost \<in> set xs" using c b a(3) unfolding cells_ok_def by (metis fun_upd_apply)
      then show ?thesis
      proof
        assume "\<exists>j < length xs. owned_cell m j (xs ! j) = Some b"
        then obtain j where "j < length xs" "owned_cell m j (xs ! j) = Some b" by blast
        moreover from this have "j \<noteq> n" using a(4) by auto
        ultimately show ?thesis using other by metis
      next
        assume "Lost \<in> set xs"
        moreover have "xs ! n = Lost \<Longrightarrow> x = Lost" using st by cases auto
        ultimately show ?thesis using kept_in_update by metis
      qed
    qed
    then show ?thesis using inj unfolding cells_ok_def by (metis length_list_update)
  qed
qed

lemma set_update_other: "y \<in> set (xs[n := x]) \<Longrightarrow> y \<noteq> x \<Longrightarrow> y \<in> set xs"
  using set_update_subset_insert [of xs n x] by blast

lemma counts_lives:
  assumes ok: "tsd_ok m xs" and n: "n < length xs" and st: "lives n m (xs ! n) m' x"
  shows "counts_ok m' (xs[n := x])"
proof -
  have c: "counts_ok m xs" "length xs \<le> 3" using ok by (simp_all add: tsd_ok_def)
  have t: "\<And>P. number_of P (xs[n := x]) = number_of P xs - of_bool (P (xs ! n)) + of_bool (P x)"
    using n by (simp add: tally_update)
  have quiet: "counts_ok m' (xs[n := x])"
    if q: "xs ! n \<notin> {Deleting, Gone, Lost}" "x \<notin> {Deleting, Gone, Lost}" "key m' = key m" "key_counter m' = key_counter m" "deletions m' = deletions m"
  proof -
    have off: "\<not> counted_out (xs ! n)" "\<not> off_key (xs ! n)" using q(1) by (cases "xs ! n"; simp)+
    have off': "\<not> counted_out x" "\<not> off_key x" using q(2) by (cases x; simp)+
    have "number_of P (xs[n := x]) = number_of P xs"
      if "P \<in> {off_key, counted_out, \<lambda>x. x = Deleting}" for P
      using that t [of P] q(1,2) off off' by auto
    moreover have "y \<in> set (xs[n := x]) \<longleftrightarrow> y \<in> set xs" if "y \<in> {Deleting, Lost}" for y
      using that q(1,2) kept_in_update [of y xs n x] set_update_other [of y xs n x] by auto
    ultimately show ?thesis using c(1) q(3-5) by (simp add: counts_ok_def)
  qed
  from st show ?thesis
  proof cases
    case same
    then show ?thesis using c(1) by simp
  next
    case lose
    have "Lost \<in> set (xs[n := x])" using lose n by (simp add: set_update_memI)
    moreover have "Deleting \<in> set (xs[n := x]) \<Longrightarrow> Deleting \<in> set xs" using lose set_update_other [of Deleting xs n x] by simp
    moreover have "number_of off_key xs \<le> number_of off_key (xs[n := x])" "number_of counted_out (xs[n := x]) \<le> number_of counted_out xs"
      "number_of (\<lambda>x. x = Deleting) (xs[n := x]) \<le> number_of (\<lambda>x. x = Deleting) xs" using lose t [of off_key] t [of counted_out] t [of "\<lambda>x. x = Deleting"] by simp_all
    ultimately show ?thesis using c(1) lose by (auto simp: counts_ok_def)
  next
    case counts
    have k: "0 < key_counter m" "key m" "Deleting \<notin> set xs" using key_needed [OF c n] counts by auto
    have "number_of (\<lambda>x. x = Deleting) xs = number_of (\<lambda>_. False) xs" by (rule tally_cong) (use k(3) in auto)
    then have d: "number_of (\<lambda>x. x = Deleting) xs = 0" by simp
    have "key_counter m = 1 \<Longrightarrow> Deleting \<in> set (xs[n := x])" using counts n by (simp add: set_update_memI)
    moreover have "key_counter m \<noteq> 1 \<Longrightarrow> Deleting \<notin> set (xs[n := x])" using counts k set_update_other [of Deleting xs n x] by (auto split: if_splits)
    moreover have "number_of off_key (xs[n := x]) = number_of off_key xs + 1" "number_of counted_out (xs[n := x]) = number_of counted_out xs + 1"
      "number_of (\<lambda>x. x = Deleting) (xs[n := x]) \<le> 1" using counts d t [of off_key] t [of counted_out] t [of "\<lambda>x. x = Deleting"] by (auto split: if_splits)
    ultimately show ?thesis using c(1) counts k by (cases "key_counter m = 1") (auto simp: counts_ok_def)
  next
    case deletes
    have "Deleting \<notin> set (xs[n := x])"
    proof
      assume "Deleting \<in> set (xs[n := x])"
      then obtain j where j: "j < length xs" "xs[n := x] ! j = Deleting" by (auto simp: in_set_conv_nth)
      then have "j \<noteq> n" using deletes n by auto
      then show False using deleting_alone(1) [OF c n _ j(1)] j(2) deletes by simp
    qed
    moreover have "Deleting \<in> set xs" using deletes n nth_mem by metis
    moreover have "number_of off_key (xs[n := x]) = number_of off_key xs" "number_of counted_out (xs[n := x]) = number_of counted_out xs"
      using deletes t [of off_key] t [of counted_out] t [of "\<lambda>x. x = Deleting"] by simp_all
    ultimately show ?thesis using c(1) deletes by (auto simp: counts_ok_def)
  qed (rule quiet; simp)+
qed

lemma exits_lives:
  assumes ok: "tsd_ok m xs" and n: "n < length xs" and st: "lives n m (xs ! n) m' x"
  shows "exits_ok m' (xs[n := x])"
proof -
  have e: "exits_ok m xs" "length xs \<le> 3" using ok by (simp_all add: tsd_ok_def)
  have quiet: "exits_ok m' (xs[n := x])"
    if q: "exits m' = exits m" "passed x \<Longrightarrow> passed (xs ! n)" "passed (xs ! n) \<or> xs ! n = Lost \<Longrightarrow> passed x \<or> x = Lost"
  proof -
    have bwd: "passed (xs ! j)" if "passed (xs[n := x] ! j)" for j using that q(2) n by (cases "n = j") auto
    have fwd: "passed (xs[n := x] ! j) \<or> xs[n := x] ! j = Lost" if "passed (xs ! j) \<or> xs ! j = Lost" for j
      using that q(3) n by (cases "n = j") auto
    have sub: "{j. j < length xs \<and> (passed (xs ! j) \<or> xs ! j = Lost)} \<subseteq>
        {j. j < length (xs[n := x]) \<and> (passed (xs[n := x] ! j) \<or> xs[n := x] ! j = Lost)}" using fwd by auto
    have "set (exits m') \<subseteq> thread_name ` {j. j < length xs \<and> (passed (xs ! j) \<or> xs ! j = Lost)}"
      using e(1) q(1) by (simp add: exits_ok_def)
    also note image_mono [OF sub]
    finally have "set (exits m') \<subseteq> thread_name ` {j. j < length (xs[n := x]) \<and> (passed (xs[n := x] ! j) \<or> xs[n := x] ! j = Lost)}" .
    then show ?thesis using e(1) q(1) bwd by (simp add: exits_ok_def)
  qed
  from st show ?thesis
  proof cases
    case (frees a)
    have new: "thread_name n \<notin> set (exits m)"
    proof
      assume "thread_name n \<in> set (exits m)"
      then obtain j where "j < length xs" "passed (xs ! j) \<or> xs ! j = Lost" "thread_name n = thread_name j"
        using e(1) by (auto simp: exits_ok_def)
      moreover from this have "j = n" using thread_name_inj [of n j] e(2) n by simp
      ultimately show False using frees by (simp add: passed_def)
    qed
    have p: "passed (xs[n := x] ! j) \<longleftrightarrow> j = n \<or> passed (xs ! j)" for j using frees n by (auto simp: nth_update_if passed_def)
    have l: "xs[n := x] ! j = Lost \<longleftrightarrow> j \<noteq> n \<and> xs ! j = Lost" for j using frees n by (auto simp: nth_update_if)
    have "exits m' = exits m @ [thread_name n]" using frees by simp
    then show ?thesis using e(1) new n p l frees unfolding exits_ok_def by (auto simp: image_iff subset_iff)
  qed (rule quiet; use passed_def in \<open>simp split: if_splits\<close>)+
qed

lemma lives_ok: "tsd_ok m xs \<Longrightarrow> n < length xs \<Longrightarrow> lives n m (xs ! n) m' x \<Longrightarrow> counts_alone xs n \<Longrightarrow> tsd_ok m' (xs[n := x])"
  using values_lives cells_lives counts_lives exits_lives tsd_ok_def by (metis length_list_update)

lemma new_life_ok:
  assumes ok: "tsd_ok m xs" and l: "length xs < 3" "i < length xs" "xs ! i = Alive"
  shows "tsd_ok m (xs @ [Fresh])"
proof -
  have k: "key m" using key_needed(2) [of m xs i] ok l by (auto simp: tsd_ok_def)
  have "values_ok m (xs @ [Fresh])" using ok k by (auto simp: tsd_ok_def values_ok_def nth_append less_Suc_eq)
  moreover have "cells_ok m (xs @ [Fresh])" using ok unfolding tsd_ok_def cells_ok_def
    by (auto simp: nth_append less_Suc_eq split: if_splits)
  moreover have "counts_ok m (xs @ [Fresh])" using ok by (simp add: tsd_ok_def counts_ok_def)
  moreover have "exits_ok m (xs @ [Fresh])"
  proof -
    have "\<not> passed Fresh" by (simp add: passed_def)
    then show ?thesis using ok unfolding tsd_ok_def exits_ok_def by (auto simp: nth_append less_Suc_eq image_iff subset_iff)
  qed
  ultimately show ?thesis using l(1) by (simp add: tsd_ok_def)
qed

section \<open>The process\<close>

fun tm_shape :: "nat \<Rightarrow> tm_pc \<Rightarrow> bool" where
  "tm_shape l (TM_get p) \<longleftrightarrow> l = 1"
| "tm_shape l (TM_create i) \<longleftrightarrow> l = i \<and> 1 \<le> i \<and> i \<le> 2"
| "tm_shape l (TM_end p) \<longleftrightarrow> l = 3"
| "tm_shape l TM_key \<longleftrightarrow> False"
| "tm_shape l (TM_thread n p) \<longleftrightarrow> False"
| "tm_shape l p \<longleftrightarrow> True"

definition tsd_inv :: "tsd \<Rightarrow> tm_pc list \<Rightarrow> bool" where
  "tsd_inv m ps \<longleftrightarrow> ps \<in> {[TM_key], [TM_abort]} \<and> m = tsd_mem \<or>
     ps \<noteq> [] \<and> tsd_ok m (map life_of ps) \<and> tm_shape (length ps) (ps ! 0) \<and> (\<forall>n < length ps. number_ok n (ps ! n))"

lemma tm_shape_move:
  assumes c: "tsd_main p = Do c k" and k: "k r m = (m', p')" and s: "tm_shape l p" and r: "\<nexists>i. p = TM_create i \<and> r = 0"
  shows "tm_shape l p'"
proof (cases p)
  case (TM_get q)
  from c [unfolded TM_get tsd_main.simps] show ?thesis
    by (cases rule: call_fun_cases) (use k s TM_get in \<open>auto split: if_splits prod.splits\<close>)
next
  case (TM_end q)
  with c have "thread_fun TM_end (thread_end 0 q) = Do c k" by simp
  then show ?thesis by (cases rule: thread_fun_cases) (use k s TM_end in \<open>auto split: prod.splits\<close>)
qed (use assms in auto)

lemma counting_holds:
  assumes "life_of p = Counting old"
  shows "Identity_key_mutex \<in> tm_holds p"
proof -
  have g: "kg_life q \<noteq> Counting old" for q by (cases q) auto
  have d: "kd_life q = Counting old \<Longrightarrow> Identity_key_mutex \<in> kd_holds q" for q by (cases q) auto
  have e: "ke_life q = Counting old \<Longrightarrow> Identity_key_mutex \<in> ke_holds q" for q using d by (cases q) auto
  have t: "tt_life q = Counting old \<Longrightarrow> Identity_key_mutex \<in> tm_holds (TM_thread n q)" for n q using g e by (cases q) auto
  show ?thesis using assms g e t by (cases p) auto
qed

lemma tsd_tracked: "tracked tm_holds tsd_system"
  by (simp add: tracked_def tsd_system_def)

lemma tsd_awake: "list_all (awake allow tsd_main n) (threads tsd_system)"
  by (simp add: tsd_system_def)

lemma tsd_not_waiting: "\<not> waiting tsd_main x p"
proof
  assume "waiting tsd_main x p"
  then obtain d l k where "tsd_main p = Do (wait_call d x l) k" by (auto simp: waiting_def)
  then have "tame (wait_call d x l :: (tk_mutex, unit, tsd, tm_pc) call) (tm_holds p)" using tsd_main_holds by (metis surj_pair)
  then show False by (auto simp: wait_call_def split: option.splits)
qed

lemma tsd_inv_reach:
  assumes "reach allow tsd_main tsd_system s"
  shows "tsd_inv (mem s) (pcs s)"
  using assms tsd_tracked tsd_awake
proof (induction rule: tk.tracked_invariant)
  case start
  show ?case by (simp add: tsd_inv_def tsd_system_def)
next
  case (tick n m ps)
  then show ?case .
next
  case (move n m ps t c k r m' p')
  show ?case
  proof (cases "ps \<in> {[TM_key], [TM_abort]} \<and> m = tsd_mem")
    case True
    then have ps: "ps = [TM_key]" "t = 0" "m = tsd_mem" using move(2,3) by auto
    show ?thesis
    proof (cases "r = 0")
      case False
      then show ?thesis using ps move(3,6) by (auto simp: tsd_inv_def)
    next
      case True
      then have m': "m' = tsd_mem\<lparr>key := True, key_counter := 3\<rparr>" "p' = TM_get KG_get" "spawned c r = []" using ps move(3,6) by auto
      have "tsd_ok m' [Fresh]"
        by (simp add: m'(1) tsd_mem_def tsd_ok_def values_ok_def cells_ok_def counts_ok_def exits_ok_def passed_def)
      then show ?thesis using m'(2,3) ps by (simp add: tsd_inv_def number_ok_def)
    qed
  next
    case False
    then have inv: "ps \<noteq> []" "tsd_ok m (map life_of ps)" "tm_shape (length ps) (ps ! 0)" "\<And>n. n < length ps \<Longrightarrow> number_ok n (ps ! n)"
      using move(1) unfolding tsd_inv_def by blast+
    have fit: "life_fit m t (life_of (ps ! t))" using inv(2) move(2) by (simp add: tsd_ok_def values_ok_def)
    note l = main_lives [OF move(3,5,6) fit inv(4) [OF move(2)]]
    have "counts_alone (map life_of ps) t"
      unfolding counts_alone_def
    proof (intro allI impI)
      fix old old' j assume h: "map life_of ps ! t = Counting old" "j < length (map life_of ps)" "map life_of ps ! j = Counting old'"
      then have "Identity_key_mutex \<in> tm_holds (ps ! t)" "Identity_key_mutex \<in> tm_holds (ps ! j)" "j < length ps"
        using counting_holds move(2) by simp_all
      then show "j = t" using aloneD [OF move(7), of Identity_key_mutex j] tsd_not_waiting by blast
    qed
    then have ok: "tsd_ok m' ((map life_of ps)[t := life_of p'])" using lives_ok [OF inv(2)] l move(2) by simp
    have num: "number_ok n (ps[t := p'] ! n)" if "n < length ps" for n using inv(4) [OF that] l that by (cases "n = t") auto
    show ?thesis
    proof (cases "\<exists>i. ps ! t = TM_create i \<and> r = 0")
      case True
      then obtain i where i: "ps ! t = TM_create i" "r = 0" by blast
      then have t: "t = 0" using inv(4) [OF move(2)] by (auto simp: number_ok_def split: if_splits)
      then have len: "length ps = i" "1 \<le> i" "i \<le> 2" using inv(3) i by simp_all
      have m': "m' = m" "spawned c r = [TM_thread i (TT_get KG_get)]" "p' = (if i < 2 then TM_create (i + 1) else TM_end KE_exit)"
        using move(3,6) i by auto
      have "life_of p' = Alive" using m'(3) by simp
      then have "tsd_ok m ((map life_of ps)[t := life_of p'] @ [Fresh])"
        using new_life_ok [of m' "(map life_of ps)[t := life_of p']" 0] ok m'(1) len t inv(1) by simp
      moreover have "tm_shape (Suc (length ps)) p'" using m'(3) len by auto
      moreover have "number_ok n ((ps[t := p'] @ spawned c r) ! n)" if "n < length ps + 1" for n
        using that num len m'(2) by (auto simp: nth_append less_Suc_eq number_ok_def)
      ultimately show ?thesis using m' t inv(1) by (simp add: tsd_inv_def map_update nth_append)
    next
      case no: False
      then have none: "spawned c r = []" using l by blast
      have "tm_shape (length ps) (ps[t := p'] ! 0)"
      proof (cases "t = 0")
        case True
        have "entry_mem c r (length ps) m = m" using none by (cases c) (auto split: if_splits)
        then show ?thesis using tm_shape_move [OF move(3) _ _ no] move(6) inv(3) True inv(1) by simp
      qed (use inv(3) in simp)
      then show ?thesis using ok num none inv(1) by (simp add: tsd_inv_def map_update)
    qed
  qed
qed

text \<open>C36. When the three threads have ended, every value has been freed, each destructor has reported its own thread once, and
  the key was deleted exactly once, by the last of them. Every status the calls may return, the threads ending in any order.\<close>
theorem tsd_all_freed:
  assumes "reach any_status tsd_main tsd_system s" and "pcs s = [TM_end KE_done, TM_thread 1 (TT_end KE_done), TM_thread 2 (TT_end KE_done)]"
  shows "(\<forall>a. tk_heap (mem s) a = None) \<and> \<not> key (mem s) \<and> deletions (mem s) = 1 \<and>
    mset (exits (mem s)) = {#''main thread'', ''thread 1'', ''thread 2''#}"
proof -
  have ok: "tsd_ok (mem s) [Gone, Gone, Gone]" using tsd_inv_reach [OF assms(1)] by (simp add: tsd_inv_def assms(2))
  have gone: "[Gone, Gone, Gone] ! n = Gone" if "n < 3" for n using that by (auto simp: less_Suc_eq numeral_3_eq_3)
  have "tk_heap (mem s) a = None" for a
  proof -
    have "tk_heap (mem s) a \<noteq> None \<longrightarrow> (\<exists>n < 3. owned_cell (mem s) n ([Gone, Gone, Gone] ! n) = Some a)"
      using ok by (simp add: tsd_ok_def cells_ok_def numeral_3_eq_3)
    then show ?thesis using gone by auto
  qed
  moreover have "\<not> key (mem s) \<and> deletions (mem s) = 1" using ok by (auto simp: tsd_ok_def counts_ok_def split: if_splits)
  moreover have "mset (exits (mem s)) = mset (map thread_name [0, 1, 2])"
  proof (rule set_eq_iff_mset_eq_distinct [THEN iffD1])
    have e: "set (exits (mem s)) \<subseteq> thread_name ` {n. n < 3}" "\<forall>n < 3. thread_name n \<in> set (exits (mem s))"
      using ok gone by (auto simp: tsd_ok_def exits_ok_def passed_def numeral_3_eq_3)
    moreover have "{n. n < 3} = {0, 1, 2 :: nat}" by auto
    ultimately show "set (exits (mem s)) = set (map thread_name [0, 1, 2])" by auto
    show "distinct (exits (mem s))" using ok by (simp add: tsd_ok_def exits_ok_def)
    show "distinct (map thread_name [0, 1, 2])" by (simp add: thread_name_def)
  qed
  ultimately show ?thesis by (simp add: thread_name_def)
qed

theorem tsd_all_freed_witness:
  "case run any_status tsd_main ([Exec 0 0, Exec 0 0, Exec 0 7, Exec 0 0, Exec 0 0, Exec 0 0, Exec 0 0] @
      concat (map (\<lambda>(n, a). [Exec n 0, Exec n a, Exec n 0, Exec n 0]) [(2, 8), (1, 9)]) @
      replicate 7 (Exec 2 0) @ replicate 7 (Exec 0 0) @ replicate 8 (Exec 1 0)) tsd_system of
     Some s \<Rightarrow> pcs s = [TM_end KE_done, TM_thread 1 (TT_end KE_done), TM_thread 2 (TT_end KE_done)] \<and>
       exits (mem s) = [''thread 2'', ''main thread'', ''thread 1''] \<and> deletions (mem s) = 1 \<and> \<not> key (mem s)
   | None \<Rightarrow> False"
  (is "case ?r of Some s \<Rightarrow> ?P s | None \<Rightarrow> False")
proof -
  have "map_option (\<lambda>s. (pcs s, exits (mem s))) ?r = Some ([TM_end KE_done, TM_thread 1 (TT_end KE_done), TM_thread 2 (TT_end KE_done)],
      [''thread 2'', ''main thread'', ''thread 1''])" by code_simp
  then obtain s where s: "?r = Some s" "pcs s = [TM_end KE_done, TM_thread 1 (TT_end KE_done), TM_thread 2 (TT_end KE_done)]"
    "exits (mem s) = [''thread 2'', ''main thread'', ''thread 1'']" by auto
  show ?thesis using tsd_all_freed [OF reach_run [OF s(1)] s(2)] s by simp
qed

lemma call_halts [simp]:
  "call_fun get put w st ret A = Halt x \<longleftrightarrow> A = Halt x" "thread_fun v A = Halt x \<longleftrightarrow> A = Halt x"
  by (cases A; simp)+

lemma undefined_is_bad: "tsd_main p = Halt Undefined \<Longrightarrow> life_of p = Bad"
proof -
  have d: "identity_key_destructor q = Halt Undefined \<Longrightarrow> kd_life q = Bad" for q by (cases q) auto
  have g: "identity_key_get n q = Halt Undefined \<Longrightarrow> kg_life q = Bad" for n q by (cases q) auto
  have e: "thread_end n q = Halt Undefined \<Longrightarrow> ke_life q = Bad" for n q using d by (cases q) auto
  have r: "tsd_routine n q = Halt Undefined \<Longrightarrow> tt_life q = Bad" for n q using e g by (cases q) auto
  show "tsd_main p = Halt Undefined \<Longrightarrow> life_of p = Bad" using e g r by (cases p) auto
qed

text \<open>The key is used only while it exists, no value is used after it was freed or before it was written, and the mutex is
  not misused: no run is undefined. Every status the calls may return, in any order of the threads.\<close>
theorem tsd_no_undefined:
  assumes "reach any_status tsd_main tsd_system s"
  shows "ended s \<noteq> Some Undefined"
proof (rule tk.no_undefined_objects [OF assms])
  have tm: "tame c (tm_holds p)" if "tsd_main p = Do c k" for p c k using tsd_main_holds [OF that] by (metis surj_pair)
  show "tracked tm_holds tsd_system" by (rule tsd_tracked)
  show "list_all (awake any_status tsd_main (now tsd_system)) (threads tsd_system)" unfolding tsd_system_def by (rule awake_boot)
  show "mutex_ok c (tm_holds p)" if "tsd_main p = Do c k" for p c k using tm [OF that] by (rule tameD)
  show "cond_ok c (cnd s1) \<and> (\<forall>d u x l k. c = CDestroy d \<longrightarrow> u < length (threads s1) \<longrightarrow> u \<noteq> t \<longrightarrow>
      tsd_main (pcs s1 ! u) \<noteq> Do (wait_call d x l) k)" if "tsd_main (pcs s1 ! t) = Do c k" for s1 t c k
    using tameD(3,4) [OF tm [OF that]] by blast
  show "tsd_main p \<noteq> Halt Undefined" if r: "reach any_status tsd_main tsd_system s1" and p: "p \<in> set (pcs s1)" for s1 p
  proof
    assume "tsd_main p = Halt Undefined"
    then have bad: "life_of p = Bad" by (rule undefined_is_bad)
    obtain n where n: "n < length (pcs s1)" "pcs s1 ! n = p" using p by (metis in_set_conv_nth)
    have "pcs s1 \<notin> {[TM_key], [TM_abort]}" using p bad by auto
    then have "tsd_ok (mem s1) (map life_of (pcs s1))" using tsd_inv_reach [OF r] by (auto simp: tsd_inv_def)
    then have "life_fit (mem s1) n (life_of p)" using n by (auto simp: tsd_ok_def values_ok_def)
    then show False using bad by simp
  qed
qed (simp_all add: tsd_system_def)

theorem tsd_no_undefined_witness:
  "case run any_status tsd_main [Exec 0 0, Exec 0 0, Exec 0 7, Exec 0 0, Exec 0 0] tsd_system of
     Some s \<Rightarrow> tk_heap (mem s) 7 \<noteq> None \<and> ended s \<noteq> Some Undefined | None \<Rightarrow> False"
  (is "case ?r of Some s \<Rightarrow> ?P s | None \<Rightarrow> False")
proof -
  have "map_option (\<lambda>s. tk_heap (mem s) 7 = None) ?r = Some False" by code_simp
  then obtain s where s: "?r = Some s" "tk_heap (mem s) 7 \<noteq> None" by auto
  show ?thesis using tsd_no_undefined [OF reach_run [OF s(1)]] s by simp
qed

end
