(* ===== verification/CancelCleanup.thy ===== *)
theory CancelCleanup
  imports Programs
begin

text \<open>
  \<^verbatim>\<open>chap5-advance/cancel_cleanup.cxx\<close>: five threads wait for ever for a condition; \<^verbatim>\<open>main\<close> cancels them one by one, their cleanup handler
  counts them down and gives the mutex back. A canceled wait has taken the mutex again when the handler runs. A
  cancellation may reach a waiting thread at any time, asked for or not.
\<close>

section \<open>The program\<close>

definition CANCEL_THREADS :: nat where "CANCEL_THREADS = 5"

datatype ca_mutex = Control_mutex
datatype ca_cond = Control_cv

text \<open>What is printed: by the handler, and by \<^verbatim>\<open>main\<close>.\<close>

datatype ca_line = Cleanup_count int | Canceled_thread nat | Not_canceled_thread nat

text \<open>\<open>ca_result n\<close> is what thread \<open>n\<close> returned.\<close>

record control =
  ca_counter :: int
  busy :: int
  ca_ids :: "tid list"
  ca_result :: "nat \<Rightarrow> int option"
  ca_said :: "ca_line list"

text \<open>\<open>CH_unlock\<close> carries what the thread returns after the handler.\<close>

datatype ca_pc = CA_lock | CA_wait | CA_unlock int | CA_return int | CA_abort

definition cleanup_handler :: "int \<Rightarrow> control \<Rightarrow> control \<times> ca_pc" where
  "cleanup_handler v m =
     (m\<lparr>ca_counter := ca_counter m - 1, ca_said := ca_said m @ [Cleanup_count (ca_counter m - 1)]\<rparr>, CA_unlock v)"

definition ca_while :: "control \<Rightarrow> control \<times> ca_pc" where
  "ca_while m = (if busy m \<noteq> 0 then (m, CA_wait) else cleanup_handler 0 m)"

fun cancel_routine :: "nat \<Rightarrow> ca_pc \<Rightarrow> (ca_mutex, ca_cond, control, ca_pc) act" where
  "cancel_routine n CA_lock =
     Do (Lock Control_mutex) (\<lambda>status m.
       if status \<noteq> 0 then (m, CA_abort) else ca_while (m\<lparr>ca_counter := ca_counter m + 1\<rparr>))"
| "cancel_routine n CA_wait =
     Do (Wait Control_cv Control_mutex) (\<lambda>status m.
       if status = CANCELED then cleanup_handler CANCELED m else if status \<noteq> 0 then (m, CA_abort) else ca_while m)"
| "cancel_routine n (CA_unlock v) =
     Do (Unlock Control_mutex) (\<lambda>status m. if status \<noteq> 0 then (m, CA_abort) else (m\<lparr>ca_result := (ca_result m)(n \<mapsto> v)\<rparr>, CA_return v))"
| "cancel_routine n (CA_return v) = Return v"
| "cancel_routine n CA_abort = Halt Aborted"

datatype cu_pc = CU_create nat | CU_cancel nat tid | CU_join nat tid | CU_return | CU_abort | CU_thread nat ca_pc

definition cu_for :: "nat \<Rightarrow> control \<Rightarrow> control \<times> cu_pc" where
  "cu_for i m = (m, if i < CANCEL_THREADS then CU_cancel i (ca_ids m ! i) else CU_return)"

definition cu_report :: "nat \<Rightarrow> control \<Rightarrow> control" where
  "cu_report i m = m\<lparr>ca_said := ca_said m @ [if ca_result m i = Some CANCELED then Canceled_thread i else Not_canceled_thread i]\<rparr>"

text \<open>\<^verbatim>\<open>pthread_cancel\<close> only asks for the cancellation.\<close>

fun cleanup_main :: "cu_pc \<Rightarrow> (ca_mutex, ca_cond, control, cu_pc) act" where
  "cleanup_main (CU_create i) =
     Do (Create (\<lambda>u m. m\<lparr>ca_ids := ca_ids m @ [u]\<rparr>) (CU_thread i CA_lock)) (\<lambda>status m.
       if status \<noteq> 0 then (m, CU_abort) else if i + 1 < CANCEL_THREADS then (m, CU_create (i + 1)) else cu_for 0 m)"
| "cleanup_main (CU_cancel i u) = Do (Env (\<lambda>r _. 0 \<le> r)) (checked CU_abort (CU_join i u))"
| "cleanup_main (CU_join i u) = Do (Join u) (\<lambda>status m. if status \<noteq> 0 then (m, CU_abort) else cu_for (i + 1) (cu_report i m))"
| "cleanup_main CU_return = Halt (Exited 0)"
| "cleanup_main CU_abort = Halt Aborted"
| "cleanup_main (CU_thread n p) = thread_fun (CU_thread n) (cancel_routine n p)"

definition cleanup_system :: "(ca_mutex, ca_cond, control, cu_pc) sys" where
  "cleanup_system = boot \<lparr>ca_counter = 0, busy = 1, ca_ids = [], ca_result = (\<lambda>_. None), ca_said = []\<rparr> [CU_create 0]"

interpretation ca: numbered_threads cleanup_main CU_thread cancel_routine
proof unfold_locales
  show "cancel_routine n q = Do c k \<Longrightarrow> spawned c r = []" for n q c k r by (cases q) auto
qed simp

fun ca_holds :: "cu_pc \<Rightarrow> ca_mutex set" where
  "ca_holds (CU_thread n CA_wait) = {Control_mutex}"
| "ca_holds (CU_thread n (CA_unlock v)) = {Control_mutex}"
| "ca_holds p = {}"

interpretation ca: lock_tracking allow cleanup_main ca_holds for allow :: "cu_pc policy"
proof unfold_locales
  fix p c k r m' m'' p'
  assume c: "cleanup_main p = Do c k" and k: "k r m' = (m'', p')"
  show "ca_holds p' \<subseteq> held_after c r (ca_holds p)"
  proof (cases p)
    case (CU_thread n q)
    then show ?thesis using c k by (cases q) (auto simp: ca_while_def cleanup_handler_def split: if_splits)
  qed (use c k in \<open>auto simp: cu_for_def split: if_splits\<close>)
next
  fix p q and st :: "nat \<Rightarrow> control \<Rightarrow> control" and k :: "int \<Rightarrow> control \<Rightarrow> control \<times> cu_pc"
  assume c: "cleanup_main p = Do (Create st q) k"
  then show "ca_holds q = {}"
  proof (cases p)
    case (CU_thread n x)
    then show ?thesis using c by (cases x) auto
  qed auto
qed

section \<open>The counter\<close>

fun inside :: "ca_pc \<Rightarrow> int" where
  "inside CA_wait = 1"
| "inside p = 0"

fun ca_fit :: "nat \<Rightarrow> control \<Rightarrow> ca_pc \<Rightarrow> bool" where
  "ca_fit n m (CA_unlock v) \<longleftrightarrow> v = CANCELED"
| "ca_fit n m (CA_return v) \<longleftrightarrow> ca_result m n = Some CANCELED"
| "ca_fit n m p \<longleftrightarrow> True"

definition main_lines :: "control \<Rightarrow> ca_line list" where
  "main_lines m = filter (\<lambda>x. \<forall>c. x \<noteq> Cleanup_count c) (ca_said m)"

fun cu_fit :: "ca_pc list \<Rightarrow> control \<Rightarrow> cu_pc \<Rightarrow> bool" where
  "cu_fit qs m (CU_create i) \<longleftrightarrow> length qs = i \<and> i < CANCEL_THREADS \<and> main_lines m = []"
| "cu_fit qs m (CU_cancel i u) \<longleftrightarrow> length qs = CANCEL_THREADS \<and> i < CANCEL_THREADS \<and> u = i + 1 \<and> main_lines m = map Canceled_thread [0..<i] \<and>
     (\<forall>j < i. \<exists>v. qs ! j = CA_return v)"
| "cu_fit qs m (CU_join i u) \<longleftrightarrow> length qs = CANCEL_THREADS \<and> i < CANCEL_THREADS \<and> u = i + 1 \<and> main_lines m = map Canceled_thread [0..<i] \<and>
     (\<forall>j < i. \<exists>v. qs ! j = CA_return v)"
| "cu_fit qs m CU_return \<longleftrightarrow> length qs = CANCEL_THREADS \<and> main_lines m = map Canceled_thread [0..<CANCEL_THREADS] \<and>
     (\<forall>j < CANCEL_THREADS. \<exists>v. qs ! j = CA_return v)"
| "cu_fit qs m CU_abort \<longleftrightarrow> True"
| "cu_fit qs m (CU_thread n p) \<longleftrightarrow> False"

definition ca_at :: "control \<Rightarrow> cu_pc \<Rightarrow> ca_pc list \<Rightarrow> bool" where
  "ca_at m p qs \<longleftrightarrow> busy m = 1 \<and> (CA_abort \<notin> set qs \<longrightarrow> ca_counter m = tally inside qs) \<and> cu_fit qs m p \<and>
     ca_ids m = map Suc [0..<length qs] \<and> (\<forall>n < length qs. ca_fit n m (qs ! n))"

definition ca_inv :: "control \<Rightarrow> cu_pc list \<Rightarrow> bool" where
  "ca_inv m ps \<longleftrightarrow> (\<exists>p qs. ps = [p] @ numbered CU_thread qs \<and> ca_at m p qs)"

lemma cancel_move:
  assumes at: "ca_at m p qs" and i: "i < length qs" and c: "cancel_routine i (qs ! i) = Do c k" and k: "k r m = (m', q)"
  shows "ca_at m' p (qs[i := q])"
proof -
  have b: "busy m = 1" using at by (simp add: ca_at_def)
  have fi: "ca_fit i m (qs ! i)" using at i by (simp add: ca_at_def)
  have ret: "\<forall>v. qs ! i \<noteq> CA_return v" using c by auto
  have loc: "busy m' = 1 \<and> ca_ids m' = ca_ids m \<and> main_lines m' = main_lines m \<and> (\<forall>n. n \<noteq> i \<longrightarrow> ca_result m' n = ca_result m n) \<and>
      ca_fit i m' q \<and> (q \<noteq> CA_abort \<longrightarrow> ca_counter m' - ca_counter m = inside q - inside (qs ! i)) \<and> (qs ! i = CA_abort \<longrightarrow> False)"
    using c k b fi by (cases "qs ! i") (auto simp: ca_while_def cleanup_handler_def main_lines_def split: if_splits)
  have "ca_fit n m' (qs[i := q] ! n)" if n: "n < length qs" for n
  proof (cases "n = i")
    case False
    then have "ca_result m' n = ca_result m n" using loc by blast
    moreover have "ca_fit n m (qs ! n)" using at n by (simp add: ca_at_def)
    ultimately have "ca_fit n m' (qs ! n)" by (cases "qs ! n") auto
    then show ?thesis using False by simp
  qed (use loc i in simp)
  moreover have "cu_fit (qs[i := q]) m' p"
  proof -
    have "(\<exists>v. qs ! j = CA_return v) \<Longrightarrow> \<exists>v. qs[i := q] ! j = CA_return v" for j using ret by (cases "j = i") auto
    then show ?thesis using at loc by (cases p) (auto simp: ca_at_def)
  qed
  moreover have "ca_counter m' = tally inside (qs[i := q])" if a: "CA_abort \<notin> set (qs[i := q])"
  proof -
    have "q \<noteq> CA_abort" using a i by (auto dest: set_update_memI [of i qs])
    moreover have "CA_abort \<notin> set qs"
    proof
      assume "CA_abort \<in> set qs"
      then obtain j where j: "j < length qs" "qs ! j = CA_abort" by (auto simp: in_set_conv_nth)
      then have "j \<noteq> i" using loc by auto
      then have "qs[i := q] ! j = CA_abort" using j by simp
      then show False using a j by (metis length_list_update nth_mem)
    qed
    ultimately show ?thesis using at loc i by (simp add: ca_at_def tally_update)
  qed
  ultimately show ?thesis using at loc by (simp add: ca_at_def)
qed

lemma cleanup_main_move:
  assumes at: "ca_at m p qs" and c: "cleanup_main p = Do c k" and k: "k r (entry_mem c r (1 + length qs) m) = (m', p')"
    and j: "\<forall>u. c = Join u \<and> r = 0 \<longrightarrow> (\<exists>v. qs ! (u - 1) = CA_return v)"
  shows "\<exists>qs'. numbered CU_thread qs @ spawned c r = numbered CU_thread qs' \<and> ca_at m' p' qs'"
proof (cases "\<exists>i. p = CU_create i \<and> r = 0")
  case True
  then obtain i where p: "p = CU_create i" "r = 0" by blast
  have f: "length qs = i" "i < CANCEL_THREADS" "main_lines m = []" using at p by (simp_all add: ca_at_def)
  have m': "m' = m\<lparr>ca_ids := ca_ids m @ [1 + length qs]\<rparr>" "spawned c r = [CU_thread i CA_lock]"
    "p' = (if i + 1 < CANCEL_THREADS then CU_create (i + 1) else CU_cancel 0 (ca_ids m' ! 0))"
    using c k p by (auto simp: cu_for_def CANCEL_THREADS_def split: if_splits)
  have fit: "ca_fit n m' ((qs @ [CA_lock]) ! n)" if "n < length (qs @ [CA_lock])" for n
  proof (cases "n < length qs")
    case True
    then have "ca_fit n m (qs ! n)" using at by (simp add: ca_at_def)
    then have "ca_fit n m' (qs ! n)" using m'(1) by (cases "qs ! n") auto
    then show ?thesis using True by (simp add: nth_append)
  qed (use that in \<open>simp add: nth_append less_Suc_eq\<close>)
  have ids: "ca_ids m' = map Suc [0..<length (qs @ [CA_lock])]" using at m'(1) by (simp add: ca_at_def)
  have "cu_fit (qs @ [CA_lock]) m' p'"
  proof (cases "i + 1 < CANCEL_THREADS")
    case False
    then have "length (qs @ [CA_lock]) = CANCEL_THREADS" using f by simp
    moreover have "ca_ids m' ! 0 = 1" using ids by (cases qs) (simp_all add: nth_append)
    ultimately show ?thesis using False m' f by (simp add: main_lines_def CANCEL_THREADS_def)
  qed (use m' f in \<open>simp add: main_lines_def\<close>)
  then have "ca_at m' p' (qs @ [CA_lock])" using at m'(1) fit ids by (simp add: ca_at_def)
  then show ?thesis using m'(2) f by (intro exI [of _ "qs @ [CA_lock]"]) simp
next
  case False
  have "spawned c r = [] \<and> ca_counter m' = ca_counter m \<and> busy m' = busy m \<and> ca_ids m' = ca_ids m \<and> ca_result m' = ca_result m \<and> cu_fit qs m' p'"
  proof (cases "\<exists>i u. p = CU_join i u \<and> r = 0")
    case True
    then obtain i u where p: "p = CU_join i u" "r = 0" by blast
    have f: "length qs = CANCEL_THREADS" "i < CANCEL_THREADS" "u = i + 1" "main_lines m = map Canceled_thread [0..<i]" "\<forall>j < i. \<exists>v. qs ! j = CA_return v"
      "ca_ids m = map Suc [0..<length qs]" using at p by (simp_all add: ca_at_def)
    obtain v where v: "qs ! i = CA_return v" using j c p f(3) by auto
    then have "ca_result m i = Some CANCELED" using at f(1,2) by (auto simp: ca_at_def)
    then have m': "m' = m\<lparr>ca_said := ca_said m @ [Canceled_thread i]\<rparr>" "p' = snd (cu_for (i + 1) m')" "spawned c r = []"
      using c k p by (auto simp: cu_report_def cu_for_def)
    have all: "\<forall>j < i + 1. \<exists>v. qs ! j = CA_return v" using f(5) v by (auto simp: less_Suc_eq)
    have lines: "main_lines m' = map Canceled_thread [0..<i + 1]" using m'(1) f(4) by (simp add: main_lines_def)
    show ?thesis
    proof (cases "i + 1 < CANCEL_THREADS")
      case True
      then show ?thesis using m' f all lines by (auto simp: cu_for_def)
    next
      case False
      then have T: "CANCEL_THREADS = i + 1" using f(2) by simp
      then show ?thesis using m' f(1,6) all lines by (simp add: cu_for_def)
    qed
  qed (use False at c k in \<open>cases p; auto simp: ca_at_def cu_for_def split: if_splits\<close>)
  moreover from this have "ca_fit n m' q = ca_fit n m q" for n q by (cases q) auto
  ultimately show ?thesis using at by (intro exI [of _ qs]) (simp add: ca_at_def)
qed

lemma ca_inv_reach:
  assumes "reach allow cleanup_main cleanup_system s"
  shows "ca_inv (mem s) (pcs s)"
proof -
  have "tracked ca_holds cleanup_system" "list_all (awake allow cleanup_main (now cleanup_system)) (threads cleanup_system)"
    unfolding cleanup_system_def by (simp add: tracked_def, rule awake_boot)
  from assms this show ?thesis
  proof (induction rule: ca.joined_invariant [where I = "\<lambda>n m ps C. ca_inv m ps"])
    case start
    show ?case unfolding ca_inv_def
      by (intro exI [of _ "CU_create 0"] exI [of _ "[]"]) (simp add: cleanup_system_def ca_at_def main_lines_def CANCEL_THREADS_def)
  next
    case (tick n m ps C)
    then show ?case .
  next
    case (move n m ps C t c k r m' p')
    then obtain p qs where ps: "ps = [p] @ numbered CU_thread qs" and at: "ca_at m p qs" by (auto simp: ca_inv_def)
    from ps move(2,3,6) show ?case
    proof (cases rule: ca.numbered_move)
      case front
      then have t: "t = 0" by simp
      have "\<exists>qs'. numbered CU_thread qs @ spawned c r = numbered CU_thread qs' \<and> ca_at m' p' qs'"
      proof (rule cleanup_main_move [OF at])
        show "cleanup_main p = Do c k" "k r (entry_mem c r (1 + length qs) m) = (m', p')" using front t by simp_all
        show "\<forall>u. c = Join u \<and> r = 0 \<longrightarrow> (\<exists>v. qs ! (u - 1) = CA_return v)"
        proof (intro allI impI)
          fix u assume "c = Join u \<and> r = 0"
          then obtain v where v: "u < length ps" "cleanup_main (ps ! u) = Return v" using move(10) by blast
          have "u \<noteq> 0" using v(2) move(3) t by (intro notI) simp
          then obtain i where "u = Suc i" "i < length qs" using v(1) ps by (cases u) auto
          then show "\<exists>v. qs ! (u - 1) = CA_return v" using v(2) ps by (cases "qs ! i") auto
        qed
      qed
      then show ?thesis using front(5) t by (auto simp: ca_inv_def)
    next
      case (thread i c0 k0 q)
      from cancel_move [OF at thread(2,4,6)] show ?thesis using thread(10) by (auto simp: ca_inv_def)
    qed
  qed
qed

text \<open>C40. No run misuses the mutex or the condition variable: the handler always has the mutex it gives back. As long as no call
  has failed in a thread the counter is the number of threads that wait, and when the program has ended normally it is 0 and \<^verbatim>\<open>main\<close> has
  found every one of the five threads canceled, in order. Every status the calls may return, cancellations at any time.\<close>
theorem cleanup_all_canceled:
  assumes "reach any_status cleanup_main cleanup_system s"
  shows "ended s \<noteq> Some Undefined \<and>
    ((\<forall>n. CU_thread n CA_abort \<notin> set (pcs s)) \<longrightarrow>
      ca_counter (mem s) = int (length (filter (\<lambda>p. \<exists>n. p = CU_thread n CA_wait) (pcs s)))) \<and>
    (ended s = Some (Exited 0) \<longrightarrow> ca_counter (mem s) = 0 \<and> main_lines (mem s) = map Canceled_thread [0, 1, 2, 3, 4])"
proof -
  obtain p qs where ps: "pcs s = [p] @ numbered CU_thread qs" and at: "ca_at (mem s) p qs"
    using ca_inv_reach [OF assms] by (auto simp: ca_inv_def)
  have "ended s \<noteq> Some Undefined"
  proof (rule ca.no_undefined_objects [OF assms])
    show "tracked ca_holds cleanup_system" by (simp add: tracked_def cleanup_system_def)
    show "list_all (awake any_status cleanup_main (now cleanup_system)) (threads cleanup_system)"
      unfolding cleanup_system_def by (rule awake_boot)
    have m: "mutex_ok c (ca_holds p) \<and> (\<forall>C. (\<forall>d. C d) \<longrightarrow> cond_ok c C \<and> (\<forall>d. cond_after c r C d)) \<and> (\<forall>d. c \<noteq> CDestroy d)"
      if "cleanup_main p = Do c k" for p c k r
    proof (cases p)
      case (CU_thread n q)
      then show ?thesis using that by (cases q) auto
    qed (use that in auto)
    show "mutex_ok c (ca_holds p)" if "cleanup_main p = Do c k" for p c k using m [OF that, of 0] by blast
    show "cleanup_main p \<noteq> Halt Undefined" for p
    proof (cases p)
      case (CU_thread n q)
      then show ?thesis by (cases q) auto
    qed auto
    show "cond_ok c (cnd s1) \<and> (\<forall>d u x l k. c = CDestroy d \<longrightarrow> u < length (threads s1) \<longrightarrow> u \<noteq> t \<longrightarrow>
        cleanup_main (pcs s1 ! u) \<noteq> Do (wait_call d x l) k)"
      if r: "reach any_status cleanup_main cleanup_system s1" and p: "cleanup_main (pcs s1 ! t) = Do c k" for s1 t c k
    proof -
      have "\<forall>d. cnd s1 d"
      proof (rule ca.object_invariant [OF r, where I = "\<lambda>n m ps C. \<forall>d. C d"])
        show "\<forall>d. cond_after c r C d" if "\<forall>d. C d" "cleanup_main p = Do c k" for C p c k r using m [OF that(2), of r] that(1) by blast
      qed (use awake_boot in \<open>simp_all add: tracked_def cleanup_system_def\<close>)
      then show ?thesis using m [OF p, of 0] by blast
    qed
  qed (simp_all add: cleanup_system_def)
  moreover have count: "ca_counter (mem s) = tally inside qs" if "CA_abort \<notin> set qs" using at that by (simp add: ca_at_def)
  moreover have "int (length (filter (\<lambda>p. \<exists>n. p = CU_thread n CA_wait) (pcs s))) = tally inside qs"
  proof -
    have "p \<noteq> CU_thread n x" for n x using at by (auto simp: ca_at_def)
    moreover have "int (length (filter (\<lambda>p. \<exists>n. p = CU_thread n CA_wait) (numbered CU_thread qs))) = tally inside qs"
    proof (induction qs rule: rev_induct)
      case (snoc q qs)
      then show ?case by (cases q) auto
    qed simp
    ultimately show ?thesis using ps by simp
  qed
  moreover have "CA_abort \<notin> set qs" if "\<forall>n. CU_thread n CA_abort \<notin> set (pcs s)"
  proof
    assume "CA_abort \<in> set qs"
    then obtain n where "n < length qs" "qs ! n = CA_abort" by (auto simp: in_set_conv_nth)
    then have "CU_thread n CA_abort \<in> set (numbered CU_thread qs)" unfolding set_numbered by metis
    then show False using that ps by simp
  qed
  moreover have "ca_counter (mem s) = 0 \<and> main_lines (mem s) = map Canceled_thread [0, 1, 2, 3, 4]" if e: "ended s = Some (Exited 0)"
  proof -
    obtain p' where p': "p' \<in> set (pcs s)" "cleanup_main p' = Halt (Exited 0)"
      using ended_cases [OF assms _ e] by (auto simp: cleanup_system_def)
    have "p' = CU_return"
    proof (cases p')
      case (CU_thread n q)
      then show ?thesis using p'(2) by (cases q) auto
    qed (use p'(2) in auto)
    then have "p = CU_return" using p'(1) ps by (auto simp: set_numbered)
    then have f: "length qs = CANCEL_THREADS" "main_lines (mem s) = map Canceled_thread [0..<CANCEL_THREADS]" "\<And>j. j < CANCEL_THREADS \<Longrightarrow> \<exists>v. qs ! j = CA_return v"
      using at by (simp_all add: ca_at_def)
    have ret: "\<exists>v. x = CA_return v" if "x \<in> set qs" for x using that f(1,3) by (metis in_set_conv_nth)
    then have "CA_abort \<notin> set qs" by blast
    moreover have "tally inside qs = tally (\<lambda>_. 0) qs" by (rule tally_cong) (use ret in fastforce)
    ultimately show ?thesis using count f(2) by (simp add: CANCEL_THREADS_def upt_rec)
  qed
  ultimately show ?thesis by simp
qed

theorem cleanup_all_canceled_witness:
  "case run any_status cleanup_main (replicate 5 (Exec 0 0) @ concat (map (\<lambda>n. [Exec n 0, Exec n 0]) [3, 1, 2, 5, 4]) @
      concat (map (\<lambda>n. [Exec 0 0, Cancel n, Exec n CANCELED, Exec n 0, Exec 0 0]) [1, 2, 3, 4, 5]) @ [Exec 0 0]) cleanup_system of
     Some s \<Rightarrow> ended s = Some (Exited 0) \<and> ca_counter (mem s) = 0 \<and> main_lines (mem s) = map Canceled_thread [0, 1, 2, 3, 4]
   | None \<Rightarrow> False"
  (is "case ?r of Some s \<Rightarrow> ?P s | None \<Rightarrow> False")
proof -
  have "map_option ended ?r = Some (Some (Exited 0))" by code_simp
  then obtain s where s: "?r = Some s" "ended s = Some (Exited 0)" by auto
  show ?thesis using cleanup_all_canceled [OF reach_run [OF s(1)]] s by simp
qed

end
