(* ===== verification/Sigwait.thy ===== *)
theory Sigwait
  imports Tracking Calls
begin

text \<open>
  \<^verbatim>\<open>chap6-adjust/sigwait.cxx\<close>: the main program waits until the thread that takes the interrupts has had five of them.
  It never creates that thread. The result of \<^verbatim>\<open>sigwait\<close> is not looked at; \<open>sig_number\<close> has no value before the
  first signal.
\<close>

section \<open>The program\<close>

datatype sw_mutex = Int_mutex
datatype sw_cond = Int_cond

abbreviation SIGINT :: int where "SIGINT \<equiv> 2"

record sigs =
  interrupted :: int
  got :: "int list"

text \<open>The points carry \<^verbatim>\<open>signal_count\<close> and \<^verbatim>\<open>sig_number\<close>. The set of signals has only \<open>SIGINT\<close>.\<close>

datatype si_pc = SI_wait int "int option" | SI_lock | SI_signal | SI_unlock | SI_return | SI_abort | SI_crash

definition si_taken :: "int \<Rightarrow> int option \<Rightarrow> int \<Rightarrow> sigs \<Rightarrow> sigs \<times> si_pc" where
  "si_taken n sig r m =
     (case (if r = 0 then Some SIGINT else sig) of
        None \<Rightarrow> (m, SI_crash)
      | Some x \<Rightarrow>
          if x = SIGINT
          then (m\<lparr>got := got m @ [n + 1]\<rparr>, if n + 1 \<ge> 5 then SI_lock else SI_wait (n + 1) (Some x))
          else (m, SI_wait n (Some x)))"

fun singal_waiter :: "si_pc \<Rightarrow> (sw_mutex, sw_cond, sigs, si_pc) act" where
  "singal_waiter (SI_wait n sig) = Do (Env (\<lambda>r _. 0 \<le> r)) (si_taken n sig)"
| "singal_waiter SI_lock =
     Do (Lock Int_mutex) (\<lambda>status m. if status \<noteq> 0 then (m, SI_abort) else (m\<lparr>interrupted := 1\<rparr>, SI_signal))"
| "singal_waiter SI_signal = Do (Signal Int_cond) (checked SI_abort SI_unlock)"
| "singal_waiter SI_unlock = Do (Unlock Int_mutex) (checked SI_abort SI_return)"
| "singal_waiter SI_return = Return 0"
| "singal_waiter SI_abort = Halt Aborted"
| "singal_waiter SI_crash = Halt Undefined"

datatype wm_pc = WM_sigmask | WM_lock | WM_wait | WM_unlock | WM_return | WM_abort

definition wm_while :: "sigs \<Rightarrow> sigs \<times> wm_pc" where
  "wm_while m = (m, if interrupted m = 0 then WM_wait else WM_unlock)"

fun sigwait_main :: "wm_pc \<Rightarrow> (sw_mutex, sw_cond, sigs, wm_pc) act" where
  "sigwait_main WM_sigmask = Do (Env (\<lambda>r _. 0 \<le> r)) (checked WM_abort WM_lock)"
| "sigwait_main WM_lock = Do (Lock Int_mutex) (\<lambda>status m. if status \<noteq> 0 then (m, WM_abort) else wm_while m)"
| "sigwait_main WM_wait = Do (Wait Int_cond Int_mutex) (\<lambda>status m. if status \<noteq> 0 then (m, WM_abort) else wm_while m)"
| "sigwait_main WM_unlock = Do (Unlock Int_mutex) (checked WM_abort WM_return)"
| "sigwait_main WM_return = Halt (Exited 0)"
| "sigwait_main WM_abort = Halt Aborted"

definition sigwait_system :: "(sw_mutex, sw_cond, sigs, wm_pc) sys" where
  "sigwait_system = boot \<lparr>interrupted = 0, got = []\<rparr> [WM_sigmask]"

section \<open>The thread that is never created\<close>

text \<open>Run by itself, with every call successful, the routine counts five signals and sets the flag.\<close>

lemma singal_waiter_five:
  "seq_run singal_waiter (replicate 8 0) (SI_wait 0 None) m = (m\<lparr>interrupted := 1, got := got m @ [1, 2, 3, 4, 5]\<rparr>, SI_return)"
  by (simp add: eval_nat_numeral si_taken_def)

section \<open>The main program\<close>

fun wm_holds :: "wm_pc \<Rightarrow> sw_mutex set" where
  "wm_holds WM_wait = {Int_mutex}"
| "wm_holds WM_unlock = {Int_mutex}"
| "wm_holds p = {}"

interpretation wm: lock_tracking allow sigwait_main wm_holds for allow :: "wm_pc policy"
proof unfold_locales
  fix p c r m k and n :: int and m' m'' p'
  assume "sigwait_main p = Do c k" "k r m' = (m'', p')"
  then show "wm_holds p' \<subseteq> held_after c r (wm_holds p)" by (cases p) (auto simp: wm_while_def split: if_splits)
next
  fix p q and st :: "nat \<Rightarrow> sigs \<Rightarrow> sigs" and k :: "int \<Rightarrow> sigs \<Rightarrow> sigs \<times> wm_pc"
  assume "sigwait_main p = Do (Create st q) k"
  then show "wm_holds q = {}" by (cases p) auto
qed

text \<open>The main program never gets past its wait: no thread sets the flag and none signals. Its process always has one thread, the
  flag is 0, and it ends, if at all, because a call has failed. Every status the calls may return, spurious wakeups included.\<close>
theorem sigwait_never_ends:
  assumes "reach any_status sigwait_main sigwait_system s"
  shows "length (threads s) = 1 \<and> interrupted (mem s) = 0 \<and> pcs s ! 0 \<noteq> WM_return \<and> (ended s = None \<or> ended s = Some Aborted)"
proof -
  have inv: "length (pcs s1) = 1 \<and> interrupted (mem s1) = 0 \<and> pcs s1 ! 0 \<notin> {WM_unlock, WM_return}"
    if "reach any_status sigwait_main sigwait_system s1" for s1
    using that
  proof (induction rule: reach_invariant)
    case start
    show ?case by (simp add: sigwait_system_def)
  next
    case (move n m ps t c k r m' p')
    then have t: "t = 0" by simp
    have "interrupted m' = 0 \<and> p' \<notin> {WM_unlock, WM_return} \<and> spawned c r = []"
      using move(1,3,6) t by (cases "ps ! t") (auto simp: wm_while_def split: if_splits)
    then show ?case using move(1) t by (cases ps) auto
  qed
  have "ended s \<noteq> Some Undefined"
  proof (rule wm.no_undefined_objects [OF assms])
    show "tracked wm_holds sigwait_system" by (simp add: tracked_def sigwait_system_def)
    show "list_all (awake any_status sigwait_main (now sigwait_system)) (threads sigwait_system)"
      unfolding sigwait_system_def by (rule awake_boot)
    show "mutex_ok c (wm_holds p)" if "sigwait_main p = Do c k" for p c k using that by (cases p) auto
    show "cond_ok c (cnd s1) \<and> (\<forall>d u x l k. c = CDestroy d \<longrightarrow> u < length (threads s1) \<longrightarrow> u \<noteq> t \<longrightarrow>
        sigwait_main (pcs s1 ! u) \<noteq> Do (wait_call d x l) k)"
      if r: "reach any_status sigwait_main sigwait_system s1" and p: "sigwait_main (pcs s1 ! t) = Do c k" for s1 t c k
    proof -
      have "\<forall>d. cnd s1 d"
      proof (rule wm.object_invariant [OF r, where I = "\<lambda>n m ps C. \<forall>d. C d"])
        fix C :: "sw_cond \<Rightarrow> bool" and q :: wm_pc and c k r
        assume "\<forall>d. C d" "sigwait_main q = Do c k"
        then show "\<forall>d. cond_after c r C d" by (cases q) auto
      qed (use awake_boot in \<open>simp_all add: tracked_def sigwait_system_def\<close>)
      then show ?thesis using p by (cases "pcs s1 ! t") auto
    qed
    show "sigwait_main p \<noteq> Halt Undefined" for p by (cases p) auto
  qed (simp_all add: sigwait_system_def)
  moreover have "ended s = None \<or> ended s = Some Undefined \<or> ended s = Some Aborted"
  proof (cases "ended s")
    case (Some x)
    then obtain p where "x = Undefined \<or> p \<in> set (pcs s) \<and> sigwait_main p = Halt x"
      using ended_cases [OF assms] by (auto simp: sigwait_system_def)
    moreover have "p = pcs s ! 0" if "p \<in> set (pcs s)" using inv [OF assms] that by (cases "pcs s") auto
    ultimately show ?thesis using inv [OF assms] Some by (cases p) auto
  qed simp
  ultimately show ?thesis using inv [OF assms] by auto
qed

theorem sigwait_never_ends_witness:
  "case run any_status sigwait_main [Exec 0 0, Exec 0 0, Exec 0 0, Spurious 0, Exec 0 0] sigwait_system of
     Some s \<Rightarrow> threads s = [(WM_wait, Ready)] \<and> interrupted (mem s) = 0 \<and> pcs s ! 0 \<noteq> WM_return | None \<Rightarrow> False"
  (is "case ?r of Some s \<Rightarrow> ?P s | None \<Rightarrow> False")
proof -
  have "map_option (\<lambda>s. threads s) ?r = Some [(WM_wait, Ready)]" by code_simp
  then obtain s where s: "?r = Some s" "threads s = [(WM_wait, Ready)]" by auto
  show ?thesis using sigwait_never_ends [OF reach_run [OF s(1)]] s by simp
qed

end
