(* ===== verification/CondWait.thy ===== *)
theory CondWait
  imports Calls
begin

text \<open>
  \<^verbatim>\<open>chap3-sync/cond.cc\<close>: the main program waits two seconds for a condition another thread signals. \<^verbatim>\<open>sleep\<close> takes any
  time, so \<open>hibernation\<close> has no place in the model. In \<^verbatim>\<open>int status = f() != 0\<close> the status is the result of the comparison.
\<close>

section \<open>The program\<close>

datatype cw_mutex = Data_mutex
datatype cw_cond = Data_cond
datatype cw_line = Timed_out | Signaled

record my_struct =
  data_value :: int
  shown :: "cw_line list"

definition cw_say :: "cw_line \<Rightarrow> my_struct \<Rightarrow> my_struct" where
  "cw_say x m = m\<lparr>shown := shown m @ [x]\<rparr>"

datatype wt_pc = WT_lock | WT_signal | WT_unlock | WT_return | WT_abort

fun wait_thread :: "wt_pc \<Rightarrow> (cw_mutex, cw_cond, my_struct, wt_pc) act" where
  "wait_thread WT_lock =
     Do (Lock Data_mutex) (\<lambda>status m. if status \<noteq> 0 then (m, WT_abort) else (m\<lparr>data_value := 1\<rparr>, WT_signal))"
| "wait_thread WT_signal = Do (Signal Data_cond) (checked WT_abort WT_unlock)"
| "wait_thread WT_unlock = Do (Unlock Data_mutex) (checked WT_abort WT_return)"
| "wait_thread WT_return = Return 0"
| "wait_thread WT_abort = Halt Aborted"

text \<open>The points carry \<^verbatim>\<open>timeout\<close>.\<close>

datatype cm_pc = CM_create | CM_clock | CM_lock int | CM_wait int | CM_unlock | CM_return | CM_abort | CM_thread wt_pc

text \<open>After the loop, and at its head. A wait that fails for another reason than a timeout is not noticed: then
  \<^verbatim>\<open>status\<close> is the result of a comparison that is false.\<close>

definition cm_after :: "my_struct \<Rightarrow> my_struct \<times> cm_pc" where
  "cm_after m = (if data_value m \<noteq> 0 then cw_say Signaled m else m, CM_unlock)"

definition cm_while :: "int \<Rightarrow> my_struct \<Rightarrow> my_struct \<times> cm_pc" where
  "cm_while d m = (if data_value m = 0 then (m, CM_wait d) else cm_after m)"

definition cm_woken :: "int \<Rightarrow> int \<Rightarrow> my_struct \<Rightarrow> my_struct \<times> cm_pc" where
  "cm_woken d r m =
     (let status = (if r = ETIMEDOUT then 1 else 0 :: int) in
      if status \<noteq> 0 then cm_after (cw_say Timed_out m)
      else if status \<noteq> 0 then (m, CM_abort) else cm_while d m)"

fun cond_main :: "cm_pc \<Rightarrow> (cw_mutex, cw_cond, my_struct, cm_pc) act" where
  "cond_main CM_create = Do (Create (\<lambda>_ m. m) (CM_thread WT_lock)) (checked CM_abort CM_clock)"
| "cond_main CM_clock = Do Clock (\<lambda>now m. (m, CM_lock (now + 2)))"
| "cond_main (CM_lock d) = Do (Lock Data_mutex) (\<lambda>status m. if status \<noteq> 0 then (m, CM_abort) else cm_while d m)"
| "cond_main (CM_wait d) = Do (Timedwait Data_cond Data_mutex d) (cm_woken d)"
| "cond_main CM_unlock = Do (Unlock Data_mutex) (checked CM_abort CM_return)"
| "cond_main CM_return = Halt (Exited 0)"
| "cond_main CM_abort = Halt Aborted"
| "cond_main (CM_thread p) = thread_fun CM_thread (wait_thread p)"

definition cond_system :: "(cw_mutex, cw_cond, my_struct, cm_pc) sys" where
  "cond_system = boot \<lparr>data_value = 0, shown = []\<rparr> [CM_create]"

section \<open>What it prints\<close>

fun cm_fit :: "int \<Rightarrow> my_struct \<Rightarrow> cm_pc \<Rightarrow> bool" where
  "cm_fit n m (CM_lock d) \<longleftrightarrow> shown m = [] \<and> 2 \<le> d"
| "cm_fit n m (CM_wait d) \<longleftrightarrow> shown m = [] \<and> 2 \<le> d"
| "cm_fit n m CM_unlock \<longleftrightarrow> shown m \<in> {[Timed_out], [Signaled], [Timed_out, Signaled]}"
| "cm_fit n m CM_return \<longleftrightarrow> shown m \<in> {[Timed_out], [Signaled], [Timed_out, Signaled]}"
| "cm_fit n m (CM_thread p) \<longleftrightarrow> False"
| "cm_fit n m CM_abort \<longleftrightarrow> True"
| "cm_fit n m p \<longleftrightarrow> shown m = []"

definition cond_inv :: "int \<Rightarrow> my_struct \<Rightarrow> cm_pc list \<Rightarrow> bool" where
  "cond_inv n m ps \<longleftrightarrow> 0 \<le> n \<and> (Signaled \<in> set (shown m) \<longrightarrow> data_value m = 1) \<and> (Timed_out \<in> set (shown m) \<longrightarrow> 2 \<le> n) \<and>
     data_value m \<in> {0, 1} \<and> (\<exists>p qs. ps = p # map CM_thread qs \<and> cm_fit n m p)"

lemma cm_fit_tick: "cm_fit n m p \<Longrightarrow> cm_fit (n + 1) m p"
  by (cases p) auto

lemma cm_fit_value: "cm_fit n (m\<lparr>data_value := v\<rparr>) p = cm_fit n m p"
  by (cases p) auto

lemmas cm_defs = cm_woken_def cm_while_def cm_after_def cw_say_def Let_def

lemma cond_inv_reach:
  assumes "reach allow cond_main cond_system s"
  shows "cond_inv (now s) (mem s) (pcs s)"
  using assms
proof (induction rule: reach_invariant)
  case start
  show ?case by (simp add: cond_inv_def cond_system_def)
next
  case (tick n m ps)
  then show ?case using cm_fit_tick by (auto simp: cond_inv_def)
next
  case (move n m ps t c k r m' p')
  then obtain p qs where ps: "ps = p # map CM_thread qs" and fit: "cm_fit n m p" by (auto simp: cond_inv_def)
  have v: "data_value m \<in> {0, 1}" "0 \<le> n" "Signaled \<in> set (shown m) \<longrightarrow> data_value m = 1" "Timed_out \<in> set (shown m) \<longrightarrow> 2 \<le> n"
    using move(1) by (simp_all add: cond_inv_def)
  show ?case
  proof (cases t)
    case 0
    then have c: "cond_main p = Do c k" using move(3) ps by simp
    have "cm_fit n m' p' \<and> data_value m' \<in> {0, 1} \<and> (Signaled \<in> set (shown m') \<longrightarrow> data_value m' = 1) \<and>
        (Timed_out \<in> set (shown m') \<longrightarrow> 2 \<le> n) \<and> (spawned c r = [] \<or> spawned c r = map CM_thread [WT_lock])"
      using c fit v move(5,6) by (cases p) (auto simp: cm_defs split: if_splits)
    moreover from this obtain xs where "spawned c r = map CM_thread xs" by (metis list.map(1))
    then have "ps[t := p'] @ spawned c r = p' # map CM_thread (qs @ xs)" using ps 0 by simp
    ultimately show ?thesis using v(2) unfolding cond_inv_def by blast
  next
    case (Suc i)
    then obtain q where q: "i < length qs" "ps ! t = CM_thread q" "q = qs ! i" using move(2) ps by auto
    then have "thread_fun CM_thread (wait_thread q) = Do c k" using move(3) by simp
    then show ?thesis
    proof (cases rule: thread_fun_cases)
      case (1 c0 k0)
      have "entry_mem c0 r l m = m" for l using 1(1) by (cases q) auto
      then obtain q' where q': "k0 r m = (m', q')" "p' = CM_thread q'" using 1 move(6) by (cases "k0 r m") auto
      then have "(m' = m \<or> m' = m\<lparr>data_value := 1\<rparr>) \<and> spawned c r = []" using 1(1,2) by (cases q) (auto split: if_splits)
      moreover have "ps[t := p'] = p # map CM_thread (qs[i := q'])" using ps Suc q'(2) by (simp add: map_update)
      ultimately show ?thesis using fit v by (auto simp: cond_inv_def cm_fit_value simp flip: map_update)
    qed
  qed
qed

text \<open>C34. When the program has ended normally it has printed that the wait timed out, that the condition was signaled, or
  both, in this order; that it was signaled only if the other thread had set the value, that it timed out only
  after two seconds. A wait that fails in another way leaves everything as it was: the program waits again. Every status
  the calls may return.\<close>
theorem cond_outcome:
  assumes "reach any_status cond_main cond_system s"
  shows "(ended s = Some (Exited 0) \<longrightarrow>
      shown (mem s) \<in> {[Timed_out], [Signaled], [Timed_out, Signaled]} \<and>
      (Signaled \<in> set (shown (mem s)) \<longrightarrow> data_value (mem s) = 1) \<and> (Timed_out \<in> set (shown (mem s)) \<longrightarrow> 2 \<le> now s)) \<and>
    (\<forall>d r s'. threads s ! 0 = (CM_wait d, Ready) \<and> data_value (mem s) = 0 \<and> 0 < r \<and> r \<noteq> ETIMEDOUT \<and>
      step any_status cond_main (Exec 0 r) s = Some s' \<longrightarrow> s' = s)"
proof (intro conjI allI impI)
  have inv: "cond_inv (now s) (mem s) (pcs s)" by (rule cond_inv_reach [OF assms])
  then obtain p qs where ps: "pcs s = p # map CM_thread qs" "cm_fit (now s) (mem s) p" by (auto simp: cond_inv_def)
  {
    assume "ended s = Some (Exited 0)"
    then obtain p' where p': "p' \<in> set (pcs s)" "cond_main p' = Halt (Exited 0)"
      using ended_cases [OF assms] by (auto simp: cond_system_def)
    have "p' = CM_return"
    proof (cases p')
      case (CM_thread q)
      then show ?thesis using p'(2) by (cases q) auto
    qed (use p'(2) in auto)
    then have "p = CM_return" using p'(1) ps(1) by auto
    then show "shown (mem s) \<in> {[Timed_out], [Signaled], [Timed_out, Signaled]}" using ps(2) by simp
  }
  show "data_value (mem s) = 1" if "Signaled \<in> set (shown (mem s))" using inv that by (simp add: cond_inv_def)
  show "2 \<le> now s" if "Timed_out \<in> set (shown (mem s))" using inv that by (simp add: cond_inv_def)
next
  fix d r s'
  assume h: "threads s ! 0 = (CM_wait d, Ready) \<and> data_value (mem s) = 0 \<and> 0 < r \<and> r \<noteq> ETIMEDOUT \<and>
      step any_status cond_main (Exec 0 r) s = Some s'"
  then have "s' = proceed 0 (cm_woken d) r s" by (auto simp: exec_thread_def split: if_splits)
  also have "\<dots> = s\<lparr>threads := (threads s)[0 := threads s ! 0]\<rparr>"
    using h by (simp add: proceed_def put_thread_def cm_woken_def cm_while_def)
  finally show "s' = s" by (simp only: list_update_id) simp
qed

theorem cond_outcome_witness:
  "case run any_status cond_main [Exec 0 0, Exec 0 0, Exec 0 0, Exec 0 0, Tick, Tick, Timeout 0, Exec 1 0, Exec 1 0, Exec 1 0, Exec 0 ETIMEDOUT,
      Exec 0 0, Exec 0 0] cond_system of
     Some s \<Rightarrow> ended s = Some (Exited 0) \<and> shown (mem s) = [Timed_out, Signaled] \<and> data_value (mem s) = 1 | None \<Rightarrow> False"
  (is "case ?r of Some s \<Rightarrow> ?P s | None \<Rightarrow> False")
proof -
  have "map_option (\<lambda>s. (ended s, shown (mem s))) ?r = Some (Some (Exited 0), [Timed_out, Signaled])" by code_simp
  then obtain s where s: "?r = Some s" "ended s = Some (Exited 0)" "shown (mem s) = [Timed_out, Signaled]" by auto
  show ?thesis using cond_outcome [OF reach_run [OF s(1)]] s by simp
qed

end
