(* ===== verification/Trylock.thy ===== *)
theory Trylock
  imports Tracking Calls
begin

text \<open>
  \<^verbatim>\<open>chap3-sync/trylock.cc\<close>: a thread that counts under a mutex and one that looks at the count now and then, with
  \<^verbatim>\<open>pthread_mutex_trylock\<close>. The file has no \<^verbatim>\<open>main\<close>: the process starts with the two threads, \<open>end_time\<close> is
  a parameter. Every round of the inner loop is a step; \<^verbatim>\<open>counter\<close> is a \<^verbatim>\<open>long\<close>, whose overflow is undefined.
\<close>

section \<open>The program\<close>

definition SPIN :: int where "SPIN = 10000000"

datatype ty_mutex = Mutex

datatype ty_line = Counter_is int | Missed int | Counter_final int

record counts =
  counter :: int
  end_time :: int
  said :: "ty_line list"

definition ty_say :: "ty_line \<Rightarrow> counts \<Rightarrow> counts" where
  "ty_say x m = m\<lparr>said := said m @ [x]\<rparr>"

datatype ct_pc = CT_time | CT_lock | CT_spin int | CT_unlock | CT_return | CT_abort | CT_crash

definition LONG_MAX :: int where "LONG_MAX = 9223372036854775807"

definition ct_for :: "int \<Rightarrow> ct_pc" where
  "ct_for spin = (if spin < SPIN then CT_spin spin else CT_unlock)"

fun counter_thread :: "ct_pc \<Rightarrow> (ty_mutex, unit, counts, ct_pc) act" where
  "counter_thread CT_time =
     Do Clock (\<lambda>now m. if now < end_time m then (m, CT_lock) else (ty_say (Counter_final (counter m)) m, CT_return))"
| "counter_thread CT_lock = Do (Lock Mutex) (\<lambda>status m. (m, if status \<noteq> 0 then CT_abort else ct_for 0))"
| "counter_thread (CT_spin i) =
     Do Tau (\<lambda>_ m. if counter m < LONG_MAX then (m\<lparr>counter := counter m + 1\<rparr>, ct_for (i + 1)) else (m, CT_crash))"
| "counter_thread CT_unlock = Do (Unlock Mutex) (checked CT_abort CT_time)"
| "counter_thread CT_return = Return 0"
| "counter_thread CT_abort = Halt Aborted"
| "counter_thread CT_crash = Halt Undefined"

text \<open>The points carry \<^verbatim>\<open>misses\<close>; \<open>MT_again\<close> is the call that should have been an unlock.\<close>

datatype mt_pc = MT_time int | MT_try int | MT_again int | MT_return | MT_abort

fun monitor_thread :: "mt_pc \<Rightarrow> (ty_mutex, unit, counts, mt_pc) act" where
  "monitor_thread (MT_time misses) =
     Do Clock (\<lambda>now m. if now < end_time m then (m, MT_try misses) else (ty_say (Missed misses) m, MT_return))"
| "monitor_thread (MT_try misses) =
     Do (Trylock Mutex) (\<lambda>status m.
       if status \<noteq> EBUSY
       then (if status \<noteq> 0 then (m, MT_abort) else (ty_say (Counter_is (counter m div SPIN)) m, MT_again misses))
       else (m, MT_time (misses + 1)))"
| "monitor_thread (MT_again misses) = Do (Trylock Mutex) (checked MT_abort (MT_time misses))"
| "monitor_thread MT_return = Return 0"
| "monitor_thread MT_abort = Halt Aborted"

datatype ty_pc = TY_counter ct_pc | TY_monitor mt_pc

fun trylock_process :: "ty_pc \<Rightarrow> (ty_mutex, unit, counts, ty_pc) act" where
  "trylock_process (TY_counter p) = thread_fun TY_counter (counter_thread p)"
| "trylock_process (TY_monitor p) = thread_fun TY_monitor (monitor_thread p)"

definition trylock_system :: "int \<Rightarrow> (ty_mutex, unit, counts, ty_pc) sys" where
  "trylock_system e = boot \<lparr>counter = 0, end_time = e, said = []\<rparr> [TY_counter CT_time, TY_monitor (MT_time 0)]"

section \<open>Who has the mutex\<close>

fun ty_holds :: "ty_pc \<Rightarrow> ty_mutex set" where
  "ty_holds (TY_counter (CT_spin i)) = {Mutex}"
| "ty_holds (TY_counter CT_unlock) = {Mutex}"
| "ty_holds (TY_counter CT_crash) = {Mutex}"
| "ty_holds (TY_monitor (MT_again n)) = {Mutex}"
| "ty_holds p = {}"

interpretation ty: lock_tracking allow trylock_process ty_holds for allow :: "ty_pc policy"
proof unfold_locales
  fix p c r m k and n :: int and m' m'' p'
  assume c: "trylock_process p = Do c k" and a: "answer_ok c r m n" and k: "k r m' = (m'', p')"
  show "ty_holds p' \<subseteq> held_after c r (ty_holds p)"
  proof (cases p)
    case (TY_counter x)
    then show ?thesis using c k by (cases x) (auto simp: ct_for_def split: if_splits)
  next
    case (TY_monitor x)
    then show ?thesis using c k a by (cases x) (auto split: if_splits)
  qed
next
  fix p q and st :: "nat \<Rightarrow> counts \<Rightarrow> counts" and k :: "int \<Rightarrow> counts \<Rightarrow> counts \<times> ty_pc"
  assume c: "trylock_process p = Do (Create st q) k"
  show "ty_holds q = {}"
  proof (cases p)
    case (TY_counter x)
    then show ?thesis using c by (cases x) auto
  next
    case (TY_monitor x)
    then show ?thesis using c by (cases x) auto
  qed
qed

lemma ty_tracked: "tracked ty_holds (trylock_system e)"
  by (auto simp: tracked_def trylock_system_def less_Suc_eq)

lemma ty_awake: "list_all (awake allow trylock_process n) (threads (trylock_system e))"
  by (simp add: trylock_system_def)

lemma ty_not_waiting: "\<not> waiting trylock_process x p"
proof (cases p)
  case (TY_counter q)
  then show ?thesis by (cases q) (auto simp: waiting_def wait_call_def split: option.splits)
next
  case (TY_monitor q)
  then show ?thesis by (cases q) (auto simp: waiting_def wait_call_def split: option.splits)
qed

section \<open>What is counted and said\<close>

text \<open>What the monitor has said of the counter.\<close>

definition seen_counts :: "counts \<Rightarrow> int list" where
  "seen_counts m = [k. Counter_is k \<leftarrow> said m]"

lemma seen_counts_simps [simp]:
  "seen_counts (ty_say (Counter_is k) m) = seen_counts m @ [k]" "seen_counts (ty_say (Missed n) m) = seen_counts m"
  "seen_counts (ty_say (Counter_final n) m) = seen_counts m" "seen_counts (m\<lparr>counter := n\<rparr>) = seen_counts m"
  "counter (ty_say x m) = counter m"
  by (simp_all add: seen_counts_def ty_say_def)

fun ct_fit :: "counts \<Rightarrow> ct_pc \<Rightarrow> bool" where
  "ct_fit m (CT_spin i) \<longleftrightarrow> 0 \<le> i \<and> i < SPIN \<and> counter m mod SPIN = i"
| "ct_fit m CT_crash \<longleftrightarrow> True"
| "ct_fit m p \<longleftrightarrow> counter m mod SPIN = 0"

fun mt_fit :: "counts \<Rightarrow> mt_pc \<Rightarrow> bool" where
  "mt_fit m (MT_again n) \<longleftrightarrow> (\<exists>k. seen_counts m = [k] \<and> counter m = SPIN * k)"
| "mt_fit m MT_abort \<longleftrightarrow> length (seen_counts m) \<le> 1"
| "mt_fit m p \<longleftrightarrow> seen_counts m = []"

definition ty_inv :: "counts \<Rightarrow> ty_pc list \<Rightarrow> bool" where
  "ty_inv m ps \<longleftrightarrow> (\<exists>x y. ps = [TY_counter x, TY_monitor y] \<and> ct_fit m x \<and> mt_fit m y)"

lemma counter_move:
  assumes "counter_thread x = Do c k" and "k r m = (m', x')" and "ct_fit m x"
  shows "ct_fit m' x' \<and> seen_counts m' = seen_counts m \<and> (counter m' = counter m \<or> (\<exists>i. x = CT_spin i)) \<and> spawned c r = []"
proof (cases x)
  case (CT_spin i)
  have "(counter m + 1) mod SPIN = (if i + 1 < SPIN then i + 1 else 0)"
  proof -
    have i: "0 \<le> i" "i < SPIN" "counter m mod SPIN = i" using assms(3) CT_spin by simp_all
    have "(counter m + 1) mod SPIN = (i + 1) mod SPIN" using i(3) by (metis mod_add_left_eq)
    also have "\<dots> = (if i + 1 < SPIN then i + 1 else 0)"
    proof (cases "i + 1 < SPIN")
      case False
      then have "i + 1 = SPIN" using i(2) by linarith
      then show ?thesis by simp
    qed (use i(1) in simp)
    finally show ?thesis .
  qed
  then show ?thesis using assms CT_spin by (cases "counter m < LONG_MAX") (auto simp: ct_for_def)
qed (use assms in \<open>auto simp: ct_for_def SPIN_def split: if_splits\<close>)

lemma monitor_move:
  assumes "monitor_thread y = Do c k" and "k r m = (m', y')" and "mt_fit m y" and "\<And>n. y = MT_again n \<Longrightarrow> r \<noteq> 0"
    and "\<And>n. y' = MT_again n \<Longrightarrow> counter m mod SPIN = 0"
  shows "mt_fit m' y' \<and> counter m' = counter m \<and> spawned c r = []"
proof (cases y)
  case (MT_try n)
  then show ?thesis using assms by (auto split: if_splits)
qed (use assms in \<open>auto split: if_splits\<close>)

lemma ty_inv_reach:
  assumes "reach allow trylock_process (trylock_system e) s"
  shows "ty_inv (mem s) (pcs s)"
  using assms ty_tracked ty_awake
proof (induction rule: ty.tracked_invariant)
  case start
  show ?case by (simp add: trylock_system_def ty_inv_def seen_counts_def)
next
  case (tick n m ps)
  then show ?case .
next
  case (move n m ps t c k r m' p')
  then obtain x y where ps: "ps = [TY_counter x, TY_monitor y]" and at: "ct_fit m x" "mt_fit m y" by (auto simp: ty_inv_def)
  have alone: "z \<notin> ty_holds (ps ! u)" if "z \<in> ty_holds (ps ! t) \<union> ty_holds p'" "u < 2" "u \<noteq> t" for z u
    using aloneD [OF move(7) that(1), of u] that(2,3) ps ty_not_waiting by auto
  consider "t = 0" | "t = 1" using move(2) ps by fastforce
  then show ?case
  proof cases
    case 1
    then have "thread_fun TY_counter (counter_thread x) = Do c k" using move(3) ps by simp
    then show ?thesis
    proof (cases rule: thread_fun_cases)
      case (1 c0 k0)
      have "entry_mem c0 r l m = m" for l using 1(1) by (cases x) auto
      then obtain x' where x': "k0 r m = (m', x')" "p' = TY_counter x'" using 1 move(6) by (cases "k0 r m") auto
      note st = counter_move [OF 1(1) x'(1) at(1)]
      have "mt_fit m' y"
      proof (cases "\<exists>n. y = MT_again n")
        case True
        then have "\<nexists>i. x = CT_spin i" using alone [of Mutex 1] ps \<open>t = 0\<close> by auto
        then have "counter m' = counter m" using st by blast
        then show ?thesis using at(2) st True by auto
      qed (use at(2) st in \<open>cases y; auto\<close>)
      then show ?thesis using ps \<open>t = 0\<close> x'(2) st 1(2) by (auto simp: ty_inv_def)
    qed
  next
    case 2
    then have "thread_fun TY_monitor (monitor_thread y) = Do c k" using move(3) ps by simp
    then show ?thesis
    proof (cases rule: thread_fun_cases)
      case (1 c0 k0)
      have "entry_mem c0 r l m = m" for l using 1(1) by (cases y) auto
      then obtain y' where y': "k0 r m = (m', y')" "p' = TY_monitor y'" using 1 move(6) by (cases "k0 r m") auto
      have "mt_fit m' y' \<and> counter m' = counter m \<and> spawned c0 r = []"
      proof (rule monitor_move [OF 1(1) y'(1) at(2)])
        show "r \<noteq> 0" if "y = MT_again n" for n using that move(8) 1(1,2) ps \<open>t = 1\<close> by auto
        show "counter m mod SPIN = 0" if "y' = MT_again n" for n
        proof -
          have "\<nexists>i. x = CT_spin i" "x \<noteq> CT_crash" using alone [of Mutex 0] that y'(2) ps \<open>t = 1\<close> by auto
          then show ?thesis using at(1) by (cases x) auto
        qed
      qed
      moreover have "ct_fit m' x" using calculation at(1) by (cases x) auto
      ultimately show ?thesis using ps \<open>t = 1\<close> y'(2) 1(2) by (auto simp: ty_inv_def)
    qed
  qed
qed

text \<open>C33. The monitor reports the counter at most once. The number it reports is exact (it never sees a round half done), but
  it then tries to take the mutex again, where it should give it back: its next step can only lead to the end of the process. Every
  status the calls may return.\<close>
theorem trylock_monitor_aborts:
  assumes "reach any_status trylock_process (trylock_system e) s"
  shows "length (seen_counts (mem s)) \<le> 1 \<and>
    (\<forall>n. pcs s ! 1 = TY_monitor (MT_again n) \<longrightarrow>
      (\<exists>k. seen_counts (mem s) = [k] \<and> counter (mem s) = SPIN * k) \<and>
      (\<forall>r s'. step any_status trylock_process (Exec 1 r) s = Some s' \<longrightarrow> pcs s' ! 1 = TY_monitor MT_abort))"
proof -
  obtain x y where ps: "pcs s = [TY_counter x, TY_monitor y]" and at: "mt_fit (mem s) y"
    using ty_inv_reach [OF assms] by (auto simp: ty_inv_def)
  have "pcs s' ! 1 = TY_monitor MT_abort"
    if y: "y = MT_again n" and st: "step any_status trylock_process (Exec 1 r) s = Some s'" for n r s'
  proof -
    have len: "1 < length (threads s)" using arg_cong [OF ps, of length] by simp
    have p: "fst (threads s ! 1) = TY_monitor (MT_again n)" using ps y len by (metis nth_Cons_0 nth_Cons_Suc nth_map One_nat_def)
    have "trylock_process (fst (threads s ! 1)) \<noteq> Do (wait_call d z l) k" for d z l k
      using ty_not_waiting [of z "fst (threads s ! 1)"] by (auto simp: waiting_def)
    moreover have "awake any_status trylock_process (now s) (threads s ! 1)"
      using reach_awake [OF assms ty_awake] len by (simp add: list_all_length)
    ultimately have th: "threads s ! 1 = (TY_monitor (MT_again n), Ready)"
      using p not_waiting_holding by (cases "threads s ! 1"; cases "snd (threads s ! 1)")
        (auto simp: wait_call_def split: option.splits)
    have "mtx s Mutex = Held 1"
      by (rule trackedD [OF ty.tracked_reach [OF assms ty_tracked] len]) (use th in simp)
    then show ?thesis using st th len
      by (auto simp: exec_thread_def proceed_def put_thread_def split: if_splits)
  qed
  moreover have "length (seen_counts (mem s)) \<le> 1" using at by (cases y) auto
  ultimately show ?thesis using ps at by auto
qed

theorem trylock_monitor_aborts_witness:
  "case run any_status trylock_process [Exec 1 0, Exec 1 0] (trylock_system 5) of
     Some s \<Rightarrow> pcs s ! 1 = TY_monitor (MT_again 0) \<and> step any_status trylock_process (Exec 1 EBUSY) s \<noteq> None \<and>
       (\<forall>s'. step any_status trylock_process (Exec 1 EBUSY) s = Some s' \<longrightarrow> pcs s' ! 1 = TY_monitor MT_abort)
   | None \<Rightarrow> False"
  (is "case ?r of Some s \<Rightarrow> ?P s | None \<Rightarrow> False")
proof -
  have "map_option (\<lambda>s. (pcs s ! 1, step any_status trylock_process (Exec 1 EBUSY) s = None)) ?r =
      Some (TY_monitor (MT_again 0), False)"
    by (simp add: trylock_system_def exec_thread_def any_status_def set_mtx_def proceed_def put_thread_def ty_say_def)
  then obtain s where s: "?r = Some s" "pcs s ! 1 = TY_monitor (MT_again 0)"
    "step any_status trylock_process (Exec 1 EBUSY) s \<noteq> None" by auto
  show ?thesis using trylock_monitor_aborts [OF reach_run [OF s(1)]] s by (simp del: step.simps)
qed

end
