(* ===== verification/Cancel.thy ===== *)
theory Cancel
  imports Programs
begin

text \<open>
  The programs of \<^verbatim>\<open>chap5-advance\<close> that cancel a thread have the same \<^verbatim>\<open>main\<close>: it creates one thread, cancels it, joins it and
  prints whether the thread was canceled. Whether \<^verbatim>\<open>pthread_cancel\<close> was called, the cancelability state and type of the thread and
  what it returned are part of the memory. A thread acts on the cancellation at a cancellation point (\<open>cancel_point\<close>) or, with
  the asynchronous type, anywhere (\<open>async_point\<close>); it need not do so at once.
\<close>

section \<open>Cancellation\<close>

abbreviation (input) CANCEL_ENABLE :: int where "CANCEL_ENABLE \<equiv> 0"
abbreviation (input) CANCEL_DISABLE :: int where "CANCEL_DISABLE \<equiv> 1"
abbreviation (input) CANCEL_DEFERRED :: int where "CANCEL_DEFERRED \<equiv> 0"
abbreviation (input) CANCEL_ASYNCHRONOUS :: int where "CANCEL_ASYNCHRONOUS \<equiv> 1"

datatype cancel_line = Canceled_at int | Canceled | Not_canceled

record canceling =
  cancel_thread :: tid
  asked :: bool
  cstate :: int
  ctype :: int
  result :: "int option"
  told :: "cancel_line list"

definition not_asked :: "'a \<Rightarrow> 'a canceling_scheme" where
  "not_asked x = \<lparr>cancel_thread = 0, asked = False, cstate = CANCEL_ENABLE, ctype = CANCEL_DEFERRED, result = None, told = [], \<dots> = x\<rparr>"

definition cancel_point :: "int \<Rightarrow> 'a canceling_scheme \<Rightarrow> bool" where
  "cancel_point r m \<longleftrightarrow> r = 0 \<or> r = CANCELED \<and> asked m \<and> cstate m = CANCEL_ENABLE"

definition async_point :: "int \<Rightarrow> 'a canceling_scheme \<Rightarrow> bool" where
  "async_point r m \<longleftrightarrow> r = 0 \<or> r = CANCELED \<and> asked m \<and> cstate m = CANCEL_ENABLE \<and> ctype m = CANCEL_ASYNCHRONOUS"

text \<open>The end of a canceled thread.\<close>

definition cancel_here :: "'q \<Rightarrow> 'a canceling_scheme \<Rightarrow> 'a canceling_scheme \<times> 'q" where
  "cancel_here p m = (m\<lparr>result := Some CANCELED\<rparr>, p)"

text \<open>\<open>line\<close> is what \<^verbatim>\<open>main\<close> prints at the end, \<open>start\<close> and \<open>routine\<close> are those of the thread.\<close>

datatype 'q cn_pc = CN_create | CN_cancel tid | CN_join tid | CN_return | CN_abort | CN_thread 'q

fun canceler :: "('a canceling_scheme \<Rightarrow> cancel_line) \<Rightarrow> 'q \<Rightarrow> ('q \<Rightarrow> (unit, unit, 'a canceling_scheme, 'q) act) \<Rightarrow>
    'q cn_pc \<Rightarrow> (unit, unit, 'a canceling_scheme, 'q cn_pc) act" where
  "canceler line start routine CN_create =
     Do (Create (\<lambda>u m. m\<lparr>cancel_thread := u\<rparr>) (CN_thread start)) (\<lambda>status m.
       (m, if status \<noteq> 0 then CN_abort else CN_cancel (cancel_thread m)))"
| "canceler line start routine (CN_cancel u) =
     Do (Env (\<lambda>r _. 0 \<le> r)) (\<lambda>status m. if status \<noteq> 0 then (m, CN_abort) else (m\<lparr>asked := True\<rparr>, CN_join u))"
| "canceler line start routine (CN_join u) =
     Do (Join u) (\<lambda>status m. if status \<noteq> 0 then (m, CN_abort) else (m\<lparr>told := told m @ [line m]\<rparr>, CN_return))"
| "canceler line start routine CN_return = Halt (Exited 0)"
| "canceler line start routine CN_abort = Halt Aborted"
| "canceler line start routine (CN_thread q) = thread_fun CN_thread (routine q)"

section \<open>What holds of all of them\<close>

text \<open>
  \<open>J\<close> relates the memory to the point of the thread. If the thread keeps it, and \<^verbatim>\<open>main\<close> cannot break it, it holds
  in every run; when \<^verbatim>\<open>main\<close> returns the thread has ended and its line was printed in that state.
\<close>

locale canceled_program =
  fixes line :: "'a canceling_scheme \<Rightarrow> cancel_line"
    and start :: 'q
    and routine :: "'q \<Rightarrow> (unit, unit, 'a canceling_scheme, 'q) act"
    and J :: "'a canceling_scheme \<Rightarrow> 'q \<Rightarrow> bool"
    and x0 :: 'a
  assumes starts: "J (not_asked x0) start"
    and kept_by_main: "J (m\<lparr>cancel_thread := u\<rparr>) q = J m q" "J m q \<Longrightarrow> J (m\<lparr>asked := True\<rparr>) q" "J (m\<lparr>told := ls\<rparr>) q = J m q"
    and line_kept: "line (m\<lparr>told := ls\<rparr>) = line m"
    and no_exit: "routine q \<noteq> Halt (Exited 0)"
    and plain: "routine q = Do c k \<Longrightarrow> c = Tau \<or> (\<exists>g. c = Env g)"
    and moves: "J m q \<Longrightarrow> routine q = Do c k \<Longrightarrow> answer_ok c r m n \<Longrightarrow> k r m = (m', q') \<Longrightarrow>
      J m' q' \<and> told m' = told m"
begin

abbreviation system :: "(unit, unit, 'a canceling_scheme, 'q cn_pc) sys" where
  "system \<equiv> boot (not_asked x0) [CN_create]"

end

sublocale canceled_program \<subseteq> tame_program any_status "canceler line start routine" "\<lambda>_. {}"
proof unfold_locales
  fix p c k r m m' p'
  assume c: "canceler line start routine p = Do c k"
  have "tame c {} \<and> held_after c r {} = {}"
  proof (cases p)
    case (CN_thread q)
    then have "thread_fun CN_thread (routine q) = Do c k" using c by simp
    then show ?thesis by (cases rule: thread_fun_cases) (use plain in fastforce)
  qed (use c in auto)
  then show "tame c {} \<and> {} = held_after c r {} \<and> (\<forall>st q. c = Create st q \<longrightarrow> {} = {})" by simp
qed

context canceled_program
begin

definition main_and_thread :: "'a canceling_scheme \<Rightarrow> 'q cn_pc \<Rightarrow> 'q \<Rightarrow> bool" where
  "main_and_thread m p q \<longleftrightarrow> J m q \<and> (\<nexists>x. p = CN_thread x) \<and> p \<noteq> CN_create \<and> (\<forall>u. p = CN_cancel u \<or> p = CN_join u \<longrightarrow> u = 1) \<and>
     (if p = CN_return then told m = [line m] \<and> (\<exists>v. routine q = Return v) else told m = [])"

definition cancel_inv :: "'a canceling_scheme \<Rightarrow> 'q cn_pc list \<Rightarrow> bool" where
  "cancel_inv m ps \<longleftrightarrow>
     (ps \<in> {[CN_create], [CN_abort]} \<and> told m = [] \<and> J m start) \<or> (\<exists>p q. ps = [p, CN_thread q] \<and> main_and_thread m p q)"

lemma main_moves:
  assumes "main_and_thread m p q" and c: "canceler line start routine p = Do c k" and k: "k r (entry_mem c r 2 m) = (m', p')"
    and j: "\<forall>u. c = Join u \<and> r = 0 \<longrightarrow> (\<exists>v. canceler line start routine ([p, CN_thread q] ! u) = Return v)"
  shows "main_and_thread m' p' q \<and> spawned c r = []"
proof (cases p)
  case (CN_join u)
  then have u: "u = 1" using assms(1) by (simp add: main_and_thread_def)
  have "\<exists>v. routine q = Return v" if r: "r = 0"
  proof -
    obtain v where "thread_fun CN_thread (routine q) = Return v" using j c CN_join u r by auto
    then show ?thesis by (cases "routine q") auto
  qed
  then show ?thesis using assms CN_join kept_by_main line_kept by (auto simp: main_and_thread_def split: if_splits)
qed (use assms kept_by_main in \<open>auto simp: main_and_thread_def split: if_splits\<close>)

lemma cancel_inv_move:
  assumes inv: "cancel_inv m ps" and t: "t < length ps" and c: "canceler line start routine (ps ! t) = Do c k"
    and a: "answer_ok c r m n" and k: "k r (entry_mem c r (length ps) m) = (m', p')"
    and j: "\<forall>u. c = Join u \<and> r = 0 \<longrightarrow> u < length ps \<and> (\<exists>v. canceler line start routine (ps ! u) = Return v)"
  shows "cancel_inv m' ((ps[t := p']) @ spawned c r)"
proof -
  from inv consider (one) "ps \<in> {[CN_create], [CN_abort]}" "told m = []" "J m start"
    | (two) p q where "ps = [p, CN_thread q]" "main_and_thread m p q" by (auto simp: cancel_inv_def)
  then show ?thesis
  proof cases
    case one
    then have "t = 0" using t by auto
    then have "ps = [CN_create]" using one c by auto
    then show ?thesis using c k one \<open>t = 0\<close> kept_by_main by (auto simp: cancel_inv_def main_and_thread_def split: if_splits)
  next
    case (two p q)
    show ?thesis
    proof (cases "t = 0")
      case True
      have "main_and_thread m' p' q \<and> spawned c r = []"
        by (rule main_moves [OF two(2), of c k]) (use two(1) c k j True in \<open>auto simp: numeral_2_eq_2\<close>)
      then show ?thesis using two(1) True by (auto simp: cancel_inv_def)
    next
      case False
      then have t: "t = 1" using t two(1) by auto
      then have "thread_fun CN_thread (routine q) = Do c k" using c two(1) by simp
      then show ?thesis
      proof (cases rule: thread_fun_cases)
        case (1 c0 k0)
        from plain [OF 1(1)] have e: "entry_mem c0 r i m = m" "spawned c0 r = []" for i by auto
        then obtain q' where q': "k0 r m = (m', q')" "p' = CN_thread q'" using k 1(2,3) by (cases "k0 r m") auto
        have "J m' q' \<and> told m' = told m"
          by (rule moves [OF _ 1(1) _ q'(1)]) (use two(2) a 1(2) in \<open>simp_all add: main_and_thread_def\<close>)
        moreover have "p \<noteq> CN_return" using two(2) 1(1) by (auto simp: main_and_thread_def)
        ultimately have "main_and_thread m' p q'" using two(2) by (simp add: main_and_thread_def)
        then show ?thesis using two(1) t q'(2) 1(2) e(2) by (auto simp: cancel_inv_def)
      qed
    qed
  qed
qed

lemma fresh_system: "fresh system"
  by (rule fresh_boot) simp

lemma cancel_inv_reach:
  assumes "reach any_status (canceler line start routine) system s"
  shows "cancel_inv (mem s) (pcs s)"
  using assms fresh_system
proof (induction rule: tame_invariant)
  case start
  show ?case using starts by (simp add: cancel_inv_def) (simp add: not_asked_def)
next
  case (move n m ps t c k r m' p')
  show ?case by (rule cancel_inv_move [OF move(1,2,3,5,6,8)])
qed simp_all

theorem cancel_outcome:
  assumes "reach any_status (canceler line start routine) system s"
  shows "(told (mem s) = [] \<or> told (mem s) = [line (mem s)]) \<and> (length (threads s) = 2 \<longrightarrow> (\<exists>q. pcs s ! 1 = CN_thread q \<and> J (mem s) q)) \<and>
    (ended s = Some (Exited 0) \<longrightarrow> length (threads s) = 2 \<and>
      (\<exists>q v. pcs s ! 1 = CN_thread q \<and> J (mem s) q \<and> routine q = Return v \<and> told (mem s) = [line (mem s)]))"
proof -
  have inv: "cancel_inv (mem s) (pcs s)" by (rule cancel_inv_reach [OF assms])
  have len: "length (threads s) = length (pcs s)" by simp
  have r: "CN_return \<in> set (pcs s)" if e: "ended s = Some (Exited 0)"
  proof -
    obtain p where p: "p \<in> set (pcs s)" "canceler line start routine p = Halt (Exited 0)"
      using ended_cases [OF assms _ e] by auto
    show ?thesis
    proof (cases p)
      case (CN_thread q)
      then show ?thesis using p(2) no_exit [of q] by (cases "routine q") auto
    qed (use p in auto)
  qed
  from inv show ?thesis using r len by (auto simp: cancel_inv_def main_and_thread_def split: if_splits)
qed

end

end
