(* ===== verification/CancelLoop.thy ===== *)
theory CancelLoop
  imports Cancel
begin

text \<open>
  \<^verbatim>\<open>chap5-advance/cancel.cxx\<close> and \<^verbatim>\<open>chap5-advance/cancel_disable.cxx\<close>: a thread that counts until it is canceled, and
  \<^verbatim>\<open>main\<close>, which prints the count. \<^verbatim>\<open>printf\<close> may be a cancellation point too. Raising the counter past
  \<open>INT_MAX\<close> is undefined.
\<close>

abbreviation (input) INT_MAX :: int where "INT_MAX \<equiv> 2147483647"

record counting = canceling +
  counter :: int

definition counting_up :: "'q \<Rightarrow> 'q \<Rightarrow> counting \<Rightarrow> counting \<times> 'q" where
  "counting_up crash again m = (if counter m = INT_MAX then (m, crash) else (m\<lparr>counter := counter m + 1\<rparr>, again))"

text \<open>What both programs print in the end.\<close>

definition cancel_report :: "counting \<Rightarrow> cancel_line" where
  "cancel_report m = (if result m = Some CANCELED then Canceled_at (counter m) else Not_canceled)"

section \<open>cancel.cxx\<close>

datatype tc_pc = TC_print | TC_for | TC_calling | TC_test | TC_next | TC_end | TC_crash

definition tc_for :: "counting \<Rightarrow> counting \<times> tc_pc" where
  "tc_for m = (m, if counter m mod 1000 = 0 then TC_calling else TC_next)"

fun testcancel_routine :: "tc_pc \<Rightarrow> (unit, unit, counting, tc_pc) act" where
  "testcancel_routine TC_print =
     Do (Env cancel_point) (\<lambda>r m. if r = CANCELED then cancel_here TC_end m else (m\<lparr>counter := 0\<rparr>, TC_for))"
| "testcancel_routine TC_for = Do Tau (\<lambda>_. tc_for)"
| "testcancel_routine TC_calling = Do (Env cancel_point) (\<lambda>r m. if r = CANCELED then cancel_here TC_end m else (m, TC_test))"
| "testcancel_routine TC_test = Do (Env cancel_point) (\<lambda>r m. if r = CANCELED then cancel_here TC_end m else (m, TC_next))"
| "testcancel_routine TC_next = Do Tau (\<lambda>_. counting_up TC_crash TC_for)"
| "testcancel_routine TC_end = Return CANCELED"
| "testcancel_routine TC_crash = Halt Undefined"

definition testcancel_main :: "tc_pc cn_pc \<Rightarrow> (unit, unit, counting, tc_pc cn_pc) act" where
  "testcancel_main = canceler cancel_report TC_print testcancel_routine"

definition testcancel_system :: "(unit, unit, counting, tc_pc cn_pc) sys" where
  "testcancel_system = boot (not_asked \<lparr>counter = 0\<rparr>) [CN_create]"

fun tc_fit :: "counting \<Rightarrow> tc_pc \<Rightarrow> bool" where
  "tc_fit m TC_end \<longleftrightarrow> result m = Some CANCELED \<and> 1000 dvd counter m"
| "tc_fit m p \<longleftrightarrow> result m = None \<and> (p \<in> {TC_print, TC_calling, TC_test} \<longrightarrow> 1000 dvd counter m)"

definition tc_inv :: "counting \<Rightarrow> tc_pc \<Rightarrow> bool" where
  "tc_inv m p \<longleftrightarrow> 0 \<le> counter m \<and> counter m \<le> INT_MAX \<and> tc_fit m p"

interpretation tc: canceled_program cancel_report TC_print testcancel_routine tc_inv "\<lparr>counter = 0\<rparr>"
proof unfold_locales
  show "tc_inv (not_asked \<lparr>counter = 0\<rparr>) TC_print" by (simp add: tc_inv_def not_asked_def)
next
  fix m :: counting and u q ls
  show "tc_inv (m\<lparr>cancel_thread := u\<rparr>) q = tc_inv m q" "tc_inv (m\<lparr>told := ls\<rparr>) q = tc_inv m q"
    by (cases q; simp add: tc_inv_def)+
  show "tc_inv m q \<Longrightarrow> tc_inv (m\<lparr>asked := True\<rparr>) q" by (cases q; simp add: tc_inv_def)
  show "cancel_report (m\<lparr>told := ls\<rparr>) = cancel_report m" by (simp add: cancel_report_def)
next
  fix q c k and m m' :: counting and r n q'
  show "testcancel_routine q \<noteq> Halt (Exited 0)" by (cases q) auto
  assume "testcancel_routine q = Do c k"
  then show "c = Tau \<or> (\<exists>g. c = Env g)" by (cases q) auto
  assume "tc_inv m q" "testcancel_routine q = Do c k" "k r m = (m', q')"
  then show "tc_inv m' q' \<and> told m' = told m"
    by (cases q) (auto simp: tc_inv_def tc_for_def counting_up_def cancel_here_def split: if_splits)
qed

text \<open>C37. The canceled thread stops at a multiple of 1000: when the program has ended normally it has printed exactly one line, which says that
  the thread was canceled and at which iteration, a multiple of 1000 that fits an \<open>int\<close>. Every status the calls may return.\<close>
theorem testcancel_iteration:
  assumes "reach any_status testcancel_main testcancel_system s" and "ended s = Some (Exited 0)"
  shows "\<exists>n. told (mem s) = [Canceled_at n] \<and> 1000 dvd n \<and> 0 \<le> n \<and> n \<le> INT_MAX \<and> counter (mem s) = n"
proof -
  obtain q v where q: "tc_inv (mem s) q" "testcancel_routine q = Return v" "told (mem s) = [cancel_report (mem s)]"
    using tc.cancel_outcome [OF assms(1) [unfolded testcancel_main_def testcancel_system_def]] assms(2) by blast
  then have "q = TC_end" by (cases q) auto
  then show ?thesis using q by (simp add: tc_inv_def cancel_report_def)
qed

theorem testcancel_iteration_witness:
  "case run any_status testcancel_main [Exec 0 0, Exec 1 0, Exec 1 0, Exec 0 0, Exec 1 CANCELED, Exec 0 0, Exec 0 0] testcancel_system of
     Some s \<Rightarrow> \<exists>n. told (mem s) = [Canceled_at n] \<and> 1000 dvd n \<and> 0 \<le> n \<and> n \<le> INT_MAX \<and> counter (mem s) = n | None \<Rightarrow> False"
  (is "case ?r of Some s \<Rightarrow> ?P s | None \<Rightarrow> False")
proof -
  have "map_option ended ?r = Some (Some (Exited 0))" by code_simp
  then obtain s where s: "?r = Some s" "ended s = Some (Exited 0)" by auto
  show ?thesis using testcancel_iteration [OF reach_run [OF s(1)] s(2)] s(1) by simp
qed

section \<open>cancel\_disable.cxx\<close>

text \<open>The points carry the local variable \<^verbatim>\<open>state\<close>.\<close>

datatype td_pc = TD_for | TD_disable | TD_sleep int | TD_restore int | TD_test | TD_next | TD_end | TD_abort | TD_crash

definition td_for :: "counting \<Rightarrow> counting \<times> td_pc" where
  "td_for m = (m, if counter m mod 755 = 0 then TD_disable else if counter m mod 1000 = 0 then TD_test else TD_next)"

fun disable_routine :: "td_pc \<Rightarrow> (unit, unit, counting, td_pc) act" where
  "disable_routine TD_for = Do Tau (\<lambda>_. td_for)"
| "disable_routine TD_disable =
     Do (Env (\<lambda>r _. 0 \<le> r)) (\<lambda>status m. if status \<noteq> 0 then (m, TD_abort) else (m\<lparr>cstate := CANCEL_DISABLE\<rparr>, TD_sleep (cstate m)))"
| "disable_routine (TD_sleep state) =
     Do (Env cancel_point) (\<lambda>r m. if r = CANCELED then cancel_here TD_end m else (m, TD_restore state))"
| "disable_routine (TD_restore state) =
     Do (Env (\<lambda>r _. 0 \<le> r)) (\<lambda>status m. if status \<noteq> 0 then (m, TD_abort) else (m\<lparr>cstate := state\<rparr>, TD_next))"
| "disable_routine TD_test = Do (Env cancel_point) (\<lambda>r m. if r = CANCELED then cancel_here TD_end m else (m, TD_next))"
| "disable_routine TD_next = Do Tau (\<lambda>_. counting_up TD_crash TD_for)"
| "disable_routine TD_end = Return CANCELED"
| "disable_routine TD_abort = Halt Aborted"
| "disable_routine TD_crash = Halt Undefined"

definition disable_main :: "td_pc cn_pc \<Rightarrow> (unit, unit, counting, td_pc cn_pc) act" where
  "disable_main = canceler cancel_report TD_for disable_routine"

definition disable_system :: "(unit, unit, counting, td_pc cn_pc) sys" where
  "disable_system = boot (not_asked \<lparr>counter = 0\<rparr>) [CN_create]"

fun td_fit :: "counting \<Rightarrow> td_pc \<Rightarrow> bool" where
  "td_fit m TD_end \<longleftrightarrow> result m = Some CANCELED \<and> cstate m = CANCEL_ENABLE \<and> 1000 dvd counter m \<and> \<not> 755 dvd counter m"
| "td_fit m (TD_sleep state) \<longleftrightarrow> result m = None \<and> cstate m = CANCEL_DISABLE \<and> state = CANCEL_ENABLE"
| "td_fit m (TD_restore state) \<longleftrightarrow> result m = None \<and> cstate m = CANCEL_DISABLE \<and> state = CANCEL_ENABLE"
| "td_fit m TD_test \<longleftrightarrow> result m = None \<and> cstate m = CANCEL_ENABLE \<and> 1000 dvd counter m \<and> \<not> 755 dvd counter m"
| "td_fit m p \<longleftrightarrow> result m = None \<and> (p \<notin> {TD_abort, TD_crash} \<longrightarrow> cstate m = CANCEL_ENABLE)"

definition td_inv :: "counting \<Rightarrow> td_pc \<Rightarrow> bool" where
  "td_inv m p \<longleftrightarrow> 0 \<le> counter m \<and> counter m \<le> INT_MAX \<and> td_fit m p"

interpretation td: canceled_program cancel_report TD_for disable_routine td_inv "\<lparr>counter = 0\<rparr>"
proof unfold_locales
  show "td_inv (not_asked \<lparr>counter = 0\<rparr>) TD_for" by (simp add: td_inv_def not_asked_def)
next
  fix m :: counting and u q ls
  show "td_inv (m\<lparr>cancel_thread := u\<rparr>) q = td_inv m q" "td_inv (m\<lparr>told := ls\<rparr>) q = td_inv m q"
    by (cases q; simp add: td_inv_def)+
  show "td_inv m q \<Longrightarrow> td_inv (m\<lparr>asked := True\<rparr>) q" by (cases q; simp add: td_inv_def)
next
  fix q c k and m m' :: counting and r n q'
  show "disable_routine q \<noteq> Halt (Exited 0)" by (cases q) auto
  assume "disable_routine q = Do c k"
  then show "c = Tau \<or> (\<exists>g. c = Env g)" by (cases q) auto
  assume "td_inv m q" "disable_routine q = Do c k" "answer_ok c r m n" "k r m = (m', q')"
  then show "td_inv m' q' \<and> told m' = told m"
    by (cases q) (auto simp: td_inv_def td_for_def counting_up_def cancel_here_def cancel_point_def split: if_splits)
qed (simp add: cancel_report_def)

text \<open>C38. With cancellation disabled around the sleep, the thread is never canceled there: when the program has ended normally
  the count it has printed is a multiple of 1000 and not of 755. In every state cancellation is disabled exactly at the sleep and up to the call
  that restores it. Every status the calls may return.\<close>
theorem disable_iteration:
  assumes "reach any_status disable_main disable_system s"
  shows "(ended s = Some (Exited 0) \<longrightarrow> (\<exists>n. told (mem s) = [Canceled_at n] \<and> 1000 dvd n \<and> \<not> 755 dvd n \<and> 0 < n \<and> n \<le> INT_MAX)) \<and>
    (\<forall>q. length (threads s) = 2 \<and> pcs s ! 1 = CN_thread q \<and> q \<notin> {TD_abort, TD_crash} \<longrightarrow>
      (cstate (mem s) = CANCEL_DISABLE \<longleftrightarrow> (\<exists>state. q = TD_sleep state \<or> q = TD_restore state)))"
proof -
  note o = td.cancel_outcome [OF assms [unfolded disable_main_def disable_system_def]]
  have "\<exists>n. told (mem s) = [Canceled_at n] \<and> 1000 dvd n \<and> \<not> 755 dvd n \<and> 0 < n \<and> n \<le> INT_MAX" if e: "ended s = Some (Exited 0)"
  proof -
    obtain q v where q: "td_inv (mem s) q" "disable_routine q = Return v" "told (mem s) = [cancel_report (mem s)]"
      using o e by blast
    then have "q = TD_end" by (cases q) auto
    then show ?thesis using q by (auto simp: td_inv_def cancel_report_def order_less_le)
  qed
  moreover have "cstate (mem s) = CANCEL_DISABLE \<longleftrightarrow> (\<exists>state. q = TD_sleep state \<or> q = TD_restore state)"
    if "length (threads s) = 2" "pcs s ! 1 = CN_thread q" "q \<notin> {TD_abort, TD_crash}" for q
  proof -
    have "td_inv (mem s) q" using o that(1,2) by auto
    then show ?thesis using that(3) by (cases q) (auto simp: td_inv_def)
  qed
  ultimately show ?thesis by blast
qed

theorem disable_iteration_witness:
  "case run any_status disable_main [Exec 0 0, Exec 1 0, Exec 1 0, Exec 0 0, Exec 1 0] disable_system of
     Some s \<Rightarrow> pcs s ! 1 = CN_thread (TD_restore CANCEL_ENABLE) \<and> cstate (mem s) = CANCEL_DISABLE | None \<Rightarrow> False"
  (is "case ?r of Some s \<Rightarrow> ?P s | None \<Rightarrow> False")
proof -
  have "map_option (\<lambda>s. (length (threads s), pcs s ! 1)) ?r = Some (2, CN_thread (TD_restore CANCEL_ENABLE))" by code_simp
  then obtain s where s: "?r = Some s" "length (threads s) = 2" "pcs s ! 1 = CN_thread (TD_restore CANCEL_ENABLE)" by auto
  show ?thesis using disable_iteration [OF reach_run [OF s(1)]] s by simp
qed

end
