(* ===== verification/CancelAsync.thy ===== *)
theory CancelAsync
  imports Cancel
begin

text \<open>
  \<^verbatim>\<open>chap5-advance/cancel_async.cxx\<close>: a thread that multiplies matrices with the asynchronous cancel type and copies the product
  back with the deferred one. A matrix is a function of row and column; every round of every innermost loop is a step at which
  the thread may be canceled if its cancel type is asynchronous there. An overflow of \<open>int\<close> is undefined.
\<close>

section \<open>The program\<close>

definition SIZE :: nat where "SIZE = 10"

type_synonym matrix = "nat \<Rightarrow> nat \<Rightarrow> int"

record matrices = canceling +
  matrixA :: matrix
  matrixB :: matrix
  matrixC :: matrix

fun set_element :: "matrix \<Rightarrow> nat \<Rightarrow> nat \<Rightarrow> int \<Rightarrow> matrix" where
  "set_element A i j x i' j' = (if i' = i \<and> j' = j then x else A i' j')"

lemma set_element_eq: "set_element A i j x = A(i := (A i)(j := x))"
  by (intro ext) simp

text \<open>The points carry the loop variables and \<^verbatim>\<open>cancel_type\<close>.\<close>

datatype ta_pc = TA_init nat nat | TA_async | TA_cell nat nat nat int | TA_restore int | TA_copy nat nat | TA_end | TA_abort | TA_crash

definition ta_init :: "nat \<Rightarrow> nat \<Rightarrow> matrices \<Rightarrow> matrices \<times> ta_pc" where
  "ta_init i j m =
     (m\<lparr>matrixA := set_element (matrixA m) i j (int i), matrixB := set_element (matrixB m) i j (int j)\<rparr>,
      if j + 1 < SIZE then TA_init i (j + 1) else if i + 1 < SIZE then TA_init (i + 1) 0 else TA_async)"

definition ta_next :: "nat \<Rightarrow> nat \<Rightarrow> nat \<Rightarrow> int \<Rightarrow> ta_pc" where
  "ta_next i j k ct =
     (if k + 1 < SIZE then TA_cell i j (k + 1) ct
      else if j + 1 < SIZE then TA_cell i (j + 1) 0 ct
      else if i + 1 < SIZE then TA_cell (i + 1) 0 0 ct
      else TA_restore ct)"

definition is_int :: "int \<Rightarrow> bool" where
  "is_int x \<longleftrightarrow> -2147483648 \<le> x \<and> x \<le> 2147483647"

definition ta_cell :: "nat \<Rightarrow> nat \<Rightarrow> nat \<Rightarrow> int \<Rightarrow> matrices \<Rightarrow> matrices \<times> ta_pc" where
  "ta_cell i j k ct m =
     (let x = matrixA m i k * matrixB m k j; c = (if k = 0 then 0 else matrixC m i j) + x in
      if \<not> is_int x \<or> \<not> is_int c then (m, TA_crash)
      else (m\<lparr>matrixC := set_element (matrixC m) i j c\<rparr>, ta_next i j k ct))"

definition ta_copy :: "nat \<Rightarrow> nat \<Rightarrow> matrices \<Rightarrow> matrices \<times> ta_pc" where
  "ta_copy i j m =
     (m\<lparr>matrixA := set_element (matrixA m) i j (matrixC m i j)\<rparr>,
      if j + 1 < SIZE then TA_copy i (j + 1) else if i + 1 < SIZE then TA_copy (i + 1) 0 else TA_async)"

text \<open>\<open>async_step f\<close>: the code \<open>f\<close> up to the next step, unless the thread is canceled there.\<close>

definition async_step :: "(matrices \<Rightarrow> matrices \<times> ta_pc) \<Rightarrow> (unit, unit, matrices, ta_pc) act" where
  "async_step f = Do (Env async_point) (\<lambda>r m. if r = CANCELED then cancel_here TA_end m else f m)"

text \<open>\<^verbatim>\<open>pthread_setcanceltype(t, &cancel_type)\<close> at a point whose successor is \<open>p\<close>, given the old type.\<close>

definition set_cancel_type :: "int \<Rightarrow> (int \<Rightarrow> ta_pc) \<Rightarrow> (unit, unit, matrices, ta_pc) act" where
  "set_cancel_type t p =
     Do (Env (\<lambda>r m. 0 < r \<or> async_point r m)) (\<lambda>status m.
       if status = CANCELED then cancel_here TA_end m
       else if status \<noteq> 0 then (m, TA_abort) else (m\<lparr>ctype := t\<rparr>, p (ctype m)))"

fun async_routine :: "ta_pc \<Rightarrow> (unit, unit, matrices, ta_pc) act" where
  "async_routine (TA_init i j) = async_step (ta_init i j)"
| "async_routine TA_async = set_cancel_type CANCEL_ASYNCHRONOUS (TA_cell 0 0 0)"
| "async_routine (TA_cell i j k cancel_type) = async_step (ta_cell i j k cancel_type)"
| "async_routine (TA_restore cancel_type) = set_cancel_type cancel_type (\<lambda>_. TA_copy 0 0)"
| "async_routine (TA_copy i j) = async_step (ta_copy i j)"
| "async_routine TA_end = Return CANCELED"
| "async_routine TA_abort = Halt Aborted"
| "async_routine TA_crash = Halt Undefined"

lemmas async_defs = async_step_def set_cancel_type_def cancel_here_def

definition async_report :: "matrices \<Rightarrow> cancel_line" where
  "async_report m = (if result m = Some CANCELED then Canceled else Not_canceled)"

definition async_main :: "ta_pc cn_pc \<Rightarrow> (unit, unit, matrices, ta_pc cn_pc) act" where
  "async_main = canceler async_report (TA_init 0 0) async_routine"

definition async_system :: "(unit, unit, matrices, ta_pc cn_pc) sys" where
  "async_system = boot (not_asked \<lparr>matrixA = (\<lambda>_ _. 0), matrixB = (\<lambda>_ _. 0), matrixC = (\<lambda>_ _. 0)\<rparr>) [CN_create]"

section \<open>What the matrices hold\<close>

definition mat_product :: "matrix \<Rightarrow> matrix \<Rightarrow> matrix" where
  "mat_product A B i j = (\<Sum>k < SIZE. A i k * B k j)"

text \<open>\<open>rounds n\<close> is the first matrix multiplied \<open>n\<close> times with the second.\<close>

fun rounds :: "nat \<Rightarrow> matrix" where
  "rounds 0 = (\<lambda>i _. int i)"
| "rounds (Suc n) = mat_product (rounds n) (\<lambda>_ j. int j)"

lemma sum_upto_SIZE: "(\<Sum>k < SIZE. f k) = f 0 + f 1 + f 2 + f 3 + f 4 + f 5 + f 6 + f 7 + f 8 + f (9 :: nat)" for f :: "nat \<Rightarrow> int"
  by (simp add: SIZE_def eval_nat_numeral)

lemma rounds_Suc: "rounds (Suc n) i j = 10 * 45 ^ n * int i * int j"
proof (induction n arbitrary: i j)
  case 0
  show ?case by (simp add: mat_product_def SIZE_def)
next
  case (Suc n)
  have "rounds (Suc (Suc n)) i j = (\<Sum>k < SIZE. rounds (Suc n) i k * int j)" by (simp add: mat_product_def)
  also have "\<dots> = (\<Sum>k < SIZE. 10 * 45 ^ n * int i * int k * int j)" using Suc.IH by simp
  also have "\<dots> = 10 * 45 ^ Suc n * int i * int j" by (simp add: sum_upto_SIZE algebra_simps)
  finally show ?case .
qed

definition agree :: "matrix \<Rightarrow> matrix \<Rightarrow> bool" where
  "agree A B \<longleftrightarrow> (\<forall>i < SIZE. \<forall>j < SIZE. A i j = B i j)"

lemma agreeD: "agree A B \<Longrightarrow> i < SIZE \<Longrightarrow> j < SIZE \<Longrightarrow> A i j = B i j"
  by (simp add: agree_def)

lemma agree_product:
  assumes "agree A A'" and "agree B B'" and "i < SIZE" and "j < SIZE"
  shows "mat_product A B i j = mat_product A' B' i j"
  unfolding mat_product_def by (rule sum.cong) (use assms in \<open>auto simp: agree_def\<close>)

text \<open>The loops over rows and columns have written the elements before the one in row \<open>i\<close> and column \<open>j\<close>.\<close>

definition filled :: "matrix \<Rightarrow> matrix \<Rightarrow> nat \<Rightarrow> nat \<Rightarrow> bool" where
  "filled A G i j \<longleftrightarrow> (\<forall>i' < SIZE. \<forall>j' < SIZE. i' < i \<or> i' = i \<and> j' < j \<longrightarrow> A i' j' = G i' j')"

lemma filled_start [simp]: "filled A G 0 0"
  by (simp add: filled_def)

lemma filled_step:
  assumes f: "filled A G i j" and x: "x = G i j" and l: "i < SIZE" "j < SIZE"
  shows "(j + 1 < SIZE \<longrightarrow> filled (A(i := (A i)(j := x))) G i (j + 1)) \<and>
    (\<not> j + 1 < SIZE \<and> i + 1 < SIZE \<longrightarrow> filled (A(i := (A i)(j := x))) G (i + 1) 0) \<and>
    (\<not> j + 1 < SIZE \<and> \<not> i + 1 < SIZE \<longrightarrow> agree (A(i := (A i)(j := x))) G)"
  using assms by (auto simp: filled_def agree_def less_Suc_eq)

text \<open>The product is written up to the element in row \<open>i\<close> and column \<open>j\<close>, of which \<open>k\<close> terms have been added.\<close>

definition written :: "nat \<Rightarrow> nat \<Rightarrow> nat \<Rightarrow> matrices \<Rightarrow> bool" where
  "written i j k m \<longleftrightarrow>
     (\<forall>i' < SIZE. \<forall>j' < SIZE. i' < i \<or> i' = i \<and> j' < j \<longrightarrow> matrixC m i' j' = mat_product (matrixA m) (matrixB m) i' j') \<and>
     (0 < k \<longrightarrow> matrixC m i j = (\<Sum>l < k. matrixA m i l * matrixB m l j))"

definition product_done :: "matrices \<Rightarrow> bool" where
  "product_done m \<longleftrightarrow> agree (matrixC m) (mat_product (matrixA m) (matrixB m)) \<and> is_int (matrixC m 9 9)"

lemma ta_cell_keeps:
  assumes m: "ta_cell i j k ct m = (m', p')" and w: "written i j k m" and l: "i < SIZE" "j < SIZE" "k < SIZE"
  shows "m' = m\<lparr>matrixC := matrixC m'\<rparr> \<and> (p' = TA_crash \<or>
    (\<exists>i' j' k'. p' = TA_cell i' j' k' ct \<and> i' < SIZE \<and> j' < SIZE \<and> k' < SIZE \<and> written i' j' k' m') \<or> p' = TA_restore ct \<and> product_done m')"
proof -
  let ?c = "(if k = 0 then 0 else matrixC m i j) + matrixA m i k * matrixB m k j"
  have c: "?c = (\<Sum>l < Suc k. matrixA m i l * matrixB m l j)" using w by (auto simp: written_def)
  have last: "k + 1 = SIZE \<Longrightarrow> ?c = mat_product (matrixA m) (matrixB m) i j" unfolding c mat_product_def by simp
  have old: "matrixC m i' j' = mat_product (matrixA m) (matrixB m) i' j'"
    if "i' < SIZE" "j' < SIZE" "i' < i \<or> i' = i \<and> j' < j" for i' j' using w that by (auto simp: written_def)
  consider (crash) "m' = m" "p' = TA_crash"
    | (written) "m' = m\<lparr>matrixC := (matrixC m)(i := (matrixC m i)(j := ?c))\<rparr>" "p' = ta_next i j k ct" "is_int ?c"
    using m by (auto simp: ta_cell_def set_element_eq Let_def split: if_splits)
  then show ?thesis
  proof cases
    case written
    consider (k) "k + 1 < SIZE" | (j) "k + 1 = SIZE" "j + 1 < SIZE" | (i) "k + 1 = SIZE" "j + 1 = SIZE" "i + 1 < SIZE"
      | (all) "k + 1 = SIZE" "j + 1 = SIZE" "i + 1 = SIZE" using l by linarith
    then show ?thesis
    proof cases
      case k
      then have "written i j (k + 1) m'" using written(1) c old by (auto simp: written_def)
      then show ?thesis using written k l by (auto simp: ta_next_def)
    next
      case j
      then have "written i (j + 1) 0 m'" using written(1) last old by (auto simp: written_def less_Suc_eq)
      then show ?thesis using written j l by (auto simp: ta_next_def)
    next
      case i
      then have "written (i + 1) 0 0 m'" using written(1) last old l by (auto simp: written_def less_Suc_eq)
      then show ?thesis using written i l by (auto simp: ta_next_def)
    next
      case all
      then have "i = 9" "j = 9" by (simp_all add: SIZE_def)
      moreover have "agree (matrixC m') (mat_product (matrixA m') (matrixB m'))"
        using written(1) last old all l by (auto simp: agree_def less_Suc_eq)
      ultimately have "product_done m'" using written(1,3) by (simp add: product_done_def)
      then show ?thesis using written all by (auto simp: ta_next_def)
    qed
  qed simp
qed

section \<open>Between the rounds\<close>

definition at_round :: "nat \<Rightarrow> matrices \<Rightarrow> bool" where
  "at_round n m \<longleftrightarrow> n \<le> 4 \<and> agree (matrixA m) (rounds n) \<and> agree (matrixB m) (\<lambda>_ j. int j)"

lemma at_round_frame [simp]:
  "at_round n (m\<lparr>cancel_thread := u\<rparr>) = at_round n m" "at_round n (m\<lparr>told := ls\<rparr>) = at_round n m"
  "at_round n (m\<lparr>asked := b\<rparr>) = at_round n m" "at_round n (m\<lparr>result := x\<rparr>) = at_round n m"
  "at_round n (m\<lparr>ctype := y\<rparr>) = at_round n m" "at_round n (m\<lparr>matrixC := C\<rparr>) = at_round n m"
  by (simp_all add: at_round_def)

definition starting :: "nat \<Rightarrow> nat \<Rightarrow> matrices \<Rightarrow> bool" where
  "starting i j m \<longleftrightarrow> i < SIZE \<and> j < SIZE \<and> filled (matrixA m) (\<lambda>i _. int i) i j \<and> filled (matrixB m) (\<lambda>_ j. int j) i j"

definition copying :: "nat \<Rightarrow> nat \<Rightarrow> matrices \<Rightarrow> bool" where
  "copying i j m \<longleftrightarrow> i < SIZE \<and> j < SIZE \<and> (\<exists>n \<le> 4. agree (matrixC m) (rounds n) \<and> filled (matrixA m) (rounds n) i j) \<and>
     agree (matrixB m) (\<lambda>_ j. int j)"

fun ta_fit :: "matrices \<Rightarrow> ta_pc \<Rightarrow> bool" where
  "ta_fit m (TA_init i j) \<longleftrightarrow> ctype m = CANCEL_DEFERRED \<and> starting i j m"
| "ta_fit m TA_async \<longleftrightarrow> ctype m = CANCEL_DEFERRED \<and> (\<exists>n. at_round n m)"
| "ta_fit m (TA_cell i j k ct) \<longleftrightarrow> ct = CANCEL_DEFERRED \<and> (\<exists>n. at_round n m) \<and> i < SIZE \<and> j < SIZE \<and> k < SIZE \<and> written i j k m"
| "ta_fit m (TA_restore ct) \<longleftrightarrow> ct = CANCEL_DEFERRED \<and> (\<exists>n. at_round n m) \<and> product_done m"
| "ta_fit m (TA_copy i j) \<longleftrightarrow> ctype m = CANCEL_DEFERRED \<and> copying i j m"
| "ta_fit m TA_end \<longleftrightarrow> (\<exists>n. at_round n m)"
| "ta_fit m p \<longleftrightarrow> True"

definition ta_inv :: "matrices \<Rightarrow> ta_pc \<Rightarrow> bool" where
  "ta_inv m p \<longleftrightarrow> ta_fit m p \<and> result m = (if p = TA_end then Some CANCELED else None)"

lemma start_copying:
  assumes n: "at_round n m" and d: "product_done m"
  shows "copying 0 0 m"
proof -
  have a: "agree (matrixC m) (rounds (Suc n))"
    using assms agree_product [of "matrixA m" "rounds n" "matrixB m" "\<lambda>_ j. int j"] by (auto simp: at_round_def product_done_def agree_def)
  have "rounds (Suc n) 9 9 = 10 * 45 ^ n * 81" unfolding rounds_Suc by simp
  moreover have "matrixC m 9 9 = rounds (Suc n) 9 9" by (rule agreeD [OF a]) (simp_all add: SIZE_def)
  ultimately have "10 * 45 ^ n * 81 \<le> (2147483647 :: int)" using d by (auto simp: product_done_def is_int_def)
  then have "Suc n \<le> 4"
  proof (rule contrapos_pp)
    assume "\<not> Suc n \<le> 4"
    then have "(45 :: int) ^ 4 \<le> 45 ^ n" by (intro power_increasing) auto
    then show "\<not> 10 * 45 ^ n * 81 \<le> (2147483647 :: int)" by simp
  qed
  then have "\<exists>n \<le> 4. agree (matrixC m) (rounds n) \<and> filled (matrixA m) (rounds n) 0 0" using a filled_start by blast
  then show ?thesis using n unfolding copying_def by (simp add: at_round_def SIZE_def)
qed

lemma copy_move:
  assumes c: "copying i j m" and k: "ta_copy i j m = (m', p')"
  shows "m' = m\<lparr>matrixA := matrixA m'\<rparr> \<and> ((\<exists>i' j'. p' = TA_copy i' j' \<and> copying i' j' m') \<or> p' = TA_async \<and> (\<exists>n. at_round n m'))"
proof -
  obtain n where n: "n \<le> 4" "agree (matrixC m) (rounds n)" "filled (matrixA m) (rounds n) i j" and l: "i < SIZE" "j < SIZE"
    and B: "agree (matrixB m) (\<lambda>_ j. int j)" using c by (auto simp: copying_def)
  note f = filled_step [OF n(3) agreeD [OF n(2) l] l]
  show ?thesis using k f n(1,2) l B by (auto simp: ta_copy_def set_element_eq copying_def at_round_def SIZE_def split: if_splits)
qed

lemma init_move:
  assumes c: "starting i j m" and k: "ta_init i j m = (m', p')"
  shows "m' = m\<lparr>matrixA := matrixA m', matrixB := matrixB m'\<rparr> \<and>
    ((\<exists>i' j'. p' = TA_init i' j' \<and> starting i' j' m') \<or> p' = TA_async \<and> at_round 0 m')"
proof -
  have s: "filled (matrixA m) (\<lambda>i _. int i) i j" "filled (matrixB m) (\<lambda>_ j. int j) i j" and l: "i < SIZE" "j < SIZE"
    using c by (auto simp: starting_def)
  note f = filled_step [OF s(1) refl l] filled_step [OF s(2) refl l]
  show ?thesis using k f l by (auto simp: ta_init_def set_element_eq starting_def at_round_def SIZE_def split: if_splits)
qed

interpretation ta: canceled_program async_report "TA_init 0 0" async_routine ta_inv
  "\<lparr>matrixA = (\<lambda>_ _. 0), matrixB = (\<lambda>_ _. 0), matrixC = (\<lambda>_ _. 0)\<rparr>"
proof unfold_locales
  fix m :: matrices and u q ls
  have "ta_fit (m\<lparr>cancel_thread := u\<rparr>) q = ta_fit m q" "ta_fit (m\<lparr>told := ls\<rparr>) q = ta_fit m q" "ta_fit (m\<lparr>asked := True\<rparr>) q = ta_fit m q"
    by (cases q; simp add: written_def product_done_def starting_def copying_def)+
  then show "ta_inv (m\<lparr>cancel_thread := u\<rparr>) q = ta_inv m q" "ta_inv (m\<lparr>told := ls\<rparr>) q = ta_inv m q"
    "ta_inv m q \<Longrightarrow> ta_inv (m\<lparr>asked := True\<rparr>) q" by (simp_all add: ta_inv_def)
next
  fix q c k and m m' :: matrices and r n q'
  show "async_routine q \<noteq> Halt (Exited 0)" by (cases q) (auto simp: async_defs)
  assume c: "async_routine q = Do c k"
  then show "c = Tau \<or> (\<exists>g. c = Env g)" by (cases q) (auto simp: async_defs)
  assume inv: "ta_inv m q" and a: "answer_ok c r m n" and k: "k r m = (m', q')"
  show "ta_inv m' q' \<and> told m' = told m"
  proof (cases "r = CANCELED")
    case True
    then have "ctype m = CANCEL_ASYNCHRONOUS" using c a by (cases q) (auto simp: async_defs async_point_def)
    then have "\<exists>n. at_round n m" using c inv by (cases q) (auto simp: ta_inv_def)
    moreover have "m' = m\<lparr>result := Some CANCELED\<rparr>" "q' = TA_end" using c k True by (cases q; auto simp: async_defs)+
    ultimately show ?thesis by (simp add: ta_inv_def)
  next
    case False
    show ?thesis
    proof (cases q)
      case (TA_init i j)
      then have "ta_init i j m = (m', q')" using c k False by (auto simp: async_defs)
      from init_move [OF _ this] show ?thesis using inv TA_init by (cases m; cases m') (auto simp: ta_inv_def)
    next
      case (TA_cell i j k' ct)
      then have m': "ta_cell i j k' ct m = (m', q')" using c k False by (auto simp: async_defs)
      have w: "written i j k' m" "i < SIZE" "j < SIZE" "k' < SIZE" "ct = CANCEL_DEFERRED" using inv TA_cell by (simp_all add: ta_inv_def)
      note keeps = ta_cell_keeps [OF m' w(1-4)]
      then obtain C where C: "m' = m\<lparr>matrixC := C\<rparr>" by blast
      then have "at_round l m' = at_round l m" for l using at_round_frame(6) by metis
      then show ?thesis using keeps inv TA_cell w(5) C by (auto simp: ta_inv_def)
    next
      case (TA_copy i j)
      then have "ta_copy i j m = (m', q')" using c k False by (auto simp: async_defs)
      from copy_move [OF _ this] show ?thesis using inv TA_copy by (cases m; cases m') (auto simp: ta_inv_def)
    next
      case (TA_restore ct)
      then consider "q' = TA_abort" "m' = m" | "q' = TA_copy 0 0" "m' = m\<lparr>ctype := ct\<rparr>" using c k False by (auto simp: async_defs split: if_splits)
      then show ?thesis
      proof cases
        case 2
        obtain n where "at_round n m" "product_done m" "ct = CANCEL_DEFERRED" using inv TA_restore by (auto simp: ta_inv_def)
        then have "copying 0 0 m" by (intro start_copying)
        then show ?thesis using 2 inv TA_restore by (auto simp: ta_inv_def copying_def)
      qed (use inv TA_restore in \<open>simp add: ta_inv_def\<close>)
    next
      case TA_async
      then have x: "c = Env (\<lambda>r m. 0 < r \<or> async_point r m)" "k r m = (if r \<noteq> 0 then (m, TA_abort) else (m\<lparr>ctype := CANCEL_ASYNCHRONOUS\<rparr>, TA_cell 0 0 0 (ctype m)))"
        using c False by (auto simp: async_defs)
      obtain l where l: "at_round l m" "ctype m = CANCEL_DEFERRED" "result m = None" using inv TA_async by (auto simp: ta_inv_def)
      show ?thesis
      proof (cases "r = 0")
        case True
        then have 2: "m' = m\<lparr>ctype := CANCEL_ASYNCHRONOUS\<rparr>" "q' = TA_cell 0 0 0 CANCEL_DEFERRED" using x(2) k l(2) by simp_all
        have "\<exists>n. at_round n m'" using at_round_frame(5) 2(1) l(1) by metis
        moreover have "written 0 0 0 m'" "(0 :: nat) < SIZE" by (simp_all add: written_def SIZE_def)
        ultimately show ?thesis using 2 l(2,3) by (simp add: ta_inv_def)
      next
        case False
        then have "m' = m" "q' = TA_abort" using x(2) k by simp_all
        then show ?thesis using l by (simp add: ta_inv_def)
      qed
    qed (use c in auto)
  qed
qed (simp_all add: ta_inv_def not_asked_def async_report_def starting_def SIZE_def)

text \<open>C39. The thread can be canceled at every step at which its cancel type is asynchronous, and the copy back, in which the old type
  is restored, is never interrupted: whenever the thread has been canceled, the first matrix is the initial one
  multiplied a number of times with the second, which is unchanged. No run completes more than four rounds: the fifth overflows. When the
  program has ended normally it has printed that the thread was canceled. Every status the calls may return.\<close>
theorem async_whole_rounds:
  assumes "reach any_status async_main async_system s"
  shows "(length (threads s) = 2 \<and> pcs s ! 1 = CN_thread TA_end \<longrightarrow>
      (\<exists>n \<le> 4. \<forall>i < SIZE. \<forall>j < SIZE. matrixA (mem s) i j = rounds n i j \<and> matrixB (mem s) i j = int j)) \<and>
    (ended s = Some (Exited 0) \<longrightarrow> told (mem s) = [Canceled] \<and> length (threads s) = 2 \<and> pcs s ! 1 = CN_thread TA_end)"
proof -
  note o = ta.cancel_outcome [OF assms [unfolded async_main_def async_system_def]]
  have "\<exists>n \<le> 4. \<forall>i < SIZE. \<forall>j < SIZE. matrixA (mem s) i j = rounds n i j \<and> matrixB (mem s) i j = int j"
    if "length (threads s) = 2" "pcs s ! 1 = CN_thread TA_end"
  proof -
    have "ta_inv (mem s) TA_end" using o that by auto
    then obtain n where "at_round n (mem s)" by (auto simp: ta_inv_def)
    then show ?thesis by (auto simp: at_round_def agree_def)
  qed
  moreover have "told (mem s) = [Canceled] \<and> length (threads s) = 2 \<and> pcs s ! 1 = CN_thread TA_end" if e: "ended s = Some (Exited 0)"
  proof -
    obtain q v where q: "pcs s ! 1 = CN_thread q" "ta_inv (mem s) q" "async_routine q = Return v" "told (mem s) = [async_report (mem s)]"
      using o e by blast
    have "q = TA_end" using q(3) by (cases q) (auto simp: async_defs)
    moreover have "length (threads s) = 2" using o e by blast
    ultimately show ?thesis using q by (simp add: ta_inv_def async_report_def)
  qed
  ultimately show ?thesis by blast
qed

theorem async_whole_rounds_witness:
  "case run any_status async_main (Exec 0 0 # replicate 100 (Exec 1 0) @ [Exec 1 0, Exec 1 0, Exec 0 0, Exec 1 CANCELED, Exec 0 0, Exec 0 0]) async_system of
     Some s \<Rightarrow> ended s = Some (Exited 0) \<and> (\<exists>n \<le> 4. \<forall>i < SIZE. \<forall>j < SIZE. matrixA (mem s) i j = rounds n i j \<and> matrixB (mem s) i j = int j)
   | None \<Rightarrow> False"
  (is "case ?r of Some s \<Rightarrow> ?P s | None \<Rightarrow> False")
proof -
  have "map_option (\<lambda>s. (ended s, length (threads s), pcs s ! 1)) ?r = Some (Some (Exited 0), 2, CN_thread TA_end)"
    by code_simp
  then obtain s where s: "?r = Some s" "ended s = Some (Exited 0)" "length (threads s) = 2" "pcs s ! 1 = CN_thread TA_end" by auto
  show ?thesis using async_whole_rounds [OF reach_run [OF s(1)]] s by simp
qed

end
