(* ===== verification/Spec2Isabelle.thy ===== *)
theory Spec2Isabelle
  imports Barrier BarrierMain Rwlock Workq Alarm AlarmMutex ThreadPool Pipe Crew ServerEcho Backoff Susp Semaphore Putchar Flock TsdDestructor CancelCleanup Sigwait CondWait Trylock CancelLoop CancelAsync
begin

text \<open>
  A verification library for the POSIX thread programs of this repository: synchronisation objects
  (\<^verbatim>\<open>src/chap7-RealCode\<close>), threading patterns (\<^verbatim>\<open>src/chap4-pattern\<close>) and complete demonstration programs
  (\<^verbatim>\<open>src/chap3-sync\<close> to \<^verbatim>\<open>src/chap6-adjust\<close>).

  \<^bold>\<open>How the code is modelled.\<close> \<open>Machine\<close> states what the programs rely on: a process with its shared memory, its threads,
  its mutexes and condition variables, and what each \<^verbatim>\<open>pthread\<close> call may do. Every C function is a code table,
  one \<open>fun\<close> over a datatype of program points with one point per call it makes; a point carries the local
  variables, the code between two calls is the continuation of the first. A call that can fail gets its status as
  an input; a property holds for every status unless its policy says which are excluded. A spurious wakeup, a timeout,
  a cancellation and the clock are events of the environment. Undefined behaviour (a misused object, a
  null, freed or overrun piece of memory) ends the run with \<open>Undefined\<close>, \<^verbatim>\<open>err_abort\<close> and \<^verbatim>\<open>errno_abort\<close> with \<open>Aborted\<close>, \<^verbatim>\<open>exit\<close> and a
  return from \<^verbatim>\<open>main\<close> with \<open>Exited\<close>. A process is \<open>boot\<close> of its memory and first points; \<open>reach\<close> are its reachable states, \<open>run\<close>
  executes a list of events. A function calls another through \<open>call_fun\<close>, a thread starts one through
  \<open>thread_fun\<close> (\<open>Calls\<close>).

  \<^bold>\<open>The shared theories.\<close>
  \<^item> \<open>Prelude\<close>: error numbers, lists updated at one place, sums over the threads.
  \<^item> \<open>Machine\<close>, \<open>Invariants\<close>: the step function, the induction rule \<open>reach_invariant\<close> for memory and points, the
    effect of an event (\<open>step_effect\<close>), how a run ends (\<open>ended_cases\<close>, \<open>undefined_cases\<close>).
  \<^item> \<open>Tracking\<close>, \<open>Discipline\<close>, \<open>Ownership\<close>: locales over a code table and an annotation of its points with the mutexes
    held there. \<open>lock_tracking\<close>: the annotation is right in every run; \<open>lock_discipline\<close>: the program uses its
    mutexes well, hence mutual exclusion and no misuse; \<open>leaf_locks\<close>: one mutex at a time, hence some thread can act;
    \<open>conservation\<close>: a quantity kept by memory and points together; \<open>lock_ownership\<close>: a taken mutex has an owner;
    \<open>ranked_points\<close>: bounded runs. Each component interprets those it needs on its own code table.
  \<^item> \<open>Programs\<close>: programs whose calls cannot misuse a mutex or condition variable (\<open>tame_program\<close>), and processes of a main
    program and the numbered threads it creates (\<open>numbered_threads\<close>).
  \<^item> \<open>Stdio\<close>: \<^verbatim>\<open>fgets\<close> with a buffer, \<^verbatim>\<open>strstr\<close> on the text up to the first NUL, and how the pieces that \<^verbatim>\<open>fgets\<close> gives make up a file;
    used by the server, the crew and \<open>Flock\<close>.
  \<^item> \<open>Queue\<close>: what a queue promises, for the item lists of the work queue, the thread pool and the server.

  \<^bold>\<open>The components.\<close>
  \<^item> \<open>Barrier\<close>, \<open>BarrierMain\<close>: \<^verbatim>\<open>chap7-RealCode/barrier\<close>. \<open>Barrier\<close> has the operations for any number of threads that use one
    barrier, \<open>BarrierMain\<close> the program of \<^verbatim>\<open>main.cxx\<close> on top of it. The cycle is a 64-bit word that wraps around.
  \<^item> \<open>Rwlock\<close>: \<^verbatim>\<open>chap7-RealCode/rwlock\<close>, all operations and cleanup handlers, used by any number of threads in any order.
  \<^item> \<open>Workq\<close>: \<^verbatim>\<open>chap7-RealCode/workqueue\<close>; the items are linked cells in a heap, the engine a parameter.
  \<^item> \<open>Alarm\<close>, \<open>AlarmMutex\<close>: \<^verbatim>\<open>chap3-sync/alarm_cond.cc\<close> and \<^verbatim>\<open>alarm_mutex.cc\<close>, which share the sorted list of alarms.
  \<^item> \<open>ThreadPool\<close>: \<^verbatim>\<open>chap4-pattern/crew_gpt.cc\<close>, a pool with a ring buffer.
  \<^item> \<open>Pipe\<close>: \<^verbatim>\<open>chap4-pattern/pipe.cc\<close>, stages that are linked cells; a value never written is \<open>None\<close>.
  \<^item> \<open>Crew\<close>: \<^verbatim>\<open>chap4-pattern/crew.cc\<close>; the file system is a parameter, the contents of a file its characters.
  \<^item> \<open>Server\<close>, \<open>ServerRequests\<close>, \<open>ServerEcho\<close>: \<^verbatim>\<open>chap4-pattern/server.cxx\<close>; the model, who has which request, and what is printed.
  \<^item> \<open>Backoff\<close>: \<^verbatim>\<open>chap3-sync/backoff.cc\<close>.
  \<^item> \<open>Susp\<close>: \<^verbatim>\<open>chap6-adjust/susp.cxx\<close>; a signal that was sent is pending until its thread takes it.
  \<^item> \<open>Semaphore\<close>: \<^verbatim>\<open>chap6-adjust/semaphore_signal.cxx\<close>. The semaphore is a counter; the timer that runs
    \<open>signal_catcher\<close> is a thread of its own that acts at any time once it is armed.
  \<^item> \<open>Putchar\<close>: \<^verbatim>\<open>chap6-adjust/putchar.cxx\<close>. The lock of \<^verbatim>\<open>stdout\<close> is a mutex, the output a list of characters.
  \<^item> \<open>Flock\<close>: \<^verbatim>\<open>chap6-adjust/flock.cxx\<close>. The locks of \<^verbatim>\<open>stdin\<close> and \<^verbatim>\<open>stdout\<close> are mutexes; \<^verbatim>\<open>fgets\<close> and
    the removal of the newline are those of \<open>Stdio\<close>.
  \<^item> \<open>TsdDestructor\<close>: \<^verbatim>\<open>chap5-advance/tsd_destructor.cxx\<close>. The values of the key are a map from threads to
    addresses, the destructor runs when a thread ends.
  \<^item> \<open>CancelCleanup\<close>: \<^verbatim>\<open>chap5-advance/cancel_cleanup.cxx\<close>, with its cleanup handler.
  \<^item> \<open>Sigwait\<close>: \<^verbatim>\<open>chap6-adjust/sigwait.cxx\<close>, whose main program never creates its signal thread.
  \<^item> \<open>CondWait\<close>: \<^verbatim>\<open>chap3-sync/cond.cc\<close>, a timed wait.
  \<^item> \<open>Trylock\<close>: \<^verbatim>\<open>chap3-sync/trylock.cc\<close>, whose threads have no main program.
  \<^item> \<open>Cancel\<close>, \<open>CancelLoop\<close>, \<open>CancelAsync\<close>: \<^verbatim>\<open>chap5-advance/cancel.cxx\<close>, \<^verbatim>\<open>cancel_disable.cxx\<close>, \<^verbatim>\<open>cancel_async.cxx\<close>.
    Their common \<^verbatim>\<open>main\<close> is a code table with the thread as a parameter, \<open>canceled_program\<close> a locale that all three interpret.

  \<^bold>\<open>What the lemmas show.\<close> For the synchronisation objects: mutual exclusion, no misuse, what the operations return, that the
  counters count what they should, and that some thread can act. For the patterns: every item is
  processed exactly once, in which order, and no freed memory is used. For the programs: what they print, when they end and when
  they cannot. Where the code does not do what it means to, the property states what it does and the manifest
  lists the finding; some theorems without a property are there for such findings only.
  Runs are not bounded and need no fuel: properties are about every reachable state. The one loop of the code that could run for
  ever without a call, the walk along the alarm list, is a \<open>partial_function\<close>, and that it returns on every proper list is part of
  \<open>alarm_insert_refines\<close>. The bound on the number of steps in \<open>Backoff\<close> comes from the ranks of its points, ten for every
  iteration of a thread.

  \<^bold>\<open>Not modelled.\<close> The \<^verbatim>\<open>pthread\<close> library itself (its documented behaviour is \<open>Machine\<close>), \<^verbatim>\<open>printf\<close> formatting and debug output, \<^verbatim>\<open>sleep\<close>
  (any interleaving is possible without it). Of \<^verbatim>\<open>chap5-advance\<close>: \<^verbatim>\<open>sched_attr\<close>, \<^verbatim>\<open>sched_thread\<close> and \<^verbatim>\<open>thread_attr\<close>, which only print what
  the system answers; \<^verbatim>\<open>once\<close> and \<^verbatim>\<open>tsd_once\<close>, which rest on \<^verbatim>\<open>pthread_once\<close>; \<^verbatim>\<open>cancel_subcontract\<close>, whose canceled thread
  cancels and detaches others. Of \<^verbatim>\<open>chap6-adjust\<close>: \<^verbatim>\<open>atfork\<close> (a state of \<open>Machine\<close> is one process) and \<^verbatim>\<open>sigev_thread\<close> (its threads are created
  by the system). The C files of \<^verbatim>\<open>chap1-introduce\<close>, \<^verbatim>\<open>chap2-threads\<close> and \<^verbatim>\<open>chap3-sync\<close>, and \<^verbatim>\<open>cond_static\<close> and \<^verbatim>\<open>cond_dynamic\<close>, which have no
  logic beyond the calls.
\<close>

end
